(* ===== verification/Prelude.thy ===== *)
theory Prelude
  imports Main "HOL-Library.Word"
begin

unbundle bit_operations_syntax

text \<open>
  Shared vocabulary of the ParallaX development: the fixed-width integer types of the Rust sources,
  Rust's \<open>Result\<close> with its \<open>?\<close> operator, bounds-checked slicing, checked and saturating
  arithmetic, and the big-endian byte codecs (\<open>to_be_bytes\<close>, \<open>from_be_bytes\<close>) every wire
  format of the program is built on.

  \<open>usize\<close> is modelled by \<open>nat\<close>, with the bound of a 64-bit target written out wherever the
  source uses a checked operation; \<open>u8\<close>, \<open>u16\<close>, \<open>u32\<close> and \<open>u64\<close> are words where the
  source works on their bits.
\<close>

named_theorems codec_simps \<open>equations and round-trip rules of the byte codecs\<close>
named_theorems slice_simps \<open>rules for bounds-checked slices\<close>

section \<open>Machine types\<close>

type_synonym byte = "8 word"
type_synonym u16 = "16 word"
type_synonym u32 = "32 word"
type_synonym u64 = "64 word"
type_synonym bytes = "byte list"

text \<open>The largest \<open>usize\<close> plus one on the 64-bit targets the program is built for.\<close>

definition usize_limit :: nat where
  "usize_limit = 2 ^ 64"

definition checked_add_usize :: "nat \<Rightarrow> nat \<Rightarrow> nat option" where
  "checked_add_usize a b = (if a + b < usize_limit then Some (a + b) else None)"

definition checked_sub_u64 :: "u64 \<Rightarrow> u64 \<Rightarrow> u64 option" where
  "checked_sub_u64 a b = (if b \<le> a then Some (a - b) else None)"

definition checked_add_u64 :: "u64 \<Rightarrow> u64 \<Rightarrow> u64 option" where
  "checked_add_u64 a b = (if unat a + unat b < 2 ^ 64 then Some (a + b) else None)"

definition saturating_add_u64 :: "u64 \<Rightarrow> u64 \<Rightarrow> u64" where
  "saturating_add_u64 a b = (if unat a + unat b < 2 ^ 64 then a + b else - 1)"

definition saturating_sub_u64 :: "u64 \<Rightarrow> u64 \<Rightarrow> u64" where
  "saturating_sub_u64 a b = (if b \<le> a then a - b else 0)"

lemma word_unat_eqI: "unat a = unat b \<Longrightarrow> a = b"
  by (rule unsigned_word_eqI)

lemma unat_checked_add_u64:
  "checked_add_u64 a b = Some c \<Longrightarrow> unat c = unat a + unat b"
  by (auto simp: checked_add_u64_def unat_word_ariths split: if_splits)

lemma checked_sub_u64_Some [simp]:
  "b \<le> a \<Longrightarrow> checked_sub_u64 a b = Some (a - b)"
  by (simp add: checked_sub_u64_def)

lemma checked_sub_u64_eq_Some:
  "checked_sub_u64 a b = Some c \<longleftrightarrow> b \<le> a \<and> c = a - b"
  by (auto simp: checked_sub_u64_def)

lemma unat_lt_exp: "unat (w :: 'a::len word) < 2 ^ LENGTH('a)"
  by (rule unsigned_less)

lemma unat_lt_usize_limit [simp]: "unat (v :: u64) < usize_limit"
  using unat_lt_exp [of v] by (simp add: usize_limit_def)

lemma unat_ucast_up:
  fixes w :: "'a::len word"
  assumes "LENGTH('a) \<le> LENGTH('b::len)"
  shows "unat (ucast w :: 'b word) = unat w"
proof -
  have "unat w < 2 ^ LENGTH('a)"
    by (rule unat_lt_exp)
  also have "\<dots> \<le> 2 ^ LENGTH('b)"
    using assms by simp
  finally show ?thesis
    by (simp add: unsigned_ucast_eq take_bit_nat_eq_self)
qed

lemma unat_of_nat_u32: "n < 2 ^ 32 \<Longrightarrow> unat (of_nat n :: u32) = n"
  by (simp add: unsigned_of_nat take_bit_nat_eq_self)

lemma unat_of_nat_u16: "n < 2 ^ 16 \<Longrightarrow> unat (of_nat n :: u16) = n"
  by (simp add: unsigned_of_nat take_bit_nat_eq_self)

section \<open>Results\<close>

text \<open>
  A Rust \<open>Result<T, E>\<close> is a sum with the error on the left. \<open>and_then\<close> is the \<open>?\<close>
  operator, \<open>ok_or\<close> and \<open>map_err\<close> are the adapters of the same names.
\<close>

definition and_then :: "'e + 'a \<Rightarrow> ('a \<Rightarrow> 'e + 'b) \<Rightarrow> 'e + 'b" where
  "and_then r k = (case r of Inl e \<Rightarrow> Inl e | Inr x \<Rightarrow> k x)"

definition ok_or :: "'a option \<Rightarrow> 'e \<Rightarrow> 'e + 'a" where
  "ok_or x e = (case x of None \<Rightarrow> Inl e | Some v \<Rightarrow> Inr v)"

definition map_err :: "('e \<Rightarrow> 'f) \<Rightarrow> 'e + 'a \<Rightarrow> 'f + 'a" where
  "map_err f r = (case r of Inl e \<Rightarrow> Inl (f e) | Inr x \<Rightarrow> Inr x)"

definition is_ok :: "'e + 'a \<Rightarrow> bool" where
  "is_ok r = (case r of Inl _ \<Rightarrow> False | Inr _ \<Rightarrow> True)"

lemma and_then_simps [simp]:
  "and_then (Inl e) k = Inl e"
  "and_then (Inr x) k = k x"
  by (simp_all add: and_then_def)

lemma and_then_eq_Inr:
  "and_then r k = Inr y \<longleftrightarrow> (\<exists>x. r = Inr x \<and> k x = Inr y)"
  by (cases r) simp_all

lemma and_then_eq_Inl:
  "and_then r k = Inl e \<longleftrightarrow> r = Inl e \<or> (\<exists>x. r = Inr x \<and> k x = Inl e)"
  by (cases r) simp_all

lemma and_then_assoc: "and_then (and_then r f) g = and_then r (\<lambda>x. and_then (f x) g)"
  by (cases r) simp_all

lemma and_then_cong [cong]:
  "r = r' \<Longrightarrow> (\<And>x. r' = Inr x \<Longrightarrow> k x = k' x) \<Longrightarrow> and_then r k = and_then r' k'"
  by (cases r') simp_all

lemma ok_or_simps [simp]:
  "ok_or None e = Inl e"
  "ok_or (Some v) e = Inr v"
  by (simp_all add: ok_or_def)

lemma ok_or_eq_Inr [simp]: "ok_or x e = Inr v \<longleftrightarrow> x = Some v"
  by (cases x) simp_all

lemma map_err_simps [simp]:
  "map_err f (Inl e) = Inl (f e)"
  "map_err f (Inr x) = Inr x"
  by (simp_all add: map_err_def)

lemma map_err_eq_Inr [simp]: "map_err f r = Inr v \<longleftrightarrow> r = Inr v"
  by (cases r) simp_all

lemma map_err_eq_Inl: "map_err f r = Inl e \<longleftrightarrow> (\<exists>e'. r = Inl e' \<and> e = f e')"
  by (cases r) auto

lemma is_ok_simps [simp]:
  "is_ok (Inl e) = False"
  "is_ok (Inr x) = True"
  by (simp_all add: is_ok_def)

lemma is_ok_iff: "is_ok r \<longleftrightarrow> (\<exists>x. r = Inr x)"
  by (cases r) simp_all

text \<open>A result that is not the error \<open>bad\<close> (a panic, in the models that have one), and satisfies \<open>Q\<close> when it
  is a value: the rules below follow the structure of a parser.\<close>

definition safe :: "'e \<Rightarrow> ('a \<Rightarrow> bool) \<Rightarrow> 'e + 'a \<Rightarrow> bool" where
  "safe bad Q r \<longleftrightarrow> (case r of Inl e \<Rightarrow> e \<noteq> bad | Inr x \<Rightarrow> Q x)"

lemma safe_simps [simp]:
  "safe bad Q (Inl e) \<longleftrightarrow> e \<noteq> bad"
  "safe bad Q (Inr x) \<longleftrightarrow> Q x"
  by (simp_all add: safe_def)

lemma safe_and_then:
  "safe bad P r \<Longrightarrow> (\<And>x. P x \<Longrightarrow> safe bad Q (k x)) \<Longrightarrow> safe bad Q (and_then r k)"
  by (cases r) simp_all

lemma safe_map_err:
  "safe bad P r \<Longrightarrow> (\<And>e. f e = bad' \<Longrightarrow> e = bad) \<Longrightarrow> safe bad' P (map_err f r)"
  by (cases r) auto

lemma safe_ok_or: "(\<And>x. r = Some x \<Longrightarrow> P x) \<Longrightarrow> e \<noteq> bad \<Longrightarrow> safe bad P (ok_or r e)"
  by (cases r) simp_all

lemma safe_mono: "safe bad P r \<Longrightarrow> (\<And>x. P x \<Longrightarrow> Q x) \<Longrightarrow> safe bad Q r"
  by (cases r) simp_all

section \<open>Slices\<close>

text \<open>Rust's \<open>get(i)\<close>, \<open>get(i..)\<close> and \<open>get(i..j)\<close>, which return \<open>None\<close> out of range.\<close>

definition get_at :: "'a list \<Rightarrow> nat \<Rightarrow> 'a option" where
  "get_at xs i = (if i < length xs then Some (xs ! i) else None)"

definition get_from :: "'a list \<Rightarrow> nat \<Rightarrow> 'a list option" where
  "get_from xs i = (if i \<le> length xs then Some (drop i xs) else None)"

definition get_range :: "'a list \<Rightarrow> nat \<Rightarrow> nat \<Rightarrow> 'a list option" where
  "get_range xs i j = (if i \<le> j \<and> j \<le> length xs then Some (take (j - i) (drop i xs)) else None)"

lemma get_at_append [slice_simps]:
  "drop i xs = y # ys \<Longrightarrow> get_at xs i = Some y"
  by (metis drop_all get_at_def leI list.discI list.sel(1) hd_drop_conv_nth)

lemma get_from_Some [slice_simps]:
  "i \<le> length xs \<Longrightarrow> get_from xs i = Some (drop i xs)"
  by (simp add: get_from_def)

lemma get_range_append [slice_simps]:
  assumes "drop i xs = ys @ zs" and "i \<le> length xs" and "j = i + length ys"
  shows "get_range xs i j = Some ys"
proof -
  have "length xs - i = length ys + length zs"
    using arg_cong [OF assms(1), of length] by simp
  with assms(2) have "i + length ys \<le> length xs"
    by linarith
  then show ?thesis
    using assms by (simp add: get_range_def)
qed

lemma get_range_SomeD:
  "get_range xs i j = Some ys \<Longrightarrow>
     i \<le> j \<and> j \<le> length xs \<and> length ys = j - i \<and> ys = take (j - i) (drop i xs)"
  by (auto simp: get_range_def split: if_splits)

lemma drop_append_step:
  "drop i xs = ys @ zs \<Longrightarrow> drop (i + length ys) xs = zs"
  by (metis add.commute append_eq_conv_conj drop_drop)

lemma drop_nonempty_le: "drop i xs = y # ys \<Longrightarrow> i < length xs"
  by (metis drop_all leI list.discI)

text \<open>\<open>payload.chunks(n)\<close> for \<open>n > 0\<close>; it would panic for 0, which the callers exclude.\<close>

function chunks :: "nat \<Rightarrow> 'a list \<Rightarrow> 'a list list" where
  "chunks n xs = (if n = 0 \<or> xs = [] then [] else take n xs # chunks n (drop n xs))"
  by pat_completeness auto
termination
  by (relation "measure (\<lambda>(n, xs). length xs)") (simp_all add: length_greater_0_conv [symmetric] del: length_greater_0_conv)

declare chunks.simps [simp del]

lemma chunks_concat: "0 < n \<Longrightarrow> concat (chunks n xs) = xs"
proof (induction n xs rule: chunks.induct)
  case (1 n xs)
  then show ?case by (subst chunks.simps) auto
qed

lemma chunks_le: "x \<in> set (chunks n xs) \<Longrightarrow> length x \<le> n"
proof (induction n xs rule: chunks.induct)
  case (1 n xs)
  then show ?case by (subst (asm) (2) chunks.simps) (auto split: if_splits)
qed

section \<open>Big-endian byte codecs\<close>

text \<open>
  \<open>be_bytes n w\<close> are the low \<open>n\<close> bytes of \<open>w\<close>, most significant first: for a 16-bit word
  \<open>be_bytes 2\<close> is \<open>u16::to_be_bytes\<close>. \<open>from_be\<close> is the accumulator loop
  \<open>v = (v << 8) | u64::from(b)\<close> and, at the full width, \<open>from_be_bytes\<close>.
\<close>

primrec be_bytes :: "nat \<Rightarrow> 'a::len word \<Rightarrow> bytes" where
  "be_bytes 0 w = []"
| "be_bytes (Suc n) w = ucast (drop_bit (8 * n) w) # be_bytes n w"

definition from_be_acc :: "'a::len word \<Rightarrow> bytes \<Rightarrow> 'a word" where
  "from_be_acc acc bs = foldl (\<lambda>v b. push_bit 8 v OR ucast b) acc bs"

definition from_be :: "bytes \<Rightarrow> 'a::len word" where
  "from_be bs = from_be_acc 0 bs"

lemma length_be_bytes [simp]: "length (be_bytes n w) = n"
  by (induction n) simp_all

lemma be_bytes_eq_Nil [simp]: "be_bytes n w = [] \<longleftrightarrow> n = 0"
  by (cases n) simp_all

lemma be_bytes_numeral:
  "be_bytes (numeral k) w = ucast (drop_bit (8 * pred_numeral k) w) # be_bytes (pred_numeral k) w"
  by (simp add: numeral_eq_Suc)

lemma replicate_numeral_Cons: "replicate (numeral k) x = x # replicate (pred_numeral k) x"
  by (simp add: numeral_eq_Suc)

lemma from_be_acc_simps [simp]:
  "from_be_acc acc [] = acc"
  "from_be_acc acc (b # bs) = from_be_acc (push_bit 8 acc OR ucast b) bs"
  by (simp_all add: from_be_acc_def)

lemma from_be_acc_snoc:
  "from_be_acc acc (bs @ [b]) = push_bit 8 (from_be_acc acc bs) OR ucast b"
  by (simp add: from_be_acc_def)

lemma shift_or_byte:
  fixes acc w :: "'a::len word"
  shows "push_bit (8 * n) (push_bit 8 acc OR ucast (ucast (drop_bit (8 * n) w) :: byte))
           OR take_bit (8 * n) w
         = push_bit (8 * Suc n) acc OR take_bit (8 * Suc n) w"
proof (rule bit_word_eqI)
  fix i
  assume "i < LENGTH('a)"
  consider "i < 8 * n" | "8 * n \<le> i" "i < 8 * Suc n" | "8 * Suc n \<le> i"
    by linarith
  then show "bit (push_bit (8 * n) (push_bit 8 acc OR ucast (ucast (drop_bit (8 * n) w) :: byte))
           OR take_bit (8 * n) w) i
         = bit (push_bit (8 * Suc n) acc OR take_bit (8 * Suc n) w) i"
    using \<open>i < LENGTH('a)\<close>
    by cases (auto simp: bit_simps add.commute)
qed

lemma from_be_acc_be_bytes:
  fixes acc w :: "'a::len word"
  shows "from_be_acc acc (be_bytes n w) = push_bit (8 * n) acc OR take_bit (8 * n) w"
proof (induction n arbitrary: acc)
  case 0
  then show ?case by simp
next
  case (Suc n)
  then show ?case
    using shift_or_byte [of n acc w] by simp
qed

lemma from_be_be_bytes [codec_simps]:
  "from_be (be_bytes n w) = take_bit (8 * n) w"
  by (simp add: from_be_def from_be_acc_be_bytes)

lemma from_be_be_bytes_full:
  fixes w :: "'a::len word"
  assumes "LENGTH('a) \<le> 8 * n"
  shows "from_be (be_bytes n w) = w"
  using assms by (simp add: from_be_be_bytes take_bit_word_eq_self)

lemma be_bytes_Suc_snoc:
  "be_bytes (Suc n) w = be_bytes n (drop_bit 8 w) @ [ucast w]"
  by (induction n) (simp_all add: drop_bit_drop_bit add.commute)

lemma be_bytes_from_be_acc:
  fixes acc :: "'a::len word"
  assumes "8 * length bs \<le> LENGTH('a)"
  shows "be_bytes (length bs) (from_be_acc acc bs) = bs"
  using assms
proof (induction bs rule: rev_induct)
  case Nil
  then show ?case by simp
next
  case (snoc b bs)
  let ?v = "from_be_acc acc bs"
  have len: "8 \<le> LENGTH('a)" and len': "8 * length bs + 8 \<le> LENGTH('a)"
    using snoc.prems by simp_all
  have low: "ucast (push_bit 8 ?v OR ucast b) = b"
    by (rule bit_word_eqI) (use len in \<open>auto simp: bit_simps\<close>)
  have bits: "be_bytes n (drop_bit 8 (push_bit 8 ?v OR ucast b)) = be_bytes n ?v"
    if "8 * n + 8 \<le> LENGTH('a)" for n
    using that
  proof (induction n)
    case 0
    then show ?case by simp
  next
    case (Suc n)
    have "ucast (drop_bit (8 * n) (drop_bit 8 (push_bit 8 ?v OR ucast b))) =
        (ucast (drop_bit (8 * n) ?v) :: byte)"
      by (rule bit_word_eqI)
        (use Suc.prems in \<open>auto simp: bit_simps dest: bit_imp_le_length\<close>)
    then show ?case
      using Suc by simp
  qed
  show ?case
    using snoc.IH len' low bits [of "length bs"]
    by (simp add: from_be_acc_snoc be_bytes_Suc_snoc del: be_bytes.simps(2))
qed

lemma be_bytes_from_be [codec_simps]:
  assumes "8 * length bs \<le> LENGTH('a::len)"
  shows "be_bytes (length bs) (from_be bs :: 'a word) = bs"
  using assms by (simp add: from_be_def be_bytes_from_be_acc)

lemma be_bytes_inject:
  fixes v w :: "'a::len word"
  assumes "be_bytes n v = be_bytes n w" and "LENGTH('a) \<le> 8 * n"
  shows "v = w"
  using assms by (metis from_be_be_bytes_full)

lemma be_bytes_8_inject [simp]: "be_bytes 8 (a :: u64) = be_bytes 8 b \<longleftrightarrow> a = b"
  using be_bytes_inject [of 8 a b] by auto

lemma be_bytes_cong:
  fixes v :: "'a::len word" and w :: "'b::len word"
  assumes "\<And>i. i < 8 * n \<Longrightarrow> bit v i = bit w i"
  shows "be_bytes n v = be_bytes n w"
  using assms
proof (induction n)
  case 0
  then show ?case by simp
next
  case (Suc n)
  have "ucast (drop_bit (8 * n) v) = (ucast (drop_bit (8 * n) w) :: byte)"
    by (rule bit_word_eqI) (use Suc.prems in \<open>auto simp: bit_simps\<close>)
  moreover have "be_bytes n v = be_bytes n w"
    by (rule Suc.IH) (use Suc.prems in simp)
  ultimately show ?case by simp
qed

lemma word_less_exp_bitD:
  fixes w :: "'a::len word"
  assumes "unat w < 2 ^ k" and "bit w i"
  shows "i < k"
proof -
  have "take_bit k w = w"
    by (metis assms(1) take_bit_nat_eq_self_iff unsigned_take_bit_eq word_unat_eq_iff)
  then show ?thesis
    using assms(2) by (metis bit_take_bit_iff)
qed

lemma from_be_acc_bound:
  fixes acc :: "'a::len word"
  assumes "unat acc < 2 ^ k" and "k + 8 * length bs \<le> LENGTH('a)"
  shows "unat (from_be_acc acc bs) < 2 ^ (k + 8 * length bs)"
  using assms
proof (induction bs arbitrary: acc k)
  case Nil
  then show ?case by simp
next
  case (Cons b bs)
  have len: "k + 8 \<le> LENGTH('a)"
    using Cons.prems(2) by simp
  have zero: "i < k" if "bit acc i" for i
    using Cons.prems(1) that by (rule word_less_exp_bitD)
  have "take_bit (k + 8) (push_bit 8 acc OR ucast b) = push_bit 8 acc OR ucast b"
    by (rule bit_word_eqI) (use zero in \<open>fastforce simp: bit_simps dest: bit_imp_le_length\<close>)
  then have "unat (push_bit 8 acc OR ucast b) < 2 ^ (k + 8)"
    by (metis take_bit_nat_less_exp unsigned_take_bit_eq)
  from Cons.IH [OF this] Cons.prems(2) show ?case
    by (simp add: algebra_simps)
qed

section \<open>Labels and message authentication\<close>

text \<open>A byte-string literal \<open>b"..."\<close>.\<close>

definition ascii :: "string \<Rightarrow> bytes" where
  "ascii s = map (\<lambda>c. of_nat (of_char c)) s"

text \<open>HMAC-SHA-256 is a parameter (key, message); the code relies on its 32-byte output.\<close>

type_synonym hmac = "bytes \<Rightarrow> bytes \<Rightarrow> bytes"

definition hmac_correct :: "hmac \<Rightarrow> bool" where
  "hmac_correct hm \<longleftrightarrow> (\<forall>key msg. length (hm key msg) = 32)"

definition const_hmac :: hmac where
  "const_hmac key msg = replicate 32 5"

text \<open>The XOR loops \<open>zip\<close> a fixed array with the mask: as many bytes as the shorter of the two.\<close>

definition xor_bytes :: "bytes \<Rightarrow> bytes \<Rightarrow> bytes" where
  "xor_bytes xs msk = map2 (XOR) xs msk"

lemma xor_bytes_involutive: "length xs \<le> length msk \<Longrightarrow> xor_bytes (xor_bytes xs msk) msk = xs"
proof (induction xs arbitrary: msk)
  case (Cons x xs)
  then show ?case by (cases msk) (simp_all add: xor_bytes_def xor.assoc)
qed (simp add: xor_bytes_def)

lemma length_xor_bytes [simp]: "length (xor_bytes xs msk) = min (length xs) (length msk)"
  by (simp add: xor_bytes_def)

end
