(* ===== verification/Varint.thy ===== *)
theory Varint
  imports Prelude
begin

unbundle bit_operations_syntax

text \<open>
  The QUIC variable-length integer codec, \<open>src/src/transport/udp/quic/varint.rs\<close>: the two top bits
  of the first byte select a 1, 2, 4 or 8 byte big-endian encoding. Every packet, frame and
  transport-parameter codec of the stack is built on it. \<open>varint_encode\<close> returns the bytes the
  source appends to its output buffer.
\<close>

section \<open>Operations\<close>

definition VARINT_MAX :: u64 where
  "VARINT_MAX = push_bit 62 1 - 1"

definition varint_size :: "u64 \<Rightarrow> nat" where
  "varint_size value =
     (if value < 0x40 then 1
      else if value < 0x4000 then 2
      else if value < 0x40000000 then 4
      else 8)"

definition varint_encode :: "u64 \<Rightarrow> bytes" where
  "varint_encode value =
     (if value < 0x40 then [ucast value]
      else if value < 0x4000 then be_bytes 2 ((ucast value :: u16) OR 0x4000)
      else if value < 0x40000000 then be_bytes 4 ((ucast value :: u32) OR 0x80000000)
      else be_bytes 8 (value OR 0xc000000000000000))"

definition varint_decode :: "bytes \<Rightarrow> (u64 \<times> nat) option" where
  "varint_decode buf =
     (case buf of
        [] \<Rightarrow> None
      | first # _ \<Rightarrow>
          let len = 2 ^ unat (drop_bit 6 first)
          in if length buf < len then None
             else Some (from_be_acc (ucast (first AND 0x3f)) (take (len - 1) (drop 1 buf)), len))"

section \<open>The codec's laws\<close>

lemma VARINT_MAX_eq: "VARINT_MAX = 0x3fffffffffffffff"
  by (simp add: VARINT_MAX_def)

lemma length_varint_encode [simp]: "length (varint_encode v) = varint_size v"
  by (simp add: varint_encode_def varint_size_def)

lemma varint_size_pos [simp]: "0 < varint_size v"
  by (simp add: varint_size_def)

lemma varint_size_ge_1 [simp]: "Suc 0 \<le> varint_size v"
  by (simp add: varint_size_def)

lemma varint_size_le_8: "varint_size v \<le> 8"
  by (simp add: varint_size_def)

lemma varint_encode_not_Nil [simp]: "varint_encode v \<noteq> []"
  by (metis length_varint_encode less_numeral_extra(3) list.size(3) varint_size_pos)

text \<open>One size class: the value's bits with a two-bit tag above them.\<close>

lemma tagged_first_byte:
  fixes v :: u64 and w :: "'a::len word"
  assumes v: "unat v < 2 ^ (8 * m + 6)"
    and w: "\<And>i. i < 8 * m + 8 \<Longrightarrow>
               bit w i = (bit v i \<or> 8 * m + 6 \<le> i \<and> bit tag (i - (8 * m + 6)))"
  shows "drop_bit 6 (ucast (drop_bit (8 * m) w) :: byte) = take_bit 2 tag"
    and "(ucast (drop_bit (8 * m) w) :: byte) AND 0x3f = ucast (drop_bit (8 * m) v)"
proof -
  have mask: "(0x3f :: byte) = mask 6"
    by (simp add: mask_eq_exp_minus_1)
  have high: "i < 8 * m + 6" if "bit v i" for i
    using v that by (rule word_less_exp_bitD)
  show "drop_bit 6 (ucast (drop_bit (8 * m) w) :: byte) = take_bit 2 tag"
    by (rule bit_word_eqI)
      (use high w in \<open>fastforce simp: bit_simps add.commute add.left_commute\<close>)
  show "(ucast (drop_bit (8 * m) w) :: byte) AND 0x3f = ucast (drop_bit (8 * m) v)"
    unfolding mask
    by (rule bit_word_eqI) (use high w in \<open>fastforce simp: bit_simps\<close>)
qed

lemma varint_decode_tagged:
  fixes v :: u64 and w :: "'a::len word" and tag :: byte
  assumes v: "unat v < 2 ^ (8 * m + 6)"
    and w: "\<And>i. i < 8 * m + 8 \<Longrightarrow>
               bit w i = (bit v i \<or> 8 * m + 6 \<le> i \<and> bit tag (i - (8 * m + 6)))"
    and tag: "unat (take_bit 2 tag) = k" "2 ^ k = Suc m"
  shows "varint_decode (be_bytes (Suc m) w @ rest) = Some (v, Suc m)"
proof -
  note first = tagged_first_byte [OF v w]
  have low: "be_bytes m w = be_bytes m v"
    by (rule be_bytes_cong) (use w in auto)
  have acc: "from_be_acc (ucast (ucast (drop_bit (8 * m) v) :: byte)) (be_bytes m v) = v"
  proof -
    have "push_bit (8 * m) (ucast (ucast (drop_bit (8 * m) v) :: byte)) OR take_bit (8 * m) v = v"
      by (rule bit_word_eqI) (auto simp: bit_simps dest: word_less_exp_bitD [OF v])
    then show ?thesis
      by (simp add: from_be_acc_be_bytes)
  qed
  show ?thesis
    using first tag acc
    by (simp add: varint_decode_def low)
qed

text \<open>The tag constants of the wider classes, as the bits they set.\<close>

lemma bit_tag_two: "bit (0x4000 :: int) i \<longleftrightarrow> i = 14"
proof -
  have "bit (2 ^ 14 :: int) i \<longleftrightarrow> i = 14"
    by (simp only: bit_exp_iff) auto
  then show ?thesis by simp
qed

lemma bit_tag_four: "bit (0x80000000 :: int) i \<longleftrightarrow> i = 31"
proof -
  have "bit (2 ^ 31 :: int) i \<longleftrightarrow> i = 31"
    by (simp only: bit_exp_iff) auto
  then show ?thesis by simp
qed

lemma bit_tag_eight: "bit (0xc000000000000000 :: int) i \<longleftrightarrow> i = 62 \<or> i = 63"
proof -
  have "bit (2 ^ 62 OR 2 ^ 63 :: int) i \<longleftrightarrow> i = 62 \<or> i = 63"
    by (simp only: bit_or_iff bit_exp_iff) auto
  then show ?thesis by simp
qed

lemma bit_tag_bytes:
  "bit (2 :: int) i \<longleftrightarrow> i = 1"
  "bit (3 :: int) i \<longleftrightarrow> i = 0 \<or> i = 1"
proof -
  have "bit (2 ^ 1 :: int) i \<longleftrightarrow> i = 1"
    by (simp only: bit_exp_iff) auto
  then show "bit (2 :: int) i \<longleftrightarrow> i = 1" by simp
  have "bit (2 ^ 0 OR 2 ^ 1 :: int) i \<longleftrightarrow> i = 0 \<or> i = 1"
    by (simp only: bit_or_iff bit_exp_iff) auto
  then show "bit (3 :: int) i \<longleftrightarrow> i = 0 \<or> i = 1" by simp
qed

lemmas bit_tags = bit_tag_two bit_tag_four bit_tag_eight bit_tag_bytes

lemma varint_decode_encode [codec_simps]:
  assumes "v \<le> VARINT_MAX"
  shows "varint_decode (varint_encode v @ rest) = Some (v, varint_size v)"
proof -
  have v62: "unat v < 2 ^ 62"
    using assms by (simp add: VARINT_MAX_eq word_le_nat_alt)
  consider (one) "v < 0x40" | (two) "\<not> v < 0x40" "v < 0x4000"
    | (four) "\<not> v < 0x40" "\<not> v < 0x4000" "v < 0x40000000"
    | (eight) "\<not> v < 0x40" "\<not> v < 0x4000" "\<not> v < 0x40000000"
    by blast
  then show ?thesis
  proof cases
    case one
    have "varint_decode (be_bytes (Suc 0) v @ rest) = Some (v, Suc 0)"
      by (rule varint_decode_tagged [where tag = 0 and k = 0])
        (use one in \<open>auto simp: word_less_nat_alt\<close>)
    with one show ?thesis
      by (simp add: varint_encode_def varint_size_def)
  next
    case two
    have "varint_decode (be_bytes (Suc 1) ((ucast v :: u16) OR 0x4000) @ rest) = Some (v, Suc 1)"
      by (rule varint_decode_tagged [where tag = 1 and k = 1])
        (use two in \<open>auto simp: word_less_nat_alt bit_simps bit_tags\<close>)
    with two show ?thesis
      by (simp add: varint_encode_def varint_size_def numeral_2_eq_2)
  next
    case four
    have "varint_decode (be_bytes (Suc 3) ((ucast v :: u32) OR 0x80000000) @ rest) = Some (v, Suc 3)"
      by (rule varint_decode_tagged [where tag = 2 and k = 2])
        (use four in \<open>auto simp: word_less_nat_alt bit_simps bit_tags\<close>)
    with four show ?thesis
      by (simp add: varint_encode_def varint_size_def eval_nat_numeral)
  next
    case eight
    have "varint_decode (be_bytes (Suc 7) (v OR 0xc000000000000000) @ rest) = Some (v, Suc 7)"
      by (rule varint_decode_tagged [where tag = 3 and k = 3])
        (use v62 in \<open>auto simp: bit_simps bit_tags\<close>)
    with eight show ?thesis
      by (simp add: varint_encode_def varint_size_def eval_nat_numeral)
  qed
qed

lemma varint_len_class:
  fixes first :: byte
  shows "2 ^ unat (drop_bit 6 first) \<in> {1, 2, 4, 8 :: nat}"
proof -
  have "unat (drop_bit 6 first) < 4"
    using unat_lt_exp [of first] by (simp add: unat_drop_bit_eq drop_bit_eq_div unat_div)
  then consider "unat (drop_bit 6 first) = 0" | "unat (drop_bit 6 first) = 1"
    | "unat (drop_bit 6 first) = 2" | "unat (drop_bit 6 first) = 3"
    by linarith
  then show ?thesis
    by cases simp_all
qed

lemma unat_low_six: "unat (ucast (first AND 0x3f :: byte) :: u64) < 2 ^ 6"
proof -
  have "unat (first AND 0x3f) \<le> unat (0x3f :: byte)"
    by (rule word_and_le1 [THEN word_le_nat_alt [THEN iffD1]])
  then show ?thesis
    by (simp add: unat_ucast_up)
qed

lemma varint_decode_bounds:
  assumes "varint_decode buf = Some (v, n)"
  shows "n \<in> {1, 2, 4, 8}" and "n \<le> length buf" and "unat v < 2 ^ (8 * n - 2)"
proof -
  obtain first rest where buf: "buf = first # rest"
    using assms by (cases buf) (auto simp: varint_decode_def)
  have n: "n = 2 ^ unat (drop_bit 6 first)" and len: "n \<le> length buf"
    and v: "v = from_be_acc (ucast (first AND 0x3f)) (take (n - 1) rest)"
    using assms by (auto simp: buf varint_decode_def Let_def split: if_splits)
  show cls: "n \<in> {1, 2, 4, 8}"
    unfolding n by (rule varint_len_class)
  show "n \<le> length buf" by (rule len)
  have tail: "length (take (n - 1) rest) = n - 1"
    using len by (simp add: buf)
  have "unat v < 2 ^ (6 + 8 * (n - 1))"
    using from_be_acc_bound [OF unat_low_six, of "take (n - 1) rest" first] cls tail
    by (auto simp: v)
  then show "unat v < 2 ^ (8 * n - 2)"
    using cls by auto
qed

lemma varint_decode_le_MAX:
  assumes "varint_decode buf = Some (v, n)"
  shows "v \<le> VARINT_MAX"
proof -
  have "unat v < 2 ^ (8 * n - 2)" and "n \<in> {1, 2, 4, 8}"
    using varint_decode_bounds [OF assms] by auto
  then show ?thesis
    by (auto simp: VARINT_MAX_eq word_le_nat_alt)
qed

lemma varint_decode_pos: "varint_decode buf = Some (v, n) \<Longrightarrow> 0 < n \<and> n \<le> length buf"
  using varint_decode_bounds [of buf v n] by auto

lemma varint_decode_minimal:
  assumes "varint_decode buf = Some (v, n)"
  shows "varint_size v \<le> n"
proof -
  have "unat v < 2 ^ (8 * n - 2)" and "n \<in> {1, 2, 4, 8}"
    using varint_decode_bounds [OF assms] by auto
  then show ?thesis
    by (auto simp: varint_size_def word_less_nat_alt)
qed

lemma varint_decode_prefix:
  assumes "varint_decode buf = Some (v, n)"
  shows "varint_decode (take n buf @ rest) = Some (v, n)"
proof -
  obtain first tl where buf: "buf = first # tl"
    using assms by (cases buf) (auto simp: varint_decode_def)
  have "0 < n" "n \<le> length buf"
    using varint_decode_pos [OF assms] by auto
  then obtain m where n: "n = Suc m"
    by (cases n) auto
  then show ?thesis
    using assms by (auto simp: buf varint_decode_def Let_def split: if_splits)
qed

section \<open>Properties\<close>

lemma drop_varint [simp]:
  "drop (varint_size v) (varint_encode v @ xs) = xs"
  "drop (varint_size v + k) (varint_encode v @ xs) = drop k xs"
  by (simp_all add: drop_append)

text \<open>A byte string whose length a varint can carry.\<close>

definition len_ok :: "bytes \<Rightarrow> bool" where
  "len_ok bs \<longleftrightarrow> length bs \<le> unat VARINT_MAX"

lemma of_nat_le_VARINT_MAX:
  assumes "n \<le> unat VARINT_MAX"
  shows "(of_nat n :: u64) \<le> VARINT_MAX" and "unat (of_nat n :: u64) = n"
proof -
  have n: "n < 2 ^ 64"
    using assms unat_lt_exp [of VARINT_MAX] by simp
  then show u: "unat (of_nat n :: u64) = n"
    by (simp add: unat_of_nat)
  show "(of_nat n :: u64) \<le> VARINT_MAX"
    using assms u by (simp add: word_le_nat_alt)
qed

lemma len_okD [simp]:
  assumes "len_ok bs"
  shows "(of_nat (length bs) :: u64) \<le> VARINT_MAX" and "unat (of_nat (length bs) :: u64) = length bs"
  using assms of_nat_le_VARINT_MAX [of "length bs"] by (simp_all add: len_ok_def)

text \<open>C15. Every representable value survives the wire: decoding the encoding of a value up to
  \<open>2^62 - 1\<close>, whatever bytes follow it, returns that value and consumes exactly the
  \<open>varint_size\<close> bytes that were written.\<close>

theorem varint_roundtrip:
  assumes "v \<le> VARINT_MAX"
  shows "varint_decode (varint_encode v @ rest) = Some (v, varint_size v)
         \<and> length (varint_encode v) = varint_size v"
  using varint_decode_encode [OF assms] by simp

theorem varint_roundtrip_witness:
  "varint_decode (varint_encode 15293 @ [7]) = Some (15293, 2)
   \<and> length (varint_encode 15293) = 2"
  using varint_roundtrip [of 15293 "[7]"] by (simp add: VARINT_MAX_eq varint_size_def)

text \<open>Decoding attacker-controlled bytes is safe: a successful decode consumes one of the four
  legal lengths, never reads past the buffer, yields a value of at most \<open>2^62 - 1\<close>, and the
  canonical encoding of that value is never longer than the bytes consumed; the value depends on
  those bytes only.\<close>

theorem varint_decode_safe:
  assumes "varint_decode buf = Some (v, n)"
  shows "n \<in> {1, 2, 4, 8} \<and> n \<le> length buf \<and> v \<le> VARINT_MAX \<and> varint_size v \<le> n
         \<and> varint_decode (take n buf @ rest) = Some (v, n)"
  using varint_decode_bounds(1,2) [OF assms] varint_decode_le_MAX [OF assms]
    varint_decode_minimal [OF assms] varint_decode_prefix [OF assms] by blast

theorem varint_decode_safe_witness:
  "varint_decode [0x40, 0x25, 0xff] = Some (0x25, 2) \<and> varint_size 0x25 \<le> 2"
proof -
  have d: "varint_decode [0x40, 0x25, 0xff] = Some (0x25, 2)"
    by (simp add: varint_decode_def)
  show ?thesis
    using d varint_decode_safe [OF d, of "[]"] by simp
qed

end
