(* ===== verification/Frame.thy ===== *)
theory Frame
  imports Varint
begin

unbundle bit_operations_syntax

text \<open>
  The QUIC frame codec, \<open>src/src/transport/udp/quic/frame.rs\<close>: the frame types, \<open>Frame::encode\<close>
  with \<open>encode_ack\<close>, and the lazy decoder \<open>Iter\<close>. An \<open>iter\<close> is the decoder's state (the
  payload, the read position and the wire type of the last frame); each reading method returns the
  value together with the advanced state, or the \<open>FrameError\<close>. \<open>frame_encode\<close> returns the bytes
  the source appends to its output buffer.
\<close>

section \<open>Frames and errors\<close>

datatype frame_error = FrameTruncated | UnknownFrame u64 | FrameMalformed

datatype dir = Bidi | Uni

record ecn_counts =
  ect0 :: u64
  ect1 :: u64
  ce :: u64

record ack =
  largest :: u64
  delay :: u64
  ranges :: "(u64 \<times> u64) list"
  ecn :: "ecn_counts option"

record close =
  application :: bool
  error_code :: u64
  frame_type :: u64
  reason :: bytes

datatype frame =
    Padding nat
  | Ping
  | Ack ack
  | ResetStream u64 u64 u64
  | StopSending u64 u64
  | Crypto u64 bytes
  | NewToken bytes
  | Stream u64 u64 bool bytes
  | MaxData u64
  | MaxStreamData u64 u64
  | MaxStreams dir u64
  | DataBlocked u64
  | StreamDataBlocked u64 u64
  | StreamsBlocked dir u64
  | NewConnectionId u64 u64 bytes bytes
  | RetireConnectionId u64
  | PathChallenge u64
  | PathResponse u64
  | Close close
  | HandshakeDone

definition RESET_TOKEN_LEN :: nat where "RESET_TOKEN_LEN = 16"
definition MAX_CONNECTION_ID_LEN :: nat where "MAX_CONNECTION_ID_LEN = 20"

section \<open>Encoding\<close>

text \<open>The loop over \<open>ack.ranges[1..]\<close>: a gap and a length for each further range.\<close>

fun encode_ack_ranges :: "u64 \<Rightarrow> (u64 \<times> u64) list \<Rightarrow> bytes" where
  "encode_ack_ranges prev_smallest [] = []"
| "encode_ack_ranges prev_smallest ((low, high) # rs) =
     varint_encode (prev_smallest - high - 2) @ varint_encode (high - low) @ encode_ack_ranges low rs"

definition encode_ack :: "ack \<Rightarrow> bytes" where
  "encode_ack a =
     (case ranges a of
        [] \<Rightarrow> []
      | (first_low, first_high) # rs \<Rightarrow>
          varint_encode (if ecn a \<noteq> None then 0x03 else 0x02)
          @ varint_encode first_high
          @ varint_encode (delay a)
          @ varint_encode (of_nat (length (ranges a) - 1))
          @ varint_encode (first_high - first_low)
          @ encode_ack_ranges first_low rs
          @ (case ecn a of
               None \<Rightarrow> []
             | Some e \<Rightarrow> varint_encode (ect0 e) @ varint_encode (ect1 e) @ varint_encode (ce e)))"

fun frame_encode :: "frame \<Rightarrow> bytes" where
  "frame_encode (Padding n) = replicate n 0"
| "frame_encode Ping = varint_encode 0x01"
| "frame_encode (Ack a) = encode_ack a"
| "frame_encode (ResetStream i code final_size) =
     varint_encode 0x04 @ varint_encode i @ varint_encode code @ varint_encode final_size"
| "frame_encode (StopSending i code) =
     varint_encode 0x05 @ varint_encode i @ varint_encode code"
| "frame_encode (Crypto offset data) =
     varint_encode 0x06 @ varint_encode offset @ varint_encode (of_nat (length data)) @ data"
| "frame_encode (NewToken token) =
     varint_encode 0x07 @ varint_encode (of_nat (length token)) @ token"
| "frame_encode (Stream i offset fin data) =
     (let ty = (0x08 OR 0x02) OR (if offset \<noteq> 0 then 0x04 else 0) OR (if fin then 0x01 else 0)
      in varint_encode ty @ varint_encode i
         @ (if offset \<noteq> 0 then varint_encode offset else [])
         @ varint_encode (of_nat (length data)) @ data)"
| "frame_encode (MaxData v) = varint_encode 0x10 @ varint_encode v"
| "frame_encode (MaxStreamData i m) = varint_encode 0x11 @ varint_encode i @ varint_encode m"
| "frame_encode (MaxStreams d m) =
     varint_encode (case d of Bidi \<Rightarrow> 0x12 | Uni \<Rightarrow> 0x13) @ varint_encode m"
| "frame_encode (DataBlocked v) = varint_encode 0x14 @ varint_encode v"
| "frame_encode (StreamDataBlocked i l) = varint_encode 0x15 @ varint_encode i @ varint_encode l"
| "frame_encode (StreamsBlocked d l) =
     varint_encode (case d of Bidi \<Rightarrow> 0x16 | Uni \<Rightarrow> 0x17) @ varint_encode l"
| "frame_encode (NewConnectionId seq retire_prior_to cid reset_token) =
     varint_encode 0x18 @ varint_encode seq @ varint_encode retire_prior_to
     @ [of_nat (length cid)] @ cid @ reset_token"
| "frame_encode (RetireConnectionId seq) = varint_encode 0x19 @ varint_encode seq"
| "frame_encode (PathChallenge d) = varint_encode 0x1a @ be_bytes 8 d"
| "frame_encode (PathResponse d) = varint_encode 0x1b @ be_bytes 8 d"
| "frame_encode (Close c) =
     varint_encode (if application c then 0x1d else 0x1c)
     @ varint_encode (error_code c)
     @ (if application c then [] else varint_encode (frame_type c))
     @ varint_encode (of_nat (length (reason c))) @ reason c"
| "frame_encode HandshakeDone = varint_encode 0x1e"

section \<open>Decoding\<close>

record iter =
  it_buf :: bytes
  it_pos :: nat
  last_frame_type :: u64

definition iter_new :: "bytes \<Rightarrow> iter" where
  "iter_new buf = \<lparr>it_buf = buf, it_pos = 0, last_frame_type = 0\<rparr>"

definition advance :: "nat \<Rightarrow> iter \<Rightarrow> iter" where
  "advance n it = it\<lparr>it_pos := it_pos it + n\<rparr>"

definition iter_varint :: "iter \<Rightarrow> frame_error + (u64 \<times> iter)" where
  "iter_varint it =
     and_then (ok_or (get_from (it_buf it) (it_pos it)) FrameTruncated) (\<lambda>rest.
     and_then (ok_or (varint_decode rest) FrameTruncated) (\<lambda>(v, n).
     Inr (v, advance n it)))"

definition iter_take :: "nat \<Rightarrow> iter \<Rightarrow> frame_error + (bytes \<times> iter)" where
  "iter_take n it =
     and_then (ok_or (checked_add_usize (it_pos it) n) FrameTruncated) (\<lambda>e.
     and_then (ok_or (get_range (it_buf it) (it_pos it) e) FrameTruncated) (\<lambda>s.
     Inr (s, it\<lparr>it_pos := e\<rparr>)))"

definition iter_varint_len :: "iter \<Rightarrow> frame_error + (nat \<times> iter)" where
  "iter_varint_len it =
     and_then (iter_varint it) (\<lambda>(v, it).
     if unat v < usize_limit then Inr (unat v, it) else Inl FrameTruncated)"

definition iter_u64_be :: "iter \<Rightarrow> frame_error + (u64 \<times> iter)" where
  "iter_u64_be it = and_then (iter_take 8 it) (\<lambda>(s, it). Inr (from_be s, it))"

text \<open>The \<open>for _ in 0..range_count\<close> loop of \<open>parse_ack\<close>; it returns the ranges it pushes.\<close>

fun parse_ack_ranges :: "nat \<Rightarrow> u64 \<Rightarrow> iter \<Rightarrow> frame_error + ((u64 \<times> u64) list \<times> iter)" where
  "parse_ack_ranges 0 smallest it = Inr ([], it)"
| "parse_ack_ranges (Suc k) smallest it =
     and_then (iter_varint it) (\<lambda>(gap, it).
     and_then (iter_varint it) (\<lambda>(len, it).
     and_then (ok_or (checked_sub_u64 smallest (gap + 2)) FrameMalformed) (\<lambda>high.
     and_then (ok_or (checked_sub_u64 high len) FrameMalformed) (\<lambda>low.
     and_then (parse_ack_ranges k low it) (\<lambda>(rs, it).
     Inr ((low, high) # rs, it))))))"

definition parse_ecn :: "bool \<Rightarrow> iter \<Rightarrow> frame_error + (ecn_counts option \<times> iter)" where
  "parse_ecn e it =
     (if e then
        and_then (iter_varint it) (\<lambda>(e0, it).
        and_then (iter_varint it) (\<lambda>(e1, it).
        and_then (iter_varint it) (\<lambda>(c, it).
        Inr (Some \<lparr>ect0 = e0, ect1 = e1, ce = c\<rparr>, it))))
      else Inr (None, it))"

definition parse_ack :: "bool \<Rightarrow> iter \<Rightarrow> frame_error + (frame \<times> iter)" where
  "parse_ack e it =
     and_then (iter_varint it) (\<lambda>(lgst, it).
     and_then (iter_varint it) (\<lambda>(dly, it).
     and_then (iter_varint it) (\<lambda>(range_count, it).
     and_then (iter_varint it) (\<lambda>(first_range, it).
     and_then (ok_or (checked_sub_u64 lgst first_range) FrameMalformed) (\<lambda>first_low.
     and_then (parse_ack_ranges (unat range_count) first_low it) (\<lambda>(rs, it).
     and_then (parse_ecn e it) (\<lambda>(ec, it).
     Inr (Ack \<lparr>largest = lgst, delay = dly, ranges = (first_low, lgst) # rs, ecn = ec\<rparr>, it))))))))"

text \<open>Frames of one, two or three varints, as the source builds them field by field.\<close>

definition varint1 :: "(u64 \<Rightarrow> frame) \<Rightarrow> iter \<Rightarrow> frame_error + (frame \<times> iter)" where
  "varint1 f it = and_then (iter_varint it) (\<lambda>(a, it). Inr (f a, it))"

definition varint2 :: "(u64 \<Rightarrow> u64 \<Rightarrow> frame) \<Rightarrow> iter \<Rightarrow> frame_error + (frame \<times> iter)" where
  "varint2 f it = and_then (iter_varint it) (\<lambda>(a, it). varint1 (f a) it)"

definition varint3 :: "(u64 \<Rightarrow> u64 \<Rightarrow> u64 \<Rightarrow> frame) \<Rightarrow> iter \<Rightarrow> frame_error + (frame \<times> iter)" where
  "varint3 f it = and_then (iter_varint it) (\<lambda>(a, it). varint2 (f a) it)"

definition parse_padding :: "iter \<Rightarrow> frame_error + (frame \<times> iter)" where
  "parse_padding it =
     (let zeros = length (takeWhile (\<lambda>b. b = 0) (drop (it_pos it) (it_buf it)))
      in Inr (Padding (1 + zeros), advance zeros it))"

definition parse_crypto :: "iter \<Rightarrow> frame_error + (frame \<times> iter)" where
  "parse_crypto it =
     and_then (iter_varint it) (\<lambda>(offset, it).
     and_then (iter_varint_len it) (\<lambda>(len, it).
     and_then (iter_take len it) (\<lambda>(data, it).
     Inr (Crypto offset data, it))))"

definition parse_new_token :: "iter \<Rightarrow> frame_error + (frame \<times> iter)" where
  "parse_new_token it =
     and_then (iter_varint_len it) (\<lambda>(len, it).
     and_then (iter_take len it) (\<lambda>(token, it).
     Inr (NewToken token, it)))"

definition parse_stream :: "u64 \<Rightarrow> iter \<Rightarrow> frame_error + (frame \<times> iter)" where
  "parse_stream ty it =
     and_then (iter_varint it) (\<lambda>(i, it).
     and_then (if ty AND 0x04 \<noteq> 0 then iter_varint it else Inr (0, it)) (\<lambda>(offset, it).
     and_then
       (if ty AND 0x02 \<noteq> 0 then
          and_then (iter_varint_len it) (\<lambda>(len, it). iter_take len it)
        else Inr (drop (it_pos it) (it_buf it), it\<lparr>it_pos := length (it_buf it)\<rparr>)) (\<lambda>(data, it).
     Inr (Stream i offset (ty AND 0x01 \<noteq> 0) data, it))))"

definition parse_new_connection_id :: "iter \<Rightarrow> frame_error + (frame \<times> iter)" where
  "parse_new_connection_id it =
     and_then (iter_varint it) (\<lambda>(seq, it).
     and_then (iter_varint it) (\<lambda>(retire_prior_to, it).
     and_then (ok_or (get_at (it_buf it) (it_pos it)) FrameTruncated) (\<lambda>b.
     let cid_len = unat b in
     if \<not> (1 \<le> cid_len \<and> cid_len \<le> MAX_CONNECTION_ID_LEN) then Inl FrameMalformed
     else
       and_then (iter_take cid_len (advance 1 it)) (\<lambda>(cid, it).
       and_then (iter_take RESET_TOKEN_LEN it) (\<lambda>(reset_token, it).
       Inr (NewConnectionId seq retire_prior_to cid reset_token, it))))))"

definition parse_close :: "bool \<Rightarrow> iter \<Rightarrow> frame_error + (frame \<times> iter)" where
  "parse_close app it =
     and_then (iter_varint it) (\<lambda>(code, it).
     and_then (if app then Inr (0, it) else iter_varint it) (\<lambda>(ft, it).
     and_then (iter_varint_len it) (\<lambda>(len, it).
     and_then (iter_take len it) (\<lambda>(r, it).
     Inr (Close \<lparr>application = app, error_code = code, frame_type = ft, reason = r\<rparr>, it)))))"

text \<open>The \<open>match ty\<close> of \<open>parse_one\<close>, in the order of its arms.\<close>

definition parse_body :: "u64 \<Rightarrow> iter \<Rightarrow> frame_error + (frame \<times> iter)" where
  "parse_body ty it =
     (if ty = 0x00 then parse_padding it
      else if ty = 0x01 then Inr (Ping, it)
      else if ty = 0x02 \<or> ty = 0x03 then parse_ack (ty = 0x03) it
      else if ty = 0x04 then varint3 ResetStream it
      else if ty = 0x05 then varint2 StopSending it
      else if ty = 0x06 then parse_crypto it
      else if ty = 0x07 then parse_new_token it
      else if 0x08 \<le> ty \<and> ty \<le> 0x0f then parse_stream ty it
      else if ty = 0x10 then varint1 MaxData it
      else if ty = 0x11 then varint2 MaxStreamData it
      else if ty = 0x12 then varint1 (MaxStreams Bidi) it
      else if ty = 0x13 then varint1 (MaxStreams Uni) it
      else if ty = 0x14 then varint1 DataBlocked it
      else if ty = 0x15 then varint2 StreamDataBlocked it
      else if ty = 0x16 then varint1 (StreamsBlocked Bidi) it
      else if ty = 0x17 then varint1 (StreamsBlocked Uni) it
      else if ty = 0x18 then parse_new_connection_id it
      else if ty = 0x19 then varint1 RetireConnectionId it
      else if ty = 0x1a then and_then (iter_u64_be it) (\<lambda>(d, it). Inr (PathChallenge d, it))
      else if ty = 0x1b then and_then (iter_u64_be it) (\<lambda>(d, it). Inr (PathResponse d, it))
      else if ty = 0x1c \<or> ty = 0x1d then parse_close (ty = 0x1d) it
      else if ty = 0x1e then Inr (HandshakeDone, it)
      else Inl (UnknownFrame ty))"

text \<open>
  \<open>parse_one\<close> returns the result and the state; on an error the state keeps the wire type that
  failed (which the connection reports) and \<open>next\<close> moves the position to the end of the payload.
\<close>

definition parse_one :: "iter \<Rightarrow> (frame_error + frame) \<times> iter" where
  "parse_one it =
     (case iter_varint (it\<lparr>last_frame_type := 0\<rparr>) of
        Inl e \<Rightarrow> (Inl e, it\<lparr>last_frame_type := 0\<rparr>)
      | Inr (ty, it1) \<Rightarrow>
          let it2 = it1\<lparr>last_frame_type := ty\<rparr>
          in (case parse_body ty it2 of
                Inl e \<Rightarrow> (Inl e, it2)
              | Inr (f, it3) \<Rightarrow> (Inr f, it3)))"

definition iter_next :: "iter \<Rightarrow> (frame_error + frame) option \<times> iter" where
  "iter_next it =
     (if length (it_buf it) \<le> it_pos it then (None, it)
      else
        let (result, it') = parse_one it
        in (Some result,
            if is_ok result then it' else it'\<lparr>it_pos := length (it_buf it')\<rparr>))"

section \<open>The decoder over the unread suffix\<close>

text \<open>
  The reading methods seen from the unread suffix of the payload. The state is well-formed when its
  position lies in the payload; every successful read keeps that and never moves backwards.
\<close>

definition it_rest :: "iter \<Rightarrow> bytes" where
  "it_rest it = drop (it_pos it) (it_buf it)"

definition it_ok :: "iter \<Rightarrow> bool" where
  "it_ok it \<longleftrightarrow> it_pos it \<le> length (it_buf it) \<and> length (it_buf it) < usize_limit"

lemma advance_simps [simp]:
  "it_buf (advance n it) = it_buf it"
  "it_pos (advance n it) = it_pos it + n"
  "last_frame_type (advance n it) = last_frame_type it"
  "advance 0 it = it"
  "advance m (advance n it) = advance (n + m) it"
  "it_rest (advance n it) = drop n (it_rest it)"
  by (simp_all add: advance_def it_rest_def add.commute)

lemma it_rest_last_frame_type [simp]:
  "it_rest (it\<lparr>last_frame_type := t\<rparr>) = it_rest it"
  "it_ok (it\<lparr>last_frame_type := t\<rparr>) = it_ok it"
  by (simp_all add: it_rest_def it_ok_def)

lemma it_ok_advance [simp]:
  "it_ok it \<Longrightarrow> n \<le> length (it_rest it) \<Longrightarrow> it_ok (advance n it)"
  by (auto simp: it_ok_def it_rest_def)

lemma iter_varint_eq:
  "iter_varint it =
     (case varint_decode (it_rest it) of
        None \<Rightarrow> Inl FrameTruncated
      | Some (v, n) \<Rightarrow> Inr (v, advance n it))"
proof (cases "it_pos it \<le> length (it_buf it)")
  case True
  then show ?thesis
    by (auto simp: iter_varint_def it_rest_def get_from_def split: option.splits)
next
  case False
  then show ?thesis
    by (simp add: iter_varint_def it_rest_def get_from_def varint_decode_def)
qed

lemma iter_take_eq:
  assumes "it_ok it"
  shows "iter_take n it =
     (if n \<le> length (it_rest it) then Inr (take n (it_rest it), advance n it)
      else Inl FrameTruncated)"
  using assms
  by (auto simp: iter_take_def it_ok_def it_rest_def checked_add_usize_def get_range_def advance_def)

lemma iter_varint_len_eq:
  "iter_varint_len it = and_then (iter_varint it) (\<lambda>(v, it). Inr (unat v, it))"
  by (simp add: iter_varint_len_def)

lemma iter_u64_be_eq:
  assumes "it_ok it"
  shows "iter_u64_be it =
     (if 8 \<le> length (it_rest it) then Inr (from_be (take 8 (it_rest it)), advance 8 it)
      else Inl FrameTruncated)"
  using assms by (simp add: iter_u64_be_def iter_take_eq)

text \<open>What a successful step promises, also in a payload longer than the address space: the payload
  is unchanged and the position stays in it and does not decrease.\<close>

definition in_buf :: "iter \<Rightarrow> bool" where
  "in_buf it \<longleftrightarrow> it_pos it \<le> length (it_buf it)"

definition steps_to :: "iter \<Rightarrow> iter \<Rightarrow> bool" where
  "steps_to it it' \<longleftrightarrow> in_buf it' \<and> it_buf it' = it_buf it \<and> it_pos it \<le> it_pos it'
     \<and> last_frame_type it' = last_frame_type it"

lemma in_buf_simps [simp]:
  "in_buf (it\<lparr>last_frame_type := t\<rparr>) = in_buf it"
  "it_ok it \<Longrightarrow> in_buf it"
  by (simp_all add: in_buf_def it_ok_def)

lemma steps_to_refl [simp]: "in_buf it \<Longrightarrow> steps_to it it"
  by (simp add: steps_to_def)

lemma steps_to_trans [trans]: "steps_to a b \<Longrightarrow> steps_to b c \<Longrightarrow> steps_to a c"
  by (auto simp: steps_to_def)

lemma steps_to_in_buf: "steps_to a b \<Longrightarrow> in_buf b"
  by (simp add: steps_to_def)

lemma steps_to_ok: "steps_to a b \<Longrightarrow> it_ok a \<Longrightarrow> it_ok b"
  by (auto simp: steps_to_def it_ok_def in_buf_def)

lemma iter_varint_steps:
  "iter_varint it = Inr (v, it') \<Longrightarrow> in_buf it \<Longrightarrow> steps_to it it' \<and> it_pos it < it_pos it'"
  by (auto simp: iter_varint_eq steps_to_def in_buf_def it_rest_def
      split: option.splits dest!: varint_decode_pos)

lemma iter_varint_le_MAX: "iter_varint it = Inr (v, it') \<Longrightarrow> v \<le> VARINT_MAX"
  by (auto simp: iter_varint_eq varint_decode_le_MAX split: option.splits)

text \<open>Reading methods compose: a sequence of reads is a read.\<close>

definition reads :: "(iter \<Rightarrow> frame_error + ('a \<times> iter)) \<Rightarrow> bool" where
  "reads p \<longleftrightarrow> (\<forall>it x it'. in_buf it \<longrightarrow> p it = Inr (x, it') \<longrightarrow> steps_to it it')"

named_theorems reads_intros

lemma readsD: "reads p \<Longrightarrow> p it = Inr (x, it') \<Longrightarrow> in_buf it \<Longrightarrow> steps_to it it'"
  by (simp add: reads_def)

lemma reads_bind [reads_intros]:
  assumes "reads p" and "\<And>x. reads (q x)"
  shows "reads (\<lambda>it. and_then (p it) (\<lambda>(x, it). q x it))"
  unfolding reads_def
proof (intro allI impI)
  fix it y it'
  assume it: "in_buf it" and eq: "and_then (p it) (\<lambda>(x, it). q x it) = Inr (y, it')"
  then obtain x it1 where 1: "p it = Inr (x, it1)" and 2: "q x it1 = Inr (y, it')"
    by (auto simp: and_then_eq_Inr)
  have "steps_to it it1"
    using readsD [OF assms(1) 1 it] .
  also have "steps_to it1 it'"
    using readsD [OF assms(2) 2] \<open>steps_to it it1\<close> by (simp add: steps_to_def)
  finally show "steps_to it it'" .
qed

lemma reads_check [reads_intros]:
  assumes "\<And>x. reads (q x)"
  shows "reads (\<lambda>it. and_then r (\<lambda>x. q x it))"
  using assms by (auto simp: reads_def and_then_eq_Inr)

lemma reads_return [reads_intros]: "reads (\<lambda>it. Inr (x, it))"
  by (simp add: reads_def)

lemma reads_fail [reads_intros]: "reads (\<lambda>it. Inl e)"
  by (simp add: reads_def)

lemma reads_if [reads_intros]:
  "reads p \<Longrightarrow> reads q \<Longrightarrow> reads (\<lambda>it. if b it then p it else q it)"
  by (simp add: reads_def)

lemma reads_varint [reads_intros]: "reads iter_varint"
  by (auto simp: reads_def dest: iter_varint_steps)

lemma reads_take [reads_intros]: "reads (iter_take n)"
  by (auto simp: reads_def iter_take_def and_then_eq_Inr checked_add_usize_def get_range_def
      steps_to_def in_buf_def split: if_splits)

lemma reads_varint_len [reads_intros]: "reads iter_varint_len"
  unfolding iter_varint_len_def by (intro reads_intros)

lemma reads_u64_be [reads_intros]: "reads iter_u64_be"
  unfolding iter_u64_be_def by (intro reads_intros)

lemma reads_ack_ranges [reads_intros]: "reads (parse_ack_ranges k smallest)"
proof (induction k arbitrary: smallest)
  case 0
  then show ?case by (simp add: reads_def)
next
  case (Suc k)
  have eq: "parse_ack_ranges (Suc k) smallest = (\<lambda>it.
     and_then (iter_varint it) (\<lambda>(gap, it).
     and_then (iter_varint it) (\<lambda>(len, it).
     and_then (ok_or (checked_sub_u64 smallest (gap + 2)) FrameMalformed) (\<lambda>high.
     and_then (ok_or (checked_sub_u64 high len) FrameMalformed) (\<lambda>low.
     and_then (parse_ack_ranges k low it) (\<lambda>(rs, it).
     Inr ((low, high) # rs, it)))))))"
    by (rule ext) simp
  show ?case
    unfolding eq by (intro reads_intros Suc.IH)
qed

lemma reads_ecn [reads_intros]: "reads (parse_ecn e)"
  unfolding parse_ecn_def by (intro reads_intros)

lemma reads_ack [reads_intros]: "reads (parse_ack e)"
  unfolding parse_ack_def by (intro reads_intros)

lemma reads_varints [reads_intros]: "reads (varint1 f)" "reads (varint2 g)" "reads (varint3 h)"
  unfolding varint3_def varint2_def varint1_def by (intro reads_intros)+

lemma reads_padding [reads_intros]: "reads parse_padding"
proof -
  have "k + length (takeWhile P (drop k xs)) \<le> length xs" if "k \<le> length xs"
    for P k and xs :: bytes
    using length_takeWhile_le [of P "drop k xs"] that by (simp add: le_diff_conv2)
  then show ?thesis
    by (auto simp: reads_def parse_padding_def Let_def steps_to_def in_buf_def)
qed

lemma reads_crypto [reads_intros]: "reads parse_crypto"
  unfolding parse_crypto_def by (intro reads_intros)

lemma reads_new_token [reads_intros]: "reads parse_new_token"
  unfolding parse_new_token_def by (intro reads_intros)

lemma reads_remaining [reads_intros]:
  "reads (\<lambda>it. Inr (f it, it\<lparr>it_pos := length (it_buf it)\<rparr>))"
  by (auto simp: reads_def steps_to_def in_buf_def)

lemma reads_stream [reads_intros]: "reads (parse_stream ty)"
  unfolding parse_stream_def by (intro reads_intros)

lemma reads_close [reads_intros]: "reads (parse_close app)"
  unfolding parse_close_def by (intro reads_intros)

text \<open>The length byte of a connection id is read by index, so it is inside the payload.\<close>

lemma reads_byte [reads_intros]:
  assumes "\<And>x. reads (q x)"
  shows "reads (\<lambda>it. and_then (ok_or (get_at (it_buf it) (it_pos it)) FrameTruncated)
                 (\<lambda>x. q x (advance 1 it)))"
proof -
  have "steps_to it it'" if "q x (advance 1 it) = Inr (y, it')" and "it_pos it < length (it_buf it)"
    for x y it it'
    using readsD [OF assms that(1)] that(2) by (auto simp: in_buf_def steps_to_def)
  then show ?thesis
    by (auto simp: reads_def and_then_eq_Inr ok_or_def get_at_def split: if_splits option.splits)
qed

lemma reads_new_connection_id [reads_intros]: "reads parse_new_connection_id"
proof -
  have eq: "parse_new_connection_id = (\<lambda>it.
     and_then (iter_varint it) (\<lambda>(seq, it).
     and_then (iter_varint it) (\<lambda>(retire_prior_to, it).
     and_then (ok_or (get_at (it_buf it) (it_pos it)) FrameTruncated) (\<lambda>b.
     (\<lambda>b it. if \<not> (1 \<le> unat b \<and> unat b \<le> MAX_CONNECTION_ID_LEN) then Inl FrameMalformed
       else and_then (iter_take (unat b) it) (\<lambda>(cid, it).
       and_then (iter_take RESET_TOKEN_LEN it) (\<lambda>(reset_token, it).
       Inr (NewConnectionId seq retire_prior_to cid reset_token, it)))) b (advance 1 it)))))"
    by (rule ext) (simp add: parse_new_connection_id_def Let_def)
  show ?thesis
    unfolding eq by (rule reads_bind reads_varint reads_byte reads_if reads_fail reads_take reads_return)+
qed

lemma reads_body: "reads (parse_body ty)"
  unfolding parse_body_def by (intro reads_intros)

section \<open>Round trip of one frame\<close>

fun ack_ranges_wf :: "(u64 \<times> u64) list \<Rightarrow> bool" where
  "ack_ranges_wf [] = False"
| "ack_ranges_wf [(low, high)] = (low \<le> high)"
| "ack_ranges_wf ((low, high) # (low', high') # rs) =
     (low \<le> high \<and> unat high' + 2 \<le> unat low \<and> ack_ranges_wf ((low', high') # rs))"

definition ack_wf :: "ack \<Rightarrow> bool" where
  "ack_wf a \<longleftrightarrow> ack_ranges_wf (ranges a) \<and> snd (hd (ranges a)) = largest a
     \<and> length (ranges a) \<le> unat VARINT_MAX \<and> largest a \<le> VARINT_MAX \<and> delay a \<le> VARINT_MAX
     \<and> (case ecn a of None \<Rightarrow> True
        | Some e \<Rightarrow> ect0 e \<le> VARINT_MAX \<and> ect1 e \<le> VARINT_MAX \<and> ce e \<le> VARINT_MAX)"

text \<open>The frames a sender can put on the wire: varint fields below \<open>2^62\<close>, a non-empty run of
  padding, connection ids of 1 to 20 bytes with a 16-byte token, descending ACK ranges with a gap,
  and no transport frame type on an application close.\<close>

fun frame_wf :: "frame \<Rightarrow> bool" where
  "frame_wf (Padding n) = (0 < n)"
| "frame_wf Ping = True"
| "frame_wf (Ack a) = ack_wf a"
| "frame_wf (ResetStream i code final_size) =
     (i \<le> VARINT_MAX \<and> code \<le> VARINT_MAX \<and> final_size \<le> VARINT_MAX)"
| "frame_wf (StopSending i code) = (i \<le> VARINT_MAX \<and> code \<le> VARINT_MAX)"
| "frame_wf (Crypto offset data) = (offset \<le> VARINT_MAX \<and> len_ok data)"
| "frame_wf (NewToken token) = len_ok token"
| "frame_wf (Stream i offset fin data) = (i \<le> VARINT_MAX \<and> offset \<le> VARINT_MAX \<and> len_ok data)"
| "frame_wf (MaxData v) = (v \<le> VARINT_MAX)"
| "frame_wf (MaxStreamData i m) = (i \<le> VARINT_MAX \<and> m \<le> VARINT_MAX)"
| "frame_wf (MaxStreams d m) = (m \<le> VARINT_MAX)"
| "frame_wf (DataBlocked v) = (v \<le> VARINT_MAX)"
| "frame_wf (StreamDataBlocked i l) = (i \<le> VARINT_MAX \<and> l \<le> VARINT_MAX)"
| "frame_wf (StreamsBlocked d l) = (l \<le> VARINT_MAX)"
| "frame_wf (NewConnectionId seq retire_prior_to cid reset_token) =
     (seq \<le> VARINT_MAX \<and> retire_prior_to \<le> VARINT_MAX
      \<and> 1 \<le> length cid \<and> length cid \<le> MAX_CONNECTION_ID_LEN
      \<and> length reset_token = RESET_TOKEN_LEN)"
| "frame_wf (RetireConnectionId seq) = (seq \<le> VARINT_MAX)"
| "frame_wf (PathChallenge d) = True"
| "frame_wf (PathResponse d) = True"
| "frame_wf (Close c) =
     (error_code c \<le> VARINT_MAX \<and> frame_type c \<le> VARINT_MAX \<and> len_ok (reason c)
      \<and> (if application c then frame_type c = 0 else True))"
| "frame_wf HandshakeDone = True"

lemma small_le_VARINT_MAX [simp]: "unat v < 64 \<Longrightarrow> v \<le> VARINT_MAX"
  by (simp add: VARINT_MAX_eq word_le_nat_alt)

lemmas iter_simps = iter_varint_eq iter_take_eq iter_varint_len_eq iter_u64_be_eq
  varint_decode_encode add.assoc

lemma word_sub_le_self:
  fixes a b :: "'a::len word"
  shows "b \<le> a \<Longrightarrow> a - b \<le> a"
  by (simp add: word_le_nat_alt unat_sub)

lemma ack_gap:
  fixes low high' :: u64
  assumes "unat high' + 2 \<le> unat low"
  shows "low - high' - 2 + 2 \<le> low" and "low - (low - high' - 2 + 2) = high'"
    and "low - high' - 2 \<le> low"
proof -
  have le: "high' \<le> low"
    using assms by (simp add: word_le_nat_alt)
  then show "low - high' - 2 + 2 \<le> low" and "low - (low - high' - 2 + 2) = high'"
    by (simp_all add: word_sub_le_self)
  have "unat (low - high') = unat low - unat high'"
    using le by (simp add: unat_sub word_le_nat_alt)
  then have "2 \<le> low - high'"
    using assms by (simp add: word_le_nat_alt)
  then have "low - high' - 2 \<le> low - high'"
    by (rule word_sub_le_self)
  also have "\<dots> \<le> low"
    using le by (rule word_sub_le_self)
  finally show "low - high' - 2 \<le> low" .
qed

lemma parse_ack_ranges_encode:
  assumes "ack_ranges_wf ((low, high) # rs)" and "high \<le> VARINT_MAX"
    and "it_rest it = encode_ack_ranges low rs @ xs"
  shows "parse_ack_ranges (length rs) low it =
           Inr (rs, advance (length (encode_ack_ranges low rs)) it)"
  using assms
proof (induction rs arbitrary: low high it)
  case Nil
  then show ?case by simp
next
  case (Cons r rs)
  obtain low' high' where r: "r = (low', high')" by (cases r)
  have wf: "low \<le> high" "unat high' + 2 \<le> unat low" "ack_ranges_wf ((low', high') # rs)"
    using Cons.prems(1) by (simp_all add: r)
  have lh: "low' \<le> high'"
    using wf(3) by (cases rs) auto
  have low: "low \<le> VARINT_MAX"
    using wf(1) Cons.prems(2) by simp
  have high': "high' \<le> VARINT_MAX"
    using wf(2) low by (simp add: word_le_nat_alt)
  have gap: "low - high' - 2 \<le> VARINT_MAX"
    using ack_gap(3) [OF wf(2)] low by simp
  have len: "high' - low' \<le> VARINT_MAX"
    using word_sub_le_self [OF lh] high' by simp
  show ?case
    using Cons.IH [OF wf(3) high', of "advance (varint_size (low - high' - 2) + varint_size (high' - low')) it"]
      Cons.prems(3) gap len ack_gap(1,2) [OF wf(2)] lh
    by (simp add: r iter_simps word_sub_le_self)
qed

lemma encode_ack_Cons:
  assumes "ranges a = (low, high) # rs"
  shows "encode_ack a =
     varint_encode (if ecn a \<noteq> None then 0x03 else 0x02) @ varint_encode high
     @ varint_encode (delay a) @ varint_encode (of_nat (length rs)) @ varint_encode (high - low)
     @ encode_ack_ranges low rs
     @ (case ecn a of
          None \<Rightarrow> []
        | Some e \<Rightarrow> varint_encode (ect0 e) @ varint_encode (ect1 e) @ varint_encode (ce e))"
  by (simp add: encode_ack_def assms)

lemma drop_length_append_add [simp]: "drop (length xs + k) (xs @ ys) = drop k ys"
  by (simp add: drop_append)

lemma parse_ack_encode:
  assumes wf: "ack_wf a"
    and rest: "varint_encode t @ it_rest it = encode_ack a @ xs"
    and t: "t = (if ecn a \<noteq> None then 0x03 else 0x02)"
  shows "parse_ack (ecn a \<noteq> None) it = Inr (Ack a, advance (length (encode_ack a) - 1) it)"
proof -
  obtain low high rs where rs: "ranges a = (low, high) # rs"
    using wf by (cases "ranges a") (auto simp: ack_wf_def)
  have high: "high = largest a" "high \<le> VARINT_MAX"
    using wf by (auto simp: ack_wf_def rs)
  have rwf: "ack_ranges_wf ((low, high) # rs)"
    using wf by (auto simp: ack_wf_def rs)
  then have lh: "low \<le> high"
    by (cases rs) auto
  have d: "high - low \<le> VARINT_MAX"
    using word_sub_le_self [OF lh] high(2) by simp
  have n: "(of_nat (length rs) :: u64) \<le> VARINT_MAX" "unat (of_nat (length rs) :: u64) = length rs"
    using of_nat_le_VARINT_MAX [of "length rs"] wf by (auto simp: ack_wf_def rs)
  have size: "varint_size t = 1"
    by (simp add: t varint_size_def)
  note enc = encode_ack_Cons [OF rs]
  let ?n = "varint_size high + (varint_size (delay a) + (varint_size (of_nat (length rs)) + varint_size (high - low)))"
  let ?tail = "case ecn a of None \<Rightarrow> []
     | Some e \<Rightarrow> varint_encode (ect0 e) @ varint_encode (ect1 e) @ varint_encode (ce e)"
  have it: "it_rest it = varint_encode high @ varint_encode (delay a) @ varint_encode (of_nat (length rs))
      @ varint_encode (high - low) @ encode_ack_ranges low rs @ ?tail @ xs"
    using rest by (simp add: enc t)
  have ranges: "parse_ack_ranges (length rs) low (advance ?n it) =
      Inr (rs, advance (?n + length (encode_ack_ranges low rs)) it)"
    using parse_ack_ranges_encode [OF rwf high(2), of "advance ?n it" "?tail @ xs"]
    by (simp add: it add.assoc)
  have a: "a = \<lparr>largest = high, delay = delay a, ranges = (low, high) # rs, ecn = ecn a\<rparr>"
    using rs high(1) by simp
  have vals: "delay a \<le> VARINT_MAX"
    using wf by (simp add: ack_wf_def)
  show ?thesis
  proof (cases "ecn a")
    case None
    have "parse_ack False it = Inr (Ack a, advance (length (encode_ack a) - 1) it)"
      using ranges None size a
      by (simp add: parse_ack_def parse_ecn_def iter_simps it vals high(2) d n lh enc
          word_sub_le_self t varint_size_def [of 2])
    then show ?thesis
      by (simp add: None)
  next
    case (Some e)
    then have e: "ect0 e \<le> VARINT_MAX" "ect1 e \<le> VARINT_MAX" "ce e \<le> VARINT_MAX"
      using wf by (auto simp: ack_wf_def)
    have eta: "\<lparr>ect0 = ect0 e, ect1 = ect1 e, ce = ce e\<rparr> = e"
      by simp
    have "parse_ack True it = Inr (Ack a, advance (length (encode_ack a) - 1) it)"
      using ranges Some size a [symmetric] e
      by (simp add: eta parse_ack_def parse_ecn_def iter_simps it vals high(2) d n lh enc
          word_sub_le_self t varint_size_def [of 3])
    then show ?thesis
      by (simp add: Some)
  qed
qed

fun wire_type :: "frame \<Rightarrow> u64" where
  "wire_type (Padding n) = 0x00"
| "wire_type Ping = 0x01"
| "wire_type (Ack a) = (if ecn a \<noteq> None then 0x03 else 0x02)"
| "wire_type (ResetStream i code final_size) = 0x04"
| "wire_type (StopSending i code) = 0x05"
| "wire_type (Crypto offset data) = 0x06"
| "wire_type (NewToken token) = 0x07"
| "wire_type (Stream i offset fin data) =
     (0x08 OR 0x02) OR (if offset \<noteq> 0 then 0x04 else 0) OR (if fin then 0x01 else 0)"
| "wire_type (MaxData v) = 0x10"
| "wire_type (MaxStreamData i m) = 0x11"
| "wire_type (MaxStreams d m) = (case d of Bidi \<Rightarrow> 0x12 | Uni \<Rightarrow> 0x13)"
| "wire_type (DataBlocked v) = 0x14"
| "wire_type (StreamDataBlocked i l) = 0x15"
| "wire_type (StreamsBlocked d l) = (case d of Bidi \<Rightarrow> 0x16 | Uni \<Rightarrow> 0x17)"
| "wire_type (NewConnectionId seq retire_prior_to cid reset_token) = 0x18"
| "wire_type (RetireConnectionId seq) = 0x19"
| "wire_type (PathChallenge d) = 0x1a"
| "wire_type (PathResponse d) = 0x1b"
| "wire_type (Close c) = (if application c then 0x1d else 0x1c)"
| "wire_type HandshakeDone = 0x1e"

lemma wire_type_small: "unat (wire_type f) < 64"
  by (cases f) (auto split: dir.splits)

lemma varint_size_small: "unat t < 64 \<Longrightarrow> varint_size t = 1"
  by (simp add: varint_size_def word_less_nat_alt)

lemma varint_encode_small: "unat t < 64 \<Longrightarrow> varint_encode t = [ucast t]"
  by (simp add: varint_encode_def word_less_nat_alt)

lemma wire_type_size [simp]: "varint_size (wire_type f) = 1"
  by (rule varint_size_small) (rule wire_type_small)

lemma frame_encode_wire_type:
  assumes "frame_wf f"
  obtains ys where "frame_encode f = varint_encode (wire_type f) @ ys"
proof (cases f)
  case (Padding n)
  with assms obtain m where "n = Suc m"
    by (cases n) auto
  with Padding show ?thesis
    using that [of "replicate m 0"] by (simp add: varint_encode_def)
next
  case (Ack a)
  with assms obtain low high rs where "ranges a = (low, high) # rs"
    by (cases "ranges a") (auto simp: ack_wf_def)
  with Ack show ?thesis
    using that by (auto simp: encode_ack_Cons)
qed (auto intro: that)

lemma parse_padding_encode:
  assumes "0 < n" and "0 # it_rest it = replicate n 0 @ xs" and "xs = [] \<or> hd xs \<noteq> 0"
  shows "parse_padding it = Inr (Padding n, advance (n - 1) it)"
proof -
  have rest: "it_rest it = replicate (n - 1) 0 @ xs"
    using assms(1,2) by (cases n) auto
  have "takeWhile (\<lambda>b. b = 0) xs = []"
    using assms(3) by (cases xs) auto
  then have "takeWhile (\<lambda>b. b = 0) (it_rest it) = replicate (n - 1) 0"
    unfolding rest by (subst takeWhile_append2) simp_all
  then show ?thesis
    using assms(1) by (simp add: parse_padding_def Let_def flip: it_rest_def)
qed

lemma parse_stream_encode:
  assumes "frame_wf (Stream i offset fin data)" and "it_ok it"
    and "varint_encode (wire_type (Stream i offset fin data)) @ it_rest it =
         frame_encode (Stream i offset fin data) @ xs"
  shows "parse_stream (wire_type (Stream i offset fin data)) it =
         Inr (Stream i offset fin data, advance (length (frame_encode (Stream i offset fin data)) - 1) it)"
  using assms
  by (cases "offset = 0"; cases fin)
    (simp_all add: parse_stream_def iter_simps varint_size_small)

lemma parse_new_connection_id_encode:
  assumes "frame_wf (NewConnectionId seq retire cid token)" and "it_ok it"
    and rest: "it_rest it = varint_encode seq @ varint_encode retire @ of_nat (length cid) # cid @ token @ xs"
  shows "parse_new_connection_id it =
         Inr (NewConnectionId seq retire cid token,
              advance (varint_size seq + (varint_size retire + (1 + (length cid + length token)))) it)"
proof -
  let ?n = "varint_size seq + varint_size retire"
  have len: "unat (of_nat (length cid) :: byte) = length cid"
    using assms(1) by (simp add: unat_of_nat MAX_CONNECTION_ID_LEN_def)
  have "it_rest (advance ?n it) = of_nat (length cid) # cid @ token @ xs"
    by (simp add: rest)
  then have "get_at (it_buf it) (it_pos it + ?n) = Some (of_nat (length cid))"
    by (intro get_at_append) (simp add: it_rest_def add.commute)
  then show ?thesis
    using assms len
    by (simp add: parse_new_connection_id_def iter_simps RESET_TOKEN_LEN_def Let_def
        MAX_CONNECTION_ID_LEN_def)
qed

lemma parse_close_encode:
  assumes "frame_wf (Close c)" and "it_ok it"
    and "varint_encode (wire_type (Close c)) @ it_rest it = frame_encode (Close c) @ xs"
  shows "parse_close (application c) it =
         Inr (Close c, advance (length (frame_encode (Close c)) - 1) it)"
proof (cases c)
  case (fields app code ft r)
  then show ?thesis
    using assms by (cases app) (simp_all add: parse_close_def iter_simps varint_size_small)
qed

fun is_padding :: "frame \<Rightarrow> bool" where
  "is_padding (Padding n) = True"
| "is_padding f = False"

lemma parse_body_encode:
  assumes wf: "frame_wf f" and ok: "it_ok it"
    and rest: "varint_encode (wire_type f) @ it_rest it = frame_encode f @ xs"
    and pad: "is_padding f \<Longrightarrow> xs = [] \<or> hd xs \<noteq> 0"
  shows "parse_body (wire_type f) it = Inr (f, advance (length (frame_encode f) - 1) it)"
proof (cases f)
  case (Padding n)
  then show ?thesis
    using wf rest pad parse_padding_encode [of n it xs]
    by (simp add: parse_body_def varint_encode_small)
next
  case (Ack a)
  then show ?thesis
    using wf rest parse_ack_encode [of a "wire_type f" it xs]
    by (auto simp: parse_body_def)
next
  case (Stream i offset fin data)
  then show ?thesis
    using parse_stream_encode [of i offset fin data it xs] wf ok rest
    by (cases "offset = 0"; cases fin) (simp_all add: parse_body_def)
next
  case (NewConnectionId seq retire cid token)
  then show ?thesis
    using parse_new_connection_id_encode [of seq retire cid token it xs] wf ok rest
    by (simp add: parse_body_def varint_size_small)
next
  case (Close c)
  then show ?thesis
    using parse_close_encode [of c it xs] wf ok rest
    by (auto simp: parse_body_def)
next
  case (MaxStreams d v)
  then show ?thesis
    using wf rest by (cases d) (simp_all add: parse_body_def varint1_def iter_simps varint_size_small)
next
  case (StreamsBlocked d v)
  then show ?thesis
    using wf rest by (cases d) (simp_all add: parse_body_def varint1_def iter_simps varint_size_small)
next
  case (Crypto offset data)
  then show ?thesis
    using wf ok rest by (simp add: parse_body_def parse_crypto_def iter_simps varint_size_small)
next
  case (NewToken token)
  then show ?thesis
    using wf ok rest by (simp add: parse_body_def parse_new_token_def iter_simps varint_size_small)
next
  case (PathChallenge d)
  then show ?thesis
    using wf ok rest by (simp add: parse_body_def iter_simps varint_size_small from_be_be_bytes_full)
next
  case (PathResponse d)
  then show ?thesis
    using wf ok rest by (simp add: parse_body_def iter_simps varint_size_small from_be_be_bytes_full)
qed (use wf rest in \<open>simp_all add: parse_body_def varint1_def varint2_def varint3_def iter_simps
       varint_size_small\<close>)

lemma parse_one_encode:
  assumes wf: "frame_wf f" and ok: "it_ok it" and rest: "it_rest it = frame_encode f @ xs"
    and pad: "is_padding f \<Longrightarrow> xs = [] \<or> hd xs \<noteq> 0"
  shows "parse_one it =
     (Inr f, (advance (length (frame_encode f)) it)\<lparr>last_frame_type := wire_type f\<rparr>)"
proof -
  obtain ys where ys: "frame_encode f = varint_encode (wire_type f) @ ys"
    using frame_encode_wire_type [OF wf] .
  define it2 where "it2 = (advance 1 it)\<lparr>last_frame_type := wire_type f\<rparr>"
  have "iter_varint (it\<lparr>last_frame_type := 0\<rparr>) = Inr (wire_type f, advance 1 (it\<lparr>last_frame_type := 0\<rparr>))"
    using rest by (simp add: ys iter_simps wire_type_small)
  moreover have "(advance 1 (it\<lparr>last_frame_type := 0\<rparr>))\<lparr>last_frame_type := wire_type f\<rparr> = it2"
    by (simp add: advance_def it2_def)
  moreover have "parse_body (wire_type f) it2 = Inr (f, advance (length (frame_encode f) - 1) it2)"
  proof (rule parse_body_encode [OF wf])
    show "it_ok it2"
      using ok rest by (simp add: it2_def ys)
    have "it_rest it2 = ys @ xs"
      using rest drop_varint(1) [of "wire_type f" "ys @ xs"] by (simp add: it2_def ys)
    then show "varint_encode (wire_type f) @ it_rest it2 = frame_encode f @ xs"
      by (simp add: ys)
    show "xs = [] \<or> hd xs \<noteq> 0" if "is_padding f"
      by (rule pad [OF that])
  qed
  moreover have "advance (length (frame_encode f) - 1) it2 =
      (advance (length (frame_encode f)) it)\<lparr>last_frame_type := wire_type f\<rparr>"
    by (simp add: advance_def it2_def ys)
  ultimately show ?thesis
    by (simp add: parse_one_def)
qed

section \<open>The iterator over a payload\<close>

lemma parse_one_progress:
  assumes "parse_one it = (Inr f, it')" and "in_buf it"
  shows "in_buf it' \<and> it_buf it' = it_buf it \<and> it_pos it < it_pos it'"
proof -
  obtain ty it1 where 1: "iter_varint (it\<lparr>last_frame_type := 0\<rparr>) = Inr (ty, it1)"
    and 2: "parse_body ty (it1\<lparr>last_frame_type := ty\<rparr>) = Inr (f, it')"
    using assms(1) by (auto simp: parse_one_def Let_def split: sum.splits)
  have s1: "steps_to (it\<lparr>last_frame_type := 0\<rparr>) it1 \<and> it_pos it < it_pos it1"
    using iter_varint_steps [OF 1] assms(2) by simp
  then have "steps_to (it1\<lparr>last_frame_type := ty\<rparr>) it'"
    using readsD [OF reads_body 2] by (simp add: steps_to_def)
  with s1 show ?thesis
    by (auto simp: steps_to_def)
qed

lemma parse_one_buf:
  assumes p: "parse_one it = (r, it')" and "in_buf it"
  shows "it_buf it' = it_buf it"
proof (cases "iter_varint (it\<lparr>last_frame_type := 0\<rparr>)")
  case (Inl e)
  then show ?thesis
    using p by (simp add: parse_one_def) auto
next
  case (Inr q)
  then obtain ty it1 where 1: "iter_varint (it\<lparr>last_frame_type := 0\<rparr>) = Inr (ty, it1)"
    by (cases q) simp
  then have buf: "it_buf it1 = it_buf it"
    using iter_varint_steps [OF 1] assms(2) by (simp add: steps_to_def)
  show ?thesis
  proof (cases r)
    case (Inl e)
    then have "it' = it1\<lparr>last_frame_type := ty\<rparr>"
      using p 1 by (auto simp: parse_one_def Let_def split: sum.splits)
    then show ?thesis
      using buf by simp
  next
    case (Inr f)
    then show ?thesis
      using parse_one_progress p assms(2) by blast
  qed
qed

lemma iter_next_progress:
  assumes "iter_next it = (Some r, it')"
  shows "it_pos it < it_pos it' \<and> it_pos it' \<le> length (it_buf it') \<and> it_buf it' = it_buf it"
proof -
  obtain it1 where p: "parse_one it = (r, it1)" and lt: "it_pos it < length (it_buf it)"
    and it': "it' = (if is_ok r then it1 else it1\<lparr>it_pos := length (it_buf it1)\<rparr>)"
    using assms by (auto simp: iter_next_def Let_def split: if_splits prod.splits)
  have "in_buf it"
    using lt by (simp add: in_buf_def)
  then show ?thesis
  proof (cases r)
    case (Inl e)
    then show ?thesis
      using parse_one_buf [OF p \<open>in_buf it\<close>] lt it' by (simp add: is_ok_def)
  next
    case (Inr f)
    then show ?thesis
      using parse_one_progress [of it f it1] p \<open>in_buf it\<close> it' by (auto simp: in_buf_def)
  qed
qed

text \<open>Draining the iterator, as \<open>for frame in Iter::new(payload)\<close> does; each call advances, so the
  loop ends.\<close>

function collect :: "iter \<Rightarrow> (frame_error + frame) list" where
  "collect it = (case iter_next it of (None, _) \<Rightarrow> [] | (Some r, it') \<Rightarrow> r # collect it')"
  by auto
termination
  by (relation "measure (\<lambda>it. length (it_buf it) - it_pos it)")
    (auto dest!: iter_next_progress [OF sym])

declare collect.simps [simp del]

fun padding_merged :: "frame list \<Rightarrow> bool" where
  "padding_merged (f # g # fs) = (\<not> (is_padding f \<and> is_padding g) \<and> padding_merged (g # fs))"
| "padding_merged fs = True"

text \<open>Adjacent padding frames are one run of zero bytes on the wire, and the iterator reports a run as one frame.\<close>

fun pad_len :: "frame \<Rightarrow> nat" where
  "pad_len (Padding n) = n"
| "pad_len f = 0"

primrec merge_padding :: "frame list \<Rightarrow> frame list" where
  "merge_padding [] = []"
| "merge_padding (f # fs) =
     (let gs = merge_padding fs
      in if is_padding f \<and> gs \<noteq> [] \<and> is_padding (hd gs) then Padding (pad_len f + pad_len (hd gs)) # tl gs else f # gs)"

definition payload_encode :: "frame list \<Rightarrow> bytes" where
  "payload_encode fs = concat (map frame_encode fs)"

lemma padding_merged_Cons: "padding_merged (f # fs) \<Longrightarrow> padding_merged fs"
  by (cases fs) auto

lemma wire_type_nonzero: "\<not> is_padding f \<Longrightarrow> wire_type f \<noteq> 0"
  by (cases f) (auto split: dir.splits)

lemma frame_encode_hd:
  assumes "frame_wf f" and "\<not> is_padding f"
  shows "frame_encode f @ ys = [] \<or> hd (frame_encode f @ ys) \<noteq> 0"
proof -
  obtain zs where "frame_encode f = varint_encode (wire_type f) @ zs"
    using frame_encode_wire_type [OF assms(1)] .
  then have hd: "hd (frame_encode f @ ys) = (ucast (wire_type f) :: byte)"
    by (simp add: varint_encode_small wire_type_small)
  have "unat (ucast (wire_type f) :: byte) = unat (wire_type f)"
    using wire_type_small [of f] by (simp add: unsigned_ucast_eq take_bit_nat_eq_self)
  then have "(ucast (wire_type f) :: byte) \<noteq> 0"
    using wire_type_nonzero [OF assms(2)] by (metis unat_0 unat_eq_zero)
  with hd show ?thesis
    by simp
qed

lemma payload_after:
  assumes "list_all frame_wf (f # fs)" and "padding_merged (f # fs)" and "is_padding f"
  shows "payload_encode fs = [] \<or> hd (payload_encode fs) \<noteq> 0"
proof (cases fs)
  case (Cons g gs)
  then show ?thesis
    using assms frame_encode_hd [of g "concat (map frame_encode gs)"]
    by (simp add: payload_encode_def)
qed (simp add: payload_encode_def)

lemma collect_encode:
  assumes "list_all frame_wf fs" and "padding_merged fs" and "it_ok it"
    and "it_rest it = payload_encode fs"
  shows "collect it = map Inr fs"
  using assms
proof (induction fs arbitrary: it)
  case Nil
  then have "iter_next it = (None, it)"
    by (simp add: iter_next_def payload_encode_def it_rest_def)
  then show ?case
    by (subst collect.simps) simp
next
  case (Cons f fs)
  let ?it' = "(advance (length (frame_encode f)) it)\<lparr>last_frame_type := wire_type f\<rparr>"
  have wf: "frame_wf f" and rest: "it_rest it = frame_encode f @ payload_encode fs"
    using Cons.prems by (simp_all add: payload_encode_def)
  obtain ys where "frame_encode f = varint_encode (wire_type f) @ ys"
    using frame_encode_wire_type [OF wf] .
  then have "0 < length (it_rest it)"
    using rest by (simp add: varint_encode_small wire_type_small)
  then have lt: "it_pos it < length (it_buf it)"
    by (simp add: it_rest_def)
  have "parse_one it = (Inr f, ?it')"
    using parse_one_encode [OF wf Cons.prems(3) rest] payload_after [OF Cons.prems(1,2)] by blast
  then have "iter_next it = (Some (Inr f), ?it')"
    using lt by (simp add: iter_next_def)
  moreover have "collect ?it' = map Inr fs"
    using Cons.prems(1-3) rest by (intro Cons.IH) (auto dest: padding_merged_Cons)
  ultimately show ?case
    by (subst collect.simps) simp
qed

lemma is_padding_pad_len: "is_padding f \<Longrightarrow> f = Padding (pad_len f)"
  by (cases f) auto

lemma merge_padding_merged: "padding_merged (merge_padding fs)"
proof (induction fs)
  case (Cons f fs)
  then show ?case
    by (cases "merge_padding fs"; cases "tl (merge_padding fs)") (auto simp: Let_def)
qed simp

lemma merge_padding_wf: "list_all frame_wf fs \<Longrightarrow> list_all frame_wf (merge_padding fs)"
proof (induction fs)
  case (Cons f fs)
  then show ?case
    using is_padding_pad_len [of f] by (cases "merge_padding fs") (auto simp: Let_def, metis frame_wf.simps(1) add_gr_0)
qed simp

lemma merge_padding_encode: "payload_encode (merge_padding fs) = payload_encode fs"
proof (induction fs)
  case (Cons f fs)
  have "frame_encode (Padding (pad_len f + pad_len g)) = frame_encode f @ frame_encode g" if "is_padding f" "is_padding g" for g
    using is_padding_pad_len that by (metis frame_encode.simps(1) replicate_add)
  then show ?case
    using Cons by (cases "merge_padding fs") (auto simp: payload_encode_def Let_def)
qed (simp add: payload_encode_def)

lemma merge_padding_id: "padding_merged fs \<Longrightarrow> merge_padding fs = fs"
proof (induction fs)
  case (Cons f fs)
  then show ?case by (cases fs) (auto simp: Let_def dest: padding_merged_Cons)
qed simp

lemma it_ok_new [simp]: "it_ok (iter_new buf) \<longleftrightarrow> length buf < usize_limit"
  by (simp add: it_ok_def iter_new_def)

lemma it_rest_new [simp]: "it_rest (iter_new buf) = buf"
  by (simp add: it_rest_def iter_new_def)

text \<open>C10. Decoding the concatenated encodings of any well-formed frames gives exactly those frames, in order and
  without an error, with every run of adjacent padding frames merged into one of the total length; where no two
  padding frames are adjacent, it gives the frames themselves.\<close>

theorem frame_payload_roundtrip:
  assumes "list_all frame_wf fs" and "length (concat (map frame_encode fs)) < usize_limit"
  shows "collect (iter_new (concat (map frame_encode fs))) = map Inr (merge_padding fs) \<and>
    (padding_merged fs \<longrightarrow> collect (iter_new (concat (map frame_encode fs))) = map Inr fs)"
proof -
  have "collect (iter_new (concat (map frame_encode fs))) = map Inr (merge_padding fs)"
    using assms merge_padding_encode [of fs]
    by (intro collect_encode) (simp_all add: merge_padding_wf merge_padding_merged payload_encode_def)
  then show ?thesis using merge_padding_id by simp
qed

theorem frame_payload_roundtrip_witness:
  "collect (iter_new (concat (map frame_encode
     [Ack \<lparr>largest = 9, delay = 3, ranges = [(7, 9), (1, 4)], ecn = None\<rparr>, Padding 3, Padding 2,
      Stream 4 70000 True [1, 2], PathChallenge 7, MaxStreams Uni 5]))) =
   map Inr
     [Ack \<lparr>largest = 9, delay = 3, ranges = [(7, 9), (1, 4)], ecn = None\<rparr>, Padding 5,
      Stream 4 70000 True [1, 2], PathChallenge 7, MaxStreams Uni 5]"
  using frame_payload_roundtrip [of "[Ack \<lparr>largest = 9, delay = 3, ranges = [(7, 9), (1, 4)], ecn = None\<rparr>, Padding 3, Padding 2,
      Stream 4 70000 True [1, 2], PathChallenge 7, MaxStreams Uni 5]"]
  by (simp add: ack_wf_def len_ok_def VARINT_MAX_eq usize_limit_def encode_ack_def varint_size_def)

section \<open>What decoding guarantees\<close>

text \<open>\<open>gives P p\<close>: whatever \<open>p\<close> reads from a payload of at most \<open>2^62 - 1\<close> bytes satisfies \<open>P\<close>.\<close>

definition gives :: "('a \<Rightarrow> bool) \<Rightarrow> (iter \<Rightarrow> frame_error + ('a \<times> iter)) \<Rightarrow> bool" where
  "gives P p \<longleftrightarrow> (\<forall>it x it'. in_buf it \<longrightarrow> length (it_buf it) \<le> unat VARINT_MAX \<longrightarrow>
     p it = Inr (x, it') \<longrightarrow> P x)"

named_theorems gives_intros

lemma givesD:
  "gives P p \<Longrightarrow> p it = Inr (x, it') \<Longrightarrow> in_buf it \<Longrightarrow> length (it_buf it) \<le> unat VARINT_MAX \<Longrightarrow> P x"
  by (simp add: gives_def)

lemma gives_bind:
  assumes "reads p" and "gives Q p" and "\<And>x. Q x \<Longrightarrow> gives P (q x)"
  shows "gives P (\<lambda>it. and_then (p it) (\<lambda>(x, it). q x it))"
  unfolding gives_def
proof (intro allI impI)
  fix it y it'
  assume it: "in_buf it" "length (it_buf it) \<le> unat VARINT_MAX"
    and "and_then (p it) (\<lambda>(x, it). q x it) = Inr (y, it')"
  then obtain x it1 where 1: "p it = Inr (x, it1)" and 2: "q x it1 = Inr (y, it')"
    by (auto simp: and_then_eq_Inr)
  have "steps_to it it1"
    using readsD [OF assms(1) 1 it(1)] .
  then have "in_buf it1" "length (it_buf it1) \<le> unat VARINT_MAX"
    using it by (auto simp: steps_to_def)
  then show "P y"
    using givesD [OF assms(3) 2] givesD [OF assms(2) 1 it] by blast
qed

lemma gives_return [gives_intros]: "P x \<Longrightarrow> gives P (\<lambda>it. Inr (x, it))"
  by (simp add: gives_def)

lemma gives_fail [gives_intros]: "gives P (\<lambda>it. Inl e)"
  by (simp add: gives_def)

lemma gives_if [gives_intros]:
  "(b \<Longrightarrow> gives P p) \<Longrightarrow> (\<not> b \<Longrightarrow> gives P q) \<Longrightarrow> gives P (\<lambda>it. if b then p it else q it)"
  by (simp add: gives_def)

lemma gives_varint: "gives (\<lambda>v. v \<le> VARINT_MAX) iter_varint"
  by (auto simp: gives_def dest: iter_varint_le_MAX)

lemma gives_take: "gives (\<lambda>s. length s = n) (iter_take n)"
  by (auto simp: gives_def iter_take_def and_then_eq_Inr checked_add_usize_def get_range_def
      split: if_splits)

lemma gives_varint_len: "gives (\<lambda>n. n \<le> unat VARINT_MAX) iter_varint_len"
  by (auto simp: gives_def iter_varint_len_eq and_then_eq_Inr word_le_nat_alt
      dest!: iter_varint_le_MAX)

lemmas gives_bind_varint [gives_intros] = gives_bind [OF reads_varint gives_varint]
  and gives_bind_take [gives_intros] = gives_bind [OF reads_take gives_take]
  and gives_bind_varint_len [gives_intros] = gives_bind [OF reads_varint_len gives_varint_len]

lemma gives_varint1 [gives_intros]:
  "(\<And>a. a \<le> VARINT_MAX \<Longrightarrow> P (f a)) \<Longrightarrow> gives P (varint1 f)"
  unfolding varint1_def by (intro gives_intros)

lemma gives_varint2 [gives_intros]:
  "(\<And>a b. a \<le> VARINT_MAX \<Longrightarrow> b \<le> VARINT_MAX \<Longrightarrow> P (f a b)) \<Longrightarrow> gives P (varint2 f)"
  unfolding varint2_def by (intro gives_intros)

lemma gives_varint3 [gives_intros]:
  "(\<And>a b c. a \<le> VARINT_MAX \<Longrightarrow> b \<le> VARINT_MAX \<Longrightarrow> c \<le> VARINT_MAX \<Longrightarrow> P (f a b c)) \<Longrightarrow>
     gives P (varint3 f)"
  unfolding varint3_def by (intro gives_intros)

lemma gives_crypto [gives_intros]: "gives frame_wf parse_crypto"
  unfolding parse_crypto_def by (intro gives_intros) (simp add: len_ok_def)

lemma gives_new_token [gives_intros]: "gives frame_wf parse_new_token"
  unfolding parse_new_token_def by (intro gives_intros) (simp add: len_ok_def)

lemma gives_close [gives_intros]: "gives frame_wf (parse_close app)"
  unfolding parse_close_def
  by (intro gives_bind_varint gives_bind [where Q = "\<lambda>v. v \<le> VARINT_MAX \<and> (app \<longrightarrow> v = 0)"]
      reads_intros gives_intros gives_varint) (auto simp: len_ok_def VARINT_MAX_eq gives_def
      dest: iter_varint_le_MAX)

lemma gives_stream_data:
  "gives len_ok (\<lambda>it. if b then and_then (iter_varint_len it) (\<lambda>(len, it). iter_take len it)
     else Inr (drop (it_pos it) (it_buf it), it\<lparr>it_pos := length (it_buf it)\<rparr>))"
proof (intro gives_if)
  show "gives len_ok (\<lambda>it. and_then (iter_varint_len it) (\<lambda>(len, it). iter_take len it))"
    using gives_take by (intro gives_bind_varint_len) (auto simp: gives_def len_ok_def)
  show "gives len_ok (\<lambda>it. Inr (drop (it_pos it) (it_buf it), it\<lparr>it_pos := length (it_buf it)\<rparr>))"
    by (auto simp: gives_def len_ok_def)
qed

lemma gives_stream [gives_intros]: "gives frame_wf (parse_stream ty)"
  unfolding parse_stream_def
  by (intro gives_bind_varint gives_bind [OF _ gives_stream_data]
      gives_bind [where Q = "\<lambda>v. v \<le> VARINT_MAX"] reads_intros gives_intros gives_varint)
    (auto simp: gives_def dest: iter_varint_le_MAX)

lemma gives_new_connection_id [gives_intros]: "gives frame_wf parse_new_connection_id"
  by (auto simp: gives_def parse_new_connection_id_def and_then_eq_Inr Let_def
      dest!: iter_varint_le_MAX split: if_splits
      dest: givesD [OF gives_take])
    (auto simp: iter_take_def and_then_eq_Inr checked_add_usize_def get_range_def split: if_splits)

text \<open>Each ACK range costs at least two bytes, so the range count a peer announces cannot make the
  decoder allocate more ranges than half the payload.\<close>

lemma parse_ack_ranges_sound:
  assumes "parse_ack_ranges k smallest it = Inr (rs, it')" and "in_buf it" and "smallest \<le> high"
  shows "length rs = k \<and> it_pos it + 2 * k \<le> it_pos it' \<and> ack_ranges_wf ((smallest, high) # rs)"
  using assms
proof (induction k arbitrary: smallest high it rs)
  case 0
  then show ?case by simp
next
  case (Suc k)
  obtain gap len high' low rs' it1 it2 where
    1: "iter_varint it = Inr (gap, it1)" and 2: "iter_varint it1 = Inr (len, it2)"
    and h: "checked_sub_u64 smallest (gap + 2) = Some high'"
    and l: "checked_sub_u64 high' len = Some low"
    and 3: "parse_ack_ranges k low it2 = Inr (rs', it')" and rs: "rs = (low, high') # rs'"
    using Suc.prems(1) by (auto simp: and_then_eq_Inr ok_or_def split: option.splits)
  have s1: "steps_to it it1 \<and> it_pos it < it_pos it1"
    using iter_varint_steps [OF 1 Suc.prems(2)] .
  then have s2: "steps_to it1 it2 \<and> it_pos it1 < it_pos it2"
    using iter_varint_steps [OF 2] by (simp add: steps_to_def)
  have low: "low \<le> high'"
    using l by (auto simp: checked_sub_u64_def word_sub_le_self split: if_splits)
  have "unat (gap + 2) = unat gap + 2"
    using iter_varint_le_MAX [OF 1]
    by (subst unat_add_lem [THEN iffD1]) (simp_all add: VARINT_MAX_eq word_le_nat_alt)
  then have "unat high' + 2 \<le> unat smallest"
    using h by (auto simp: checked_sub_u64_def unat_sub word_le_nat_alt split: if_splits)
  then show ?case
    using Suc.IH [OF 3 _ low] s1 s2 Suc.prems(3) by (auto simp: rs steps_to_def)
qed

lemma parse_ack_sound:
  assumes "parse_ack e it = Inr (f, it')" and "in_buf it" and "length (it_buf it) \<le> unat VARINT_MAX"
  shows "frame_wf f"
proof -
  obtain lgst it1 dly it2 range_count it3 first_range it4 rs it5 ec where
    p: "iter_varint it = Inr (lgst, it1)" "iter_varint it1 = Inr (dly, it2)"
      "iter_varint it2 = Inr (range_count, it3)" "iter_varint it3 = Inr (first_range, it4)"
    and fr: "first_range \<le> lgst"
    and 2: "parse_ack_ranges (unat range_count) (lgst - first_range) it4 = Inr (rs, it5)"
    and 3: "parse_ecn e it5 = Inr (ec, it')"
    and f: "f = Ack \<lparr>largest = lgst, delay = dly, ranges = (lgst - first_range, lgst) # rs, ecn = ec\<rparr>"
    using assms(1)
    by (clarsimp simp: parse_ack_def and_then_eq_Inr ok_or_def checked_sub_u64_def
        split: option.splits if_splits)
  have "steps_to it it1" "it_pos it < it_pos it1" "steps_to it1 it2" "steps_to it2 it3" "steps_to it3 it4"
    using iter_varint_steps p assms(2) by (meson steps_to_in_buf)+
  then have 1: "lgst \<le> VARINT_MAX" "dly \<le> VARINT_MAX" "steps_to it it4" "it_pos it < it_pos it4"
    using p(1,2) by (auto simp: steps_to_def dest: iter_varint_le_MAX)
  have low: "lgst - first_range \<le> lgst"
    using fr by (rule word_sub_le_self)
  have r: "length rs = unat range_count" "it_pos it4 + 2 * unat range_count \<le> it_pos it5"
    "ack_ranges_wf ((lgst - first_range, lgst) # rs)" "steps_to it4 it5"
    using parse_ack_ranges_sound [OF 2 _ low] readsD [OF reads_ack_ranges 2] 1(3)
    by (auto simp: steps_to_def)
  then have "length rs < length (it_buf it)"
    using 1 by (auto simp: steps_to_def in_buf_def)
  moreover have "case ec of None \<Rightarrow> True
        | Some c \<Rightarrow> ect0 c \<le> VARINT_MAX \<and> ect1 c \<le> VARINT_MAX \<and> ce c \<le> VARINT_MAX"
    using 3 by (auto simp: parse_ecn_def and_then_eq_Inr dest: iter_varint_le_MAX split: if_splits)
  ultimately show ?thesis
    using 1 r assms(3) by (simp add: f ack_wf_def)
qed

lemma gives_ack [gives_intros]: "gives frame_wf (parse_ack e)"
  by (auto simp: gives_def dest: parse_ack_sound)

lemma gives_padding [gives_intros]: "gives frame_wf parse_padding"
  by (auto simp: gives_def parse_padding_def Let_def)

lemma gives_path [gives_intros]:
  "gives frame_wf (\<lambda>it. and_then (iter_u64_be it) (\<lambda>(d, it). Inr (PathChallenge d, it)))"
  "gives frame_wf (\<lambda>it. and_then (iter_u64_be it) (\<lambda>(d, it). Inr (PathResponse d, it)))"
  by (auto simp: gives_def and_then_eq_Inr)

lemma gives_body: "gives frame_wf (parse_body ty)"
  unfolding parse_body_def by (intro gives_intros) simp_all

lemma parse_one_sound:
  assumes "parse_one it = (Inr f, it')" and "in_buf it" and "length (it_buf it) \<le> unat VARINT_MAX"
  shows "frame_wf f"
proof -
  obtain ty it1 where 1: "iter_varint (it\<lparr>last_frame_type := 0\<rparr>) = Inr (ty, it1)"
    and 2: "parse_body ty (it1\<lparr>last_frame_type := ty\<rparr>) = Inr (f, it')"
    using assms(1) by (auto simp: parse_one_def Let_def split: sum.splits)
  have "steps_to (it\<lparr>last_frame_type := 0\<rparr>) it1"
    using iter_varint_steps [OF 1] assms(2) by simp
  then show ?thesis
    using givesD [OF gives_body 2] assms(3) by (simp add: steps_to_def)
qed

lemma iter_next_sound:
  assumes "iter_next it = (Some (Inr f), it')" and "length (it_buf it) \<le> unat VARINT_MAX"
  shows "frame_wf f"
  using assms parse_one_sound [of it f]
  by (auto simp: iter_next_def Let_def in_buf_def split: if_splits prod.splits)

lemma iter_next_error_stops:
  "iter_next it = (Some (Inl e), it') \<Longrightarrow> length (it_buf it') \<le> it_pos it'"
  by (auto simp: iter_next_def Let_def split: if_splits prod.splits)

lemma collect_sound:
  assumes "length (it_buf it) \<le> unat VARINT_MAX"
  shows "\<exists>fs tail. collect it = map Inr fs @ tail \<and> list_all frame_wf fs
     \<and> (tail = [] \<or> (\<exists>e. tail = [Inl e])) \<and> length (collect it) \<le> length (it_buf it) - it_pos it"
  using assms
proof (induction it rule: collect.induct)
  case (1 it)
  show ?case
  proof (cases "iter_next it")
    case (Pair r it')
    show ?thesis
    proof (cases r)
      case None
      then have "collect it = []"
        using Pair by (subst collect.simps) simp
      then show ?thesis by auto
    next
      case (Some res)
      note nx = Pair [unfolded Some]
      have c: "collect it = res # collect it'"
        using nx by (subst collect.simps) simp
      note step = iter_next_progress [OF nx]
      show ?thesis
      proof (cases res)
        case (Inl e)
        have "iter_next it' = (None, it')"
          using nx iter_next_error_stops [of it e it'] by (simp add: Inl iter_next_def)
        then have "collect it' = []"
          by (subst collect.simps) simp
        then have "collect it = map Inr [] @ [Inl e]"
          using c by (simp add: Inl)
        then show ?thesis
          using step by (intro exI [of _ "[]"] exI [of _ "[Inl e]"]) auto
      next
        case (Inr f)
        have "length (it_buf it') \<le> unat VARINT_MAX"
          using step "1.prems" by simp
        from "1.IH" [OF nx [symmetric] refl this] obtain fs tail where
          ih: "collect it' = map Inr fs @ tail" "list_all frame_wf fs"
            "tail = [] \<or> (\<exists>e. tail = [Inl e])"
            "length (collect it') \<le> length (it_buf it') - it_pos it'"
          by blast
        have "frame_wf f"
          using iter_next_sound nx "1.prems" by (simp add: Inr)
        then show ?thesis
          using ih step c by (intro exI [of _ "f # fs"] exI [of _ tail]) (auto simp: Inr)
      qed
    qed
  qed
qed

text \<open>C16. Whatever bytes arrive, draining the iterator ends after at most one item per payload byte;
  every frame it yields is well-formed (varints below \<open>2^62\<close>, descending ACK ranges with a gap and
  headed by the largest acknowledged, connection ids of 1 to 20 bytes), and an error is the last
  item.\<close>

theorem frame_collect_sound:
  assumes "length buf \<le> unat VARINT_MAX"
  shows "\<exists>fs tail. collect (iter_new buf) = map Inr fs @ tail \<and> list_all frame_wf fs
     \<and> (tail = [] \<or> (\<exists>e. tail = [Inl e])) \<and> length (collect (iter_new buf)) \<le> length buf"
  using collect_sound [of "iter_new buf"] assms by (simp add: iter_new_def)

theorem frame_collect_sound_witness:
  "\<exists>fs tail. collect (iter_new [1, 0, 0, 0x1f]) = map Inr fs @ tail \<and> list_all frame_wf fs
     \<and> (tail = [] \<or> (\<exists>e. tail = [Inl e])) \<and> length (collect (iter_new [1, 0, 0, 0x1f])) \<le> length [1, 0, 0, 0x1f :: byte]"
  using frame_collect_sound [of "[1, 0, 0, 0x1f]"] by (simp add: VARINT_MAX_eq)

end
