(* ===== verification/Packet.thy ===== *)
theory Packet
  imports Varint
begin

text \<open>
  QUIC packet headers and packet-number coding: \<open>transport/udp/quic/packet.rs\<close>. A packet number is
  sent truncated to 1-4 bytes and reconstructed from the largest number the receiver has processed.
  Packet numbers and header fields are 64-bit words, as in the source; buffer offsets are natural
  numbers. The \<open>Cursor\<close> is a record passed through the reads. \<open>ConnectionId::new\<close> asserts its
  length: the assertion is the error value \<open>CidAssert\<close>, which the lemmas show to be unreachable.
\<close>

unbundle bit_operations_syntax

section \<open>Data\<close>

definition MAX_CID_LEN :: nat where "MAX_CID_LEN = 20"
definition LONG_HEADER_FORM :: byte where "LONG_HEADER_FORM = 0x80"
definition FIXED_BIT :: byte where "FIXED_BIT = 0x40"
definition SPIN_BIT :: byte where "SPIN_BIT = 0x20"
definition KEY_PHASE_BIT :: byte where "KEY_PHASE_BIT = 0x04"
definition PN_LEN_MASK :: byte where "PN_LEN_MASK = 0x03"
definition LONG_TYPE_MASK :: byte where "LONG_TYPE_MASK = 0x30"
definition LONG_RESERVED_BITS :: byte where "LONG_RESERVED_BITS = 0x0c"
definition SHORT_RESERVED_BITS :: byte where "SHORT_RESERVED_BITS = 0x18"

lemmas first_byte_defs = LONG_HEADER_FORM_def FIXED_BIT_def SPIN_BIT_def KEY_PHASE_BIT_def
  PN_LEN_MASK_def LONG_TYPE_MASK_def LONG_RESERVED_BITS_def SHORT_RESERVED_BITS_def

datatype long_type = Initial | ZeroRtt | Handshake | Retry

definition from_first_byte :: "byte \<Rightarrow> long_type" where
  "from_first_byte b =
     (let t = b AND LONG_TYPE_MASK
      in if t = 0x00 then Initial else if t = 0x10 then ZeroRtt else if t = 0x20 then Handshake
         else Retry)"

fun type_bits :: "long_type \<Rightarrow> byte" where
  "type_bits Initial = 0x00"
| "type_bits ZeroRtt = 0x10"
| "type_bits Handshake = 0x20"
| "type_bits Retry = 0x30"

text \<open>The last constructor is the panic of the assertion in \<open>ConnectionId::new\<close>.\<close>

datatype decode_error = HdrTruncated | CidTooLong | MissingFixedBit | UnsupportedPacketType
  | ReservedBitsSet | CidAssert

record connection_id =
  cid_bytes :: bytes
  cid_len :: byte

definition cid_new :: "bytes \<Rightarrow> decode_error + connection_id" where
  "cid_new s =
     (if length s \<le> MAX_CID_LEN then
        Inr \<lparr>cid_bytes = s @ replicate (MAX_CID_LEN - length s) 0, cid_len = of_nat (length s)\<rparr>
      else Inl CidAssert)"

definition cid_as_slice :: "connection_id \<Rightarrow> bytes" where
  "cid_as_slice c = take (unat (cid_len c)) (cid_bytes c)"

definition cid_length :: "connection_id \<Rightarrow> nat" where
  "cid_length c = unat (cid_len c)"

definition cid_is_empty :: "connection_id \<Rightarrow> bool" where
  "cid_is_empty c \<longleftrightarrow> cid_len c = 0"

text \<open>The fields of \<open>Header::Long\<close> are \<open>ty\<close>, \<open>version\<close>, \<open>dcid\<close>, \<open>scid\<close>, \<open>token\<close>, \<open>length\<close>,
  \<open>packet_number\<close> and \<open>pn_len\<close>; those of \<open>Header::Short\<close> are \<open>spin\<close>, \<open>key_phase\<close>, \<open>dcid\<close>,
  \<open>packet_number\<close> and \<open>pn_len\<close>.\<close>

datatype header =
    Long long_type u32 connection_id connection_id bytes u64 u64 nat
  | Short bool bool connection_id u64 nat

fun packet_number :: "header \<Rightarrow> u64" where
  "packet_number (Long ty version dcid scid token len pn pn_len) = pn"
| "packet_number (Short spin key_phase dcid pn pn_len) = pn"

fun header_pn_len :: "header \<Rightarrow> nat" where
  "header_pn_len (Long ty version dcid scid token len pn pn_len) = pn_len"
| "header_pn_len (Short spin key_phase dcid pn pn_len) = pn_len"

datatype packet_space = SpaceInitial | SpaceZeroRtt | SpaceHandshake | SpaceOneRtt

section \<open>Packet numbers\<close>

text \<open>The product \<open>u128::from(num_unacked) * 2\<close> cannot overflow, so it is a natural number.\<close>

definition encode_packet_number :: "u64 \<Rightarrow> u64 option \<Rightarrow> bytes \<times> nat" where
  "encode_packet_number full_pn largest_acked =
     (let num_unacked =
            (case largest_acked of
               Some lgst \<Rightarrow> saturating_sub_u64 full_pn lgst
             | None \<Rightarrow> saturating_add_u64 full_pn 1);
          twice = unat num_unacked * 2;
          len = (if twice < 2 ^ 8 then 1 else if twice < 2 ^ 16 then 2
                 else if twice < 2 ^ 24 then 3 else 4)
      in (drop (8 - len) (be_bytes 8 full_pn) @ replicate (4 - len) 0, len))"

definition decode_packet_number :: "u64 \<Rightarrow> u64 \<Rightarrow> nat \<Rightarrow> u64" where
  "decode_packet_number largest_pn truncated pn_len =
     (let pn_len = max 1 (min 4 pn_len);
          pn_nbits = pn_len * 8;
          expected = largest_pn + 1;
          pn_win = push_bit pn_nbits (1 :: u64);
          pn_hwin = pn_win div 2;
          pn_mask = pn_win - 1;
          candidate = (expected AND NOT pn_mask) OR truncated
      in if saturating_add_u64 candidate pn_hwin \<le> expected \<and> candidate < push_bit 62 1 - pn_win
         then candidate + pn_win
         else if saturating_add_u64 expected pn_hwin < candidate \<and> pn_win \<le> candidate
         then candidate - pn_win
         else candidate)"

section \<open>The cursor\<close>

record cursor =
  c_buf :: bytes
  c_pos :: nat

definition cursor_new :: "bytes \<Rightarrow> cursor" where
  "cursor_new buf = \<lparr>c_buf = buf, c_pos = 0\<rparr>"

definition cur_skip :: "nat \<Rightarrow> cursor \<Rightarrow> decode_error + cursor" where
  "cur_skip n c =
     and_then (ok_or (checked_add_usize (c_pos c) n) HdrTruncated) (\<lambda>e.
     if length (c_buf c) < e then Inl HdrTruncated else Inr (c\<lparr>c_pos := e\<rparr>))"

definition cur_take :: "nat \<Rightarrow> cursor \<Rightarrow> decode_error + (bytes \<times> cursor)" where
  "cur_take n c =
     and_then (ok_or (checked_add_usize (c_pos c) n) HdrTruncated) (\<lambda>e.
     and_then (ok_or (get_range (c_buf c) (c_pos c) e) HdrTruncated) (\<lambda>s.
     Inr (s, c\<lparr>c_pos := e\<rparr>)))"

definition cur_u32 :: "cursor \<Rightarrow> decode_error + (u32 \<times> cursor)" where
  "cur_u32 c = and_then (cur_take 4 c) (\<lambda>(s, c). Inr (from_be s, c))"

definition cur_varint :: "cursor \<Rightarrow> decode_error + (u64 \<times> cursor)" where
  "cur_varint c =
     and_then (ok_or (get_from (c_buf c) (c_pos c)) HdrTruncated) (\<lambda>rest.
     and_then (ok_or (varint_decode rest) HdrTruncated) (\<lambda>(v, n).
     Inr (v, c\<lparr>c_pos := c_pos c + n\<rparr>)))"

definition cur_cid :: "cursor \<Rightarrow> decode_error + (connection_id \<times> cursor)" where
  "cur_cid c =
     and_then (ok_or (get_at (c_buf c) (c_pos c)) HdrTruncated) (\<lambda>b.
     if MAX_CID_LEN < unat b then Inl CidTooLong
     else
       and_then (cur_take (unat b) (c\<lparr>c_pos := c_pos c + 1\<rparr>)) (\<lambda>(s, c).
       and_then (cid_new s) (\<lambda>cid. Inr (cid, c))))"

text \<open>\<open>usize::try_from(c.varint()?)\<close>.\<close>

definition cur_varint_usize :: "cursor \<Rightarrow> decode_error + (nat \<times> cursor)" where
  "cur_varint_usize c =
     and_then (cur_varint c) (\<lambda>(v, c).
     if unat v < usize_limit then Inr (unat v, c) else Inl HdrTruncated)"

section \<open>Headers\<close>

definition read_pn :: "bytes \<Rightarrow> nat \<Rightarrow> nat \<Rightarrow> decode_error + u64" where
  "read_pn buf pn_offset pn_len =
     and_then (ok_or (get_range buf pn_offset (pn_offset + pn_len)) HdrTruncated) (\<lambda>bs.
     Inr (foldl (\<lambda>pn b. push_bit 8 pn OR ucast b) 0 bs))"

text \<open>\<open>Header::encode\<close> returns the extended output and the packet-number offset in it.\<close>

fun header_encode :: "header \<Rightarrow> bytes \<Rightarrow> bytes \<times> nat" where
  "header_encode (Long ty version dcid scid token len pn pn_len) out =
     (let first = LONG_HEADER_FORM OR FIXED_BIT OR type_bits ty OR (of_nat pn_len - 1);
          out = out @ [first];
          out = out @ be_bytes 4 version;
          out = out @ [of_nat (cid_length dcid)];
          out = out @ cid_as_slice dcid;
          out = out @ [of_nat (cid_length scid)];
          out = out @ cid_as_slice scid;
          out = (if ty = Initial then out @ varint_encode (of_nat (length token)) @ token else out);
          out = out @ varint_encode len;
          pn_offset = length out
      in (out @ drop (8 - pn_len) (be_bytes 8 pn), pn_offset))"
| "header_encode (Short spin key_phase dcid pn pn_len) out =
     (let first = FIXED_BIT OR (of_nat pn_len - 1);
          first = (if spin then first OR SPIN_BIT else first);
          first = (if key_phase then first OR KEY_PHASE_BIT else first);
          out = out @ [first];
          out = out @ cid_as_slice dcid;
          pn_offset = length out
      in (out @ drop (8 - pn_len) (be_bytes 8 pn), pn_offset))"

definition decode_long :: "bytes \<Rightarrow> byte \<Rightarrow> u64 \<Rightarrow> decode_error + (header \<times> nat)" where
  "decode_long buf first largest_pn =
     (let ty = from_first_byte first in
      if ty \<notin> {Initial, ZeroRtt, Handshake} then Inl UnsupportedPacketType
      else if first AND LONG_RESERVED_BITS \<noteq> 0 then Inl ReservedBitsSet
      else
        and_then (cur_skip 1 (cursor_new buf)) (\<lambda>c.
        and_then (cur_u32 c) (\<lambda>(version, c).
        and_then (cur_cid c) (\<lambda>(dcid, c).
        and_then (cur_cid c) (\<lambda>(scid, c).
        and_then
          (if ty = Initial then
             and_then (cur_varint_usize c) (\<lambda>(tlen, c). cur_take tlen c)
           else Inr ([], c)) (\<lambda>(token, c).
        and_then (cur_varint c) (\<lambda>(len, c).
        let pn_offset = c_pos c;
            pn_len = unat ((first AND PN_LEN_MASK) + 1)
        in and_then (read_pn buf pn_offset pn_len) (\<lambda>t.
           Inr (Long ty version dcid scid token len (decode_packet_number largest_pn t pn_len) pn_len,
                pn_offset + pn_len)))))))))"

definition decode_short :: "bytes \<Rightarrow> byte \<Rightarrow> nat \<Rightarrow> u64 \<Rightarrow> decode_error + (header \<times> nat)" where
  "decode_short buf first local_cid_len largest_pn =
     (if first AND SHORT_RESERVED_BITS \<noteq> 0 then Inl ReservedBitsSet
      else if MAX_CID_LEN < local_cid_len then Inl CidTooLong
      else
        let pn_offset = 1 + local_cid_len
        in and_then (ok_or (get_range buf 1 pn_offset) HdrTruncated) (\<lambda>s.
           and_then (cid_new s) (\<lambda>dcid.
           let pn_len = unat ((first AND PN_LEN_MASK) + 1)
           in and_then (read_pn buf pn_offset pn_len) (\<lambda>t.
              Inr (Short (first AND SPIN_BIT \<noteq> 0) (first AND KEY_PHASE_BIT \<noteq> 0) dcid
                     (decode_packet_number largest_pn t pn_len) pn_len,
                   pn_offset + pn_len)))))"

definition header_decode :: "bytes \<Rightarrow> nat \<Rightarrow> u64 \<Rightarrow> decode_error + (header \<times> nat)" where
  "header_decode buf local_cid_len largest_pn =
     and_then (ok_or (get_at buf 0) HdrTruncated) (\<lambda>first.
     if first AND FIXED_BIT = 0 then Inl MissingFixedBit
     else if first AND LONG_HEADER_FORM \<noteq> 0 then decode_long buf first largest_pn
     else decode_short buf first local_cid_len largest_pn)"

definition locate_pn_offset :: "bytes \<Rightarrow> nat \<Rightarrow> decode_error + nat" where
  "locate_pn_offset buf local_cid_len =
     and_then (ok_or (get_at buf 0) HdrTruncated) (\<lambda>first.
     if first AND FIXED_BIT = 0 then Inl MissingFixedBit
     else if first AND LONG_HEADER_FORM = 0 then
       (if MAX_CID_LEN < local_cid_len then Inl CidTooLong else Inr (1 + local_cid_len))
     else
       let ty = from_first_byte first in
       if ty \<notin> {Initial, ZeroRtt, Handshake} then Inl UnsupportedPacketType
       else
         and_then (cur_skip 1 (cursor_new buf)) (\<lambda>c.
         and_then (cur_skip 4 c) (\<lambda>c.
         and_then (cur_cid c) (\<lambda>(_, c).
         and_then (cur_cid c) (\<lambda>(_, c).
         and_then
           (if ty = Initial then and_then (cur_varint_usize c) (\<lambda>(tlen, c). cur_skip tlen c)
            else Inr c) (\<lambda>c.
         and_then (cur_varint c) (\<lambda>(_, c). Inr (c_pos c))))))))"

definition first_packet_space :: "bytes \<Rightarrow> packet_space option" where
  "first_packet_space datagram =
     (case get_at datagram 0 of
        None \<Rightarrow> None
      | Some first \<Rightarrow>
          if first AND FIXED_BIT = 0 then None
          else if first AND LONG_HEADER_FORM = 0 then Some SpaceOneRtt
          else (case from_first_byte first of
                  Initial \<Rightarrow> Some SpaceInitial
                | ZeroRtt \<Rightarrow> Some SpaceZeroRtt
                | Handshake \<Rightarrow> Some SpaceHandshake
                | Retry \<Rightarrow> None))"

definition peek_long_cids :: "bytes \<Rightarrow> decode_error + (connection_id \<times> connection_id)" where
  "peek_long_cids datagram =
     and_then (ok_or (get_at datagram 0) HdrTruncated) (\<lambda>first.
     if first AND LONG_HEADER_FORM = 0 then Inl UnsupportedPacketType
     else
       and_then (cur_skip 1 (cursor_new datagram)) (\<lambda>c.
       and_then (cur_skip 4 c) (\<lambda>c.
       and_then (cur_cid c) (\<lambda>(dcid, c).
       and_then (cur_cid c) (\<lambda>(scid, c).
       Inr (dcid, scid))))))"

text \<open>\<open>long_packet_len\<close> returns an option: every error of the cursor becomes \<open>None\<close>.\<close>

definition ok_opt :: "'e + 'a \<Rightarrow> 'a option" where
  "ok_opt r = (case r of Inl _ \<Rightarrow> None | Inr x \<Rightarrow> Some x)"

definition long_packet_len :: "bytes \<Rightarrow> nat option" where
  "long_packet_len buf =
     (case get_at buf 0 of
        None \<Rightarrow> None
      | Some first \<Rightarrow>
          if first AND FIXED_BIT = 0 \<or> first AND LONG_HEADER_FORM = 0 then None
          else
            let ty = from_first_byte first in
            if ty \<notin> {Initial, ZeroRtt, Handshake} then None
            else
              ok_opt
                (and_then (cur_skip 1 (cursor_new buf)) (\<lambda>c.
                 and_then (cur_skip 4 c) (\<lambda>c.
                 and_then (cur_cid c) (\<lambda>(_, c).
                 and_then (cur_cid c) (\<lambda>(_, c).
                 and_then
                   (if ty = Initial then and_then (cur_varint_usize c) (\<lambda>(tlen, c). cur_skip tlen c)
                    else Inr c) (\<lambda>c.
                 and_then (cur_varint_usize c) (\<lambda>(len, c).
                 and_then (ok_or (checked_add_usize (c_pos c) len) HdrTruncated) (\<lambda>total.
                 if total \<le> length buf then Inr total else Inl HdrTruncated)))))))))"

section \<open>Packet-number reconstruction\<close>

lemma replace_low_bits:
  fixes x t :: "'a::len word"
  assumes "take_bit n t = t"
  shows "(x AND NOT (push_bit n 1 - 1)) OR t = x - take_bit n x + t"
proof -
  have high: "x - take_bit n x = x AND NOT (take_bit n x)"
    by (rule disjunctive_diff) (simp add: bit_simps)
  have mask: "(push_bit n 1 - 1 :: 'a word) = mask n"
    by (simp add: mask_eq_exp_minus_1)
  have t: "bit t i \<Longrightarrow> i < n" for i
    using assms by (metis bit_take_bit_iff)
  have eq: "x AND NOT (take_bit n x) = x AND NOT (mask n)"
    by (rule bit_word_eqI) (auto simp: bit_simps)
  have "(x AND NOT (mask n)) + t = (x AND NOT (mask n)) OR t"
    by (rule disjunctive_add) (use t in \<open>auto simp: bit_simps\<close>)
  then show ?thesis
    unfolding mask high eq by simp
qed

lemma unat_replace_low_bits:
  fixes x t :: u64
  assumes "unat t < 2 ^ n" and "n \<le> 63" and "unat x < 2 ^ 63"
  shows "unat ((x AND NOT (push_bit n 1 - 1)) OR t) = unat x - unat x mod 2 ^ n + unat t"
proof -
  have t: "take_bit n t = t"
    using assms(1) by (metis take_bit_nat_eq_self_iff unsigned_take_bit_eq unsigned_word_eqI)
  have u: "unat (take_bit n x) = unat x mod 2 ^ n"
    by (simp only: unsigned_take_bit_eq take_bit_eq_mod [where 'a = nat])
  have "take_bit n x \<le> x"
    by (simp add: word_le_nat_alt u)
  then have d: "unat (x - take_bit n x) = unat x - unat x mod 2 ^ n"
    by (simp add: unat_sub word_le_nat_alt u)
  have "(2::nat) ^ n \<le> 2 ^ 63"
    using assms(2) by (rule power_increasing) simp
  then have "unat (x - take_bit n x) + unat t < 2 ^ 64"
    using assms d by simp
  then show ?thesis
    unfolding replace_low_bits [OF t] using d
    by (subst unat_add_lem [THEN iffD1]) simp_all
qed

text \<open>The arithmetic of RFC 9000 A.3: the one number congruent to the truncated value within half a
  window of the expected number.\<close>

lemma window_arith:
  fixes e pn h :: nat
  assumes "e < pn + h" and "pn \<le> e + h" and "0 < h"
  defines "c \<equiv> e - e mod (2 * h) + pn mod (2 * h)"
  shows "c + h \<le> e \<Longrightarrow> pn = c + 2 * h"
    and "e + h < c \<Longrightarrow> c = pn + 2 * h"
    and "\<not> c + h \<le> e \<Longrightarrow> \<not> e + h < c \<Longrightarrow> pn = c"
proof -
  let ?w = "2 * h"
  define q r where "q = e div ?w" and "r = e mod ?w"
  define q' r' where "q' = pn div ?w" and "r' = pn mod ?w"
  have e: "e = q * ?w + r" and pn: "pn = q' * ?w + r'"
    unfolding q_def r_def q'_def r'_def by (rule div_mult_mod_eq [symmetric])+
  have r: "r < ?w" "r' < ?w"
    using assms(3) by (simp_all add: r_def r'_def)
  have c: "c = q * ?w + r'"
  proof -
    have "c = e - r + r'"
      by (simp only: c_def r_def r'_def)
    with e show ?thesis by simp
  qed
  have le: "x < y \<Longrightarrow> x * ?w + ?w \<le> y * ?w" for x y :: nat
    using mult_le_mono1 [of "Suc x" y ?w] by simp
  have "q' < q \<Longrightarrow> Suc q' = q"
  proof (rule ccontr)
    assume "q' < q" "Suc q' \<noteq> q"
    then have "q' * ?w + ?w + ?w \<le> q * ?w"
      using le [of q' "Suc q'"] le [of "Suc q'" q] by simp
    then show False using e pn r assms(1) by linarith
  qed
  moreover have "q < q' \<Longrightarrow> Suc q = q'"
  proof (rule ccontr)
    assume "q < q'" "Suc q \<noteq> q'"
    then have "q * ?w + ?w + ?w \<le> q' * ?w"
      using le [of q "Suc q"] le [of "Suc q" q'] by simp
    then show False using e pn r assms(2) by linarith
  qed
  ultimately consider "q' = q" | "q = Suc q'" | "q' = Suc q"
    by (cases q q' rule: linorder_cases) auto
  then have "(c + h \<le> e \<longrightarrow> pn = c + ?w) \<and> (e + h < c \<longrightarrow> c = pn + ?w)
      \<and> (\<not> c + h \<le> e \<longrightarrow> \<not> e + h < c \<longrightarrow> pn = c)"
    by cases (use assms(1,2) r in \<open>auto simp: e pn c\<close>)
  then show "c + h \<le> e \<Longrightarrow> pn = c + 2 * h" and "e + h < c \<Longrightarrow> c = pn + 2 * h"
    and "\<not> c + h \<le> e \<Longrightarrow> \<not> e + h < c \<Longrightarrow> pn = c"
    by blast+
qed

lemma unat_pn_win:
  assumes "1 \<le> k" "k \<le> 4"
  shows "unat (push_bit (k * 8) (1 :: u64)) = 2 ^ (k * 8)"
    and "unat (push_bit (k * 8) (1 :: u64) div 2) = 2 ^ (k * 8 - 1)"
    and "unat (push_bit 62 1 - push_bit (k * 8) (1 :: u64)) = 2 ^ 62 - 2 ^ (k * 8)"
proof -
  have "k = 1 \<or> k = 2 \<or> k = 3 \<or> k = 4"
    using assms by auto
  then show "unat (push_bit (k * 8) (1 :: u64)) = 2 ^ (k * 8)"
    and "unat (push_bit (k * 8) (1 :: u64) div 2) = 2 ^ (k * 8 - 1)"
    and "unat (push_bit 62 1 - push_bit (k * 8) (1 :: u64)) = 2 ^ 62 - 2 ^ (k * 8)"
    by (auto simp: unat_div)
qed

lemma unat_saturating_add_u64:
  "unat (saturating_add_u64 a b) = min (2 ^ 64 - 1) (unat a + unat b)"
proof (cases "unat a + unat b < 2 ^ 64")
  case True
  then show ?thesis
    by (simp add: saturating_add_u64_def unat_word_ariths)
qed (simp add: saturating_add_u64_def unsigned_minus_1_eq_mask mask_eq_exp_minus_1)

lemma decode_packet_number_correct:
  assumes k: "1 \<le> k" "k \<le> 4"
    and big: "unat largest + 1 < 2 ^ 62" "unat pn < 2 ^ 62"
    and near: "unat largest + 1 < unat pn + 2 ^ (8 * k - 1)" "unat pn \<le> unat largest + 1 + 2 ^ (8 * k - 1)"
    and t: "t = take_bit (8 * k) pn"
  shows "decode_packet_number largest t k = pn"
proof -
  define win :: u64 where "win = push_bit (k * 8) 1"
  define e c where "e = largest + 1" and "c = (e AND NOT (win - 1)) OR t"
  let ?h = "2 ^ (8 * k - 1) :: nat"
  have w: "2 * ?h = 2 ^ (8 * k)"
    using k(1) by (simp flip: power_Suc)
  have win: "unat win = 2 * ?h" "unat (win div 2) = ?h" "unat (push_bit 62 1 - win) = 2 ^ 62 - 2 * ?h"
    using unat_pn_win [OF k] unfolding win_def w by (simp_all only: mult.commute)
  have h: "0 < ?h" "?h \<le> 2 ^ 31"
    using k(2) by (simp, intro power_increasing) auto
  have e: "unat e = unat largest + 1"
    using big(1) unfolding e_def by (subst unat_add_lem [THEN iffD1]) simp_all
  have tt: "unat t = unat pn mod 2 ^ (8 * k)"
    unfolding t by (simp only: unsigned_take_bit_eq take_bit_eq_mod [where 'a = nat])
  have c: "unat c = unat e - unat e mod (2 * ?h) + unat pn mod (2 * ?h)"
    unfolding c_def w win_def using unat_replace_low_bits [of t "8 * k" e] k(2) big(1) e tt
    by (simp add: mult.commute)
  note arith = window_arith [of "unat e" "unat pn" ?h, folded c, OF _ _ h(1)]
  have small: "unat c < 2 ^ 63" "unat e < 2 ^ 63"
  proof -
    have "unat pn mod (2 * ?h) < 2 * ?h"
      using h(1) by simp
    moreover have "(2::nat) ^ 63 = 2 * 2 ^ 62" "(2::nat) * 2 ^ 31 \<le> 2 ^ 62"
      by simp_all
    ultimately show "unat c < 2 ^ 63" "unat e < 2 ^ 63"
      using c e big(1) h by linarith+
  qed
  have sat: "unat (saturating_add_u64 x (win div 2)) = unat x + ?h" if "unat x < 2 ^ 63" for x
    using that h by (simp add: unat_saturating_add_u64 win(2))
  have clamp: "max 1 (min 4 k) = k"
    using k by simp
  have D: "decode_packet_number largest t k =
     (if unat c + ?h \<le> unat e \<and> unat c < 2 ^ 62 - 2 * ?h then c + win
      else if unat e + ?h < unat c \<and> 2 * ?h \<le> unat c then c - win else c)"
    unfolding decode_packet_number_def Let_def clamp e_def [symmetric] win_def [symmetric]
      c_def [symmetric] word_le_nat_alt word_less_nat_alt sat [OF small(1)] sat [OF small(2)] win
    by (rule refl)
  show ?thesis
  proof (cases "unat c + ?h \<le> unat e")
    case True
    then have pn: "unat pn = unat c + 2 * ?h"
      using arith(1) near e by simp
    then have "pn = c + win"
      using unat_add_lem [of c win] win(1) unat_lt_exp [of pn] by (intro word_unat_eqI) simp
    moreover have "unat c < 2 ^ 62 - 2 * ?h"
      using pn big(2) by linarith
    ultimately show ?thesis
      unfolding D using True by simp
  next
    case F: False
    show ?thesis
    proof (cases "unat e + ?h < unat c")
      case True
      then have pn: "unat c = unat pn + 2 * ?h"
        using arith(2) near e by simp
      then have "pn = c - win"
        by (intro word_unat_eqI) (simp add: unat_sub word_le_nat_alt win(1))
      then show ?thesis
        unfolding D using True F pn by simp
    next
      case False
      then have "unat pn = unat c"
        using arith(3) F near e by simp
      then have "pn = c"
        by (rule word_unat_eqI)
      then show ?thesis
        unfolding D using False F by simp
    qed
  qed
qed

lemma drop_be_bytes: "k \<le> n \<Longrightarrow> drop (n - k) (be_bytes n w) = be_bytes k w"
proof (induction n)
  case (Suc n)
  then show ?case
    by (cases "k = Suc n") (simp_all add: Suc_diff_le)
qed simp

lemma read_pn_eq:
  assumes "drop off buf = be_bytes k pn @ xs" and "off \<le> length buf"
  shows "read_pn buf off k = Inr (take_bit (8 * k) pn)"
proof -
  have "get_range buf off (off + k) = Some (be_bytes k pn)"
    using assms by (metis get_range_append length_be_bytes)
  then show ?thesis
    using from_be_be_bytes [of k pn] by (simp add: read_pn_def from_be_def from_be_acc_def)
qed

lemma encode_packet_number_len:
  "1 \<le> snd (encode_packet_number pn acked)" "snd (encode_packet_number pn acked) \<le> 4"
  by (simp_all add: encode_packet_number_def Let_def)

lemma encode_packet_number_bytes:
  "take (snd (encode_packet_number pn acked)) (fst (encode_packet_number pn acked)) =
   be_bytes (snd (encode_packet_number pn acked)) pn"
  using encode_packet_number_len(2) [of pn acked]
  by (simp add: encode_packet_number_def Let_def drop_be_bytes)

text \<open>The chosen length covers more than twice the distance to the largest acknowledged number.\<close>

lemma encode_packet_number_range:
  fixes pn :: u64 and acked :: "u64 option"
  defines "d \<equiv> (case acked of None \<Rightarrow> unat pn + 1 | Some a \<Rightarrow> unat pn - unat a)"
  assumes "unat pn < 2 ^ 62" and "d < 2 ^ 31"
  shows "d < 2 ^ (8 * snd (encode_packet_number pn acked) - 1)"
proof -
  have "unat (case acked of Some lgst \<Rightarrow> saturating_sub_u64 pn lgst
             | None \<Rightarrow> saturating_add_u64 pn 1) = d"
    using assms(2)
    by (auto simp: d_def saturating_sub_u64_def unat_saturating_add_u64 unat_sub word_le_nat_alt
        split: option.splits)
  then have s: "snd (encode_packet_number pn acked) =
      (if d * 2 < 2 ^ 8 then 1 else if d * 2 < 2 ^ 16 then 2 else if d * 2 < 2 ^ 24 then 3 else 4)"
    by (simp add: encode_packet_number_def Let_def)
  show ?thesis
    unfolding s using assms(3) by simp
qed

text \<open>C17. A packet number below \<open>2^62\<close> comes back from its truncated wire form when fewer than \<open>2^31\<close> packets
  are unacknowledged: the receiver reads the truncated bytes out of the packet and reconstructs the full number from
  any largest processed number below \<open>2^62 - 1\<close> that is at or past the acknowledged one and less than half a window
  ahead of the packet, whose window is that of the encoded length.\<close>

theorem packet_number_roundtrip:
  assumes enc: "encode_packet_number pn acked = (buf, len)"
    and dist: "(case acked of None \<Rightarrow> unat pn + 1 | Some a \<Rightarrow> unat pn - unat a) < 2 ^ 31"
    and acked: "case acked of None \<Rightarrow> True | Some a \<Rightarrow> a \<le> largest"
    and ahead: "unat largest + 1 < unat pn + 2 ^ (8 * len - 1)"
    and bounds: "unat pn < 2 ^ 62" "unat largest + 1 < 2 ^ 62"
  shows "\<exists>t. read_pn (hdr @ take len buf @ payload) (length hdr) len = Inr t \<and> decode_packet_number largest t len = pn"
proof (intro exI conjI)
  have len: "1 \<le> len" "len \<le> 4"
    using encode_packet_number_len [of pn acked] enc by simp_all
  have "take len buf = be_bytes len pn"
    using encode_packet_number_bytes [of pn acked] enc by simp
  then show "read_pn (hdr @ take len buf @ payload) (length hdr) len = Inr (take_bit (8 * len) pn)"
    using read_pn_eq [of "length hdr" "hdr @ take len buf @ payload" len pn payload] by simp
  have "(case acked of None \<Rightarrow> unat pn + 1 | Some a \<Rightarrow> unat pn - unat a) < 2 ^ (8 * len - 1)"
    using encode_packet_number_range [of pn acked] bounds(1) dist enc by simp
  then have "unat pn \<le> unat largest + 1 + 2 ^ (8 * len - 1)"
    using acked by (auto simp: word_le_nat_alt split: option.splits)
  then show "decode_packet_number largest (take_bit (8 * len) pn) len = pn"
    using decode_packet_number_correct [OF len bounds(2,1) ahead _ refl] by simp
qed

theorem packet_number_roundtrip_witness:
  "read_pn [0x41, 0x9b, 0x32, 9] 1 2 = Inr 0x9b32 \<and> decode_packet_number 0xa82f30ea 0x9b32 2 = 0xa82f9b32"
  using packet_number_roundtrip [where pn = "0xa82f9b32" and acked = "Some 0xa82f30ea"
      and buf = "[0x9b, 0x32, 0, 0]" and len = 2 and largest = "0xa82f30ea" and hdr = "[0x41]"
      and payload = "[9]"]
  by (simp add: encode_packet_number_def saturating_sub_u64_def read_pn_def get_range_def
      drop_be_bytes be_bytes_numeral replicate_numeral_Cons)

section \<open>The cursor over the unread suffix\<close>

definition c_rest :: "cursor \<Rightarrow> bytes" where
  "c_rest c = drop (c_pos c) (c_buf c)"

definition c_ok :: "cursor \<Rightarrow> bool" where
  "c_ok c \<longleftrightarrow> c_pos c \<le> length (c_buf c) \<and> length (c_buf c) < usize_limit"

definition c_adv :: "nat \<Rightarrow> cursor \<Rightarrow> cursor" where
  "c_adv n c = c\<lparr>c_pos := c_pos c + n\<rparr>"

lemma c_adv_simps [simp]:
  "c_buf (c_adv n c) = c_buf c"
  "c_pos (c_adv n c) = c_pos c + n"
  "c_adv m (c_adv n c) = c_adv (n + m) c"
  "c_rest (c_adv n c) = drop n (c_rest c)"
  "c_ok c \<Longrightarrow> n \<le> length (c_rest c) \<Longrightarrow> c_ok (c_adv n c)"
  by (auto simp: c_adv_def c_rest_def c_ok_def add.commute)

lemma c_new_simps [simp]:
  "c_rest (cursor_new buf) = buf"
  "c_ok (cursor_new buf) \<longleftrightarrow> length buf < usize_limit"
  "c_buf (cursor_new buf) = buf"
  "c_pos (cursor_new buf) = 0"
  by (simp_all add: c_rest_def c_ok_def cursor_new_def)

lemma cur_skip_take: "cur_skip n c = and_then (cur_take n c) (\<lambda>(_, c). Inr c)"
  by (simp add: cur_skip_def cur_take_def get_range_def ok_or_def checked_add_usize_def)

lemma cur_take_eq:
  assumes "c_ok c"
  shows "cur_take n c =
     (if n \<le> length (c_rest c) then Inr (take n (c_rest c), c_adv n c) else Inl HdrTruncated)"
  using assms
  by (auto simp: cur_take_def c_ok_def c_rest_def checked_add_usize_def get_range_def c_adv_def)

lemma cur_varint_eq:
  "cur_varint c =
     (case varint_decode (c_rest c) of
        None \<Rightarrow> Inl HdrTruncated
      | Some (v, n) \<Rightarrow> Inr (v, c_adv n c))"
proof (cases "c_pos c \<le> length (c_buf c)")
  case True
  then show ?thesis
    by (auto simp: cur_varint_def c_rest_def get_from_def c_adv_def split: option.splits)
next
  case False
  then show ?thesis
    by (simp add: cur_varint_def c_rest_def get_from_def varint_decode_def)
qed

lemma cur_varint_usize_eq:
  "cur_varint_usize c = and_then (cur_varint c) (\<lambda>(v, c). Inr (unat v, c))"
  by (simp add: cur_varint_usize_def)

definition cid_wf :: "connection_id \<Rightarrow> bool" where
  "cid_wf c \<longleftrightarrow> length (cid_bytes c) = MAX_CID_LEN \<and> cid_length c \<le> MAX_CID_LEN
     \<and> drop (cid_length c) (cid_bytes c) = replicate (MAX_CID_LEN - cid_length c) 0"

lemma cid_new_wf: "cid_new s = Inr c \<Longrightarrow> cid_wf c \<and> cid_as_slice c = s \<and> cid_length c = length s"
  by (auto simp: cid_new_def cid_wf_def cid_length_def cid_as_slice_def MAX_CID_LEN_def unat_of_nat
      split: if_splits)

lemma length_cid_as_slice [simp]: "cid_wf c \<Longrightarrow> length (cid_as_slice c) = cid_length c"
  by (simp add: cid_wf_def cid_as_slice_def cid_length_def)

lemma cid_new_as_slice:
  assumes "cid_wf c"
  shows "cid_new (cid_as_slice c) = Inr c"
proof -
  have "cid_as_slice c @ replicate (MAX_CID_LEN - cid_length c) 0 = cid_bytes c"
    using assms append_take_drop_id [of "cid_length c" "cid_bytes c"]
    by (simp add: cid_wf_def cid_as_slice_def cid_length_def)
  moreover have "(of_nat (cid_length c) :: byte) = cid_len c"
    by (simp add: cid_length_def)
  moreover have "cid_length c \<le> MAX_CID_LEN"
    using assms by (simp add: cid_wf_def)
  ultimately show ?thesis
    using assms by (simp add: cid_new_def)
qed

lemma cur_cid_eq:
  assumes "c_ok c" and rest: "c_rest c = of_nat (cid_length cid) # cid_as_slice cid @ xs" and "cid_wf cid"
  shows "cur_cid c = Inr (cid, c_adv (1 + cid_length cid) c)"
proof -
  have len: "unat (of_nat (cid_length cid) :: byte) = cid_length cid" "cid_length cid \<le> MAX_CID_LEN"
    using assms(3) by (simp_all add: cid_length_def cid_wf_def)
  have "get_at (c_buf c) (c_pos c) = Some (of_nat (cid_length cid))"
    using rest by (intro get_at_append) (simp add: c_rest_def)
  then show ?thesis
    unfolding cur_cid_def c_adv_def [symmetric]
    using assms len by (simp add: cur_take_eq cid_new_as_slice)
qed

section \<open>Round trip of headers\<close>

text \<open>The plaintext prefix of a long header that \<open>decode\<close>, \<open>locate_pn_offset\<close> and \<open>long_packet_len\<close>
  all walk over.\<close>

definition long_prefix ::
  "bytes \<Rightarrow> long_type \<Rightarrow> decode_error + (u32 \<times> connection_id \<times> connection_id \<times> bytes \<times> u64 \<times> cursor)"
where
  "long_prefix buf ty =
     and_then (cur_take 1 (cursor_new buf)) (\<lambda>(_, c).
     and_then (cur_take 4 c) (\<lambda>(v, c).
     and_then (cur_cid c) (\<lambda>(dcid, c).
     and_then (cur_cid c) (\<lambda>(scid, c).
     and_then
       (if ty = Initial then and_then (cur_varint c) (\<lambda>(tlen, c). cur_take (unat tlen) c)
        else Inr ([], c)) (\<lambda>(token, c).
     and_then (cur_varint c) (\<lambda>(len, c).
     Inr (from_be v, dcid, scid, token, len, c)))))))"

declare and_then_assoc [simp]

lemma and_then_case_prod:
  "and_then (case p of (a, b) \<Rightarrow> f a b) g = (case p of (a, b) \<Rightarrow> and_then (f a b) g)"
  by (cases p) simp

lemma and_then_if: "and_then (if b then r else r') g = (if b then and_then r g else and_then r' g)"
  by simp

lemmas prefix_simps = cur_skip_take cur_u32_def cur_varint_usize_eq and_then_case_prod and_then_if
  split_def

lemma decode_long_prefix:
  "decode_long buf first largest_pn =
     (let ty = from_first_byte first in
      if ty \<notin> {Initial, ZeroRtt, Handshake} then Inl UnsupportedPacketType
      else if first AND LONG_RESERVED_BITS \<noteq> 0 then Inl ReservedBitsSet
      else
        and_then (long_prefix buf ty) (\<lambda>(version, dcid, scid, token, len, c).
        let pn_len = unat ((first AND PN_LEN_MASK) + 1)
        in and_then (read_pn buf (c_pos c) pn_len) (\<lambda>t.
           Inr (Long ty version dcid scid token len (decode_packet_number largest_pn t pn_len) pn_len,
                c_pos c + pn_len))))"
  by (simp add: decode_long_def long_prefix_def prefix_simps Let_def)

lemma locate_pn_offset_prefix:
  "locate_pn_offset buf local_cid_len =
     and_then (ok_or (get_at buf 0) HdrTruncated) (\<lambda>first.
     if first AND FIXED_BIT = 0 then Inl MissingFixedBit
     else if first AND LONG_HEADER_FORM = 0 then
       (if MAX_CID_LEN < local_cid_len then Inl CidTooLong else Inr (1 + local_cid_len))
     else
       let ty = from_first_byte first in
       if ty \<notin> {Initial, ZeroRtt, Handshake} then Inl UnsupportedPacketType
       else and_then (long_prefix buf ty) (\<lambda>(version, dcid, scid, token, len, c). Inr (c_pos c)))"
  by (cases "get_at buf 0") (simp_all add: locate_pn_offset_def long_prefix_def prefix_simps Let_def)

lemma long_packet_len_prefix:
  "long_packet_len buf =
     (case get_at buf 0 of
        None \<Rightarrow> None
      | Some first \<Rightarrow>
          if first AND FIXED_BIT = 0 \<or> first AND LONG_HEADER_FORM = 0 then None
          else
            let ty = from_first_byte first in
            if ty \<notin> {Initial, ZeroRtt, Handshake} then None
            else
              ok_opt (and_then (long_prefix buf ty) (\<lambda>(version, dcid, scid, token, len, c).
                and_then (ok_or (checked_add_usize (c_pos c) (unat len)) HdrTruncated) (\<lambda>total.
                if total \<le> length buf then Inr total else Inl HdrTruncated))))"
  by (cases "get_at buf 0") (simp_all add: long_packet_len_def long_prefix_def prefix_simps Let_def)

fun header_wf :: "nat \<Rightarrow> header \<Rightarrow> bool" where
  "header_wf local_cid_len (Long ty version dcid scid token len pn pn_len) =
     (ty \<noteq> Retry \<and> cid_wf dcid \<and> cid_wf scid \<and> len_ok token \<and> (if ty = Initial then True else token = [])
      \<and> len \<le> VARINT_MAX \<and> 1 \<le> pn_len \<and> pn_len \<le> 4)"
| "header_wf local_cid_len (Short spin key_phase dcid pn pn_len) =
     (cid_wf dcid \<and> cid_length dcid = local_cid_len \<and> 1 \<le> pn_len \<and> pn_len \<le> 4)"

text \<open>The bytes between the first one and the packet number.\<close>

fun header_body :: "header \<Rightarrow> bytes" where
  "header_body (Long ty version dcid scid token len pn pn_len) =
     be_bytes 4 version @ of_nat (cid_length dcid) # cid_as_slice dcid
     @ of_nat (cid_length scid) # cid_as_slice scid
     @ (if ty = Initial then varint_encode (of_nat (length token)) @ token else [])
     @ varint_encode len"
| "header_body (Short spin key_phase dcid pn pn_len) = cid_as_slice dcid"

fun first_byte :: "header \<Rightarrow> byte" where
  "first_byte (Long ty version dcid scid token len pn pn_len) =
     LONG_HEADER_FORM OR FIXED_BIT OR type_bits ty OR (of_nat pn_len - 1)"
| "first_byte (Short spin key_phase dcid pn pn_len) =
     FIXED_BIT OR (of_nat pn_len - 1) OR (if spin then SPIN_BIT else 0)
     OR (if key_phase then KEY_PHASE_BIT else 0)"

lemma header_encode_eq:
  assumes "header_wf n h"
  shows "header_encode h out =
    (out @ first_byte h # header_body h @ be_bytes (header_pn_len h) (packet_number h),
     length out + 1 + length (header_body h))"
  using assms by (cases h) (simp_all add: Let_def drop_be_bytes or.assoc)

lemma upto4: "1 \<le> n \<Longrightarrow> n \<le> (4::nat) \<Longrightarrow> n = 1 \<or> n = 2 \<or> n = 3 \<or> n = 4"
  by auto

lemma first_byte_long:
  assumes "header_wf n (Long ty version dcid scid token len pn pn_len)"
  defines "b \<equiv> first_byte (Long ty version dcid scid token len pn pn_len)"
  shows "b AND FIXED_BIT \<noteq> 0" "b AND LONG_HEADER_FORM \<noteq> 0" "from_first_byte b = ty"
    "b AND LONG_RESERVED_BITS = 0" "unat ((b AND PN_LEN_MASK) + 1) = pn_len"
proof -
  have "pn_len = 1 \<or> pn_len = 2 \<or> pn_len = 3 \<or> pn_len = 4" "ty \<noteq> Retry"
    using assms(1) upto4 by simp_all
  then show "b AND FIXED_BIT \<noteq> 0" "b AND LONG_HEADER_FORM \<noteq> 0" "from_first_byte b = ty"
    "b AND LONG_RESERVED_BITS = 0" "unat ((b AND PN_LEN_MASK) + 1) = pn_len"
    unfolding b_def by (cases ty; auto simp: first_byte_defs from_first_byte_def)+
qed

lemma first_byte_short:
  assumes "header_wf n (Short spin key_phase dcid pn pn_len)"
  defines "b \<equiv> first_byte (Short spin key_phase dcid pn pn_len)"
  shows "b AND FIXED_BIT \<noteq> 0" "b AND LONG_HEADER_FORM = 0"
    "b AND SHORT_RESERVED_BITS = 0" "unat ((b AND PN_LEN_MASK) + 1) = pn_len"
    "(b AND SPIN_BIT \<noteq> 0) = spin" "(b AND KEY_PHASE_BIT \<noteq> 0) = key_phase"
proof -
  have "pn_len = 1 \<or> pn_len = 2 \<or> pn_len = 3 \<or> pn_len = 4"
    using assms(1) upto4 by simp
  then show "b AND FIXED_BIT \<noteq> 0" "b AND LONG_HEADER_FORM = 0"
    "b AND SHORT_RESERVED_BITS = 0" "unat ((b AND PN_LEN_MASK) + 1) = pn_len"
    "(b AND SPIN_BIT \<noteq> 0) = spin" "(b AND KEY_PHASE_BIT \<noteq> 0) = key_phase"
    unfolding b_def by (cases spin; cases key_phase; auto simp: first_byte_defs)+
qed

lemma long_prefix_encode:
  assumes wf: "header_wf n (Long ty version dcid scid token len pn pn_len)"
    and buf: "buf = b # header_body (Long ty version dcid scid token len pn pn_len) @ xs"
    and "length buf < usize_limit"
  shows "long_prefix buf ty = Inr (version, dcid, scid, token, len,
    c_adv (1 + length (header_body (Long ty version dcid scid token len pn pn_len))) (cursor_new buf))"
proof -
  have wf': "cid_wf dcid" "cid_wf scid" "len_ok token" "len \<le> VARINT_MAX"
    using wf by simp_all
  have d4 [simp]: "drop (4 + k) (be_bytes 4 version @ ys) = drop k ys" for k ys
    by (simp add: drop_append)
  define c1 where "c1 = c_adv 5 (cursor_new buf)"
  have c1: "c_ok c1" "c_rest c1 = of_nat (cid_length dcid) # cid_as_slice dcid
     @ of_nat (cid_length scid) # cid_as_slice scid
     @ (if ty = Initial then varint_encode (of_nat (length token)) @ token else [])
     @ varint_encode len @ xs"
    using assms(3) buf unfolding c1_def by simp_all
  define c2 where "c2 = c_adv (1 + cid_length dcid) c1"
  have 2: "cur_cid c1 = Inr (dcid, c2)"
    using cur_cid_eq [OF c1 wf'(1)] by (simp add: c2_def)
  have c2: "c_ok c2" "c_rest c2 = of_nat (cid_length scid) # cid_as_slice scid
     @ (if ty = Initial then varint_encode (of_nat (length token)) @ token else [])
     @ varint_encode len @ xs"
    using c1 wf' by (simp_all add: c2_def)
  define c3 where "c3 = c_adv (1 + cid_length scid) c2"
  have 3: "cur_cid c2 = Inr (scid, c3)"
    using cur_cid_eq [OF c2 wf'(2)] by (simp add: c3_def)
  have c3: "c_ok c3" "c_rest c3 =
     (if ty = Initial then varint_encode (of_nat (length token)) @ token else [])
     @ varint_encode len @ xs"
    using c2 wf' by (simp_all add: c3_def)
  have pos: "c_adv n c3 = c_adv (7 + (cid_length dcid + (cid_length scid + n))) (cursor_new buf)" for n
    by (simp add: c1_def c2_def c3_def add.assoc)
  have 1: "cur_take 1 (cursor_new buf) = Inr ([b], c_adv 1 (cursor_new buf))"
    "cur_take 4 (c_adv 1 (cursor_new buf)) = Inr (be_bytes 4 version, c1)"
    using assms(3) unfolding c1_def by (simp_all add: cur_take_eq buf)
  have "long_prefix buf ty =
     and_then
       (if ty = Initial then and_then (cur_varint c3) (\<lambda>(tlen, c). cur_take (unat tlen) c)
        else Inr ([], c3)) (\<lambda>(token, c).
     and_then (cur_varint c) (\<lambda>(len, c). Inr (version, dcid, scid, token, len, c)))"
    by (simp add: long_prefix_def 1 [unfolded One_nat_def] 2 3 from_be_be_bytes_full)
  also have "\<dots> = Inr (version, dcid, scid, token, len,
    c_adv ((if ty = Initial then varint_size (of_nat (length token)) + length token else 0)
      + varint_size len) c3)"
    using c3 wf wf' by (simp add: cur_varint_eq varint_decode_encode cur_take_eq)
  also have "\<dots> = Inr (version, dcid, scid, token, len,
    c_adv (1 + length (header_body (Long ty version dcid scid token len pn pn_len))) (cursor_new buf))"
    using wf' by (simp add: pos)
  finally show ?thesis .
qed

lemma get_at_0 [simp]: "get_at (x # xs) 0 = Some x"
  by (simp add: get_at_def)

lemma header_decode_encode:
  assumes wf: "header_wf local_cid_len h" and "local_cid_len \<le> MAX_CID_LEN"
    and pn: "decode_packet_number largest (take_bit (8 * header_pn_len h) (packet_number h)) (header_pn_len h)
      = packet_number h"
    and buf: "buf = first_byte h # header_body h @ be_bytes (header_pn_len h) (packet_number h) @ payload"
    and "length buf < usize_limit"
  shows "header_decode buf local_cid_len largest = Inr (h, 1 + length (header_body h) + header_pn_len h)"
proof -
  have rd: "read_pn buf (1 + length (header_body h)) (header_pn_len h) =
      Inr (take_bit (8 * header_pn_len h) (packet_number h))"
    by (rule read_pn_eq [where xs = payload]) (simp_all add: buf)
  show ?thesis
  proof (cases h)
    case (Long ty version dcid scid token len pn pn_len)
    have ty: "ty = Initial \<or> ty = ZeroRtt \<or> ty = Handshake"
      using wf by (cases ty) (auto simp: Long)
    note fb = first_byte_long [OF wf [unfolded Long], folded Long]
    have "long_prefix buf ty = Inr (version, dcid, scid, token, len,
        c_adv (1 + length (header_body h)) (cursor_new buf))"
      using long_prefix_encode [OF wf [unfolded Long], folded Long] buf assms(5) by blast
    then have "decode_long buf (first_byte h) largest =
        Inr (h, 1 + length (header_body h) + header_pn_len h)"
      using rd pn ty fb by (auto simp: decode_long_prefix Long)
    then show ?thesis
      using fb by (simp add: header_decode_def buf)
  next
    case (Short spin key_phase dcid pn pn_len)
    note fb = first_byte_short [OF wf [unfolded Short], folded Short]
    have cid: "cid_wf dcid" "cid_length dcid = local_cid_len" and body: "header_body h = cid_as_slice dcid"
      using wf by (simp_all add: Short)
    have "get_range buf 1 (1 + local_cid_len) = Some (cid_as_slice dcid)"
      using cid by (intro get_range_append [where zs = "be_bytes (header_pn_len h) (packet_number h) @ payload"])
        (simp_all add: buf body)
    then have "decode_short buf (first_byte h) local_cid_len largest =
        Inr (h, 1 + length (header_body h) + header_pn_len h)"
      using rd assms(2,3) fb cid cid_new_as_slice [OF cid(1)]
      by (simp add: decode_short_def body Short)
    then show ?thesis
      using fb by (simp add: header_decode_def buf)
  qed
qed

text \<open>C18. Every header the sender can build (initial, 0-RTT and handshake long headers, 1-RTT short
  headers) decodes to itself, whatever payload follows, and the reported length is exactly the header. The receiver's
  largest packet number may be any number within half a window of the packet number's encoded length:
  ahead of the packet number by less than half a window, or behind it by at most half a window and one.\<close>

theorem header_roundtrip:
  assumes "header_wf local_cid_len h" and "local_cid_len \<le> MAX_CID_LEN"
    and "unat largest + 1 < 2 ^ 62" "unat (packet_number h) < 2 ^ 62"
    and "unat largest + 1 < unat (packet_number h) + 2 ^ (8 * header_pn_len h - 1)"
    and "unat (packet_number h) \<le> unat largest + 1 + 2 ^ (8 * header_pn_len h - 1)"
    and "length (fst (header_encode h []) @ payload) < usize_limit"
  shows "header_decode (fst (header_encode h []) @ payload) local_cid_len largest =
           Inr (h, length (fst (header_encode h [])))"
proof -
  have "1 \<le> header_pn_len h" "header_pn_len h \<le> 4"
    using assms(1) by (cases h; simp)+
  then have "decode_packet_number largest (take_bit (8 * header_pn_len h) (packet_number h)) (header_pn_len h) = packet_number h"
    using decode_packet_number_correct assms(3-6) by blast
  then show ?thesis
    using header_decode_encode [OF assms(1,2)] assms(7) by (simp add: header_encode_eq [OF assms(1)] ac_simps)
qed

theorem header_roundtrip_witness:
  "header_decode
     (fst (header_encode (Short True False \<lparr>cid_bytes = [7, 8] @ replicate 18 0, cid_len = 2\<rparr> 0x1234 2) []) @ [5, 6])
     2 0x1230 =
   Inr (Short True False \<lparr>cid_bytes = [7, 8] @ replicate 18 0, cid_len = 2\<rparr> 0x1234 2, 5)"
  using header_roundtrip [of 2 "Short True False \<lparr>cid_bytes = [7, 8] @ replicate 18 0, cid_len = 2\<rparr> 0x1234 2"
      "0x1230" "[5, 6]"]
  by (simp add: cid_wf_def MAX_CID_LEN_def cid_length_def cid_as_slice_def usize_limit_def drop_be_bytes)

lemma masked_and:
  fixes x k m f :: "'a::len word"
  assumes "m AND f = 0"
  shows "(x XOR (k AND m)) AND f = x AND f"
proof -
  have "(k AND m) AND f = 0"
    using assms by (simp add: and.assoc)
  then show ?thesis
    by (simp add: bit.conj_xor_distrib2)
qed

text \<open>C19. The packet-number offset is found before header protection is removed: it does not depend on
  the protected bits of the first byte (the low four of a long header, the low five of a short one)
  nor on any byte from the packet number on.\<close>

theorem locate_pn_offset_masked:
  assumes "header_wf local_cid_len h" and "local_cid_len \<le> MAX_CID_LEN"
    and b: "b = first_byte h XOR (k AND (if first_byte h AND LONG_HEADER_FORM \<noteq> 0 then 0x0f else 0x1f))"
    and "length (b # header_body h @ protected) < usize_limit"
  shows "locate_pn_offset (b # header_body h @ protected) local_cid_len = Inr (snd (header_encode h []))"
proof (cases h)
  case (Long ty version dcid scid token len pn pn_len)
  have ty: "ty = Initial \<or> ty = ZeroRtt \<or> ty = Handshake"
    using assms(1) by (cases ty) (auto simp: Long)
  note fb = first_byte_long [OF assms(1) [unfolded Long], folded Long]
  have "b AND m = first_byte h AND m" if "0x0f AND m = 0" for m
    unfolding b using fb(2) that by (simp add: masked_and)
  then have "b AND FIXED_BIT \<noteq> 0" "b AND LONG_HEADER_FORM \<noteq> 0" "from_first_byte b = ty"
    using fb by (simp_all add: first_byte_defs from_first_byte_def)
  then show ?thesis
    using ty long_prefix_encode [OF assms(1) [unfolded Long] refl, of b protected, folded Long] assms(4)
    by (auto simp: locate_pn_offset_prefix header_encode_eq [OF assms(1)])
next
  case (Short spin key_phase dcid pn pn_len)
  note fb = first_byte_short [OF assms(1) [unfolded Short], folded Short]
  have "b AND m = first_byte h AND m" if "0x1f AND m = 0" for m
    unfolding b using fb(2) that by (simp add: masked_and)
  then have "b AND FIXED_BIT \<noteq> 0" "b AND LONG_HEADER_FORM = 0"
    using fb by (simp_all add: first_byte_defs)
  then show ?thesis
    using assms(1,2) by (simp add: locate_pn_offset_prefix Short Let_def)
qed

theorem locate_pn_offset_masked_witness:
  "locate_pn_offset [0x7b, 7, 8, 0x99, 0x98] 2 = Inr 3"
  using locate_pn_offset_masked [of 2 "Short True False \<lparr>cid_bytes = [7, 8] @ replicate 18 0, cid_len = 2\<rparr> 0x1234 2"
      "0x7b" "0x1a" "[0x99, 0x98]"]
  by (simp add: cid_wf_def MAX_CID_LEN_def cid_length_def cid_as_slice_def usize_limit_def
      first_byte_defs numeral_3_eq_3)

section \<open>Safety on arbitrary input\<close>

lemma cur_take_pos: "cur_take n c = Inr (s, c') \<Longrightarrow> c_buf c' = c_buf c \<and> c_pos c' = c_pos c + n
    \<and> c_pos c' \<le> length (c_buf c) \<and> length s = n"
  by (auto simp: cur_take_def and_then_eq_Inr checked_add_usize_def get_range_def split: if_splits)

lemma cur_varint_pos: "cur_varint c = Inr (v, c') \<Longrightarrow> c_buf c' = c_buf c \<and> c_pos c < c_pos c'
    \<and> c_pos c' \<le> length (c_buf c) \<and> v \<le> VARINT_MAX"
  by (auto simp: cur_varint_def and_then_eq_Inr ok_or_def get_from_def varint_decode_le_MAX
      split: option.splits if_splits dest!: varint_decode_pos)

lemma cur_cid_pos: "cur_cid c = Inr (cid, c') \<Longrightarrow> c_buf c' = c_buf c \<and> c_pos c < c_pos c'
    \<and> c_pos c' \<le> length (c_buf c) \<and> cid_wf cid"
  by (auto simp: cur_cid_def and_then_eq_Inr split: if_splits dest!: cur_take_pos cid_new_wf)

lemma cur_take_errors: "cur_take n c = Inl e \<Longrightarrow> e = HdrTruncated"
  by (auto simp: cur_take_def and_then_eq_Inl ok_or_def split: option.splits)

lemma cur_varint_errors: "cur_varint c = Inl e \<Longrightarrow> e = HdrTruncated"
  by (auto simp: cur_varint_def and_then_eq_Inl ok_or_def split: option.splits)

text \<open>The assertion of \<open>ConnectionId::new\<close> holds: the length was checked first.\<close>

lemma cur_cid_errors:
  assumes "cur_cid c = Inl e"
  shows "e \<noteq> CidAssert"
proof -
  have "e \<noteq> CidAssert" if "cur_take n c' = Inr (s, c'')" "cid_new s = Inl e" "\<not> MAX_CID_LEN < n" for n c' s c''
    using that cur_take_pos [OF that(1)] by (simp add: cid_new_def split: if_splits)
  then show ?thesis
    using assms
    by (auto simp: cur_cid_def and_then_eq_Inl ok_or_def dest: cur_take_errors
        split: option.splits if_splits)
qed

lemma long_prefix_sound:
  assumes "long_prefix buf ty = Inr (version, dcid, scid, token, len, c)"
  shows "c_buf c = buf \<and> 0 < c_pos c \<and> c_pos c \<le> length buf \<and> cid_wf dcid \<and> cid_wf scid
    \<and> len_ok token \<and> (ty \<noteq> Initial \<longrightarrow> token = []) \<and> len \<le> VARINT_MAX"
  using assms
  by (auto simp: long_prefix_def and_then_eq_Inr len_ok_def word_le_nat_alt split: if_splits
      dest!: cur_take_pos cur_cid_pos cur_varint_pos)

lemma long_prefix_errors: "long_prefix buf ty = Inl e \<Longrightarrow> e \<noteq> CidAssert"
  by (auto simp: long_prefix_def and_then_eq_Inl split: if_splits
      dest: cur_take_errors cur_varint_errors cur_cid_errors)

lemma pn_len_range: "1 \<le> unat ((b AND PN_LEN_MASK) + 1) \<and> unat ((b AND PN_LEN_MASK) + 1) \<le> 4"
proof -
  have "b AND PN_LEN_MASK = take_bit 2 b"
    by (simp add: PN_LEN_MASK_def take_bit_eq_mask mask_eq_exp_minus_1)
  then have "unat (b AND PN_LEN_MASK) < 4"
    by (simp add: unsigned_take_bit_eq take_bit_nat_less_exp [of 2, simplified])
  then show ?thesis
    by (subst (1 2) unat_add_lem [THEN iffD1]) simp_all
qed

lemma read_pn_bound: "read_pn buf off n = Inr t \<Longrightarrow> off + n \<le> length buf"
  by (auto simp: read_pn_def and_then_eq_Inr ok_or_def get_range_def split: option.splits if_splits)

lemma read_pn_errors: "read_pn buf off n = Inl e \<Longrightarrow> e = HdrTruncated"
  by (auto simp: read_pn_def and_then_eq_Inl ok_or_def split: option.splits)

lemma decode_short_sound:
  assumes "decode_short buf first local_cid_len largest = Inr (h, n)"
  shows "header_wf local_cid_len h \<and> n \<le> length buf \<and> local_cid_len \<le> MAX_CID_LEN
    \<and> n - header_pn_len h = 1 + local_cid_len"
  using assms pn_len_range [of first]
  by (auto simp: decode_short_def and_then_eq_Inr ok_or_def Let_def split: if_splits option.splits
      dest!: read_pn_bound cid_new_wf get_range_SomeD)

lemma decode_long_sound:
  assumes "decode_long buf first largest = Inr (h, n)"
  shows "header_wf local_cid_len h \<and> n \<le> length buf
    \<and> from_first_byte first \<in> {Initial, ZeroRtt, Handshake}
    \<and> and_then (long_prefix buf (from_first_byte first)) (\<lambda>(version, dcid, scid, token, len, c). Inr (c_pos c))
      = Inr (n - header_pn_len h)"
proof -
  let ?n = "unat ((first AND PN_LEN_MASK) + 1)"
  obtain version dcid scid token len c t where
    ty: "from_first_byte first \<in> {Initial, ZeroRtt, Handshake}"
    and pre: "long_prefix buf (from_first_byte first) = Inr (version, dcid, scid, token, len, c)"
    and rd: "read_pn buf (c_pos c) ?n = Inr t"
    and h: "h = Long (from_first_byte first) version dcid scid token len (decode_packet_number largest t ?n) ?n"
      "n = c_pos c + ?n"
    using assms by (auto simp: decode_long_prefix and_then_eq_Inr Let_def split: if_splits)
  show ?thesis
    using ty pre h read_pn_bound [OF rd] long_prefix_sound [OF pre] pn_len_range [of first] by auto
qed

lemma decode_errors:
  "decode_short buf first local_cid_len largest \<noteq> Inl CidAssert"
  "decode_long buf first largest \<noteq> Inl CidAssert"
proof -
  show "decode_short buf first local_cid_len largest \<noteq> Inl CidAssert"
    by (auto simp: decode_short_def and_then_eq_Inl ok_or_def Let_def cid_new_def
        split: if_splits option.splits dest: read_pn_errors dest!: get_range_SomeD)
  show "decode_long buf first largest \<noteq> Inl CidAssert"
    by (auto simp: decode_long_prefix and_then_eq_Inl Let_def split: if_splits
        dest: read_pn_errors long_prefix_errors)
qed

text \<open>On arbitrary bytes the header decoder never trips the assertion of \<open>ConnectionId::new\<close>; a
  header it accepts is one the encoder could have produced, lies within the buffer, and starts its
  packet number exactly where \<open>locate_pn_offset\<close> found it.\<close>

theorem header_decode_safe:
  "header_decode buf local_cid_len largest \<noteq> Inl CidAssert
   \<and> (\<forall>h n. header_decode buf local_cid_len largest = Inr (h, n) \<longrightarrow>
        header_wf local_cid_len h \<and> n \<le> length buf
        \<and> locate_pn_offset buf local_cid_len = Inr (n - header_pn_len h))"
proof (cases "get_at buf 0")
  case None
  then show ?thesis by (simp add: header_decode_def)
next
  case (Some first)
  then show ?thesis
    using decode_errors(1) [of buf first local_cid_len largest] decode_errors(2) [of buf first largest]
      decode_short_sound [of buf first local_cid_len largest]
      decode_long_sound [of buf first largest _ _ local_cid_len]
    by (auto simp: header_decode_def locate_pn_offset_prefix Let_def)
qed

theorem header_decode_safe_witness:
  "header_decode [0x61, 7, 8, 0x12, 0x34, 5] 2 0x1230 =
     Inr (Short True False \<lparr>cid_bytes = [7, 8] @ replicate 18 0, cid_len = 2\<rparr> 0x1234 2, 5)
   \<and> header_wf 2 (Short True False \<lparr>cid_bytes = [7, 8] @ replicate 18 0, cid_len = 2\<rparr> 0x1234 2)
   \<and> locate_pn_offset [0x61, 7, 8, 0x12, 0x34, 5] 2 = Inr 3"
proof -
  have "header_decode [0x61, 7, 8, 0x12, 0x34, 5] 2 0x1230 =
     Inr (Short True False \<lparr>cid_bytes = [7, 8] @ replicate 18 0, cid_len = 2\<rparr> 0x1234 2, 5)"
    by (simp add: header_decode_def decode_short_def first_byte_defs MAX_CID_LEN_def get_range_def
        cid_new_def read_pn_def decode_packet_number_def saturating_add_u64_def)
  then show ?thesis
    using header_decode_safe [of "[0x61, 7, 8, 0x12, 0x34, 5]" 2 "0x1230"] by simp
qed

text \<open>A coalesced datagram is split at a boundary inside it: the size \<open>long_packet_len\<close> reports is
  positive, at most the remaining bytes, and covers the header up to the packet number.\<close>

theorem long_packet_len_within:
  assumes "long_packet_len buf = Some sz"
  shows "0 < sz \<and> sz \<le> length buf
    \<and> (\<exists>off. locate_pn_offset buf local_cid_len = Inr off \<and> 0 < off \<and> off \<le> sz)"
proof -
  obtain first version dcid scid token len c where
    first: "get_at buf 0 = Some first" "first AND FIXED_BIT \<noteq> 0" "first AND LONG_HEADER_FORM \<noteq> 0"
      "from_first_byte first \<in> {Initial, ZeroRtt, Handshake}"
    and pre: "long_prefix buf (from_first_byte first) = Inr (version, dcid, scid, token, len, c)"
    and sz: "sz = c_pos c + unat len" "sz \<le> length buf"
    using assms
    by (auto simp: long_packet_len_prefix Let_def ok_opt_def checked_add_usize_def and_then_eq_Inr
        ok_or_def split: option.splits if_splits sum.splits)
  show ?thesis
    using first pre sz long_prefix_sound [OF pre] by (auto simp: locate_pn_offset_prefix)
qed

theorem long_packet_len_within_witness:
  "0 < (10::nat) \<and> (10::nat) \<le> length [0xe0, 0, 0, 0, 1, 0, 0, 2, 9, 9, 0x40 :: byte]
    \<and> (\<exists>off. locate_pn_offset [0xe0, 0, 0, 0, 1, 0, 0, 2, 9, 9, 0x40] 0 = Inr off \<and> 0 < off \<and> off \<le> 10)"
  by (rule long_packet_len_within)
    (simp add: long_packet_len_prefix long_prefix_def first_byte_defs from_first_byte_def cur_take_def
      cur_cid_def cur_varint_def cursor_new_def get_range_def get_at_def get_from_def
      checked_add_usize_def usize_limit_def varint_decode_def cid_new_def MAX_CID_LEN_def ok_opt_def)

end
