(* ===== verification/Replay_Filter.thy ===== *)
theory Replay_Filter
  imports Prelude
begin

text \<open>
  The contract of a duplicate filter, as the packet-number spaces and the replay caches offer it to
  the code that processes incoming messages: \<open>offer k s\<close> says whether \<open>k\<close> is new and returns the
  state that remembers it. The client lemmas say what a whole sequence of messages sees.
\<close>

fun accepted :: "('k \<Rightarrow> 's \<Rightarrow> bool \<times> 's) \<Rightarrow> 'k list \<Rightarrow> 's \<Rightarrow> 'k list" where
  "accepted offer [] s = []"
| "accepted offer (k # ks) s =
     (let (new, s') = offer k s in if new then k # accepted offer ks s' else accepted offer ks s')"

fun after :: "('k \<Rightarrow> 's \<Rightarrow> bool \<times> 's) \<Rightarrow> 'k list \<Rightarrow> 's \<Rightarrow> 's" where
  "after offer [] s = s"
| "after offer (k # ks) s = after offer ks (snd (offer k s))"

locale replay_filter =
  fixes inv :: "'s \<Rightarrow> bool"
    and valid :: "'k \<Rightarrow> bool"
    and offer :: "'k \<Rightarrow> 's \<Rightarrow> bool \<times> 's"
    and seen :: "'s \<Rightarrow> 'k set"
  assumes offer_inv: "inv s \<Longrightarrow> valid k \<Longrightarrow> inv (snd (offer k s))"
    and offer_new: "inv s \<Longrightarrow> valid k \<Longrightarrow> fst (offer k s) \<longleftrightarrow> k \<notin> seen s"
    and offer_seen: "inv s \<Longrightarrow> valid k \<Longrightarrow> insert k (seen s) \<subseteq> seen (snd (offer k s))"
begin

lemma after_inv: "inv s \<Longrightarrow> list_all valid ks \<Longrightarrow> inv (after offer ks s)"
  by (induction ks arbitrary: s) (simp_all add: offer_inv)

lemma after_seen: "inv s \<Longrightarrow> list_all valid ks \<Longrightarrow> seen s \<union> set ks \<subseteq> seen (after offer ks s)"
proof (induction ks arbitrary: s)
  case (Cons k ks)
  have "insert k (seen s) \<subseteq> seen (snd (offer k s))"
    using Cons.prems by (intro offer_seen) simp_all
  moreover have "seen (snd (offer k s)) \<union> set ks \<subseteq> seen (after offer ks (snd (offer k s)))"
    using Cons.prems by (intro Cons.IH) (simp_all add: offer_inv)
  ultimately show ?case by auto
qed simp

lemma accepted_fresh: "inv s \<Longrightarrow> list_all valid ks \<Longrightarrow> set (accepted offer ks s) \<inter> seen s = {}"
proof (induction ks arbitrary: s)
  case (Cons k ks)
  have "set (accepted offer ks (snd (offer k s))) \<inter> seen (snd (offer k s)) = {}"
    using Cons.prems by (intro Cons.IH) (simp_all add: offer_inv)
  moreover have "insert k (seen s) \<subseteq> seen (snd (offer k s))" "fst (offer k s) \<longleftrightarrow> k \<notin> seen s"
    using Cons.prems offer_seen [of s k] offer_new [of s k] by simp_all
  ultimately show ?case
    by (auto simp: Let_def split_def)
qed simp

lemma accepted_once: "inv s \<Longrightarrow> list_all valid ks \<Longrightarrow> distinct (accepted offer ks s)"
proof (induction ks arbitrary: s)
  case (Cons k ks)
  let ?s' = "snd (offer k s)"
  have "distinct (accepted offer ks ?s')" "set (accepted offer ks ?s') \<inter> seen ?s' = {}"
    using Cons.prems by (auto intro!: Cons.IH accepted_fresh simp: offer_inv)
  moreover have "k \<in> seen ?s'"
    using Cons.prems offer_seen [of s k] by auto
  ultimately show ?case
    by (auto simp: Let_def split_def)
qed simp

lemma replay_rejected:
  "inv s \<Longrightarrow> list_all valid (ks @ ks' @ [k]) \<Longrightarrow> k \<in> set ks \<Longrightarrow> \<not> fst (offer k (after offer (ks @ ks') s))"
  using after_seen [of s "ks @ ks'"] after_inv [of s "ks @ ks'"] by (auto simp: offer_new)

end

end
