(* ===== verification/Spaces.thy ===== *)
theory Spaces
  imports Frame Replay_Filter
begin

text \<open>
  Packet-number spaces: \<open>transport/udp/quic/spaces.rs\<close>. The send side allocates packet numbers; the
  receive side keeps the received numbers as a bounded list of inclusive ranges with a replay
  low-water mark, rejects duplicates and builds the ACK frame. A \<open>u64\<close> packet number is a natural
  number and every addition is reduced modulo \<open>2^64\<close>.

  The receive side is an instance of the locale \<open>replay_filter\<close>, whose client lemmas say that a
  sequence of packets is processed at most once each.
\<close>

definition MAX_PACKET_NUMBER :: nat where "MAX_PACKET_NUMBER = 2 ^ 62 - 1"

definition MAX_ACK_RANGES :: nat where "MAX_ACK_RANGES = 32"

definition u64_add :: "nat \<Rightarrow> nat \<Rightarrow> nat" where
  "u64_add a b = (a + b) mod 2 ^ 64"

section \<open>The send side\<close>

record packet_number_space =
  pns_next :: nat

definition pns_new :: packet_number_space where
  "pns_new = \<lparr>pns_next = 0\<rparr>"

definition can_allocate :: "packet_number_space \<Rightarrow> bool" where
  "can_allocate s \<longleftrightarrow> pns_next s \<le> MAX_PACKET_NUMBER"

text \<open>\<open>None\<close> is the panic of the exhaustion assertion.\<close>

definition allocate :: "packet_number_space \<Rightarrow> (nat \<times> packet_number_space) option" where
  "allocate s =
     (let pn = pns_next s
      in if pn \<le> MAX_PACKET_NUMBER then Some (pn, s\<lparr>pns_next := u64_add (pns_next s) 1\<rparr>) else None)"

text \<open>The outer option is the panic of the assertion, the inner one the result.\<close>

definition allocate_protected ::
  "nat \<Rightarrow> nat \<Rightarrow> packet_number_space \<Rightarrow> (nat option \<times> packet_number_space) option" where
  "allocate_protected sealed limit s =
     (if limit \<le> sealed \<or> \<not> can_allocate s then Some (None, s)
      else (case allocate s of None \<Rightarrow> None | Some (pn, s') \<Rightarrow> Some (Some pn, s')))"

definition pns_peek :: "packet_number_space \<Rightarrow> nat" where
  "pns_peek s = pns_next s"

section \<open>The receive side\<close>

record received_packets =
  rp_ranges :: "(nat \<times> nat) list"
  low_water :: "nat option"

definition rp_new :: received_packets where
  "rp_new = \<lparr>rp_ranges = [], low_water = None\<rparr>"

definition below_low_water :: "received_packets \<Rightarrow> nat \<Rightarrow> bool" where
  "below_low_water s pn = (case low_water s of None \<Rightarrow> False | Some w \<Rightarrow> pn \<le> w)"

definition rp_contains :: "received_packets \<Rightarrow> nat \<Rightarrow> bool" where
  "rp_contains s pn \<longleftrightarrow>
     below_low_water s pn \<or> list_ex (\<lambda>(lo, hi). lo \<le> pn \<and> pn \<le> hi) (rp_ranges s)"

definition rp_largest :: "received_packets \<Rightarrow> nat option" where
  "rp_largest s = (if rp_ranges s = [] then None else Some (snd (last (rp_ranges s))))"

definition enforce_cap :: "received_packets \<Rightarrow> received_packets" where
  "enforce_cap s =
     (if MAX_ACK_RANGES < length (rp_ranges s) then
        (case rp_ranges s of
           [] \<Rightarrow> s
         | (_, hi) # rs \<Rightarrow>
             s\<lparr>rp_ranges := rs,
               low_water := Some (case low_water s of None \<Rightarrow> hi | Some w \<Rightarrow> max w hi)\<rparr>)
      else s)"

text \<open>The \<open>while\<close> loop of \<open>insert\<close>: the index of the first range whose high end is at least \<open>pn - 1\<close>.\<close>

fun scan_index :: "(nat \<times> nat) list \<Rightarrow> nat \<Rightarrow> nat" where
  "scan_index [] pn = 0"
| "scan_index ((lo, hi) # rs) pn = (if u64_add hi 1 < pn then Suc (scan_index rs pn) else 0)"

definition vec_remove :: "'a list \<Rightarrow> nat \<Rightarrow> 'a list" where
  "vec_remove xs i = take i xs @ drop (Suc i) xs"

definition vec_insert :: "'a list \<Rightarrow> nat \<Rightarrow> 'a \<Rightarrow> 'a list" where
  "vec_insert xs i x = take i xs @ x # drop i xs"

definition rp_insert :: "nat \<Rightarrow> received_packets \<Rightarrow> bool \<times> received_packets" where
  "rp_insert pn s =
     (if below_low_water s pn then (False, s)
      else
        let rs = rp_ranges s; i = scan_index rs pn
        in if i = length rs then (True, enforce_cap (s\<lparr>rp_ranges := rs @ [(pn, pn)]\<rparr>))
           else
             let (lo, hi) = rs ! i
             in if lo \<le> pn \<and> pn \<le> hi then (False, s)
                else if u64_add pn 1 = lo then (True, s\<lparr>rp_ranges := rs[i := (pn, hi)]\<rparr>)
                else if u64_add hi 1 = pn then
                  (if i + 1 < length rs \<and> fst (rs ! (i + 1)) = u64_add pn 1 then
                     (True, s\<lparr>rp_ranges := vec_remove (rs[i := (lo, snd (rs ! (i + 1)))]) (i + 1)\<rparr>)
                   else (True, s\<lparr>rp_ranges := rs[i := (lo, pn)]\<rparr>))
                else (True, enforce_cap (s\<lparr>rp_ranges := vec_insert rs i (pn, pn)\<rparr>)))"

definition to_ack :: "nat \<Rightarrow> received_packets \<Rightarrow> ack option" where
  "to_ack ack_delay s =
     (if rp_ranges s = [] then None
      else Some \<lparr>largest = of_nat (snd (last (rp_ranges s))), delay = of_nat ack_delay,
                 ranges = map (\<lambda>(lo, hi). (of_nat lo, of_nat hi)) (rev (rp_ranges s)), ecn = None\<rparr>)"

section \<open>The allocator never reuses a packet number\<close>

text \<open>A run of allocations, each with its seal count and limit; the packet numbers handed out.\<close>

fun alloc_run :: "(nat \<times> nat) list \<Rightarrow> packet_number_space \<Rightarrow> nat list option" where
  "alloc_run [] s = Some []"
| "alloc_run ((sealed, limit) # rs) s =
     (case allocate_protected sealed limit s of
        None \<Rightarrow> None
      | Some (r, s') \<Rightarrow>
          map_option (\<lambda>pns. (case r of None \<Rightarrow> pns | Some pn \<Rightarrow> pn # pns)) (alloc_run rs s'))"

lemma allocate_protected_cases:
  assumes "pns_next s \<le> Suc MAX_PACKET_NUMBER"
  obtains "allocate_protected sealed limit s = Some (None, s)"
  | s' where "allocate_protected sealed limit s = Some (Some (pns_next s), s')"
      "pns_next s' = Suc (pns_next s)" "pns_next s \<le> MAX_PACKET_NUMBER" "sealed < limit"
  using assms
  by (fastforce simp: allocate_protected_def can_allocate_def allocate_def Let_def u64_add_def
      MAX_PACKET_NUMBER_def split: if_splits)

lemma alloc_run_correct:
  assumes "pns_next s \<le> Suc MAX_PACKET_NUMBER"
  shows "\<exists>pns. alloc_run rs s = Some pns \<and> sorted_wrt (<) pns
    \<and> (\<forall>pn\<in>set pns. pns_next s \<le> pn \<and> pn \<le> MAX_PACKET_NUMBER)"
  using assms
proof (induction rs arbitrary: s)
  case Nil
  then show ?case by simp
next
  case (Cons r rs)
  obtain sealed limit where r: "r = (sealed, limit)" by (cases r)
  show ?case
    using Cons.prems
  proof (cases rule: allocate_protected_cases [of s sealed limit])
    case 1
    then show ?thesis
      using Cons.IH [OF Cons.prems] by (simp add: r)
  next
    case (2 s')
    obtain pns where "alloc_run rs s' = Some pns" "sorted_wrt (<) pns"
      "\<forall>pn\<in>set pns. pns_next s' \<le> pn \<and> pn \<le> MAX_PACKET_NUMBER"
      using Cons.IH [of s'] 2 by auto
    then show ?thesis
      using 2 by (auto simp: r)
  qed
qed

text \<open>C21. However many packets a space seals, under whatever key budgets, the allocator never panics,
  never repeats a packet number and never leaves the 62-bit range.\<close>

theorem packet_numbers_never_reused:
  "\<exists>pns. alloc_run budgets pns_new = Some pns \<and> distinct pns \<and> sorted pns
    \<and> list_all (\<lambda>pn. pn \<le> MAX_PACKET_NUMBER) pns"
proof -
  obtain pns where "alloc_run budgets pns_new = Some pns" "sorted_wrt (<) pns"
    "\<forall>pn\<in>set pns. pn \<le> MAX_PACKET_NUMBER"
    using alloc_run_correct [of pns_new budgets] by (auto simp: pns_new_def)
  then show ?thesis
    by (auto simp: strict_sorted_iff list_all_iff)
qed

section \<open>The range list as a set\<close>

text \<open>Ascending ranges with at least one missing number between neighbours, all above \<open>b\<close> and at most
  \<open>MAX_PACKET_NUMBER\<close>. \<open>b\<close> is exclusive, so the list may start at \<open>0\<close> when \<open>b\<close> is \<open>None\<close>.\<close>

fun ranges_wf :: "(nat \<times> nat) list \<Rightarrow> bool" where
  "ranges_wf [] = True"
| "ranges_wf [(lo, hi)] = (lo \<le> hi \<and> hi \<le> MAX_PACKET_NUMBER)"
| "ranges_wf ((lo, hi) # (lo', hi') # rs) =
     (lo \<le> hi \<and> hi \<le> MAX_PACKET_NUMBER \<and> hi + 1 < lo' \<and> ranges_wf ((lo', hi') # rs))"

definition range_set :: "(nat \<times> nat) list \<Rightarrow> nat set" where
  "range_set rs = (\<Union>(lo, hi)\<in>set rs. {lo..hi})"

lemma range_set_simps [simp]:
  "range_set [] = {}"
  "range_set ((lo, hi) # rs) = {lo..hi} \<union> range_set rs"
  "range_set (rs @ rs') = range_set rs \<union> range_set rs'"
  by (auto simp: range_set_def)

lemma ranges_wf_ConsD:
  assumes "ranges_wf ((lo, hi) # rs)"
  shows "ranges_wf rs" "lo \<le> hi" "hi \<le> MAX_PACKET_NUMBER" "\<And>x. x \<in> range_set rs \<Longrightarrow> hi + 1 < x"
proof -
  show "ranges_wf rs" "lo \<le> hi" "hi \<le> MAX_PACKET_NUMBER"
    using assms by (cases rs; force)+
  show "hi + 1 < x" if "x \<in> range_set rs" for x
    using assms that
  proof (induction rs arbitrary: lo hi)
    case (Cons r rs)
    obtain lo' hi' where r: "r = (lo', hi')" by (cases r)
    show ?case
    proof (cases "x \<in> {lo'..hi'}")
      case True
      then show ?thesis using Cons.prems by (simp add: r)
    next
      case False
      then have "hi' + 1 < x"
        using Cons.IH [of lo' hi'] Cons.prems by (auto simp: r)
      moreover have "hi + 1 < lo'" "lo' \<le> hi'"
        using Cons.prems(1) by (cases rs; force simp: r)+
      ultimately show ?thesis by simp
    qed
  qed simp
qed

lemma ranges_wf_Cons:
  assumes "ranges_wf rs" and "lo \<le> hi" and "hi \<le> MAX_PACKET_NUMBER"
    and "\<And>x. x \<in> range_set rs \<Longrightarrow> hi + 1 < x"
  shows "ranges_wf ((lo, hi) # rs)"
proof (cases rs)
  case (Cons r rs')
  obtain lo' hi' where r: "r = (lo', hi')" by (cases r)
  have "lo' \<le> hi'"
    using assms(1) ranges_wf_ConsD(2) [of lo' hi' rs'] by (simp add: Cons r)
  then show ?thesis
    using assms(1-3) assms(4) [of lo'] by (simp add: Cons r)
qed (use assms in simp)

lemma u64_add_1 [simp]: "n \<le> MAX_PACKET_NUMBER \<Longrightarrow> u64_add n (Suc 0) = Suc n"
  by (simp add: u64_add_def MAX_PACKET_NUMBER_def)

text \<open>The insertion, as a recursion on the list instead of index arithmetic on the vector. \<open>None\<close> is a
  duplicate.\<close>

fun insert_ref :: "nat \<Rightarrow> (nat \<times> nat) list \<Rightarrow> (nat \<times> nat) list option" where
  "insert_ref pn [] = Some [(pn, pn)]"
| "insert_ref pn ((lo, hi) # rs) =
     (if hi + 1 < pn then map_option (\<lambda>rs'. (lo, hi) # rs') (insert_ref pn rs)
      else if lo \<le> pn \<and> pn \<le> hi then None
      else if pn + 1 = lo then Some ((pn, hi) # rs)
      else if hi + 1 = pn then
        (case rs of
           [] \<Rightarrow> Some [(lo, pn)]
         | (lo', hi') # rs' \<Rightarrow>
             if lo' = pn + 1 then Some ((lo, hi') # rs') else Some ((lo, pn) # rs))
      else Some ((pn, pn) # (lo, hi) # rs))"

lemma insert_ref_set:
  assumes "ranges_wf rs" and "pn \<le> MAX_PACKET_NUMBER"
  shows "case insert_ref pn rs of
     None \<Rightarrow> pn \<in> range_set rs
   | Some rs' \<Rightarrow> pn \<notin> range_set rs \<and> ranges_wf rs' \<and> range_set rs' = insert pn (range_set rs)
       \<and> length rs' \<le> Suc (length rs)"
  using assms
proof (induction rs)
  case Nil
  then show ?case by auto
next
  case (Cons r rs)
  obtain lo hi where r: "r = (lo, hi)" by (cases r)
  note wf = ranges_wf_ConsD [OF Cons.prems(1) [unfolded r]]
  consider (above) "hi + 1 < pn" | (dup) "lo \<le> pn" "pn \<le> hi" | (touch_low) "pn + 1 = lo"
    | (touch_high) "hi + 1 = pn" | (gap) "pn + 1 < lo"
    by linarith
  then show ?case
  proof cases
    case above
    then show ?thesis
      using Cons.IH [OF wf(1) Cons.prems(2)] wf
      by (auto simp: r split: option.splits intro!: ranges_wf_Cons)
  next
    case dup
    then show ?thesis by (simp add: r)
  next
    case touch_low
    then have "pn \<notin> range_set rs"
      using wf(2,4) by force
    then show ?thesis
      using touch_low wf by (auto simp: r intro!: ranges_wf_Cons)
  next
    case gap
    then have "pn \<notin> range_set rs"
      using wf(2,4) by force
    then show ?thesis
      using gap wf Cons.prems by (auto simp: r intro!: ranges_wf_Cons dest: wf(4))
  next
    case touch_high
    show ?thesis
    proof (cases rs)
      case Nil
      then show ?thesis
        using touch_high wf Cons.prems by (auto simp: r)
    next
      case (Cons r' rs')
      obtain lo' hi' where r': "r' = (lo', hi')" by (cases r')
      note wf' = ranges_wf_ConsD [OF wf(1) [unfolded Cons r']]
      have lo': "hi + 1 < lo'"
        using wf(4) wf'(2) by (simp add: Cons r')
      show ?thesis
      proof (cases "lo' = pn + 1")
        case True
        then show ?thesis
          using touch_high wf wf' by (auto simp: r r' Cons intro!: ranges_wf_Cons dest: wf'(4))
      next
        case False
        have lt: "pn + 1 < lo'"
          using touch_high lo' False by linarith
        have "insert_ref pn (r # rs) = Some ((lo, pn) # rs)"
          using touch_high wf(2) False by (simp add: r r' Cons)
        moreover have "ranges_wf ((lo, pn) # rs)"
          using touch_high wf(1,2) lt \<open>pn \<le> MAX_PACKET_NUMBER\<close> by (simp add: Cons r')
        ultimately show ?thesis
          using touch_high wf(2,4) by (auto simp: r)
      qed
    qed
  qed
qed

text \<open>The vector code of \<open>insert\<close> is the reference insertion followed by the cap.\<close>

lemma scan_index_le: "scan_index rs pn \<le> length rs"
  by (induction rs pn rule: scan_index.induct) auto

definition insert_at :: "nat \<Rightarrow> nat \<Rightarrow> (nat \<times> nat) list \<Rightarrow> (nat \<times> nat) list option" where
  "insert_at i pn rs =
     (if i = length rs then Some (rs @ [(pn, pn)])
      else
        let (lo, hi) = rs ! i
        in if lo \<le> pn \<and> pn \<le> hi then None
           else if u64_add pn 1 = lo then Some (rs[i := (pn, hi)])
           else if u64_add hi 1 = pn then
             (if i + 1 < length rs \<and> fst (rs ! (i + 1)) = u64_add pn 1 then
                Some (vec_remove (rs[i := (lo, snd (rs ! (i + 1)))]) (i + 1))
              else Some (rs[i := (lo, pn)]))
           else Some (vec_insert rs i (pn, pn)))"

lemma insert_at_Suc:
  "insert_at (Suc i) pn (r # rs) = map_option (\<lambda>rs'. r # rs') (insert_at i pn rs)"
  by (auto simp: insert_at_def Let_def vec_remove_def vec_insert_def split_def)

lemma insert_at_scan:
  assumes "ranges_wf rs" and "pn \<le> MAX_PACKET_NUMBER"
  shows "insert_at (scan_index rs pn) pn rs = insert_ref pn rs"
  using assms
proof (induction rs)
  case Nil
  then show ?case by (simp add: insert_at_def)
next
  case (Cons r rs)
  obtain lo hi where r: "r = (lo, hi)" by (cases r)
  note wf = ranges_wf_ConsD [OF Cons.prems(1) [unfolded r]]
  show ?case
  proof (cases "hi + 1 < pn")
    case True
    then show ?thesis
      using Cons.IH [OF wf(1) Cons.prems(2)] wf(3) by (simp add: r insert_at_Suc)
  next
    case False
    then show ?thesis
      using wf(3) Cons.prems(2)
      by (auto simp: r insert_at_def vec_remove_def vec_insert_def split: list.splits)
  qed
qed

lemma rp_insert_eq:
  assumes "ranges_wf (rp_ranges s)" and "pn \<le> MAX_PACKET_NUMBER" and "length (rp_ranges s) \<le> MAX_ACK_RANGES"
  shows "rp_insert pn s =
     (if below_low_water s pn then (False, s)
      else case insert_ref pn (rp_ranges s) of
        None \<Rightarrow> (False, s)
      | Some rs \<Rightarrow> (True, enforce_cap (s\<lparr>rp_ranges := rs\<rparr>)))"
proof -
  have cap: "enforce_cap (s\<lparr>rp_ranges := rs\<rparr>) = s\<lparr>rp_ranges := rs\<rparr>"
    if "length rs \<le> length (rp_ranges s)" for rs
    using that assms(3) by (simp add: enforce_cap_def)
  show ?thesis
    unfolding insert_at_scan [OF assms(1,2), symmetric]
    by (auto simp: rp_insert_def insert_at_def Let_def cap vec_remove_def split_def min_def)
qed

section \<open>Replay protection\<close>

definition rp_inv :: "received_packets \<Rightarrow> bool" where
  "rp_inv s \<longleftrightarrow> ranges_wf (rp_ranges s) \<and> length (rp_ranges s) \<le> MAX_ACK_RANGES
     \<and> list_all (\<lambda>(lo, hi). \<not> below_low_water s lo) (rp_ranges s)"

text \<open>The numbers treated as received: the stored ranges and everything up to the low-water mark.\<close>

definition seen :: "received_packets \<Rightarrow> nat set" where
  "seen s = {pn. below_low_water s pn} \<union> range_set (rp_ranges s)"

lemma rp_contains_seen: "rp_contains s pn \<longleftrightarrow> pn \<in> seen s"
  by (fastforce simp: rp_contains_def seen_def range_set_def list_ex_iff)

lemma below_low_water_mono: "below_low_water s pn \<Longrightarrow> pn' \<le> pn \<Longrightarrow> below_low_water s pn'"
  by (auto simp: below_low_water_def split: option.splits)

lemma below_low_water_upd [simp]: "below_low_water (s\<lparr>rp_ranges := rs\<rparr>) pn = below_low_water s pn"
  by (simp add: below_low_water_def)

lemma rp_inv_new: "rp_inv rp_new" "seen rp_new = {}"
  by (simp_all add: rp_inv_def rp_new_def seen_def below_low_water_def)

lemma low_ends_above:
  assumes "\<And>x. x \<in> range_set rs \<Longrightarrow> P x" and "ranges_wf rs"
  shows "list_all (\<lambda>(lo, hi). P lo) rs"
  using assms
proof (induction rs)
  case (Cons r rs)
  obtain lo hi where r: "r = (lo, hi)" by (cases r)
  show ?case
    using Cons ranges_wf_ConsD [OF Cons.prems(2) [unfolded r]] by (simp add: r)
qed simp

lemma range_set_above:
  assumes "list_all (\<lambda>(lo, hi). \<not> below_low_water s lo) rs" and "x \<in> range_set rs"
  shows "\<not> below_low_water s x"
  using assms by (auto simp: range_set_def list_all_iff dest: below_low_water_mono)

lemma enforce_cap_inv:
  assumes "ranges_wf rs" and "length rs \<le> Suc MAX_ACK_RANGES" and "\<And>x. x \<in> range_set rs \<Longrightarrow> \<not> below_low_water s x"
  shows "rp_inv (enforce_cap (s\<lparr>rp_ranges := rs\<rparr>))"
    and "{pn. below_low_water s pn} \<union> range_set rs \<subseteq> seen (enforce_cap (s\<lparr>rp_ranges := rs\<rparr>))"
proof -
  have "rp_inv (enforce_cap (s\<lparr>rp_ranges := rs\<rparr>))
    \<and> {pn. below_low_water s pn} \<union> range_set rs \<subseteq> seen (enforce_cap (s\<lparr>rp_ranges := rs\<rparr>))"
  proof (cases "MAX_ACK_RANGES < length rs")
    case False
    then have "enforce_cap (s\<lparr>rp_ranges := rs\<rparr>) = s\<lparr>rp_ranges := rs\<rparr>"
      by (simp add: enforce_cap_def)
    then show ?thesis
      using assms False low_ends_above [OF assms(3,1)] by (simp add: rp_inv_def seen_def)
  next
    case True
    then obtain lo hi rs' where rs: "rs = (lo, hi) # rs'"
      by (cases rs) auto
    note wf = ranges_wf_ConsD [OF assms(1) [unfolded rs]]
    define t where "t = enforce_cap (s\<lparr>rp_ranges := rs\<rparr>)"
    have t: "rp_ranges t = rs'" "low_water t = Some (case low_water s of None \<Rightarrow> hi | Some w \<Rightarrow> max w hi)"
      using True by (simp_all add: t_def enforce_cap_def rs)
    have low: "below_low_water t pn \<longleftrightarrow> below_low_water s pn \<or> pn \<le> hi" for pn
      by (auto simp: below_low_water_def t split: option.splits)
    have "\<not> below_low_water t x" if "x \<in> range_set rs'" for x
      unfolding low using that wf(4) [OF that] assms(3) [of x] by (simp add: rs)
    then have "list_all (\<lambda>(lo, hi). \<not> below_low_water t lo) rs'"
      using low_ends_above [of rs' "\<lambda>x. \<not> below_low_water t x"] wf(1) by blast
    then have "rp_inv t"
      using assms(2) wf(1) by (simp add: rp_inv_def t rs)
    moreover have "{pn. below_low_water s pn} \<union> range_set rs \<subseteq> seen t"
      by (auto simp: seen_def t low rs)
    ultimately show ?thesis
      by (simp add: t_def)
  qed
  then show "rp_inv (enforce_cap (s\<lparr>rp_ranges := rs\<rparr>))"
    and "{pn. below_low_water s pn} \<union> range_set rs \<subseteq> seen (enforce_cap (s\<lparr>rp_ranges := rs\<rparr>))"
    by blast+
qed

lemma rp_insert_correct:
  assumes "rp_inv s" and "pn \<le> MAX_PACKET_NUMBER"
  shows "rp_inv (snd (rp_insert pn s))" and "fst (rp_insert pn s) \<longleftrightarrow> pn \<notin> seen s"
    and "insert pn (seen s) \<subseteq> seen (snd (rp_insert pn s))"
proof -
  have inv: "ranges_wf (rp_ranges s)" "length (rp_ranges s) \<le> MAX_ACK_RANGES"
    "list_all (\<lambda>(lo, hi). \<not> below_low_water s lo) (rp_ranges s)"
    using assms(1) by (simp_all add: rp_inv_def)
  note eq = rp_insert_eq [OF inv(1) assms(2) inv(2)]
  note ref = insert_ref_set [OF inv(1) assms(2)]
  have "rp_inv (snd (rp_insert pn s)) \<and> (fst (rp_insert pn s) \<longleftrightarrow> pn \<notin> seen s)
    \<and> insert pn (seen s) \<subseteq> seen (snd (rp_insert pn s))"
  proof (cases "below_low_water s pn")
    case True
    then show ?thesis
      using assms(1) by (simp add: eq seen_def)
  next
    case low: False
    show ?thesis
    proof (cases "insert_ref pn (rp_ranges s)")
      case None
      then show ?thesis
        using assms(1) ref low by (simp add: eq seen_def insert_absorb)
    next
      case (Some rs)
      then have rs: "pn \<notin> range_set (rp_ranges s)" "ranges_wf rs"
        "range_set rs = insert pn (range_set (rp_ranges s))" "length rs \<le> Suc MAX_ACK_RANGES"
        using ref inv(2) by auto
      have "\<not> below_low_water s x" if "x \<in> range_set rs" for x
        using that low range_set_above [OF inv(3)] by (auto simp: rs(3))
      note cap = enforce_cap_inv [OF rs(2,4) this]
      show ?thesis
        using cap rs(1,3) low Some by (auto simp: eq seen_def)
    qed
  qed
  then show "rp_inv (snd (rp_insert pn s))" and "fst (rp_insert pn s) \<longleftrightarrow> pn \<notin> seen s"
    and "insert pn (seen s) \<subseteq> seen (snd (rp_insert pn s))"
    by blast+
qed

interpretation rp: replay_filter rp_inv "\<lambda>pn. pn \<le> MAX_PACKET_NUMBER" rp_insert seen
  by unfold_locales (rule rp_insert_correct; assumption)+

text \<open>C13. In any sequence of received packet numbers each is accepted at most once, even after the range
  list has overflowed and its oldest range was evicted; the list stays sorted, disjoint, non-adjacent
  and within its cap; and a number that was offered before is reported as a duplicate.\<close>

theorem received_at_most_once:
  assumes "list_all (\<lambda>pn. pn \<le> MAX_PACKET_NUMBER) pns"
  shows "distinct (accepted rp_insert pns rp_new)
    \<and> rp_inv (after rp_insert pns rp_new)
    \<and> list_all (\<lambda>pn. rp_contains (after rp_insert pns rp_new) pn
        \<and> \<not> fst (rp_insert pn (after rp_insert pns rp_new))) pns"
proof -
  have "distinct (accepted rp_insert pns rp_new)" "rp_inv (after rp_insert pns rp_new)"
    using assms rp.accepted_once rp.after_inv rp_inv_new(1) by blast+
  moreover have "set pns \<subseteq> seen (after rp_insert pns rp_new)"
    using rp.after_seen [OF rp_inv_new(1) assms] by simp
  ultimately show ?thesis
    using assms rp.offer_new by (auto simp: list_all_iff rp_contains_seen)
qed

theorem received_at_most_once_witness:
  "distinct (accepted rp_insert [4, 2, 3, 4, 0, 3] rp_new)
    \<and> rp_inv (after rp_insert [4, 2, 3, 4, 0, 3] rp_new)
    \<and> rp_contains (after rp_insert [4, 2, 3, 4, 0, 3] rp_new) 3"
  using received_at_most_once [of "[4, 2, 3, 4, 0, 3]"] by (simp add: MAX_PACKET_NUMBER_def)

section \<open>The ACK frame\<close>

lemma ack_ranges_wf_snoc:
  "xs \<noteq> [] \<Longrightarrow> ack_ranges_wf (xs @ [(l, h)]) \<longleftrightarrow>
     ack_ranges_wf xs \<and> l \<le> h \<and> unat h + 2 \<le> unat (fst (last xs))"
  by (induction xs rule: ack_ranges_wf.induct) auto

lemma unat_of_nat_pn:
  assumes "n \<le> MAX_PACKET_NUMBER"
  shows "unat (of_nat n :: u64) = n" and "(of_nat n :: u64) \<le> VARINT_MAX"
proof -
  have "n \<le> unat VARINT_MAX"
    using assms by (simp add: MAX_PACKET_NUMBER_def VARINT_MAX_eq)
  then show "unat (of_nat n :: u64) = n" "(of_nat n :: u64) \<le> VARINT_MAX"
    by (simp_all add: of_nat_le_VARINT_MAX)
qed

lemma ranges_wf_bounds:
  assumes "ranges_wf rs" and "(lo, hi) \<in> set rs"
  shows "lo \<le> hi" "hi \<le> MAX_PACKET_NUMBER"
proof -
  have "lo \<le> hi \<and> hi \<le> MAX_PACKET_NUMBER"
    using assms
  proof (induction rs)
    case (Cons r rs)
    obtain l h where r: "r = (l, h)" by (cases r)
    show ?case
      using Cons ranges_wf_ConsD [OF Cons.prems(1) [unfolded r]] by (auto simp: r)
  qed simp
  then show "lo \<le> hi" "hi \<le> MAX_PACKET_NUMBER" by simp_all
qed

abbreviation word_range :: "nat \<times> nat \<Rightarrow> u64 \<times> u64" where
  "word_range \<equiv> \<lambda>(lo, hi). (of_nat lo, of_nat hi)"

lemma ack_ranges_wf_rev:
  assumes "ranges_wf rs" and "rs \<noteq> []"
  shows "ack_ranges_wf (map word_range (rev rs))"
  using assms
proof (induction rs)
  case (Cons r rs)
  obtain lo hi where r: "r = (lo, hi)" by (cases r)
  note wf = ranges_wf_ConsD [OF Cons.prems(1) [unfolded r]]
  have ih: "rs \<noteq> [] \<Longrightarrow> ack_ranges_wf (map word_range (rev rs))"
    using Cons.IH wf(1) by blast
  have le: "(of_nat lo :: u64) \<le> of_nat hi"
    using wf(2,3) by (simp add: word_le_nat_alt unat_of_nat_pn)
  show ?case
  proof (cases rs)
    case Nil
    then show ?thesis using le by (simp add: r)
  next
    case (Cons r' rs')
    obtain lo' hi' where r': "r' = (lo', hi')" by (cases r')
    note wf' = ranges_wf_ConsD [OF wf(1) [unfolded Cons r']]
    have "hi + 1 < lo'"
      using wf(4) [of lo'] wf'(2) by (simp add: Cons r')
    then have "unat (of_nat hi :: u64) + 2 \<le> unat (fst (last (map word_range (rev rs))))"
      using wf(3) wf'(2,3) by (simp add: Cons r' last_map unat_of_nat_pn)
    moreover have "map word_range (rev (r # rs)) = map word_range (rev rs) @ [(of_nat lo, of_nat hi)]"
      by (simp add: r)
    ultimately show ?thesis
      using ih wf(1) le Cons ack_ranges_wf_snoc [of "map word_range (rev rs)"] by (simp only:) auto
  qed
qed simp

lemma to_ack_wf:
  assumes "rp_inv s" and "ack_delay \<le> unat VARINT_MAX" and "to_ack ack_delay s = Some a"
  shows "frame_wf (Ack a)"
    and "(\<Union>(lo, hi)\<in>set (ranges a). {unat lo..unat hi}) = range_set (rp_ranges s)"
proof -
  have rs: "ranges_wf (rp_ranges s)" "rp_ranges s \<noteq> []" "length (rp_ranges s) \<le> 32"
    and a: "a = \<lparr>largest = of_nat (snd (last (rp_ranges s))), delay = of_nat ack_delay,
      ranges = map word_range (rev (rp_ranges s)), ecn = None\<rparr>"
    using assms by (auto simp: rp_inv_def to_ack_def MAX_ACK_RANGES_def split: if_splits)
  have "last (rp_ranges s) \<in> set (rp_ranges s)"
    using rs(2) by simp
  then have "snd (last (rp_ranges s)) \<le> MAX_PACKET_NUMBER"
    using ranges_wf_bounds(2) [OF rs(1)] by (metis prod.collapse)
  moreover have "32 \<le> unat VARINT_MAX"
    by (simp add: VARINT_MAX_eq)
  ultimately show "frame_wf (Ack a)"
    using rs ack_ranges_wf_rev [OF rs(1,2)] assms(2) \<open>32 \<le> unat VARINT_MAX\<close>
    by (simp add: a ack_wf_def unat_of_nat_pn of_nat_le_VARINT_MAX hd_map hd_rev split_def)
  show "(\<Union>(lo, hi)\<in>set (ranges a). {unat lo..unat hi}) = range_set (rp_ranges s)"
  proof -
    have "unat (of_nat lo :: u64) = lo \<and> unat (of_nat hi :: u64) = hi" if "(lo, hi) \<in> set (rp_ranges s)" for lo hi
      using ranges_wf_bounds [OF rs(1) that] by (simp add: unat_of_nat_pn)
    then have "(\<Union>(lo, hi)\<in>set (rp_ranges s). {unat (of_nat lo :: u64)..unat (of_nat hi :: u64)}) =
        range_set (rp_ranges s)"
      unfolding range_set_def by (intro SUP_cong) auto
    then show ?thesis
      by (simp add: a split_def)
  qed
qed

lemma varint_size_le: "varint_size v \<le> 8"
  by (simp add: varint_size_def)

lemma length_encode_ack_ranges: "length (encode_ack_ranges low rs) \<le> 16 * length rs"
proof (induction rs arbitrary: low)
  case (Cons r rs)
  obtain lo hi where "r = (lo, hi)" by (cases r)
  then show ?case
    using Cons.IH [of lo] varint_size_le [of "low - hi - 2"] varint_size_le [of "hi - lo"] by simp
qed simp

lemma length_encode_ack: "ecn a = None \<Longrightarrow> length (encode_ack a) \<le> 40 + 16 * length (ranges a)"
proof (cases "ranges a")
  case (Cons r rs)
  assume "ecn a = None"
  obtain lo hi where r: "r = (lo, hi)" by (cases r)
  show ?thesis
    using length_encode_ack_ranges [of lo rs] varint_size_le [of 2] varint_size_le [of hi]
      varint_size_le [of "delay a"] varint_size_le [of "of_nat (length rs)"] varint_size_le [of "hi - lo"]
      \<open>ecn a = None\<close>
    by (simp add: encode_ack_Cons [OF Cons [unfolded r]] Cons)
qed (simp add: encode_ack_def)

text \<open>C20. The ACK frame built from the received set acknowledges exactly the stored ranges, and the
  peer's frame decoder reads back that very frame from the bytes sent.\<close>

theorem ack_frame_faithful:
  assumes "rp_inv s" and "ack_delay \<le> unat VARINT_MAX" and "to_ack ack_delay s = Some a"
  shows "(\<Union>(lo, hi)\<in>set (ranges a). {unat lo..unat hi}) = range_set (rp_ranges s)
    \<and> collect (iter_new (frame_encode (Ack a))) = [Inr (Ack a)]"
proof -
  have wf: "frame_wf (Ack a)"
    using assms by (rule to_ack_wf)
  have "ecn a = None" "length (ranges a) \<le> 32"
    using assms(1,3) by (auto simp: to_ack_def rp_inv_def MAX_ACK_RANGES_def split: if_splits)
  then have "length (frame_encode (Ack a)) < usize_limit"
    using length_encode_ack [of a] by (simp add: usize_limit_def)
  then have "collect (iter_new (frame_encode (Ack a))) = map Inr [Ack a]"
    using wf by (intro collect_encode) (simp_all add: payload_encode_def)
  then show ?thesis
    using to_ack_wf(2) [OF assms] by simp
qed

theorem ack_frame_faithful_witness:
  "\<exists>a. to_ack 5 \<lparr>rp_ranges = [(0, 2), (4, 9)], low_water = None\<rparr> = Some a
    \<and> (\<Union>(lo, hi)\<in>set (ranges a). {unat lo..unat hi}) = {0..2} \<union> {4..9}
    \<and> collect (iter_new (frame_encode (Ack a))) = [Inr (Ack a)]"
proof -
  let ?s = "\<lparr>rp_ranges = [(0, 2), (4, 9)], low_water = None\<rparr>"
  obtain a where a: "to_ack 5 ?s = Some a"
    by (simp add: to_ack_def)
  have "rp_inv ?s"
    by (simp add: rp_inv_def MAX_PACKET_NUMBER_def MAX_ACK_RANGES_def below_low_water_def)
  moreover have "5 \<le> unat VARINT_MAX"
    by (simp add: VARINT_MAX_eq)
  ultimately show ?thesis
    using ack_frame_faithful [of ?s 5 a] a by simp
qed

end
