(* ===== verification/Recovery.thy ===== *)
theory Recovery
  imports Prelude
begin

text \<open>
  Loss recovery: \<open>transport/udp/quic/recovery.rs\<close>. Durations and instants are natural numbers of
  nanoseconds. The \<open>BTreeMap\<close> of sent packets is an association list in ascending key order, so that
  its range iterations are filters. A \<open>u64\<close> byte count is a natural number with the addition reduced
  modulo \<open>2^64\<close>; \<open>saturating_sub\<close> is the truncated subtraction.
\<close>

section \<open>The RTT estimator\<close>

definition TIMER_GRANULARITY :: nat where "TIMER_GRANULARITY = 1000000"

definition INITIAL_RTT :: nat where "INITIAL_RTT = 333 * 1000000"

record rtt_estimator =
  rtt_latest :: nat
  rtt_smoothed :: "nat option"
  rttvar :: nat
  rtt_min :: nat

definition rtt_new :: rtt_estimator where
  "rtt_new = \<lparr>rtt_latest = INITIAL_RTT, rtt_smoothed = None, rttvar = INITIAL_RTT div 2, rtt_min = 0\<rparr>"

definition rtt_update :: "nat \<Rightarrow> nat \<Rightarrow> rtt_estimator \<Rightarrow> rtt_estimator" where
  "rtt_update ack_delay rtt_sample e =
     (let e = e\<lparr>rtt_latest := rtt_sample\<rparr>
      in case rtt_smoothed e of
           None \<Rightarrow> e\<lparr>rtt_min := rtt_sample, rtt_smoothed := Some rtt_sample, rttvar := rtt_sample div 2\<rparr>
         | Some smoothed \<Rightarrow>
             let e = e\<lparr>rtt_min := min (rtt_min e) rtt_sample\<rparr>;
                 adjusted = (if rtt_min e + ack_delay \<le> rtt_sample then rtt_sample - ack_delay else rtt_sample);
                 var_sample = (if adjusted < smoothed then smoothed - adjusted else adjusted - smoothed)
             in e\<lparr>rttvar := (rttvar e * 3 + var_sample) div 4,
                  rtt_smoothed := Some ((smoothed * 7 + adjusted) div 8)\<rparr>)"

definition smoothed :: "rtt_estimator \<Rightarrow> nat" where
  "smoothed e = (case rtt_smoothed e of None \<Rightarrow> INITIAL_RTT | Some s \<Rightarrow> s)"

definition pto_base :: "rtt_estimator \<Rightarrow> nat" where
  "pto_base e = smoothed e + max (rttvar e * 4) TIMER_GRANULARITY"

definition loss_delay :: "rtt_estimator \<Rightarrow> nat" where
  "loss_delay e = (let base = max (smoothed e) (rtt_latest e) in max (base * 9 div 8) TIMER_GRANULARITY)"

section \<open>Sent packets\<close>

definition PACKET_THRESHOLD :: nat where "PACKET_THRESHOLD = 3"

definition MAX_NON_ACK_ELICITING_TRACKED :: nat where "MAX_NON_ACK_ELICITING_TRACKED = 256"

record sent_packet =
  time_sent :: nat
  sp_size :: nat
  ack_eliciting :: bool
  delivered :: nat

record sent_packets =
  packets :: "(nat \<times> sent_packet) list"
  non_ack_eliciting :: "nat list"
  largest_acked :: "nat option"
  in_flight :: nat

definition sent_new :: sent_packets where
  "sent_new = \<lparr>packets = [], non_ack_eliciting = [], largest_acked = None, in_flight = 0\<rparr>"

text \<open>\<open>BTreeMap::insert\<close> and \<open>BTreeMap::remove\<close>.\<close>

fun bt_insert :: "nat \<Rightarrow> 'v \<Rightarrow> (nat \<times> 'v) list \<Rightarrow> (nat \<times> 'v) list" where
  "bt_insert k v [] = [(k, v)]"
| "bt_insert k v ((k', v') # xs) =
     (if k < k' then (k, v) # (k', v') # xs
      else if k = k' then (k, v) # xs
      else (k', v') # bt_insert k v xs)"

definition bt_remove :: "nat \<Rightarrow> (nat \<times> 'v) list \<Rightarrow> (nat \<times> 'v) list" where
  "bt_remove k xs = filter (\<lambda>(k', _). k' \<noteq> k) xs"

text \<open>The \<open>while\<close> loop of \<open>on_sent\<close>; it pops the oldest tracked pure-ACK numbers.\<close>

fun evict :: "nat list \<Rightarrow> (nat \<times> sent_packet) list \<Rightarrow> nat list \<times> (nat \<times> sent_packet) list" where
  "evict [] ps = ([], ps)"
| "evict (d # ds) ps =
     (if MAX_NON_ACK_ELICITING_TRACKED < length (d # ds) then evict ds (bt_remove d ps) else (d # ds, ps))"

definition on_sent :: "nat \<Rightarrow> sent_packet \<Rightarrow> sent_packets \<Rightarrow> sent_packets" where
  "on_sent pn sent s =
     (let s = (if ack_eliciting sent then s\<lparr>in_flight := (in_flight s + sp_size sent) mod 2 ^ 64\<rparr>
               else
                 let (ds, ps) = evict (non_ack_eliciting s @ [pn]) (packets s)
                 in s\<lparr>non_ack_eliciting := ds, packets := ps\<rparr>)
      in s\<lparr>packets := bt_insert pn sent (packets s)\<rparr>)"

definition discard :: "nat \<Rightarrow> sent_packets \<Rightarrow> sent_packet option \<times> sent_packets" where
  "discard pn s =
     (case map_of (packets s) pn of
        None \<Rightarrow> (None, s)
      | Some p \<Rightarrow>
          let s = s\<lparr>packets := bt_remove pn (packets s)\<rparr>
          in (Some p, if ack_eliciting p then s\<lparr>in_flight := in_flight s - sp_size p\<rparr> else s))"

text \<open>The inner loop of \<open>on_ack\<close>: remove the keys collected from one range. Its body removes a packet
  exactly as \<open>discard\<close> does.\<close>

fun remove_keys :: "nat list \<Rightarrow> sent_packets \<Rightarrow> (nat \<times> sent_packet) list \<times> sent_packets" where
  "remove_keys [] s = ([], s)"
| "remove_keys (k # ks) s =
     (case discard k s of
        (None, s') \<Rightarrow> remove_keys ks s'
      | (Some p, s') \<Rightarrow> let (acked, s'') = remove_keys ks s' in ((k, p) # acked, s''))"

text \<open>The outer loop; \<open>None\<close> is the panic of \<open>BTreeMap::range\<close> on an inverted range.\<close>

fun ack_ranges_loop ::
  "(nat \<times> nat) list \<Rightarrow> sent_packets \<Rightarrow> ((nat \<times> sent_packet) list \<times> sent_packets) option" where
  "ack_ranges_loop [] s = Some ([], s)"
| "ack_ranges_loop ((low, high) # rs) s =
     (if high < low then None
      else
        let keys = map fst (filter (\<lambda>(k, _). low \<le> k \<and> k \<le> high) (packets s));
            (acked, s') = remove_keys keys s
        in map_option (\<lambda>(acked', s''). (acked @ acked', s'')) (ack_ranges_loop rs s'))"

definition on_ack ::
  "nat \<Rightarrow> (nat \<times> nat) list \<Rightarrow> sent_packets \<Rightarrow> ((nat \<times> sent_packet) list \<times> sent_packets) option" where
  "on_ack lgst ranges s =
     ack_ranges_loop ranges
       (s\<lparr>largest_acked := Some (case largest_acked s of None \<Rightarrow> lgst | Some l \<Rightarrow> max l lgst)\<rparr>)"

definition checked_sub_instant :: "nat \<Rightarrow> nat \<Rightarrow> nat option" where
  "checked_sub_instant now d = (if d \<le> now then Some (now - d) else None)"

definition opt_min :: "nat option \<Rightarrow> nat \<Rightarrow> nat option" where
  "opt_min lt d = Some (case lt of None \<Rightarrow> d | Some t \<Rightarrow> min t d)"

text \<open>The loop of \<open>detect_lost\<close>; \<open>None\<close> is the panic of indexing a missing key.\<close>

fun detect_loop ::
  "nat \<Rightarrow> nat \<Rightarrow> nat option \<Rightarrow> nat list \<Rightarrow> sent_packets \<Rightarrow> nat option \<Rightarrow>
     ((nat \<times> sent_packet) list \<times> nat option \<times> sent_packets) option" where
  "detect_loop lgst delay lost_send_time [] s loss_time = Some ([], loss_time, s)"
| "detect_loop lgst delay lost_send_time (k # ks) s loss_time =
     (case map_of (packets s) k of
        None \<Rightarrow> None
      | Some p \<Rightarrow>
          let by_packet = min (k + PACKET_THRESHOLD) (2 ^ 64 - 1) \<le> lgst;
              by_time = (case lost_send_time of None \<Rightarrow> False | Some t \<Rightarrow> time_sent p \<le> t)
          in if by_packet \<or> by_time then
               map_option (\<lambda>(lost, lt, s'). ((k, p) # lost, lt, s'))
                 (detect_loop lgst delay lost_send_time ks (snd (discard k s)) loss_time)
             else detect_loop lgst delay lost_send_time ks s (opt_min loss_time (time_sent p + delay)))"

definition detect_lost ::
  "nat \<Rightarrow> nat \<Rightarrow> sent_packets \<Rightarrow> ((nat \<times> sent_packet) list \<times> nat option \<times> sent_packets) option" where
  "detect_lost delay now s =
     (case largest_acked s of
        None \<Rightarrow> Some ([], None, s)
      | Some lgst \<Rightarrow>
          let candidates = map fst (filter (\<lambda>(k, _). k < lgst) (packets s))
          in detect_loop lgst delay (checked_sub_instant now delay) candidates s None)"

section \<open>RTT bounds\<close>

definition rtt_bounded :: "nat \<Rightarrow> nat \<Rightarrow> rtt_estimator \<Rightarrow> bool" where
  "rtt_bounded lo hi e \<longleftrightarrow>
     (case rtt_smoothed e of
        None \<Rightarrow> False
      | Some s \<Rightarrow> rtt_min e = lo \<and> lo \<le> s \<and> s \<le> hi \<and> rttvar e \<le> hi \<and> lo \<le> rtt_latest e \<and> rtt_latest e \<le> hi)"

lemma rtt_first: "rtt_smoothed e = None \<Longrightarrow> rtt_bounded s s (rtt_update d s e)"
  by (simp add: rtt_bounded_def rtt_update_def)

lemma rtt_step:
  assumes "rtt_bounded lo hi e"
  shows "rtt_bounded (min lo s) (max hi s) (rtt_update d s e)"
proof -
  obtain sm where e: "rtt_smoothed e = Some sm" "rtt_min e = lo" "lo \<le> sm" "sm \<le> hi" "rttvar e \<le> hi"
    using assms by (auto simp: rtt_bounded_def split: option.splits)
  define adj where "adj = (if min lo s + d \<le> s then s - d else s)"
  define var where "var = (if adj < sm then sm - adj else adj - sm)"
  have adj: "min lo s \<le> adj" "adj \<le> max hi s"
    by (auto simp: adj_def)
  then have "var \<le> max hi s"
    using e(4) by (auto simp: var_def)
  then have "(rttvar e * 3 + var) div 4 \<le> max hi s"
    using e(5) by linarith
  moreover have "min lo s \<le> (sm * 7 + adj) div 8" "(sm * 7 + adj) div 8 \<le> max hi s"
    using adj e(3,4) by linarith+
  moreover have "rtt_update d s e = e\<lparr>rtt_latest := s, rtt_min := min lo s,
      rttvar := (rttvar e * 3 + var) div 4, rtt_smoothed := Some ((sm * 7 + adj) div 8)\<rparr>"
    by (simp only: rtt_update_def Let_def var_def adj_def) (simp add: e)
  ultimately show ?thesis
    by (simp add: rtt_bounded_def)
qed

fun rtt_run :: "(nat \<times> nat) list \<Rightarrow> rtt_estimator \<Rightarrow> rtt_estimator" where
  "rtt_run [] e = e"
| "rtt_run ((d, s) # xs) e = rtt_run xs (rtt_update d s e)"

lemma rtt_run_bounded:
  "rtt_bounded lo hi e \<Longrightarrow>
     rtt_bounded (Min (insert lo (snd ` set xs))) (Max (insert hi (snd ` set xs))) (rtt_run xs e)"
proof (induction xs arbitrary: lo hi e)
  case (Cons x xs)
  obtain d s where x: "x = (d, s)" by (cases x)
  have "Min (insert (min lo s) (snd ` set xs)) = Min (insert lo (insert s (snd ` set xs)))"
    "Max (insert (max hi s) (snd ` set xs)) = Max (insert hi (insert s (snd ` set xs)))"
    by (cases "set xs = {}"; simp add: min.assoc max.assoc)+
  then show ?case
    using Cons.IH [OF rtt_step [OF Cons.prems, of s d]] by (simp add: x)
qed simp

lemma rtt_bounded_timers:
  assumes "rtt_bounded lo hi e"
  shows "lo \<le> smoothed e" "smoothed e \<le> hi" "pto_base e \<le> 5 * hi + TIMER_GRANULARITY"
    "TIMER_GRANULARITY \<le> pto_base e" "rtt_latest e \<le> loss_delay e" "smoothed e \<le> loss_delay e"
    "TIMER_GRANULARITY \<le> loss_delay e"
  using assms
  by (auto simp: rtt_bounded_def smoothed_def pto_base_def loss_delay_def Let_def max_def
      split: option.splits)

text \<open>C22. Whatever acknowledgement delays the peer claims, after any non-empty sequence of samples the
  minimum RTT is the smallest sample, the smoothed RTT lies between the smallest and the largest
  sample, the loss delay is at least the latest and the smoothed RTT, and the probe timeout is at
  least the timer granularity and at most five times the largest sample plus it.\<close>

theorem rtt_estimator_bounded:
  assumes "samples \<noteq> []"
  defines "e \<equiv> rtt_run samples rtt_new" and "S \<equiv> set (map snd samples)"
  shows "rtt_min e = Min S \<and> Min S \<le> smoothed e \<and> smoothed e \<le> Max S
    \<and> max (smoothed e) (rtt_latest e) \<le> loss_delay e
    \<and> TIMER_GRANULARITY \<le> pto_base e \<and> pto_base e \<le> 5 * Max S + TIMER_GRANULARITY"
proof -
  obtain d s xs where samples: "samples = (d, s) # xs"
    using assms(1) by (cases samples) auto
  have "rtt_bounded (Min S) (Max S) e"
    using rtt_run_bounded [OF rtt_first [of rtt_new s d], of xs] unfolding e_def S_def samples
    by (simp add: rtt_new_def)
  then show ?thesis
    using rtt_bounded_timers [of "Min S" "Max S" e] by (auto simp: rtt_bounded_def split: option.splits)
qed

theorem rtt_estimator_bounded_witness:
  "rtt_min (rtt_run [(0, 100), (30, 50)] rtt_new) = Min {100, 50}
    \<and> Min {100, 50} \<le> smoothed (rtt_run [(0, 100), (30, 50)] rtt_new)"
  using rtt_estimator_bounded [of "[(0, 100), (30, 50)]"] by simp

section \<open>Bytes in flight\<close>

definition flight :: "(nat \<times> sent_packet) list \<Rightarrow> nat" where
  "flight ps = sum_list (map (\<lambda>(k, p). if ack_eliciting p then sp_size p else 0) ps)"

lemma flight_simps [simp]:
  "flight [] = 0"
  "flight ((k, p) # ps) = (if ack_eliciting p then sp_size p else 0) + flight ps"
  "flight (ps @ qs) = flight ps + flight qs"
  by (simp_all add: flight_def)

lemma flight_filter_split: "flight ps = flight (filter P ps) + flight (filter (\<lambda>x. \<not> P x) ps)"
  by (induction ps) auto

abbreviation keys :: "(nat \<times> 'v) list \<Rightarrow> nat list" where
  "keys ps \<equiv> map fst ps"

text \<open>Keys ascend, the byte counter is the sum over the tracked ack-eliciting packets, and the deque
  names exactly the tracked packets that are not ack-eliciting, within its cap.\<close>

definition sp_inv :: "sent_packets \<Rightarrow> bool" where
  "sp_inv s \<longleftrightarrow> sorted_wrt (<) (keys (packets s)) \<and> in_flight s = flight (packets s)
     \<and> length (non_ack_eliciting s) \<le> MAX_NON_ACK_ELICITING_TRACKED
     \<and> (\<forall>(k, p)\<in>set (packets s). ack_eliciting p \<longleftrightarrow> k \<notin> set (non_ack_eliciting s))"

lemma sorted_keys_distinct: "sorted_wrt (<) (keys ps) \<Longrightarrow> distinct (keys ps)"
  by (simp add: strict_sorted_iff)

lemma sorted_keys_filter: "sorted_wrt (<) (keys ps) \<Longrightarrow> sorted_wrt (<) (keys (filter P ps))"
  by (simp add: sorted_wrt_map sorted_wrt_filter)

lemma filter_key_single:
  assumes "distinct (keys ps)" and "map_of ps k = Some p"
  shows "filter (\<lambda>(k', _). k' = k) ps = [(k, p)]"
  using assms
proof (induction ps)
  case (Cons q ps)
  obtain k' p' where q: "q = (k', p')" by (cases q)
  show ?case
  proof (cases "k' = k")
    case True
    then have "filter (\<lambda>(k', _). k' = k) ps = []"
      using Cons.prems(1) by (force simp: q filter_empty_conv)
    then show ?thesis
      using True Cons.prems(2) by (simp add: q)
  next
    case False
    then show ?thesis
      using Cons by (simp add: q)
  qed
qed simp

lemma flight_remove:
  assumes "distinct (keys ps)" and "map_of ps k = Some p"
  shows "flight ps = (if ack_eliciting p then sp_size p else 0) + flight (bt_remove k ps)"
  using flight_filter_split [of ps "\<lambda>(k', _). k' = k"] filter_key_single [OF assms]
  by (simp add: bt_remove_def split_def)

lemma discard_eq:
  assumes "sp_inv s"
  shows "discard k s =
    (map_of (packets s) k,
     s\<lparr>packets := bt_remove k (packets s), in_flight := flight (bt_remove k (packets s))\<rparr>)"
proof (cases "map_of (packets s) k")
  case None
  then have "k \<notin> fst ` set (packets s)"
    by (simp add: map_of_eq_None_iff)
  then have "bt_remove k (packets s) = packets s"
    by (force simp: bt_remove_def filter_id_conv)
  then show ?thesis
    using assms None by (simp add: discard_def sp_inv_def)
next
  case (Some p)
  have "distinct (keys (packets s))" "in_flight s = flight (packets s)"
    using assms by (simp_all add: sp_inv_def strict_sorted_iff)
  then show ?thesis
    using Some flight_remove [of "packets s" k p] by (simp add: discard_def Let_def)
qed

lemma sp_inv_filter:
  assumes "sp_inv s"
  shows "sp_inv (s\<lparr>packets := filter P (packets s), in_flight := flight (filter P (packets s))\<rparr>)"
  using assms by (auto simp: sp_inv_def sorted_keys_filter)

lemma sp_inv_discard: "sp_inv s \<Longrightarrow> sp_inv (snd (discard k s))"
  by (simp add: discard_eq bt_remove_def sp_inv_filter)

text \<open>Keeping the packets that satisfy \<open>P\<close>, with the byte counter adjusted.\<close>

definition keep :: "(nat \<times> sent_packet \<Rightarrow> bool) \<Rightarrow> sent_packets \<Rightarrow> sent_packets" where
  "keep P s = s\<lparr>packets := filter P (packets s), in_flight := flight (filter P (packets s))\<rparr>"

lemma keep_simps [simp]:
  "packets (keep P s) = filter P (packets s)"
  "keep P (keep Q s) = keep (\<lambda>x. Q x \<and> P x) s"
  "sp_inv s \<Longrightarrow> sp_inv (keep P s)"
  "sp_inv s \<Longrightarrow> keep (\<lambda>x. True) s = s"
  "non_ack_eliciting (keep P s) = non_ack_eliciting s"
  "largest_acked (keep P s) = largest_acked s"
  "in_flight (keep P s) = flight (filter P (packets s))"
  by (auto simp: keep_def sorted_keys_filter sp_inv_def conj_commute)

lemma discard_keep:
  "sp_inv s \<Longrightarrow> discard k s = (map_of (packets s) k, keep (\<lambda>(k', _). k' \<noteq> k) s)"
  by (simp add: discard_eq keep_def bt_remove_def)

lemma map_of_filter_neq: "k' \<noteq> k \<Longrightarrow> map_of (filter (\<lambda>(k'', _). k'' \<noteq> k) ps) k' = map_of ps k'"
  by (induction ps) auto

lemma remove_keys_keep:
  assumes "sp_inv s" and "distinct ks" and "set ks \<subseteq> set (keys (packets s))"
  shows "remove_keys ks s =
    (map (\<lambda>k. (k, the (map_of (packets s) k))) ks, keep (\<lambda>(k, _). k \<notin> set ks) s)"
  using assms
proof (induction ks arbitrary: s)
  case Nil
  then show ?case by (simp add: split_def)
next
  case (Cons k ks)
  obtain p where p: "map_of (packets s) k = Some p"
    using Cons.prems(3) by (metis list.set_intros(1) list.set_map map_of_eq_None_iff not_Some_eq subsetD)
  define s' where "s' = keep (\<lambda>(k', _). k' \<noteq> k) s"
  have same: "map_of (packets s') k' = map_of (packets s) k'" if "k' \<noteq> k" for k'
    using that by (simp add: s'_def map_of_filter_neq)
  have "set ks \<subseteq> set (keys (packets s'))"
    using Cons.prems(2,3) by (force simp: s'_def)
  then have "remove_keys ks s' =
      (map (\<lambda>k. (k, the (map_of (packets s') k))) ks, keep (\<lambda>(k, _). k \<notin> set ks) s')"
    using Cons.prems by (intro Cons.IH) (simp_all add: s'_def)
  moreover have "map (\<lambda>k. (k, the (map_of (packets s') k))) ks = map (\<lambda>k. (k, the (map_of (packets s) k))) ks"
    using Cons.prems(2) by (intro map_cong refl) (metis distinct.simps(2) same)
  moreover have "keep (\<lambda>(k, _). k \<notin> set ks) s' = keep (\<lambda>(k', _). k' \<notin> set (k # ks)) s"
    by (simp add: s'_def split_def)
  ultimately show ?case
    using p by (simp add: discard_keep [OF Cons.prems(1)] s'_def [symmetric])
qed

lemma map_keys_filter:
  assumes "distinct (keys ps)"
  shows "map (\<lambda>k. (k, the (map_of ps k))) (keys (filter P ps)) = filter P ps"
proof -
  have "(k, the (map_of ps k)) = (k, p)" if "(k, p) \<in> set ps" for k p
    using assms that by simp
  then show ?thesis
    by (auto intro!: map_idI simp: o_def)
qed

lemma in_filter_keys:
  assumes "distinct (keys ps)" and "(k, p) \<in> set ps"
  shows "k \<in> set (keys (filter P ps)) \<longleftrightarrow> P (k, p)"
  using assms by (force simp: distinct_map inj_on_def)

text \<open>Removing the keys that a filter selected returns exactly the selected packets and keeps the rest.\<close>

lemma remove_filtered:
  assumes "sp_inv s"
  shows "remove_keys (keys (filter P (packets s))) s = (filter P (packets s), keep (\<lambda>x. \<not> P x) s)"
proof -
  have d: "distinct (keys (packets s))"
    using assms by (simp add: sp_inv_def strict_sorted_iff)
  have "filter (\<lambda>(k, _). k \<notin> set (keys (filter P (packets s)))) (packets s) =
      filter (\<lambda>x. \<not> P x) (packets s)"
  proof (rule filter_cong [OF refl])
    fix x assume x: "x \<in> set (packets s)"
    obtain k p where "x = (k, p)" by (cases x)
    with x in_filter_keys [OF d, of k p P]
    show "(case x of (k, _) \<Rightarrow> k \<notin> set (keys (filter P (packets s)))) = (\<not> P x)"
      by simp
  qed
  then have "keep (\<lambda>(k, _). k \<notin> set (keys (filter P (packets s)))) s = keep (\<lambda>x. \<not> P x) s"
    by (simp only: keep_def)
  moreover have "distinct (keys (filter P (packets s)))"
    using d by (rule distinct_map_filter)
  ultimately show ?thesis
    using remove_keys_keep [OF assms, of "keys (filter P (packets s))"] map_keys_filter [OF d, of P]
    by (auto simp: image_subset_iff)
qed

definition in_ranges :: "(nat \<times> nat) list \<Rightarrow> nat \<Rightarrow> bool" where
  "in_ranges rs k \<longleftrightarrow> (\<exists>(low, high)\<in>set rs. low \<le> k \<and> k \<le> high)"

lemma ack_ranges_loop_keep:
  assumes "sp_inv s" and "list_all (\<lambda>(low, high). low \<le> high) rs"
  shows "\<exists>acked. ack_ranges_loop rs s = Some (acked, keep (\<lambda>(k, _). \<not> in_ranges rs k) s)
    \<and> set acked = {x \<in> set (packets s). in_ranges rs (fst x)} \<and> distinct (keys acked)"
  using assms
proof (induction rs arbitrary: s)
  case Nil
  then show ?case by (simp add: in_ranges_def split_def)
next
  case (Cons r rs)
  obtain low high where r: "r = (low, high)" by (cases r)
  define P where "P = (\<lambda>(k, _::sent_packet). low \<le> k \<and> k \<le> high)"
  define s' where "s' = keep (\<lambda>x. \<not> P x) s"
  have d: "distinct (keys (packets s))"
    using Cons.prems(1) by (simp add: sp_inv_def strict_sorted_iff)
  have "sp_inv s'" "list_all (\<lambda>(low, high). low \<le> high) rs" "low \<le> high"
    using Cons.prems by (simp_all add: s'_def r)
  with Cons.IH obtain acked where
    ih: "ack_ranges_loop rs s' = Some (acked, keep (\<lambda>(k, _). \<not> in_ranges rs k) s')"
    "set acked = {x \<in> set (packets s'). in_ranges rs (fst x)}" "distinct (keys acked)"
    by blast
  have "ack_ranges_loop (r # rs) s =
      Some (filter P (packets s) @ acked, keep (\<lambda>(k, _). \<not> in_ranges rs k) s')"
    using \<open>low \<le> high\<close> remove_filtered [OF Cons.prems(1), of P] ih(1)
    by (simp add: r P_def [symmetric] s'_def [symmetric])
  moreover have "keep (\<lambda>(k, _). \<not> in_ranges rs k) s' = keep (\<lambda>(k, _). \<not> in_ranges (r # rs) k) s"
    by (simp add: r s'_def P_def in_ranges_def split_def)
  moreover have "set (filter P (packets s) @ acked) = {x \<in> set (packets s). in_ranges (r # rs) (fst x)}"
    unfolding set_append ih(2) by (auto simp: r in_ranges_def s'_def P_def)
  moreover have "distinct (keys (filter P (packets s) @ acked))"
  proof -
    have "distinct (keys (filter P (packets s)))"
      using d by (rule distinct_map_filter)
    moreover have "fst ` set (filter P (packets s)) \<inter> fst ` set acked = {}"
      unfolding ih(2) by (auto simp: s'_def P_def)
    ultimately show ?thesis
      using ih(3) by simp
  qed
  ultimately show ?case
    by (intro exI [of _ "filter P (packets s) @ acked"] conjI) (simp_all only:)
qed

text \<open>The loss rule of RFC 9002: reordered by the packet threshold, or sent a loss delay ago.\<close>

definition is_lost :: "nat \<Rightarrow> nat option \<Rightarrow> nat \<times> sent_packet \<Rightarrow> bool" where
  "is_lost lgst lost_send_time = (\<lambda>(k, p). min (k + PACKET_THRESHOLD) (2 ^ 64 - 1) \<le> lgst
     \<or> (case lost_send_time of None \<Rightarrow> False | Some t \<Rightarrow> time_sent p \<le> t))"

lemma detect_loop_keep:
  assumes "sp_inv s" and "distinct (keys cs)" and "set cs \<subseteq> set (packets s)"
  shows "detect_loop lgst delay t (keys cs) s lt =
    Some (filter (is_lost lgst t) cs,
          fold (\<lambda>(k, p) lt. opt_min lt (time_sent p + delay)) (filter (\<lambda>x. \<not> is_lost lgst t x) cs) lt,
          keep (\<lambda>(k, _). k \<notin> set (keys (filter (is_lost lgst t) cs))) s)"
  using assms
proof (induction cs arbitrary: s lt)
  case Nil
  then show ?case by (simp add: split_def)
next
  case (Cons c cs)
  obtain k p where c: "c = (k, p)" by (cases c)
  have d: "distinct (keys (packets s))"
    using Cons.prems(1) by (simp add: sp_inv_def strict_sorted_iff)
  have p: "map_of (packets s) k = Some p"
    using Cons.prems(3) d by (simp add: c)
  show ?case
  proof (cases "is_lost lgst t c")
    case False
    then have "detect_loop lgst delay t (keys (c # cs)) s lt =
        detect_loop lgst delay t (keys cs) s (opt_min lt (time_sent p + delay))"
      using p by (simp add: c is_lost_def)
    then show ?thesis
      using Cons False by (simp add: c)
  next
    case True
    let ?s' = "keep (\<lambda>(k', _). k' \<noteq> k) s"
    have "detect_loop lgst delay t (keys (c # cs)) s lt =
        map_option (\<lambda>(lost, lt, s'). ((k, p) # lost, lt, s')) (detect_loop lgst delay t (keys cs) ?s' lt)"
      using True p by (simp add: c is_lost_def discard_keep [OF Cons.prems(1)])
    moreover have "set cs \<subseteq> set (packets ?s')"
      using Cons.prems(2,3) by (force simp: c)
    ultimately show ?thesis
      using Cons.IH [of ?s' lt] Cons.prems True by (simp add: c split_def conj_commute)
  qed
qed

lemma on_ack_correct:
  assumes "sp_inv s" and "list_all (\<lambda>(low, high). low \<le> high) rs"
  obtains acked s' where "on_ack lgst rs s = Some (acked, s')"
    and "set acked = {x \<in> set (packets s). in_ranges rs (fst x)}" and "distinct (keys acked)"
    and "packets s' = filter (\<lambda>(k, _). \<not> in_ranges rs k) (packets s)" and "sp_inv s'"
    and "non_ack_eliciting s' = non_ack_eliciting s"
    and "largest_acked s' = Some (case largest_acked s of None \<Rightarrow> lgst | Some l \<Rightarrow> max l lgst)"
proof -
  define s1 where "s1 = s\<lparr>largest_acked := Some (case largest_acked s of None \<Rightarrow> lgst | Some l \<Rightarrow> max l lgst)\<rparr>"
  have s1: "sp_inv s1" "packets s1 = packets s" "non_ack_eliciting s1 = non_ack_eliciting s"
    using assms(1) by (simp_all add: s1_def sp_inv_def)
  obtain acked where "ack_ranges_loop rs s1 = Some (acked, keep (\<lambda>(k, _). \<not> in_ranges rs k) s1)"
    "set acked = {x \<in> set (packets s1). in_ranges rs (fst x)}" "distinct (keys acked)"
    using ack_ranges_loop_keep [OF s1(1) assms(2)] by blast
  then show thesis
    using that [of acked "keep (\<lambda>(k, _). \<not> in_ranges rs k) s1"] s1
    by (simp add: on_ack_def s1_def)
qed

lemma detect_lost_correct:
  fixes s :: sent_packets and lgst now delay :: nat
  assumes "sp_inv s" and "largest_acked s = Some lgst"
  defines "cs \<equiv> filter (\<lambda>(k, _). k < lgst) (packets s)" and "t \<equiv> checked_sub_instant now delay"
  shows "detect_lost delay now s =
    Some (filter (is_lost lgst t) cs,
          fold (\<lambda>(k, p) lt. opt_min lt (time_sent p + delay)) (filter (\<lambda>x. \<not> is_lost lgst t x) cs) None,
          keep (\<lambda>x. \<not> (fst x < lgst \<and> is_lost lgst t x)) s)"
proof -
  have d: "distinct (keys (packets s))"
    using assms(1) by (simp add: sp_inv_def strict_sorted_iff)
  have "filter (\<lambda>(k, _). k \<notin> set (keys (filter (is_lost lgst t) cs))) (packets s) =
      filter (\<lambda>x. \<not> (fst x < lgst \<and> is_lost lgst t x)) (packets s)"
  proof (rule filter_cong [OF refl])
    fix x assume x: "x \<in> set (packets s)"
    obtain k p where k: "x = (k, p)" by (cases x)
    have "filter (is_lost lgst t) cs = filter (\<lambda>x. fst x < lgst \<and> is_lost lgst t x) (packets s)"
      by (simp add: cs_def split_def conj_commute)
    then show "(case x of (k, _) \<Rightarrow> k \<notin> set (keys (filter (is_lost lgst t) cs))) =
        (\<not> (fst x < lgst \<and> is_lost lgst t x))"
      using x in_filter_keys [OF d, of k p "\<lambda>x. fst x < lgst \<and> is_lost lgst t x"] by (simp add: k)
  qed
  then have "keep (\<lambda>(k, _). k \<notin> set (keys (filter (is_lost lgst t) cs))) s =
      keep (\<lambda>x. \<not> (fst x < lgst \<and> is_lost lgst t x)) s"
    by (simp only: keep_def)
  moreover have "distinct (keys cs)" "set cs \<subseteq> set (packets s)"
    using d by (auto simp: cs_def distinct_map_filter)
  ultimately show ?thesis
    using detect_loop_keep [OF assms(1), of cs lgst delay t None] assms(2)
    by (simp add: detect_lost_def cs_def t_def)
qed

section \<open>Sending, and the reachable states\<close>

lemma bt_insert_last: "\<forall>k'\<in>set (keys ps). k' < k \<Longrightarrow> bt_insert k v ps = ps @ [(k, v)]"
  by (induction k v ps rule: bt_insert.induct) auto

definition below :: "nat \<Rightarrow> sent_packets \<Rightarrow> bool" where
  "below n s \<longleftrightarrow> (\<forall>k\<in>set (keys (packets s)) \<union> set (non_ack_eliciting s). k < n)"

lemma evict_cap:
  assumes "length ds \<le> Suc MAX_NON_ACK_ELICITING_TRACKED"
    and "\<forall>(k, p)\<in>set ps. ack_eliciting p \<longleftrightarrow> k \<notin> set ds"
    and "evict ds ps = (ds', ps')"
  shows "length ds' \<le> MAX_NON_ACK_ELICITING_TRACKED" and "\<forall>(k, p)\<in>set ps'. ack_eliciting p \<longleftrightarrow> k \<notin> set ds'"
    and "flight ps' = flight ps" and "set ds' \<subseteq> set ds" and "\<exists>P. ps' = filter P ps"
    and "ds \<noteq> [] \<Longrightarrow> last ds \<in> set ds'"
proof -
  consider (keep) "ds' = ds" "ps' = ps" "length ds \<le> MAX_NON_ACK_ELICITING_TRACKED"
    | (drop) d where "ds = d # ds'" "ps' = bt_remove d ps" "length ds' \<le> MAX_NON_ACK_ELICITING_TRACKED"
      "ds' \<noteq> []"
    using assms(1,3)
    by (cases ds rule: list.exhaust; cases "tl ds" rule: list.exhaust)
      (auto split: if_splits simp: MAX_NON_ACK_ELICITING_TRACKED_def)
  then have "length ds' \<le> MAX_NON_ACK_ELICITING_TRACKED \<and> (\<forall>(k, p)\<in>set ps'. ack_eliciting p \<longleftrightarrow> k \<notin> set ds')
    \<and> flight ps' = flight ps \<and> set ds' \<subseteq> set ds \<and> (\<exists>P. ps' = filter P ps)
    \<and> (ds \<noteq> [] \<longrightarrow> last ds \<in> set ds')"
  proof cases
    case keep
    then show ?thesis
      using assms(2) by (auto intro: exI [of _ "\<lambda>x. True"])
  next
    case (drop d)
    have "flight (filter (\<lambda>(k', _). k' = d) ps) = 0"
      using assms(2) drop(1) by (induction ps) auto
    then have "flight ps' = flight ps"
      using flight_filter_split [of ps "\<lambda>(k', _). k' = d"] drop(2) by (simp add: bt_remove_def split_def)
    moreover have "\<forall>(k, p)\<in>set ps'. ack_eliciting p \<longleftrightarrow> k \<notin> set ds'"
      using assms(2) drop(1,2) by (auto simp: bt_remove_def)
    ultimately show ?thesis
      using drop by (auto simp: bt_remove_def)
  qed
  then show "length ds' \<le> MAX_NON_ACK_ELICITING_TRACKED" and "\<forall>(k, p)\<in>set ps'. ack_eliciting p \<longleftrightarrow> k \<notin> set ds'"
    and "flight ps' = flight ps" and "set ds' \<subseteq> set ds" and "\<exists>P. ps' = filter P ps"
    and "ds \<noteq> [] \<Longrightarrow> last ds \<in> set ds'"
    by blast+
qed

lemma sp_inv_append:
  assumes "sorted_wrt (<) (keys ps)" and "\<forall>k\<in>set (keys ps). k < pn"
  shows "sorted_wrt (<) (keys (bt_insert pn p ps))"
    and "flight (bt_insert pn p ps) = flight ps + (if ack_eliciting p then sp_size p else 0)"
  using assms by (simp_all add: bt_insert_last sorted_wrt_append)

lemma on_sent_inv:
  assumes inv: "sp_inv s" and below: "below pn s" and room: "in_flight s + sp_size p < 2 ^ 64"
  shows "sp_inv (on_sent pn p s)" and "below (Suc pn) (on_sent pn p s)"
proof -
  have s: "sorted_wrt (<) (keys (packets s))" "in_flight s = flight (packets s)"
    "length (non_ack_eliciting s) \<le> MAX_NON_ACK_ELICITING_TRACKED"
    "\<forall>(k, p)\<in>set (packets s). ack_eliciting p \<longleftrightarrow> k \<notin> set (non_ack_eliciting s)"
    using inv by (simp_all add: sp_inv_def)
  have lt: "\<forall>k\<in>set (keys (packets s)). k < pn" "\<forall>k\<in>set (non_ack_eliciting s). k < pn"
    using below by (auto simp: below_def)
  have "sp_inv (on_sent pn p s) \<and> below (Suc pn) (on_sent pn p s)"
  proof (cases "ack_eliciting p")
    case True
    have "bt_insert pn p (packets s) = packets s @ [(pn, p)]"
      using lt(1) by (rule bt_insert_last)
    then show ?thesis
      using True s lt room sp_inv_append [OF s(1) lt(1), of p]
      by (auto simp: on_sent_def sp_inv_def below_def)
  next
    case False
    obtain ds ps where ev: "evict (non_ack_eliciting s @ [pn]) (packets s) = (ds, ps)"
      by (cases "evict (non_ack_eliciting s @ [pn]) (packets s)")
    have "\<forall>(k, p)\<in>set (packets s). ack_eliciting p \<longleftrightarrow> k \<notin> set (non_ack_eliciting s @ [pn])"
      using s(4) lt(1) by force
    note e = evict_cap [OF _ this ev]
    have on: "on_sent pn p s = s\<lparr>non_ack_eliciting := ds, packets := bt_insert pn p ps\<rparr>"
      using False ev by (simp add: on_sent_def)
    obtain P where P: "ps = filter P (packets s)"
      using e(5) s(3) by auto
    have ps: "sorted_wrt (<) (keys ps)" "\<forall>k\<in>set (keys ps). k < pn"
      using s(1) lt(1) by (auto simp: P sorted_keys_filter)
    have len: "length (non_ack_eliciting s @ [pn]) \<le> Suc MAX_NON_ACK_ELICITING_TRACKED"
      using s(3) by simp
    have "pn \<in> set ds"
      using e(6) [OF len] by simp
    moreover have "\<forall>k\<in>set ds. k < Suc pn"
      using e(4) [OF len] lt(2) by (auto simp: less_Suc_eq subset_iff)
    moreover have "bt_insert pn p ps = ps @ [(pn, p)]"
      using ps(2) by (rule bt_insert_last)
    ultimately show ?thesis
      using False e(1-3) [OF len] s(2) ps sp_inv_append [OF ps, of p]
      by (auto simp: on sp_inv_def below_def)
  qed
  then show "sp_inv (on_sent pn p s)" and "below (Suc pn) (on_sent pn p s)"
    by blast+
qed

text \<open>The states a connection can bring the bookkeeping of one space into: packets are sent under
  ascending numbers (with the byte counter below \<open>2^64\<close>), acknowledged by well-formed ranges,
  discarded by a probe, or declared lost. The second argument is the next packet number.\<close>

inductive sp_reach :: "sent_packets \<Rightarrow> nat \<Rightarrow> bool" where
  start: "sp_reach sent_new 0"
| send: "sp_reach s n \<Longrightarrow> n \<le> pn \<Longrightarrow> in_flight s + sp_size p < 2 ^ 64 \<Longrightarrow>
    sp_reach (on_sent pn p s) (Suc pn)"
| probe: "sp_reach s n \<Longrightarrow> sp_reach (snd (discard pn s)) n"
| acked: "sp_reach s n \<Longrightarrow> list_all (\<lambda>(low, high). low \<le> high) rs \<Longrightarrow> on_ack lgst rs s = Some (a, s') \<Longrightarrow>
    sp_reach s' n"
| lost: "sp_reach s n \<Longrightarrow> detect_lost delay now s = Some (l, lt, s') \<Longrightarrow> sp_reach s' n"

lemma below_mono: "below n s \<Longrightarrow> n \<le> m \<Longrightarrow> below m s"
  by (meson below_def less_le_trans)

lemma below_shrink:
  "below n s \<Longrightarrow> packets s' = filter P (packets s) \<Longrightarrow> non_ack_eliciting s' = non_ack_eliciting s \<Longrightarrow> below n s'"
  by (auto simp: below_def)

lemma sp_reach_inv: "sp_reach s n \<Longrightarrow> sp_inv s \<and> below n s"
proof (induction rule: sp_reach.induct)
  case start
  then show ?case by (simp add: sent_new_def sp_inv_def below_def)
next
  case (send s n pn p)
  then show ?case
    using on_sent_inv [of s pn p] below_mono [of n s pn] by simp
next
  case (probe s n pn)
  then show ?case
    using below_shrink [of n s "keep (\<lambda>(k', _). k' \<noteq> pn) s"] by (simp add: discard_keep)
next
  case (acked s n rs lgst a s')
  then have inv: "sp_inv s" and below: "below n s" by simp_all
  obtain acked' t where "on_ack lgst rs s = Some (acked', t)"
    and "set acked' = {x \<in> set (packets s). in_ranges rs (fst x)}" and "distinct (keys acked')"
    and "packets t = filter (\<lambda>(k, _). \<not> in_ranges rs k) (packets s)" and "sp_inv t"
    and "non_ack_eliciting t = non_ack_eliciting s"
    and "largest_acked t = Some (case largest_acked s of None \<Rightarrow> lgst | Some l \<Rightarrow> max l lgst)"
    by (rule on_ack_correct [OF inv acked(2), of lgst])
  then show ?case
    using acked(3) below_shrink [OF below] by simp
next
  case (lost s n delay now l lt s')
  then have inv: "sp_inv s" and below: "below n s" by simp_all
  show ?case
  proof (cases "largest_acked s")
    case None
    then show ?thesis
      using lost by (simp add: detect_lost_def)
  next
    case (Some lgst)
    then show ?thesis
      using lost(2) detect_lost_correct [OF inv Some, of delay now] inv below_shrink [OF below] by auto
  qed
qed

text \<open>C14. In every reachable state the bytes in flight are exactly the sizes of the tracked
  ack-eliciting packets, the tracked packet numbers ascend, and at most 256 tracked packets are pure
  acknowledgements, however many the peer makes us send without acknowledging them.\<close>

theorem sent_packets_accounting:
  assumes "sp_reach s n"
  shows "in_flight s = sum_list (map (\<lambda>(pn, p). if ack_eliciting p then sp_size p else 0) (packets s))
    \<and> sorted_wrt (<) (map fst (packets s))
    \<and> length (filter (\<lambda>(pn, p). \<not> ack_eliciting p) (packets s)) \<le> 256"
proof -
  have inv: "sp_inv s"
    using sp_reach_inv [OF assms] by simp
  let ?pure = "filter (\<lambda>(pn, p). \<not> ack_eliciting p) (packets s)"
  have d: "distinct (keys ?pure)"
    using inv by (intro distinct_map_filter) (simp add: sp_inv_def strict_sorted_iff)
  have "set (keys ?pure) \<subseteq> set (non_ack_eliciting s)"
    using inv by (auto simp: sp_inv_def)
  then have "card (set (keys ?pure)) \<le> length (non_ack_eliciting s)"
    by (meson card_length card_mono le_trans List.finite_set)
  then have "length ?pure \<le> length (non_ack_eliciting s)"
    using distinct_card [OF d] by simp
  then show ?thesis
    using inv by (simp add: sp_inv_def flight_def MAX_NON_ACK_ELICITING_TRACKED_def)
qed

theorem sent_packets_accounting_witness:
  "in_flight (on_sent 0 \<lparr>time_sent = 0, sp_size = 1200, ack_eliciting = True, delivered = 0\<rparr> sent_new) =
    sum_list (map (\<lambda>(pn, p). if ack_eliciting p then sp_size p else 0)
      (packets (on_sent 0 \<lparr>time_sent = 0, sp_size = 1200, ack_eliciting = True, delivered = 0\<rparr> sent_new)))"
proof -
  have "sp_reach (on_sent 0 \<lparr>time_sent = 0, sp_size = 1200, ack_eliciting = True, delivered = 0\<rparr> sent_new) (Suc 0)"
    by (rule sp_reach.send [OF sp_reach.start]) (simp_all add: sent_new_def)
  then show ?thesis
    by (rule sent_packets_accounting [THEN conjunct1])
qed

lemma fold_opt_min:
  "fold (\<lambda>x. (\<lambda>lt. opt_min lt (f x))) xs (Some m) = Some (Min (insert m (f ` set xs)))"
proof (induction xs arbitrary: m)
  case (Cons x xs)
  have "Min (insert (min m (f x)) (f ` set xs)) = Min (insert m (insert (f x) (f ` set xs)))"
    by (cases "set xs = {}") (simp_all add: min.assoc)
  then show ?case
    using Cons.IH [of "min m (f x)"] by (simp add: opt_min_def)
qed simp

lemma fold_opt_min_None:
  "fold (\<lambda>x. (\<lambda>lt. opt_min lt (f x))) xs None = (if xs = [] then None else Some (Min (f ` set xs)))"
  by (cases xs) (simp_all add: fold_opt_min opt_min_def [of None])

text \<open>C11. Every sent packet meets exactly one fate. An ACK with well-formed ranges never panics, returns
  each tracked packet in its ranges once and keeps all others. Loss detection never panics, declares
  lost exactly the packets below the largest acknowledged one that are \<open>PACKET_THRESHOLD\<close> behind it or
  were sent a loss delay ago, keeps all others, and arms the timer for the earliest deadline among
  the kept ones below the largest acknowledged.\<close>

theorem ack_and_loss_partition:
  assumes "sp_reach s n" and "list_all (\<lambda>(low, high). low \<le> high) rs" and "lgst < 2 ^ 62"
    and "case largest_acked s of None \<Rightarrow> True | Some l \<Rightarrow> l < 2 ^ 62"
  shows "\<exists>acked s1 lost timer s2. on_ack lgst rs s = Some (acked, s1)
    \<and> set acked = {(pn, p) \<in> set (packets s). in_ranges rs pn} \<and> distinct (map fst acked)
    \<and> set (packets s1) = set (packets s) - set acked
    \<and> detect_lost delay now s1 = Some (lost, timer, s2)
    \<and> (let l = (case largest_acked s of None \<Rightarrow> lgst | Some l \<Rightarrow> max l lgst);
           rest = {(pn, p) \<in> set (packets s2). pn < l}
       in set lost = {(pn, p) \<in> set (packets s1).
            pn < l \<and> (pn + PACKET_THRESHOLD \<le> l \<or> time_sent p + delay \<le> now)}
          \<and> distinct (map fst lost) \<and> set (packets s2) = set (packets s1) - set lost
          \<and> timer = (if rest = {} then None else Some (Min ((\<lambda>(pn, p). time_sent p + delay) ` rest))))"
proof -
  have inv: "sp_inv s"
    using sp_reach_inv [OF assms(1)] by simp
  define l where "l = (case largest_acked s of None \<Rightarrow> lgst | Some l \<Rightarrow> max l lgst)"
  have l62: "l < 2 ^ 62"
    using assms(3,4) by (auto simp: l_def split: option.splits)
  obtain acked s1 where ack: "on_ack lgst rs s = Some (acked, s1)"
    and acked: "set acked = {x \<in> set (packets s). in_ranges rs (fst x)}" "distinct (keys acked)"
    and s1: "packets s1 = filter (\<lambda>(k, _). \<not> in_ranges rs k) (packets s)" "sp_inv s1"
      "non_ack_eliciting s1 = non_ack_eliciting s" "largest_acked s1 = Some l"
    unfolding l_def by (rule on_ack_correct [OF inv assms(2), of lgst])
  define t where "t = checked_sub_instant now delay"
  define cs where "cs = filter (\<lambda>(k, _). k < l) (packets s1)"
  define s2 where "s2 = keep (\<lambda>x. \<not> (fst x < l \<and> is_lost l t x)) s1"
  let ?rest = "filter (\<lambda>x. \<not> is_lost l t x) cs"
  have lost: "is_lost l t (k, p) \<longleftrightarrow> k + PACKET_THRESHOLD \<le> l \<or> time_sent p + delay \<le> now" for k p
    using l62 by (auto simp: is_lost_def t_def checked_sub_instant_def split: option.splits)
  have det: "detect_lost delay now s1 =
      Some (filter (is_lost l t) cs, if ?rest = [] then None else Some (Min ((\<lambda>x. time_sent (snd x) + delay) ` set ?rest)), s2)"
    unfolding detect_lost_correct [OF s1(2,4)] cs_def t_def s2_def split_def fold_opt_min_None by simp
  have rest: "set ?rest = {(pn, p) \<in> set (packets s2). pn < l}"
    by (auto simp: cs_def s2_def)
  have "distinct (keys (filter (is_lost l t) cs))"
    using s1(2) unfolding cs_def sp_inv_def strict_sorted_iff by (intro distinct_map_filter) blast
  moreover have "set (packets s1) = set (packets s) - set acked"
    unfolding acked(1) s1(1) by auto
  moreover have "set (packets s2) = set (packets s1) - set (filter (is_lost l t) cs)"
    by (auto simp: cs_def s2_def)
  moreover have "set (filter (is_lost l t) cs) =
      {(pn, p) \<in> set (packets s1). pn < l \<and> (pn + PACKET_THRESHOLD \<le> l \<or> time_sent p + delay \<le> now)}"
    by (auto simp: cs_def lost)
  moreover have "?rest = [] \<longleftrightarrow> {(pn, p) \<in> set (packets s2). pn < l} = {}"
    unfolding rest [symmetric] by (simp only: set_empty)
  moreover have "set acked = {(pn, p) \<in> set (packets s). in_ranges rs pn}"
    unfolding acked(1) by auto
  ultimately show ?thesis
    using ack acked(2) det unfolding rest l_def [symmetric] Let_def
    by (intro exI [of _ acked] exI [of _ s1] exI [of _ "filter (is_lost l t) cs"] exI
        exI [of _ s2] conjI) (simp_all only: split_def)
qed

theorem ack_and_loss_partition_witness:
  "\<exists>p s acked s1 lost timer s2. p = \<lparr>time_sent = 5, sp_size = 1200, ack_eliciting = True, delivered = 0\<rparr>
    \<and> s = on_sent 4 p (on_sent 0 p sent_new)
    \<and> on_ack 4 [(4, 4)] s = Some (acked, s1) \<and> set acked = {(4, p)}
    \<and> detect_lost 10 8 s1 = Some (lost, timer, s2) \<and> set lost = {(0, p)}"
proof -
  define p where "p = \<lparr>time_sent = 5, sp_size = 1200, ack_eliciting = True, delivered = 0\<rparr>"
  define s where "s = on_sent 4 p (on_sent 0 p sent_new)"
  have s: "packets s = [(0, p), (4, p)]" "largest_acked s = None" "in_flight (on_sent 0 p sent_new) = 1200"
    by (simp_all add: s_def p_def on_sent_def sent_new_def)
  have "sp_reach (on_sent 0 p sent_new) (Suc 0)"
    by (rule sp_reach.send [OF sp_reach.start]) (simp_all add: p_def sent_new_def)
  then have r: "sp_reach s (Suc 4)"
    unfolding s_def by (rule sp_reach.send) (simp_all add: s(3), simp add: p_def)
  have pre: "case largest_acked s of None \<Rightarrow> True | Some l \<Rightarrow> l < 2 ^ 62"
    "list_all (\<lambda>(low, high). low \<le> high) [(4::nat, 4::nat)]" "(4::nat) < 2 ^ 62"
    by (simp_all add: s(2))
  from ack_and_loss_partition [OF r pre(2,3,1), of 10 8, unfolded s(2) option.case Let_def]
  obtain acked s1 lost timer s2 where f: "on_ack 4 [(4, 4)] s = Some (acked, s1)"
    "set acked = {(pn, q) \<in> set (packets s). in_ranges [(4, 4)] pn}"
    "set (packets s1) = set (packets s) - set acked"
    "detect_lost 10 8 s1 = Some (lost, timer, s2)"
    "set lost = {(pn, q) \<in> set (packets s1). pn < 4 \<and> (pn + PACKET_THRESHOLD \<le> 4 \<or> time_sent q + 10 \<le> 8)}"
    by (elim exE conjE) (rule that)
  have a: "set acked = {(4, p)}"
    unfolding f(2) s(1) by (auto simp: in_ranges_def)
  then have "set (packets s1) = {(0, p)}"
    unfolding f(3) s(1) by auto
  then have "set lost = {(0, p)}"
    unfolding f(5) by (auto simp: PACKET_THRESHOLD_def)
  then show ?thesis
    using a f(1,4) p_def s_def
    by (intro exI [of _ p] exI [of _ s] exI [of _ acked] exI [of _ s1] exI [of _ lost] exI [of _ timer]
        exI [of _ s2] conjI)
qed

end
