(* ===== verification/Pmtud.thy ===== *)
theory Pmtud
  imports Prelude
begin

text \<open>
  Path MTU discovery: \<open>transport/udp/quic/pmtud.rs\<close>. A state machine that binary-searches the largest
  datagram the path carries. Sizes are \<open>usize\<close> values far below the word size, so they are natural
  numbers; \<open>saturating_sub\<close> is the truncated subtraction. The counters never exceed their thresholds,
  so their additions do not wrap.
\<close>

definition BASE_MTU :: nat where "BASE_MTU = 1252"
definition MAX_MTU :: nat where "MAX_MTU = 1452"
definition MAX_PROBES :: nat where "MAX_PROBES = 3"
definition SEARCH_STEP :: nat where "SEARCH_STEP = 16"
definition BLACKHOLE_LOSS_THRESHOLD :: nat where "BLACKHOLE_LOSS_THRESHOLD = 4"

lemmas pmtud_consts = BASE_MTU_def MAX_MTU_def MAX_PROBES_def SEARCH_STEP_def BLACKHOLE_LOSS_THRESHOLD_def

datatype pmtud_state = Base | Searching | Complete

record pmtud =
  pm_state :: pmtud_state
  current :: nat
  low :: nat
  high :: nat
  probe_size :: "nat option"
  probes_at_size :: nat
  blackhole_losses :: nat

definition pmtud_new :: pmtud where
  "pmtud_new = \<lparr>pm_state = Base, current = BASE_MTU, low = BASE_MTU, high = MAX_MTU,
     probe_size = None, probes_at_size = 0, blackhole_losses = 0\<rparr>"

definition current_mtu :: "pmtud \<Rightarrow> nat" where
  "current_mtu s = current s"

definition div_ceil :: "nat \<Rightarrow> nat \<Rightarrow> nat" where
  "div_ceil a b = a div b + (if a mod b \<noteq> 0 then 1 else 0)"

definition midpoint :: "pmtud \<Rightarrow> nat" where
  "midpoint s = (let mid = low s + div_ceil (high s - low s) 2 in min (max mid (low s + 1)) (high s))"

definition next_probe_size :: "pmtud \<Rightarrow> nat option \<times> pmtud" where
  "next_probe_size s =
     (if probe_size s \<noteq> None then (None, s)
      else case pm_state s of
        Complete \<Rightarrow> (None, s)
      | Base \<Rightarrow>
          if high s - low s < SEARCH_STEP then (None, s\<lparr>pm_state := Complete\<rparr>)
          else
            let s = s\<lparr>pm_state := Searching\<rparr>; candidate = midpoint s
            in (Some candidate, s\<lparr>probe_size := Some candidate, probes_at_size := 0\<rparr>)
      | Searching \<Rightarrow>
          if high s - low s < SEARCH_STEP then (None, s\<lparr>pm_state := Complete\<rparr>)
          else
            let candidate = midpoint s
            in (Some candidate, s\<lparr>probe_size := Some candidate\<rparr>))"

definition on_probe_acked :: "pmtud \<Rightarrow> pmtud" where
  "on_probe_acked s =
     (case probe_size s of
        None \<Rightarrow> s
      | Some sz \<Rightarrow>
          let s = s\<lparr>probe_size := None, probes_at_size := 0, blackhole_losses := 0\<rparr>;
              s = (if current s < sz then s\<lparr>current := sz\<rparr> else s);
              s = s\<lparr>low := max (low s) sz\<rparr>
          in if high s - low s < SEARCH_STEP then s\<lparr>pm_state := Complete\<rparr>
             else s\<lparr>pm_state := Searching\<rparr>)"

definition on_probe_lost :: "pmtud \<Rightarrow> pmtud" where
  "on_probe_lost s =
     (case probe_size s of
        None \<Rightarrow> s
      | Some sz \<Rightarrow>
          let s = s\<lparr>probe_size := None, probes_at_size := probes_at_size s + 1\<rparr>
          in if probes_at_size s < MAX_PROBES then s
             else
               let s = s\<lparr>probes_at_size := 0, high := max (sz - 1) (low s)\<rparr>
               in if high s - low s < SEARCH_STEP then s\<lparr>pm_state := Complete\<rparr>
                  else s\<lparr>pm_state := Searching\<rparr>)"

definition on_full_size_loss :: "pmtud \<Rightarrow> bool \<times> pmtud" where
  "on_full_size_loss s =
     (if current s \<le> BASE_MTU then (False, s)
      else
        let s = s\<lparr>blackhole_losses := blackhole_losses s + 1\<rparr>
        in if BLACKHOLE_LOSS_THRESHOLD \<le> blackhole_losses s then (True, pmtud_new) else (False, s))"

definition on_full_size_acked :: "pmtud \<Rightarrow> pmtud" where
  "on_full_size_acked s = s\<lparr>blackhole_losses := 0\<rparr>"

section \<open>The invariant\<close>

definition pm_inv :: "pmtud \<Rightarrow> bool" where
  "pm_inv s \<longleftrightarrow> BASE_MTU \<le> low s \<and> low s \<le> high s \<and> high s \<le> MAX_MTU \<and> current s = low s
     \<and> probes_at_size s < MAX_PROBES \<and> blackhole_losses s < BLACKHOLE_LOSS_THRESHOLD
     \<and> (case probe_size s of
          None \<Rightarrow> True
        | Some p \<Rightarrow> pm_state s = Searching \<and> p = midpoint s \<and> SEARCH_STEP \<le> high s - low s)
     \<and> (pm_state s = Complete \<longrightarrow> high s - low s < SEARCH_STEP)
     \<and> (pm_state s = Base \<longrightarrow> low s = BASE_MTU \<and> high s = MAX_MTU \<and> probes_at_size s = 0)"

lemma midpoint_upd [simp]:
  "midpoint (s\<lparr>pm_state := x\<rparr>) = midpoint s"
  "midpoint (s\<lparr>probe_size := p\<rparr>) = midpoint s"
  "midpoint (s\<lparr>probes_at_size := n\<rparr>) = midpoint s"
  "midpoint (s\<lparr>blackhole_losses := n\<rparr>) = midpoint s"
  by (simp_all add: midpoint_def)

lemma midpoint_bounds:
  assumes "SEARCH_STEP \<le> high s - low s"
  shows "low s < midpoint s" "midpoint s \<le> high s" "2 * (high s - midpoint s) \<le> high s - low s"
    "2 * (midpoint s - 1 - low s) \<le> high s - low s"
  using assms unfolding midpoint_def div_ceil_def Let_def SEARCH_STEP_def min_def max_def
  by (auto split: if_splits)

lemma pm_inv_new: "pm_inv pmtud_new"
  by (simp add: pm_inv_def pmtud_new_def pmtud_consts)

lemma next_probe_size_inv: "pm_inv s \<Longrightarrow> pm_inv (snd (next_probe_size s))"
  by (cases "pm_state s"; cases "probe_size s")
    (auto simp: pm_inv_def next_probe_size_def Let_def MAX_PROBES_def)

lemma probe_facts:
  assumes "pm_inv s" and "probe_size s = Some p"
  shows "p = midpoint s" "SEARCH_STEP \<le> high s - low s" "low s < p" "p \<le> high s"
    "current s = low s" "pm_state s = Searching"
  using assms midpoint_bounds(1,2) [of s] by (simp_all add: pm_inv_def)

lemma on_probe_acked_inv:
  assumes "pm_inv s"
  shows "pm_inv (on_probe_acked s)"
proof (cases "probe_size s")
  case None
  then show ?thesis using assms by (simp add: on_probe_acked_def)
next
  case (Some p)
  show ?thesis
    using assms probe_facts [OF assms Some]
    by (auto simp: on_probe_acked_def Some Let_def pm_inv_def pmtud_consts max_def)
qed

lemma on_probe_lost_inv:
  assumes "pm_inv s"
  shows "pm_inv (on_probe_lost s)"
proof (cases "probe_size s")
  case None
  then show ?thesis using assms by (simp add: on_probe_lost_def)
next
  case (Some p)
  show ?thesis
    using assms probe_facts [OF assms Some]
    by (auto simp: on_probe_lost_def Some Let_def pm_inv_def pmtud_consts max_def)
qed

lemma on_full_size_inv:
  assumes "pm_inv s"
  shows "pm_inv (snd (on_full_size_loss s))" and "pm_inv (on_full_size_acked s)"
  using assms pm_inv_new
  by (auto simp: on_full_size_loss_def on_full_size_acked_def Let_def pm_inv_def pmtud_consts
      split: option.splits)

section \<open>Runs\<close>

text \<open>What the connection reports, in any order. A run returns the probes emitted and the final state.\<close>

datatype pm_op = NextProbe | ProbeAcked | ProbeLost | FullSizeLoss | FullSizeAcked

fun pm_step :: "pm_op \<Rightarrow> pmtud \<Rightarrow> nat list \<times> pmtud" where
  "pm_step NextProbe s = (case next_probe_size s of (None, s') \<Rightarrow> ([], s') | (Some p, s') \<Rightarrow> ([p], s'))"
| "pm_step ProbeAcked s = ([], on_probe_acked s)"
| "pm_step ProbeLost s = ([], on_probe_lost s)"
| "pm_step FullSizeLoss s = ([], snd (on_full_size_loss s))"
| "pm_step FullSizeAcked s = ([], on_full_size_acked s)"

fun pm_run :: "pm_op list \<Rightarrow> pmtud \<Rightarrow> nat list \<times> pmtud" where
  "pm_run [] s = ([], s)"
| "pm_run (op # ops) s =
     (let (ps, s') = pm_step op s; (ps', s'') = pm_run ops s' in (ps @ ps', s''))"

lemma pm_step_inv: "pm_inv s \<Longrightarrow> pm_inv (snd (pm_step op s))"
  using next_probe_size_inv [of s]
  by (cases op) (auto simp: on_probe_acked_inv on_probe_lost_inv on_full_size_inv split: option.splits prod.splits)

lemma pm_step_probe: "pm_inv s \<Longrightarrow> p \<in> set (fst (pm_step op s)) \<Longrightarrow> low s < p \<and> p \<le> MAX_MTU"
  using midpoint_bounds [of s]
  by (cases op; cases "pm_state s") (auto simp: pm_inv_def next_probe_size_def Let_def split: if_splits)

lemma pm_run_inv:
  "pm_inv s \<Longrightarrow> pm_inv (snd (pm_run ops s)) \<and> (\<forall>p\<in>set (fst (pm_run ops s)). BASE_MTU < p \<and> p \<le> MAX_MTU)"
proof (induction ops arbitrary: s)
  case (Cons op ops)
  have "BASE_MTU \<le> low s"
    using Cons.prems by (simp add: pm_inv_def)
  then show ?case
    using Cons.IH [OF pm_step_inv [OF Cons.prems, of op]] pm_step_probe [OF Cons.prems]
    by (fastforce simp: Let_def split_def)
qed simp

section \<open>The search ends\<close>

text \<open>The number of candidates left for a search window, and the probes left: three per candidate.\<close>

function rounds :: "nat \<Rightarrow> nat" where
  "rounds w = (if w < SEARCH_STEP then 0 else Suc (rounds (w div 2)))"
  by auto
termination
  by (relation "measure id") (auto simp: SEARCH_STEP_def)

declare rounds.simps [simp del]

lemma rounds_mono: "v \<le> w \<Longrightarrow> rounds v \<le> rounds w"
proof (induction w arbitrary: v rule: rounds.induct)
  case (1 w)
  then show ?case
    using "1.IH" [of "v div 2"] by (auto simp: rounds.simps [of v] rounds.simps [of w] div_le_mono)
qed

lemma rounds_half: "SEARCH_STEP \<le> w \<Longrightarrow> 2 * v \<le> w \<Longrightarrow> rounds v < rounds w"
  using rounds_mono [of v "w div 2"] by (simp add: rounds.simps [of w] less_Suc_eq_le)

definition probes_left :: "pmtud \<Rightarrow> nat" where
  "probes_left s =
     (if pm_state s = Complete then 0
      else MAX_PROBES * rounds (high s - low s) - probes_at_size s - (if probe_size s = None then 0 else 1))"

lemma rounds_pos: "SEARCH_STEP \<le> w \<Longrightarrow> 0 < rounds w"
  by (subst rounds.simps) auto

lemma probes_left_le:
  assumes "pm_inv s"
  shows "probes_left s \<le> 12"
proof -
  have "rounds (MAX_MTU - BASE_MTU) = 4"
    by (simp add: rounds.simps pmtud_consts)
  moreover have "rounds (high s - low s) \<le> rounds (MAX_MTU - BASE_MTU)"
    using assms by (intro rounds_mono) (auto simp: pm_inv_def)
  ultimately show ?thesis
    by (auto simp: probes_left_def MAX_PROBES_def)
qed

lemma probes_left_next:
  assumes "pm_inv s"
  shows "length (fst (pm_step NextProbe s)) + probes_left (snd (pm_step NextProbe s)) \<le> probes_left s"
proof (cases "probe_size s = None \<and> pm_state s \<noteq> Complete \<and> SEARCH_STEP \<le> high s - low s")
  case True
  have "probes_at_size s < MAX_PROBES * rounds (high s - low s)"
    using assms rounds_pos [of "high s - low s"] True by (auto simp: pm_inv_def MAX_PROBES_def)
  moreover have "pm_state s = Base \<longrightarrow> probes_at_size s = 0"
    using assms by (simp add: pm_inv_def)
  ultimately show ?thesis
    using True by (cases "pm_state s") (auto simp: next_probe_size_def Let_def probes_left_def)
next
  case False
  then show ?thesis
    by (auto simp: next_probe_size_def probes_left_def split: pmtud_state.splits)
qed

lemma probes_left_acked:
  assumes "pm_inv s"
  shows "probes_left (on_probe_acked s) \<le> probes_left s"
proof (cases "probe_size s")
  case None
  then show ?thesis by (simp add: on_probe_acked_def)
next
  case (Some p)
  note f = probe_facts [OF assms Some]
  let ?s = "on_probe_acked s"
  have s: "low ?s = p" "high ?s = high s" "probes_at_size ?s = 0" "probe_size ?s = None"
    using f by (simp_all add: on_probe_acked_def Some Let_def)
  have "rounds (high s - p) < rounds (high s - low s)"
    using midpoint_bounds(3) [OF f(2)] f by (intro rounds_half) auto
  moreover have "probes_at_size s < 3"
    using assms by (simp add: pm_inv_def MAX_PROBES_def)
  ultimately show ?thesis
    using f(6) by (auto simp: probes_left_def s Some MAX_PROBES_def)
qed

lemma probes_left_lost:
  assumes "pm_inv s"
  shows "probes_left (on_probe_lost s) \<le> probes_left s"
proof (cases "probe_size s")
  case None
  then show ?thesis by (simp add: on_probe_lost_def)
next
  case (Some p)
  note f = probe_facts [OF assms Some]
  show ?thesis
  proof (cases "probes_at_size s + 1 < MAX_PROBES")
    case True
    then show ?thesis
      using f(6) by (simp add: on_probe_lost_def Some probes_left_def)
  next
    case False
    let ?s = "on_probe_lost s"
    have s: "low ?s = low s" "high ?s = p - 1" "probes_at_size ?s = 0" "probe_size ?s = None"
      using f False by (auto simp: on_probe_lost_def Some Let_def)
    have "rounds (p - 1 - low s) < rounds (high s - low s)"
      using midpoint_bounds(4) [OF f(2)] f by (intro rounds_half) auto
    moreover have "probes_at_size s < 3"
      using assms by (simp add: pm_inv_def MAX_PROBES_def)
    ultimately show ?thesis
      using f(6) by (auto simp: probes_left_def s Some MAX_PROBES_def)
  qed
qed

lemma pm_step_probes:
  assumes "pm_inv s"
  shows "length (fst (pm_step op s)) + probes_left (snd (pm_step op s)) \<le>
    probes_left s + (if op = FullSizeLoss then 12 else 0)"
proof (cases op)
  case NextProbe
  then show ?thesis using probes_left_next [OF assms] by simp
next
  case FullSizeLoss
  then show ?thesis
    using probes_left_le [OF on_full_size_inv(1) [OF assms]] by simp
next
  case FullSizeAcked
  then show ?thesis by (simp add: probes_left_def on_full_size_acked_def)
qed (use assms in \<open>simp_all add: probes_left_acked probes_left_lost\<close>)

lemma pm_run_probes:
  "pm_inv s \<Longrightarrow> length (fst (pm_run ops s)) \<le> probes_left s + 12 * count_list ops FullSizeLoss"
proof (induction ops arbitrary: s)
  case (Cons op ops)
  show ?case
    using Cons.IH [OF pm_step_inv [OF Cons.prems, of op]] pm_step_probes [OF Cons.prems, of op]
    by (auto simp: Let_def split_def split: if_splits)
qed simp

text \<open>C23. Whatever the network reports and in whatever order, the MTU in use stays between the base and
  the ceiling, every probe is strictly above the base and at most the ceiling, the search spends at
  most twelve probes unless full-size losses reopen it, and once it is complete the validated size is
  within \<open>SEARCH_STEP\<close> of the ceiling that remains.\<close>

theorem pmtud_search_bounded:
  assumes "pm_run ops pmtud_new = (probes, s)"
  shows "BASE_MTU \<le> current_mtu s \<and> current_mtu s \<le> MAX_MTU
    \<and> list_all (\<lambda>p. BASE_MTU < p \<and> p \<le> MAX_MTU) probes
    \<and> length probes \<le> 12 * (1 + count_list ops FullSizeLoss)
    \<and> (pm_state s = Complete \<longrightarrow> high s - current_mtu s < SEARCH_STEP)"
  using pm_run_inv [OF pm_inv_new, of ops] pm_run_probes [OF pm_inv_new, of ops]
    probes_left_le [OF pm_inv_new] assms
  by (auto simp: pm_inv_def current_mtu_def list_all_iff)

theorem pmtud_search_bounded_witness:
  "\<exists>probes s. pm_run [NextProbe, ProbeAcked, NextProbe, ProbeLost] pmtud_new = (probes, s)
    \<and> BASE_MTU \<le> current_mtu s \<and> current_mtu s \<le> MAX_MTU \<and> length probes \<le> 12"
proof -
  obtain probes s where r: "pm_run [NextProbe, ProbeAcked, NextProbe, ProbeLost] pmtud_new = (probes, s)"
    by (meson surj_pair)
  then show ?thesis
    using pmtud_search_bounded [OF r] by simp
qed

end
