(* ===== verification/Source_Limit.thy ===== *)
theory Source_Limit
  imports Prelude "HOL-Library.AList" "HOL-Library.Multiset"
begin

text \<open>
  Per-source admission control: \<open>handshake/source_limit.rs\<close>. A source (an IPv4 address or an IPv6
  prefix) may hold a bounded number of concurrent connections, and so may each IPv6 /48. The hash maps
  are association lists, the mutex-protected \<open>Inner\<close> is the state each operation takes and returns,
  and the clock is the argument \<open>now\<close>. A permit is its source key; dropping it is \<open>permit_drop\<close>.
\<close>

unbundle bit_operations_syntax

definition SOURCE_IDLE_GRACE :: nat where "SOURCE_IDLE_GRACE = 120 * 1000000000"
definition MIN_SOURCE_MAP_ENTRIES :: nat where "MIN_SOURCE_MAP_ENTRIES = 4096"
definition PRUNE_BUDGET :: nat where "PRUNE_BUDGET = 64"
definition AGG_V6_PREFIX_LEN :: nat where "AGG_V6_PREFIX_LEN = 48"
definition AGG_V6_FANOUT :: nat where "AGG_V6_FANOUT = 4"

datatype ip_addr = IpV4 bytes | IpV6 bytes

datatype source_key = V4 bytes | V6 bytes

record entry =
  active :: nat
  idle_since :: "nat option"

record inner =
  sl_map :: "(source_key \<times> entry) list"
  idle_log :: "(source_key \<times> nat) list"
  agg_v6 :: "(bytes \<times> nat) list"

record source_limiter =
  cap_v4 :: nat
  cap_v6 :: nat
  v6_prefix_len :: nat
  max_entries :: nat
  idle_grace :: nat

definition inner_new :: inner where
  "inner_new = \<lparr>sl_map = [], idle_log = [], agg_v6 = []\<rparr>"

definition saturating_mul :: "nat \<Rightarrow> nat \<Rightarrow> nat \<Rightarrow> nat" where
  "saturating_mul w a b = min (a * b) (2 ^ w - 1)"

definition limiter_new :: "nat \<Rightarrow> nat \<Rightarrow> nat \<Rightarrow> nat \<Rightarrow> source_limiter" where
  "limiter_new c4 c6 prefix connection_limit =
     \<lparr>cap_v4 = c4, cap_v6 = c6, v6_prefix_len = prefix,
      max_entries = max (saturating_mul 64 connection_limit 4) MIN_SOURCE_MAP_ENTRIES,
      idle_grace = SOURCE_IDLE_GRACE\<rparr>"

section \<open>Keys\<close>

definition masked_v6 :: "bytes \<Rightarrow> nat \<Rightarrow> bytes" where
  "masked_v6 octets prefix_len =
     (let prefix = min prefix_len 128;
          full_bytes = prefix div 8;
          rem_bits = prefix mod 8
      in if rem_bits \<noteq> 0 \<and> full_bytes < 16 then
           take full_bytes octets @ [(octets ! full_bytes) AND push_bit (8 - rem_bits) 0xFF]
             @ replicate (length octets - (full_bytes + 1)) 0
         else take full_bytes octets @ replicate (length octets - full_bytes) 0)"

definition to_ipv4_mapped :: "bytes \<Rightarrow> bytes option" where
  "to_ipv4_mapped octets =
     (if take 12 octets = replicate 10 0 @ [0xff, 0xff] then Some (drop 12 octets) else None)"

definition key_for :: "source_limiter \<Rightarrow> ip_addr \<Rightarrow> source_key" where
  "key_for l ip =
     (case ip of
        IpV4 v4 \<Rightarrow> V4 v4
      | IpV6 v6 \<Rightarrow> (case to_ipv4_mapped v6 of
                     Some v4 \<Rightarrow> V4 v4
                   | None \<Rightarrow> V6 (masked_v6 v6 (v6_prefix_len l))))"

definition cap_for :: "source_limiter \<Rightarrow> source_key \<Rightarrow> nat" where
  "cap_for l key = (case key of V4 _ \<Rightarrow> cap_v4 l | V6 _ \<Rightarrow> cap_v6 l)"

definition agg_key_for :: "source_limiter \<Rightarrow> source_key \<Rightarrow> bytes option" where
  "agg_key_for l key =
     (case key of
        V6 bs \<Rightarrow> Some (masked_v6 bs (min AGG_V6_PREFIX_LEN (v6_prefix_len l)))
      | V4 _ \<Rightarrow> None)"

section \<open>Operations\<close>

definition drain_front_idle_record :: "inner \<Rightarrow> inner" where
  "drain_front_idle_record s =
     (case idle_log s of
        [] \<Rightarrow> s
      | (key, logged) # log \<Rightarrow>
          let s = s\<lparr>idle_log := log\<rparr>
          in case map_of (sl_map s) key of
               None \<Rightarrow> s
             | Some e \<Rightarrow>
                 if active e = 0 \<and> idle_since e = Some logged then s\<lparr>sl_map := AList.delete key (sl_map s)\<rparr>
                 else s)"

text \<open>The \<open>for _ in 0..PRUNE_BUDGET\<close> loop; the first argument counts the iterations left.\<close>

fun prune_loop :: "nat \<Rightarrow> source_limiter \<Rightarrow> nat \<Rightarrow> inner \<Rightarrow> inner" where
  "prune_loop 0 l now s = s"
| "prune_loop (Suc n) l now s =
     (case idle_log s of
        [] \<Rightarrow> s
      | (_, logged) # _ \<Rightarrow>
          let over_capacity = max_entries l < length (sl_map s);
              expired = idle_grace l \<le> now - logged
          in if \<not> expired \<and> \<not> over_capacity then s
             else prune_loop n l now (drain_front_idle_record s))"

definition prune_locked :: "source_limiter \<Rightarrow> nat \<Rightarrow> inner \<Rightarrow> inner" where
  "prune_locked l now s = prune_loop PRUNE_BUDGET l now s"

definition agg_count :: "inner \<Rightarrow> bytes \<Rightarrow> nat" where
  "agg_count s a = (case map_of (agg_v6 s) a of None \<Rightarrow> 0 | Some n \<Rightarrow> n)"

definition active_count :: "inner \<Rightarrow> source_key \<Rightarrow> nat" where
  "active_count s key = (case map_of (sl_map s) key of None \<Rightarrow> 0 | Some e \<Rightarrow> active e)"

definition try_admit :: "source_limiter \<Rightarrow> nat \<Rightarrow> ip_addr \<Rightarrow> inner \<Rightarrow> source_key option \<times> inner" where
  "try_admit l now ip s =
     (let key = key_for l ip;
          cap = cap_for l key;
          agg_key = agg_key_for l key;
          s = prune_locked l now s
      in if (case agg_key of
               None \<Rightarrow> False
             | Some a \<Rightarrow> saturating_mul 32 (cap_v6 l) AGG_V6_FANOUT \<le> agg_count s a) then (None, s)
         else if cap \<le> active_count s key then (None, s)
         else
           let n = (active_count s key + 1) mod 2 ^ 32;
               s = s\<lparr>sl_map := AList.update key \<lparr>active = n, idle_since = None\<rparr> (sl_map s)\<rparr>;
               s = (case agg_key of
                      None \<Rightarrow> s
                    | Some a \<Rightarrow> s\<lparr>agg_v6 := AList.update a ((agg_count s a + 1) mod 2 ^ 32) (agg_v6 s)\<rparr>)
           in (Some key, s))"

lemma idle_log_drain: "idle_log (drain_front_idle_record s) = tl (idle_log s)"
  by (auto simp: drain_front_idle_record_def Let_def split: list.splits option.splits)

text \<open>The \<open>while\<close> loop that bounds the idle log; each iteration pops one record.\<close>

function bound_log :: "source_limiter \<Rightarrow> inner \<Rightarrow> inner" where
  "bound_log l s =
     (if max_entries l < length (idle_log s) then bound_log l (drain_front_idle_record s) else s)"
  by auto
termination
  by (relation "measure (\<lambda>(l, s). length (idle_log s))") (auto simp: idle_log_drain)

declare bound_log.simps [simp del]

definition permit_drop :: "source_limiter \<Rightarrow> nat \<Rightarrow> source_key \<Rightarrow> inner \<Rightarrow> inner" where
  "permit_drop l now key s =
     (let (became_idle, s) =
            (case map_of (sl_map s) key of
               Some e \<Rightarrow>
                 let n = active e - 1
                 in if n = 0 then
                      (True, s\<lparr>sl_map := AList.update key \<lparr>active = 0, idle_since = Some now\<rparr> (sl_map s)\<rparr>)
                    else (False, s\<lparr>sl_map := AList.update key (e\<lparr>active := n\<rparr>) (sl_map s)\<rparr>)
             | None \<Rightarrow> (False, s));
          s = (case agg_key_for l key of
                 None \<Rightarrow> s
               | Some a \<Rightarrow>
                   (case map_of (agg_v6 s) a of
                      None \<Rightarrow> s
                    | Some c \<Rightarrow>
                        if c - 1 = 0 then s\<lparr>agg_v6 := AList.delete a (agg_v6 s)\<rparr>
                        else s\<lparr>agg_v6 := AList.update a (c - 1) (agg_v6 s)\<rparr>))
      in if became_idle then bound_log l (s\<lparr>idle_log := idle_log s @ [(key, now)]\<rparr>) else s)"

section \<open>The invariant\<close>

text \<open>The state against the multiset of live permits: the per-source and per-/48 counters are exactly
  the numbers of live permits, within their caps; the counters of empty aggregates are gone; every
  idle entry still has its record in the bounded idle log.\<close>

abbreviation agg_live :: "source_limiter \<Rightarrow> bytes \<Rightarrow> source_key multiset \<Rightarrow> nat" where
  "agg_live l a live \<equiv> size (filter_mset (\<lambda>k. agg_key_for l k = Some a) live)"

definition agg_cap :: "source_limiter \<Rightarrow> nat" where
  "agg_cap l = saturating_mul 32 (cap_v6 l) AGG_V6_FANOUT"

definition limiter_ok :: "source_limiter \<Rightarrow> bool" where
  "limiter_ok l \<longleftrightarrow> cap_v4 l < 2 ^ 32 \<and> cap_v6 l < 2 ^ 32"

definition counts_ok :: "source_limiter \<Rightarrow> source_key multiset \<Rightarrow> inner \<Rightarrow> bool" where
  "counts_ok l live s \<longleftrightarrow> (\<forall>k. active_count s k = count live k \<and> count live k \<le> cap_for l k)"

definition aggs_ok :: "source_limiter \<Rightarrow> source_key multiset \<Rightarrow> inner \<Rightarrow> bool" where
  "aggs_ok l live s \<longleftrightarrow> (\<forall>a. agg_count s a = agg_live l a live \<and> agg_live l a live \<le> agg_cap l
     \<and> map_of (agg_v6 s) a \<noteq> Some 0)"

definition idle_ok :: "source_limiter \<Rightarrow> inner \<Rightarrow> bool" where
  "idle_ok l s \<longleftrightarrow> distinct (map fst (sl_map s))
     \<and> (\<forall>k e. map_of (sl_map s) k = Some e \<longrightarrow> active e = 0 \<longrightarrow>
          (\<exists>t. idle_since e = Some t \<and> (k, t) \<in> set (idle_log s)))"

lemma drain_counts: "active_count (drain_front_idle_record s) k = active_count s k"
  by (auto simp: drain_front_idle_record_def Let_def active_count_def delete_conv'
      split: list.splits option.splits)

lemma drain_aggs: "agg_v6 (drain_front_idle_record s) = agg_v6 s"
  by (auto simp: drain_front_idle_record_def Let_def split: list.splits option.splits)

lemma drain_idle:
  assumes "idle_ok l s"
  shows "idle_ok l (drain_front_idle_record s)"
proof (cases "idle_log s")
  case Nil
  then show ?thesis using assms by (simp add: drain_front_idle_record_def)
next
  case (Cons r log)
  obtain key t where r: "r = (key, t)" by (cases r)
  define s' where "s' = drain_front_idle_record s"
  have s': "idle_log s' = log" "distinct (map fst (sl_map s'))"
    using assms by (auto simp: s'_def Cons r drain_front_idle_record_def Let_def idle_ok_def distinct_delete
        split: option.splits)
  have "\<exists>u. idle_since e = Some u \<and> (k, u) \<in> set log"
    if e: "map_of (sl_map s') k = Some e" "active e = 0" for k e
  proof -
    have e': "map_of (sl_map s) k = Some e" and ne: "\<not> (k = key \<and> idle_since e = Some t)"
      using e by (auto simp: s'_def Cons r drain_front_idle_record_def Let_def delete_conv'
          split: option.splits if_splits)
    then obtain u where "idle_since e = Some u" "(k, u) \<in> set (idle_log s)"
      using assms e(2) unfolding idle_ok_def by blast
    then show ?thesis
      using ne by (auto simp: Cons r)
  qed
  then have "idle_ok l s'"
    using s' by (simp add: idle_ok_def)
  then show ?thesis
    by (simp add: s'_def)
qed

lemma prune_facts:
  "active_count (prune_loop n l now s) k = active_count s k"
  "agg_v6 (prune_loop n l now s) = agg_v6 s"
  "idle_ok l s \<Longrightarrow> idle_ok l (prune_loop n l now s)"
  "length (idle_log (prune_loop n l now s)) \<le> length (idle_log s)"
proof -
  show "active_count (prune_loop n l now s) k = active_count s k"
    by (induction n arbitrary: s) (auto simp: drain_counts Let_def split: list.splits)
  show "agg_v6 (prune_loop n l now s) = agg_v6 s"
    by (induction n arbitrary: s) (auto simp: drain_aggs Let_def split: list.splits)
  show "idle_ok l s \<Longrightarrow> idle_ok l (prune_loop n l now s)"
    by (induction n arbitrary: s) (auto simp: drain_idle Let_def split: list.splits)
  show "length (idle_log (prune_loop n l now s)) \<le> length (idle_log s)"
  proof (induction n arbitrary: s)
    case (Suc n)
    then show ?case
      using Suc.IH [of "drain_front_idle_record s"]
      by (auto simp: idle_log_drain Let_def split: list.splits)
  qed simp
qed

lemma bound_log_facts:
  "active_count (bound_log l s) k = active_count s k"
  "agg_v6 (bound_log l s) = agg_v6 s"
  "idle_ok l s \<Longrightarrow> idle_ok l (bound_log l s)"
  "length (idle_log (bound_log l s)) \<le> max_entries l"
proof -
  show "active_count (bound_log l s) k = active_count s k"
    by (induction l s rule: bound_log.induct) (subst bound_log.simps, simp add: drain_counts)
  show "agg_v6 (bound_log l s) = agg_v6 s"
    by (induction l s rule: bound_log.induct) (subst bound_log.simps, simp add: drain_aggs)
  show "idle_ok l s \<Longrightarrow> idle_ok l (bound_log l s)"
    by (induction l s rule: bound_log.induct) (subst bound_log.simps, simp add: drain_idle)
  show "length (idle_log (bound_log l s)) \<le> max_entries l"
    by (induction l s rule: bound_log.induct) (subst bound_log.simps, simp)
qed

definition sl_inv :: "source_limiter \<Rightarrow> source_key multiset \<Rightarrow> inner \<Rightarrow> bool" where
  "sl_inv l live s \<longleftrightarrow> counts_ok l live s \<and> aggs_ok l live s \<and> idle_ok l s
     \<and> length (idle_log s) \<le> max_entries l"

lemma sl_inv_new: "sl_inv l {#} inner_new"
  by (simp add: sl_inv_def inner_new_def counts_ok_def aggs_ok_def idle_ok_def active_count_def agg_count_def)

lemma counts_update [simp]:
  "active_count (s\<lparr>sl_map := AList.update key e (sl_map s)\<rparr>) k = (if k = key then active e else active_count s k)"
  "active_count (s\<lparr>agg_v6 := x\<rparr>) k = active_count s k"
  "active_count (s\<lparr>idle_log := y\<rparr>) k = active_count s k"
  "agg_count (s\<lparr>agg_v6 := AList.update a n (agg_v6 s)\<rparr>) b = (if b = a then n else agg_count s b)"
  "agg_count (s\<lparr>agg_v6 := AList.delete a (agg_v6 s)\<rparr>) b = (if b = a then 0 else agg_count s b)"
  "agg_count (s\<lparr>sl_map := z\<rparr>) b = agg_count s b"
  "agg_count (s\<lparr>idle_log := y\<rparr>) b = agg_count s b"
  by (simp_all add: active_count_def agg_count_def update_conv' delete_conv')

lemma idle_ok_agg [simp]: "idle_ok l (s\<lparr>agg_v6 := x\<rparr>) = idle_ok l s"
  by (simp add: idle_ok_def)

lemma idle_ok_activate:
  assumes "idle_ok l s" and "0 < active e"
  shows "idle_ok l (s\<lparr>sl_map := AList.update key e (sl_map s)\<rparr>)"
  using assms by (simp add: idle_ok_def update_conv' distinct_update)

lemma idle_ok_deactivate:
  assumes "idle_ok l s"
  shows "idle_ok l (s\<lparr>sl_map := AList.update key \<lparr>active = n, idle_since = Some t\<rparr> (sl_map s),
    idle_log := idle_log s @ [(key, t)]\<rparr>)"
  using assms by (auto simp: idle_ok_def update_conv' distinct_update)

lemma saturating_32: "saturating_mul 32 a b < 2 ^ 32"
  by (simp add: saturating_mul_def min_def)

text \<open>The two halves of an admission: bumping the source counter and the aggregate counter.\<close>

lemma counts_ok_admit:
  assumes "limiter_ok l" and "counts_ok l live s" and "active_count s key < cap_for l key"
  shows "counts_ok l (add_mset key live)
    (s\<lparr>sl_map := AList.update key \<lparr>active = (active_count s key + 1) mod 2 ^ 32, idle_since = None\<rparr> (sl_map s)\<rparr>)"
proof -
  have "cap_for l key < 2 ^ 32"
    using assms(1) by (cases key) (simp_all add: limiter_ok_def cap_for_def)
  then have "(active_count s key + 1) mod 2 ^ 32 = active_count s key + 1"
    using assms(3) by simp
  then show ?thesis
    using assms(2,3) by (simp add: counts_ok_def Suc_le_eq)
qed

lemma aggs_ok_admit:
  assumes "aggs_ok l live s" and "agg_key_for l key = Some a" and "agg_count s a < agg_cap l"
  shows "aggs_ok l (add_mset key live) (s\<lparr>agg_v6 := AList.update a ((agg_count s a + 1) mod 2 ^ 32) (agg_v6 s)\<rparr>)"
proof -
  have "agg_count s a + 1 < 2 ^ 32"
    using assms(3) saturating_32 [of "cap_v6 l" AGG_V6_FANOUT] by (simp add: agg_cap_def)
  then show ?thesis
    using assms by (auto simp: aggs_ok_def update_conv')
qed

lemma aggs_ok_other: "aggs_ok l live s \<Longrightarrow> agg_key_for l key = None \<Longrightarrow> aggs_ok l (add_mset key live) s"
  by (simp add: aggs_ok_def)

lemma try_admit_inv:
  assumes ok: "limiter_ok l" and inv: "sl_inv l live s"
  shows "case try_admit l now ip s of
      (None, s') \<Rightarrow> sl_inv l live s'
    | (Some key, s') \<Rightarrow> key = key_for l ip \<and> sl_inv l (add_mset key live) s'"
proof -
  define key where "key = key_for l ip"
  define p where "p = prune_locked l now s"
  have p: "counts_ok l live p" "aggs_ok l live p" "idle_ok l p" "length (idle_log p) \<le> max_entries l"
    using inv prune_facts(3,4) [where n = PRUNE_BUDGET and l = l and now = now and s = s]
    by (simp_all add: sl_inv_def p_def prune_locked_def counts_ok_def aggs_ok_def agg_count_def
        prune_facts(1,2))
  define full where "full \<longleftrightarrow> (case agg_key_for l key of None \<Rightarrow> False | Some a \<Rightarrow> agg_cap l \<le> agg_count p a)
    \<or> cap_for l key \<le> active_count p key"
  define q where "q = p\<lparr>sl_map := AList.update key
    \<lparr>active = (active_count p key + 1) mod 2 ^ 32, idle_since = None\<rparr> (sl_map p)\<rparr>"
  define q' where "q' = (case agg_key_for l key of None \<Rightarrow> q
    | Some a \<Rightarrow> q\<lparr>agg_v6 := AList.update a ((agg_count q a + 1) mod 2 ^ 32) (agg_v6 q)\<rparr>)"
  have eq: "try_admit l now ip s = (if full then (None, p) else (Some key, q'))"
    unfolding try_admit_def Let_def key_def [symmetric] p_def [symmetric] agg_cap_def [symmetric]
      q_def [symmetric] q'_def [symmetric]
    by (simp add: full_def)
  show ?thesis
  proof (cases full)
    case True
    then show ?thesis using p by (simp add: eq sl_inv_def)
  next
    case False
    then have room: "active_count p key < cap_for l key"
      by (simp add: full_def)
    have q: "counts_ok l (add_mset key live) q" "aggs_ok l live q"
      using counts_ok_admit [OF ok p(1) room] p(2) by (simp_all add: q_def aggs_ok_def)
    have "active_count q key = count (add_mset key live) key"
      using q(1) unfolding counts_ok_def by blast
    then have "0 < (active_count p key + 1) mod 2 ^ 32"
      by (simp add: q_def)
    then have idle: "idle_ok l q" "length (idle_log q) \<le> max_entries l"
      using p(3,4) by (simp_all add: q_def idle_ok_activate)
    have "counts_ok l (add_mset key live) q' \<and> aggs_ok l (add_mset key live) q' \<and> idle_ok l q'
        \<and> length (idle_log q') \<le> max_entries l"
    proof (cases "agg_key_for l key")
      case None
      then show ?thesis
        using q idle by (simp add: q'_def aggs_ok_other)
    next
      case (Some a)
      have "agg_count q a < agg_cap l"
        using False Some by (simp add: full_def q_def)
      then show ?thesis
        using aggs_ok_admit [OF q(2) Some] q(1) idle by (simp add: q'_def Some counts_ok_def)
    qed
    then show ?thesis
      using False by (simp add: eq sl_inv_def key_def)
  qed
qed

text \<open>Dropping a permit: first the source counter, then the aggregate counter, then the bounded log.\<close>

definition drop_agg :: "source_limiter \<Rightarrow> source_key \<Rightarrow> inner \<Rightarrow> inner" where
  "drop_agg l key s =
     (case agg_key_for l key of
        None \<Rightarrow> s
      | Some a \<Rightarrow>
          (case map_of (agg_v6 s) a of
             None \<Rightarrow> s
           | Some c \<Rightarrow>
               if c - 1 = 0 then s\<lparr>agg_v6 := AList.delete a (agg_v6 s)\<rparr>
               else s\<lparr>agg_v6 := AList.update a (c - 1) (agg_v6 s)\<rparr>))"

lemma drop_agg_same [simp]:
  "sl_map (drop_agg l key s) = sl_map s"
  "idle_log (drop_agg l key s) = idle_log s"
  "active_count (drop_agg l key s) k = active_count s k"
  "idle_ok l' (drop_agg l key s) = idle_ok l' s"
  by (auto simp: drop_agg_def split: option.splits)

lemma aggs_ok_drop:
  assumes "aggs_ok l live s" and "key \<in># live"
  shows "aggs_ok l (live - {#key#}) (drop_agg l key s)"
proof (cases "agg_key_for l key")
  case None
  have "filter_mset (\<lambda>k. agg_key_for l k = Some a) (live - {#key#}) = filter_mset (\<lambda>k. agg_key_for l k = Some a) live"
    for a
    using assms(2) None by (metis (mono_tags, lifting) filter_mset_add_mset insert_DiffM option.discI)
  then show ?thesis
    using assms None by (simp add: aggs_ok_def drop_agg_def)
next
  case (Some a)
  obtain rest where live: "live = add_mset key rest"
    using assms(2) by (metis insert_DiffM)
  have cnt: "agg_count s b = agg_live l b live" "agg_live l b live \<le> agg_cap l" "map_of (agg_v6 s) b \<noteq> Some 0" for b
    using assms(1) by (auto simp: aggs_ok_def)
  have "agg_count s a = Suc (agg_live l a rest)"
    using cnt(1) [of a] Some by (simp add: live)
  then have m: "map_of (agg_v6 s) a = Some (Suc (agg_live l a rest))"
    by (simp add: agg_count_def split: option.splits)
  have le: "agg_live l b rest \<le> agg_cap l" for b
    using cnt(2) [of b] by (simp add: live split: if_splits)
  have other: "agg_count s b = agg_live l b rest" if "b \<noteq> a" for b
    using cnt(1) [of b] that Some by (simp add: live)
  show ?thesis
    unfolding aggs_ok_def
  proof (intro allI conjI)
    fix b
    show "agg_count (drop_agg l key s) b = agg_live l b (live - {#key#})"
      using m other [of b] by (auto simp: drop_agg_def Some live)
    show "agg_live l b (live - {#key#}) \<le> agg_cap l"
      using le by (simp add: live)
    show "map_of (agg_v6 (drop_agg l key s)) b \<noteq> Some 0"
      using m cnt(3) [of b] by (auto simp: drop_agg_def Some update_conv' delete_conv')
  qed
qed

lemma permit_drop_inv:
  assumes inv: "sl_inv l live s" and key: "key \<in># live"
  shows "sl_inv l (live - {#key#}) (permit_drop l now key s)"
proof -
  have cnt: "active_count s k = count live k" "count live k \<le> cap_for l k" for k
    using inv by (auto simp: sl_inv_def counts_ok_def)
  have pos: "0 < count live key"
    using key by simp
  obtain e where e: "map_of (sl_map s) key = Some e" "active e = count live key"
  proof (cases "map_of (sl_map s) key")
    case None
    then have "count live key = 0"
      using cnt(1) [of key] by (simp add: active_count_def)
    with pos show ?thesis by linarith
  next
    case (Some e)
    then show ?thesis
      using that cnt(1) [of key] by (simp add: active_count_def)
  qed
  note agg = aggs_ok_drop [OF _ key]
  show ?thesis
  proof (cases "count live key - 1 = 0")
    case True
    define q where "q = drop_agg l key (s\<lparr>sl_map := AList.update key \<lparr>active = 0, idle_since = Some now\<rparr> (sl_map s)\<rparr>)"
    have drop: "permit_drop l now key s = bound_log l (q\<lparr>idle_log := idle_log q @ [(key, now)]\<rparr>)"
      unfolding permit_drop_def drop_agg_def [symmetric] using True by (simp add: e q_def Let_def)
    have "aggs_ok l (live - {#key#}) q"
      unfolding q_def using inv by (intro agg) (simp add: sl_inv_def aggs_ok_def)
    moreover have "counts_ok l (live - {#key#}) q"
      using cnt True pos by (auto simp: counts_ok_def q_def intro: le_trans [OF diff_le_self])
    moreover have "idle_ok l (q\<lparr>idle_log := idle_log q @ [(key, now)]\<rparr>)"
      using idle_ok_deactivate [of l s key now 0] inv by (simp add: sl_inv_def idle_ok_def q_def)
    ultimately show ?thesis
      unfolding drop using bound_log_facts [where l = l and s = "q\<lparr>idle_log := idle_log q @ [(key, now)]\<rparr>"]
      by (simp add: sl_inv_def counts_ok_def aggs_ok_def agg_count_def)
  next
    case False
    define q where "q = s\<lparr>sl_map := AList.update key (e\<lparr>active := count live key - 1\<rparr>) (sl_map s)\<rparr>"
    have drop: "permit_drop l now key s = drop_agg l key q"
      unfolding permit_drop_def drop_agg_def [symmetric] using False by (simp add: e q_def Let_def)
    have "aggs_ok l (live - {#key#}) (drop_agg l key q)"
      unfolding q_def using inv by (intro agg) (simp add: sl_inv_def aggs_ok_def)
    moreover have "counts_ok l (live - {#key#}) (drop_agg l key q)"
      using cnt by (auto simp: counts_ok_def q_def intro: le_trans [OF diff_le_self])
    moreover have "idle_ok l q"
      unfolding q_def using inv False by (intro idle_ok_activate) (simp_all add: sl_inv_def)
    ultimately show ?thesis
      unfolding drop using inv by (simp add: sl_inv_def q_def)
  qed
qed

section \<open>Reachable states\<close>

text \<open>Connections come and go: an admission at any time and from any address, accepted or refused, and
  the drop of any live permit. The multiset is the live permits.\<close>

inductive sl_reach :: "source_limiter \<Rightarrow> source_key multiset \<Rightarrow> inner \<Rightarrow> bool" for l where
  start: "sl_reach l {#} inner_new"
| admit: "sl_reach l live s \<Longrightarrow> try_admit l now ip s = (Some key, s') \<Longrightarrow> sl_reach l (add_mset key live) s'"
| refuse: "sl_reach l live s \<Longrightarrow> try_admit l now ip s = (None, s') \<Longrightarrow> sl_reach l live s'"
| drop: "sl_reach l live s \<Longrightarrow> key \<in># live \<Longrightarrow> sl_reach l (live - {#key#}) (permit_drop l now key s)"

lemma sl_reach_inv:
  assumes "sl_reach l live s" and "limiter_ok l"
  shows "sl_inv l live s"
  using assms(1)
proof (induction rule: sl_reach.induct)
  case start
  show ?case by (rule sl_inv_new)
next
  case (admit live s now ip key s')
  then show ?case
    using try_admit_inv [OF assms(2), where live = live and s = s and now = now and ip = ip] by auto
next
  case (refuse live s now ip s')
  then show ?case
    using try_admit_inv [OF assms(2), where live = live and s = s and now = now and ip = ip] by simp
next
  case (drop live s key now)
  then show ?case
    by (intro permit_drop_inv)
qed

lemma map_size_bound:
  assumes "idle_ok l s" and "counts_ok l live s"
  shows "length (sl_map s) \<le> size live + length (idle_log s)"
proof -
  have d: "distinct (map fst (sl_map s))"
    using assms(1) by (simp add: idle_ok_def)
  have "fst ` set (sl_map s) \<subseteq> set_mset live \<union> fst ` set (idle_log s)"
  proof
    fix k assume "k \<in> fst ` set (sl_map s)"
    then obtain e where e: "map_of (sl_map s) k = Some e"
      by (metis map_of_eq_None_iff not_Some_eq)
    show "k \<in> set_mset live \<union> fst ` set (idle_log s)"
    proof (cases "active e = 0")
      case True
      then show ?thesis
        using assms(1) e unfolding idle_ok_def by force
    next
      case False
      then have "0 < count live k"
        using assms(2) e by (auto simp: counts_ok_def active_count_def dest: spec [of _ k])
      then show ?thesis by simp
    qed
  qed
  then have "card (fst ` set (sl_map s)) \<le> card (set_mset live) + card (fst ` set (idle_log s))"
    by (meson card_Un_le card_mono finite_Un finite_imageI finite_set finite_set_mset le_trans List.finite_set)
  moreover have "card (set_mset live) \<le> size live"
    by (induction live) (auto simp: card_insert_if)
  moreover have "card (fst ` set (idle_log s)) \<le> length (idle_log s)"
    by (metis card_length length_map list.set_map)
  moreover have "length (sl_map s) = card (fst ` set (sl_map s))"
    using distinct_card [OF d] by simp
  ultimately show ?thesis by linarith
qed

text \<open>C7. However connections come and go, no source ever holds more live permits than its cap, no IPv6
  /48 more than four times the IPv6 cap, and the limiter's memory is bounded: the map holds at most
  one entry per live permit and per record of the idle log, which never exceeds \<open>max_entries\<close>, and
  there is one aggregate counter per /48 with a live permit.\<close>

theorem source_limits_enforced:
  assumes "sl_reach l live s" and "limiter_ok l"
  shows "count live key \<le> cap_for l key
    \<and> size {#k \<in># live. agg_key_for l k = Some a#} \<le> cap_v6 l * 4
    \<and> length (sl_map s) \<le> size live + max_entries l
    \<and> (map_of (agg_v6 s) a \<noteq> None \<longleftrightarrow> (\<exists>k. k \<in># live \<and> agg_key_for l k = Some a))"
proof -
  have inv: "sl_inv l live s"
    using assms by (rule sl_reach_inv)
  have agg: "agg_count s a = agg_live l a live" "agg_live l a live \<le> agg_cap l" "map_of (agg_v6 s) a \<noteq> Some 0"
    using inv by (auto simp: sl_inv_def aggs_ok_def)
  have "length (sl_map s) \<le> size live + length (idle_log s)"
    using inv by (intro map_size_bound [of l]) (simp_all add: sl_inv_def)
  moreover have "map_of (agg_v6 s) a \<noteq> None \<longleftrightarrow> agg_live l a live \<noteq> 0"
    using agg(1,3) by (auto simp: agg_count_def split: option.splits)
  moreover have "agg_live l a live \<noteq> 0 \<longleftrightarrow> (\<exists>k. k \<in># live \<and> agg_key_for l k = Some a)"
    unfolding size_eq_0_iff_empty set_mset_eq_empty_iff [symmetric] set_mset_filter by auto
  ultimately show ?thesis
    using inv agg(2) by (auto simp: sl_inv_def counts_ok_def agg_cap_def saturating_mul_def AGG_V6_FANOUT_def)
qed

lemma prune_loop_empty: "idle_log s = [] \<Longrightarrow> prune_loop n l now s = s"
  by (cases n) simp_all

theorem source_limits_enforced_witness:
  "\<exists>l key s. sl_reach l {#key#} s \<and> count {#key#} key \<le> cap_for l key \<and> cap_for l key = 1"
proof -
  define l where "l = limiter_new 1 1 64 10"
  define ip where "ip = IpV4 [10, 0, 0, 1]"
  obtain s where s: "try_admit l 5 ip inner_new = (Some (V4 [10, 0, 0, 1]), s)"
    by (simp add: try_admit_def Let_def l_def ip_def limiter_new_def key_for_def cap_for_def agg_key_for_def
        prune_locked_def prune_loop_empty inner_new_def active_count_def)
  have "sl_reach l (add_mset (V4 [10, 0, 0, 1]) {#}) s"
    by (rule sl_reach.admit [OF sl_reach.start s])
  moreover have "limiter_ok l" "cap_for l (V4 [10, 0, 0, 1]) = 1"
    by (simp_all add: l_def limiter_new_def limiter_ok_def cap_for_def)
  ultimately show ?thesis
    using source_limits_enforced [of l "{#V4 [10, 0, 0, 1]#}" s "V4 [10, 0, 0, 1]"] by blast
qed

end
