(* ===== verification/Session.thy ===== *)
theory Session
  imports Prelude
begin

text \<open>
  Session keys and the record cipher: \<open>crypto/session.rs\<close>. The key schedule (HKDF over the pre-shared
  key and the X25519 secret), the per-record nonce, the sequence counter with its poison flag, and the
  AEAD codec with its serial and batch interfaces.

  The cryptographic primitives come from other crates and are parameters: \<open>aead\<close> (seal and open of
  the two cipher suites), \<open>hkdf\<close> (extract and expand) and \<open>x25519\<close> (public key and shared secret).
  What the code relies on is \<open>aead_correct\<close>, \<open>hkdf_correct\<close> and \<open>x25519_agrees\<close>. Wiping and locking of
  memory has no effect on the values and is not modelled.
\<close>

unbundle bit_operations_syntax

definition KEY_LEN :: nat where "KEY_LEN = 32"
definition NONCE_LEN :: nat where "NONCE_LEN = 12"
definition AEAD_TAG_LEN :: nat where "AEAD_TAG_LEN = 16"
definition HKDF_INFO_STACK_LEN :: nat where "HKDF_INFO_STACK_LEN = 128"

datatype session_error = Hkdf | Aead | NonceExhausted | DegenerateSharedSecret | EmptyPsk

datatype cipher_suite = ChaCha20Poly1305 | Aes256Gcm

fun suite_to_wire :: "cipher_suite \<Rightarrow> byte" where
  "suite_to_wire ChaCha20Poly1305 = 0"
| "suite_to_wire Aes256Gcm = 1"

definition suite_from_wire :: "byte \<Rightarrow> cipher_suite option" where
  "suite_from_wire b = (if b = 0 then Some ChaCha20Poly1305 else if b = 1 then Some Aes256Gcm else None)"

section \<open>Primitives\<close>

text \<open>\<open>a_seal suite key nonce aad plaintext\<close> returns the ciphertext and the tag, \<open>a_open\<close> takes the
  ciphertext followed by the tag; both may fail.\<close>

record aead =
  a_seal :: "cipher_suite \<Rightarrow> bytes \<Rightarrow> bytes \<Rightarrow> bytes \<Rightarrow> bytes \<Rightarrow> (bytes \<times> bytes) option"
  a_open :: "cipher_suite \<Rightarrow> bytes \<Rightarrow> bytes \<Rightarrow> bytes \<Rightarrow> bytes \<Rightarrow> bytes option"

record hkdf =
  h_extract :: "bytes \<Rightarrow> bytes \<Rightarrow> bytes"
  h_expand :: "bytes \<Rightarrow> bytes \<Rightarrow> nat \<Rightarrow> bytes option"

record x25519 =
  x_public :: "bytes \<Rightarrow> bytes"
  x_shared :: "bytes \<Rightarrow> bytes \<Rightarrow> bytes"

section \<open>Key schedule\<close>

record session_keys =
  client_key :: bytes
  server_key :: bytes
  client_nonce :: bytes
  server_nonce :: bytes
  chain_secret :: bytes
  epoch :: u64
  transcript_hash :: bytes
  shared_secret :: bytes

text \<open>\<open>write_bytes\<close> copies into the fixed array and advances the offset; \<open>None\<close> is the panic of the
  slice when the bytes do not fit.\<close>

definition write_bytes :: "bytes \<Rightarrow> bytes \<times> nat \<Rightarrow> (bytes \<times> nat) option" where
  "write_bytes bs = (\<lambda>(out, off).
     let e = off + length bs
     in if e \<le> length out then Some (take off out @ bs @ drop e out, e) else None)"

definition u16_len :: "bytes \<Rightarrow> bytes" where
  "u16_len bs = be_bytes 2 (of_nat (length bs) :: u16)"

fun write_all :: "bytes list \<Rightarrow> bytes \<times> nat \<Rightarrow> (bytes \<times> nat) option" where
  "write_all [] st = Some st"
| "write_all (bs # bss) st = Option.bind (write_bytes bs st) (write_all bss)"

definition write_epoch_hkdf_info :: "bytes \<Rightarrow> bytes \<Rightarrow> u64 \<Rightarrow> bytes \<Rightarrow> (bytes \<times> nat) option" where
  "write_epoch_hkdf_info out label ep th =
     write_all [u16_len label, label, be_bytes 8 ep, u16_len th, th] (out, 0)"

definition write_substream_hkdf_info :: "bytes \<Rightarrow> bytes \<Rightarrow> u64 \<Rightarrow> u64 \<Rightarrow> bytes \<Rightarrow> (bytes \<times> nat) option" where
  "write_substream_hkdf_info out label ep stream_id th =
     write_all [u16_len label, label, be_bytes 8 ep, be_bytes 8 stream_id, u16_len th, th] (out, 0)"

text \<open>\<open>expand\<close> has a stack buffer for short infos and a heap buffer for long ones. The panic of a
  write that does not fit would be the error \<open>None\<close> of the outer option; the guard excludes it.\<close>

definition expand_info :: "bytes \<Rightarrow> u64 \<Rightarrow> bytes \<Rightarrow> bytes option" where
  "expand_info label ep th =
     (let info_len = 2 + length label + 8 + 2 + length th
      in if info_len \<le> HKDF_INFO_STACK_LEN then
           (case write_epoch_hkdf_info (replicate HKDF_INFO_STACK_LEN 0) label ep th of
              None \<Rightarrow> None
            | Some (info, used) \<Rightarrow> Some (take used info))
         else Some (u16_len label @ label @ be_bytes 8 ep @ u16_len th @ th))"

definition expand :: "hkdf \<Rightarrow> bytes \<Rightarrow> bytes \<Rightarrow> u64 \<Rightarrow> bytes \<Rightarrow> nat \<Rightarrow> (session_error + bytes) option" where
  "expand H hk label ep th n =
     map_option (\<lambda>info. ok_or (h_expand H hk info n) Hkdf) (expand_info label ep th)"

definition expand_substream ::
  "hkdf \<Rightarrow> bytes \<Rightarrow> bytes \<Rightarrow> u64 \<Rightarrow> u64 \<Rightarrow> bytes \<Rightarrow> nat \<Rightarrow> (session_error + bytes) option" where
  "expand_substream H hk label ep stream_id th n =
     map_option (\<lambda>(info, used). ok_or (h_expand H hk (take used info) n) Hkdf)
       (write_substream_hkdf_info (replicate HKDF_INFO_STACK_LEN 0) label ep stream_id th)"

text \<open>Sequencing results that may also panic.\<close>

definition try_bind :: "('e + 'a) option \<Rightarrow> ('a \<Rightarrow> ('e + 'b) option) \<Rightarrow> ('e + 'b) option" where
  "try_bind r k = (case r of None \<Rightarrow> None | Some (Inl e) \<Rightarrow> Some (Inl e) | Some (Inr x) \<Rightarrow> k x)"

definition expand_epoch_keys :: "hkdf \<Rightarrow> bytes \<Rightarrow> u64 \<Rightarrow> bytes \<Rightarrow> bytes \<Rightarrow> (session_error + session_keys) option" where
  "expand_epoch_keys H chain ep th shared =
     (if length chain < 32 then Some (Inl Hkdf)
      else
        try_bind (expand H chain (ascii ''client appdata key'') ep th KEY_LEN) (\<lambda>ck.
        try_bind (expand H chain (ascii ''server appdata key'') ep th KEY_LEN) (\<lambda>sk.
        try_bind (expand H chain (ascii ''client appdata nonce'') ep th NONCE_LEN) (\<lambda>cn.
        try_bind (expand H chain (ascii ''server appdata nonce'') ep th NONCE_LEN) (\<lambda>sn.
        Some (Inr \<lparr>client_key = ck, server_key = sk, client_nonce = cn, server_nonce = sn,
          chain_secret = chain, epoch = ep, transcript_hash = th, shared_secret = shared\<rparr>))))))"

definition expand_substream_keys :: "hkdf \<Rightarrow> session_keys \<Rightarrow> u64 \<Rightarrow> (session_error + session_keys) option" where
  "expand_substream_keys H k stream_id =
     (let chain = chain_secret k; ep = epoch k; th = transcript_hash k
      in if length chain < 32 then Some (Inl Hkdf)
         else
           try_bind (expand_substream H chain (ascii ''ParallaX v1 mux substream client key'') ep stream_id th KEY_LEN) (\<lambda>ck.
           try_bind (expand_substream H chain (ascii ''ParallaX v1 mux substream server key'') ep stream_id th KEY_LEN) (\<lambda>sk.
           try_bind (expand_substream H chain (ascii ''ParallaX v1 mux substream client nonce'') ep stream_id th NONCE_LEN) (\<lambda>cn.
           try_bind (expand_substream H chain (ascii ''ParallaX v1 mux substream server nonce'') ep stream_id th NONCE_LEN) (\<lambda>sn.
           Some (Inr (k\<lparr>client_key := ck, server_key := sk, client_nonce := cn, server_nonce := sn\<rparr>)))))))"

definition initial_chain_secret :: "hkdf \<Rightarrow> bytes \<Rightarrow> bytes \<Rightarrow> bytes \<Rightarrow> (session_error + bytes) option" where
  "initial_chain_secret H psk shared th =
     (if psk = [] then Some (Inl EmptyPsk)
      else expand H (h_extract H psk shared) (ascii ''ParallaX v2 initial psk+x25519 chain secret'') 0 th KEY_LEN)"

definition derive_keys_from_shared :: "hkdf \<Rightarrow> bytes \<Rightarrow> bytes \<Rightarrow> bytes \<Rightarrow> (session_error + session_keys) option" where
  "derive_keys_from_shared H psk shared th =
     (if shared = replicate KEY_LEN 0 then Some (Inl DegenerateSharedSecret)
      else try_bind (initial_chain_secret H psk shared th) (\<lambda>chain. expand_epoch_keys H chain 0 th shared))"

definition derive_keys :: "hkdf \<Rightarrow> x25519 \<Rightarrow> bytes \<Rightarrow> bytes \<Rightarrow> bytes \<Rightarrow> bytes \<Rightarrow> (session_error + session_keys) option" where
  "derive_keys H X psk private peer_public th =
     derive_keys_from_shared H psk (x_shared X private peer_public) th"

definition derive_client_keys :: "hkdf \<Rightarrow> x25519 \<Rightarrow> bytes \<Rightarrow> bytes \<Rightarrow> bytes \<Rightarrow> bytes \<Rightarrow> (session_error + session_keys) option" where
  "derive_client_keys H X psk client_private server_public th = derive_keys H X psk client_private server_public th"

definition derive_server_keys :: "hkdf \<Rightarrow> x25519 \<Rightarrow> bytes \<Rightarrow> bytes \<Rightarrow> bytes \<Rightarrow> bytes \<Rightarrow> (session_error + session_keys) option" where
  "derive_server_keys H X psk server_private client_public th = derive_keys H X psk server_private client_public th"

definition derive_client_keys_from_shared :: "hkdf \<Rightarrow> bytes \<Rightarrow> bytes \<Rightarrow> bytes \<Rightarrow> (session_error + session_keys) option" where
  "derive_client_keys_from_shared H psk shared th = derive_keys_from_shared H psk shared th"

definition derive_server_keys_from_shared :: "hkdf \<Rightarrow> bytes \<Rightarrow> bytes \<Rightarrow> bytes \<Rightarrow> (session_error + session_keys) option" where
  "derive_server_keys_from_shared H psk shared th = derive_keys_from_shared H psk shared th"

section \<open>Sequence numbers\<close>

record record_sequence =
  rs_next :: u64
  poisoned :: bool

definition seq_default :: record_sequence where
  "seq_default = \<lparr>rs_next = 0, poisoned = False\<rparr>"

definition seq_ensure_usable :: "record_sequence \<Rightarrow> session_error + unit" where
  "seq_ensure_usable s = (if poisoned s then Inl Aead else Inr ())"

definition seq_reserve :: "u64 \<Rightarrow> record_sequence \<Rightarrow> session_error + (u64 \<times> record_sequence)" where
  "seq_reserve cnt s =
     and_then (seq_ensure_usable s) (\<lambda>_.
     and_then (ok_or (checked_add_u64 (rs_next s) cnt) NonceExhausted) (\<lambda>e.
     Inr (rs_next s, s\<lparr>rs_next := e\<rparr>)))"

definition seq_poison :: "record_sequence \<Rightarrow> record_sequence" where
  "seq_poison s = s\<lparr>poisoned := True\<rparr>"

definition seq_advance :: "u64 \<Rightarrow> record_sequence \<Rightarrow> record_sequence" where
  "seq_advance cnt s = (case seq_reserve cnt s of Inl _ \<Rightarrow> seq_poison s | Inr (_, s') \<Rightarrow> s')"

definition reset_for_rekey :: "record_sequence \<Rightarrow> record_sequence" where
  "reset_for_rekey s = s\<lparr>rs_next := 0\<rparr>"

definition record_nonce_from :: "bytes \<Rightarrow> u64 \<Rightarrow> bytes" where
  "record_nonce_from base sequence =
     take (NONCE_LEN - 8) base @ map2 (XOR) (drop (NONCE_LEN - 8) base) (be_bytes 8 sequence)"

section \<open>The codec\<close>

text \<open>The shared cipher handle is built from the suite and the key, so the model keeps just those.\<close>

record aead_codec =
  ac_key :: bytes
  ac_nonce_base :: bytes
  ac_records :: record_sequence
  ac_suite :: cipher_suite

definition seal_in_place_detached_with ::
  "aead \<Rightarrow> cipher_suite \<Rightarrow> bytes \<Rightarrow> bytes \<Rightarrow> u64 \<Rightarrow> bytes \<Rightarrow> bytes \<Rightarrow> session_error + (bytes \<times> bytes)" where
  "seal_in_place_detached_with A suite key base sequence plaintext aad =
     (if sequence = - 1 then Inl NonceExhausted
      else ok_or (a_seal A suite key (record_nonce_from base sequence) aad plaintext) Aead)"

definition open_in_place_split_with ::
  "aead \<Rightarrow> cipher_suite \<Rightarrow> bytes \<Rightarrow> bytes \<Rightarrow> u64 \<Rightarrow> bytes \<Rightarrow> bytes \<Rightarrow> session_error + bytes" where
  "open_in_place_split_with A suite key base sequence ct aad =
     (if length ct < AEAD_TAG_LEN then Inl Aead
      else if sequence = - 1 then Inl NonceExhausted
      else ok_or (a_open A suite key (record_nonce_from base sequence) aad ct) Aead)"

definition codec_new_with_suite :: "cipher_suite \<Rightarrow> bytes \<Rightarrow> bytes \<Rightarrow> aead_codec" where
  "codec_new_with_suite suite key base =
     \<lparr>ac_key = key, ac_nonce_base = base, ac_records = seq_default, ac_suite = suite\<rparr>"

definition codec_new :: "bytes \<Rightarrow> bytes \<Rightarrow> aead_codec" where
  "codec_new key base = codec_new_with_suite ChaCha20Poly1305 key base"

definition rekey_with_suite :: "cipher_suite \<Rightarrow> bytes \<Rightarrow> bytes \<Rightarrow> aead_codec \<Rightarrow> aead_codec" where
  "rekey_with_suite suite key base c =
     c\<lparr>ac_key := key, ac_nonce_base := base, ac_records := reset_for_rekey (ac_records c), ac_suite := suite\<rparr>"

definition codec_rekey :: "bytes \<Rightarrow> bytes \<Rightarrow> aead_codec \<Rightarrow> aead_codec" where
  "codec_rekey key base c = rekey_with_suite (ac_suite c) key base c"

definition ensure_usable :: "aead_codec \<Rightarrow> session_error + unit" where
  "ensure_usable c = seq_ensure_usable (ac_records c)"

definition codec_sequence :: "aead_codec \<Rightarrow> u64" where
  "codec_sequence c = rs_next (ac_records c)"

definition advance_sequence :: "u64 \<Rightarrow> aead_codec \<Rightarrow> aead_codec" where
  "advance_sequence cnt c = c\<lparr>ac_records := seq_advance cnt (ac_records c)\<rparr>"

definition reserve_sequence :: "u64 \<Rightarrow> aead_codec \<Rightarrow> session_error + (u64 \<times> aead_codec)" where
  "reserve_sequence cnt c =
     and_then (seq_reserve cnt (ac_records c)) (\<lambda>(base, s). Inr (base, c\<lparr>ac_records := s\<rparr>))"

definition codec_poison :: "aead_codec \<Rightarrow> aead_codec" where
  "codec_poison c = c\<lparr>ac_records := seq_poison (ac_records c)\<rparr>"

text \<open>The stateful operations return the codec also when they fail, since \<open>&mut self\<close> outlives the error.\<close>

definition seal_in_place_detached ::
  "aead \<Rightarrow> bytes \<Rightarrow> bytes \<Rightarrow> aead_codec \<Rightarrow> (session_error + (bytes \<times> bytes)) \<times> aead_codec" where
  "seal_in_place_detached A plaintext aad c =
     (case ensure_usable c of
        Inl e \<Rightarrow> (Inl e, c)
      | Inr _ \<Rightarrow>
          (case seal_in_place_detached_with A (ac_suite c) (ac_key c) (ac_nonce_base c)
                  (rs_next (ac_records c)) plaintext aad of
             Inl e \<Rightarrow> (Inl e, c)
           | Inr r \<Rightarrow> (Inr r, advance_sequence 1 c)))"

definition codec_seal :: "aead \<Rightarrow> bytes \<Rightarrow> bytes \<Rightarrow> aead_codec \<Rightarrow> (session_error + bytes) \<times> aead_codec" where
  "codec_seal A plaintext aad c =
     (case seal_in_place_detached A plaintext aad c of
        (Inl e, c') \<Rightarrow> (Inl e, c')
      | (Inr (ct, tag), c') \<Rightarrow> (Inr (ct @ tag), c'))"

definition open_in_place_split :: "aead \<Rightarrow> bytes \<Rightarrow> bytes \<Rightarrow> aead_codec \<Rightarrow> (session_error + bytes) \<times> aead_codec" where
  "open_in_place_split A ct aad c =
     (case ensure_usable c of
        Inl e \<Rightarrow> (Inl e, c)
      | Inr _ \<Rightarrow>
          (case open_in_place_split_with A (ac_suite c) (ac_key c) (ac_nonce_base c)
                  (rs_next (ac_records c)) ct aad of
             Inl e \<Rightarrow> (Inl e, c)
           | Inr pt \<Rightarrow> (Inr pt, advance_sequence 1 c)))"

definition open_in_place :: "aead \<Rightarrow> bytes \<Rightarrow> bytes \<Rightarrow> aead_codec \<Rightarrow> (session_error + bytes) \<times> aead_codec" where
  "open_in_place A ct aad c = open_in_place_split A ct aad c"

definition codec_open :: "aead \<Rightarrow> bytes \<Rightarrow> bytes \<Rightarrow> aead_codec \<Rightarrow> (session_error + bytes) \<times> aead_codec" where
  "codec_open A ct aad c =
     (if length ct < AEAD_TAG_LEN then (Inl Aead, c) else open_in_place A ct aad c)"

section \<open>What the code relies on\<close>

text \<open>The documented behaviour of the AEAD crate: tags have 16 bytes, the ciphertext is as long as the
  plaintext, and opening what was sealed under the same key, nonce and associated data returns it.\<close>

definition aead_correct :: "aead \<Rightarrow> bool" where
  "aead_correct A \<longleftrightarrow>
     (\<forall>suite key nonce aad pt ct tag. a_seal A suite key nonce aad pt = Some (ct, tag) \<longrightarrow>
        length ct = length pt \<and> length tag = AEAD_TAG_LEN \<and>
        a_open A suite key nonce aad (ct @ tag) = Some pt)"

text \<open>HKDF-SHA256 expands to the requested length up to \<open>255 * 32\<close> bytes, and extraction gives 32 bytes.\<close>

definition hkdf_correct :: "hkdf \<Rightarrow> bool" where
  "hkdf_correct H \<longleftrightarrow>
     (\<forall>salt ikm. length (h_extract H salt ikm) = 32) \<and>
     (\<forall>prk info n. n \<le> 255 * 32 \<longrightarrow> (\<exists>out. h_expand H prk info n = Some out \<and> length out = n))"

text \<open>Diffie-Hellman: both sides compute the same secret.\<close>

definition x25519_agrees :: "x25519 \<Rightarrow> bool" where
  "x25519_agrees X \<longleftrightarrow> (\<forall>a b. x_shared X a (x_public X b) = x_shared X b (x_public X a))"

section \<open>Lemmas: nonces and sequence numbers\<close>

lemma map2_xor_inject:
  "length ys = length xs \<Longrightarrow> length zs = length xs \<Longrightarrow>
   map2 (XOR) xs ys = map2 (XOR) xs zs \<Longrightarrow> ys = (zs :: bytes)"
proof (induction xs arbitrary: ys zs)
  case (Cons x xs)
  then obtain y ys' z zs' where e: "ys = y # ys'" "zs = z # zs'" by (metis length_Suc_conv)
  have "x XOR (x XOR y) = x XOR (x XOR z)" using Cons.prems(3) e by simp
  then have "y = z" by (simp flip: xor.assoc)
  then show ?case using Cons e by simp
qed simp

lemma record_nonce_inject:
  assumes "length base = NONCE_LEN" "record_nonce_from base s = record_nonce_from base t"
  shows "s = t"
proof -
  have "map2 (XOR) (drop (NONCE_LEN - 8) base) (be_bytes 8 s) = map2 (XOR) (drop (NONCE_LEN - 8) base) (be_bytes 8 t)"
    using assms(2) by (simp add: record_nonce_from_def)
  then have "be_bytes 8 s = be_bytes 8 t"
    by (rule map2_xor_inject [rotated 2]) (simp_all add: assms NONCE_LEN_def)
  then show ?thesis by simp
qed

lemma length_record_nonce: "length base = NONCE_LEN \<Longrightarrow> length (record_nonce_from base s) = NONCE_LEN"
  by (simp add: record_nonce_from_def NONCE_LEN_def)

lemma seq_reserve_Inr:
  "seq_reserve n s = Inr (base, s') \<longleftrightarrow>
     \<not> poisoned s \<and> base = rs_next s \<and> unat (rs_next s) + unat n < 2 ^ 64 \<and> s' = s\<lparr>rs_next := rs_next s + n\<rparr>"
  by (auto simp: seq_reserve_def seq_ensure_usable_def and_then_eq_Inr checked_add_u64_def split: if_splits)

lemma word_add_unat_less:
  fixes a n :: u64
  assumes "unat a + unat n < 2 ^ 64"
  shows "unat (a + n) = unat a + unat n"
  using assms by (simp add: unat_word_ariths)

lemma word_range:
  fixes a n :: u64
  assumes "unat a + unat n < 2 ^ 64" "i < unat n"
  shows "a \<le> a + of_nat i" "a + of_nat i < a + n" "unat (a + of_nat i) = unat a + i"
proof -
  have "unat (of_nat i :: u64) = i" using assms by (simp add: unsigned_of_nat take_bit_nat_eq_self)
  then show *: "unat (a + of_nat i) = unat a + i"
    using assms word_add_unat_less [of a "of_nat i"] by simp
  show "a \<le> a + of_nat i" "a + of_nat i < a + n"
    using * assms by (simp_all add: word_le_nat_alt word_less_nat_alt word_add_unat_less)
qed

lemma seq_advance_1:
  assumes "\<not> poisoned s" "rs_next s \<noteq> - 1"
  shows "seq_advance 1 s = s\<lparr>rs_next := rs_next s + 1\<rparr>" "rs_next s < rs_next s + 1"
proof -
  have "unat (- 1 :: u64) = 2 ^ 64 - 1" by (simp add: unsigned_minus_1_eq_mask mask_eq_exp_minus_1)
  then have "unat (rs_next s) \<noteq> 2 ^ 64 - 1"
    using assms(2) word_unat_eqI [of "rs_next s" "- 1"] by argo
  then have "unat (rs_next s) + unat (1 :: u64) < 2 ^ 64"
    using unat_lt_exp [of "rs_next s"] by simp
  then show "seq_advance 1 s = s\<lparr>rs_next := rs_next s + 1\<rparr>" "rs_next s < rs_next s + 1"
    using assms(1) word_add_unat_less [of "rs_next s" 1]
    by (auto simp: seq_advance_def seq_reserve_def seq_ensure_usable_def checked_add_u64_def word_less_nat_alt)
qed

lemma seal_in_place_detached_Inr:
  assumes "seal_in_place_detached A pt aad c = (Inr r, c')"
  shows "\<not> poisoned (ac_records c)" "codec_sequence c \<noteq> - 1"
    "a_seal A (ac_suite c) (ac_key c) (record_nonce_from (ac_nonce_base c) (codec_sequence c)) aad pt = Some r"
    "c' = c\<lparr>ac_records := (ac_records c)\<lparr>rs_next := codec_sequence c + 1\<rparr>\<rparr>"
    "codec_sequence c < codec_sequence c + 1"
  using assms seq_advance_1 [of "ac_records c"]
  by (auto simp: seal_in_place_detached_def ensure_usable_def seq_ensure_usable_def advance_sequence_def
      seal_in_place_detached_with_def codec_sequence_def split: if_splits sum.splits)

lemma seal_in_place_detached_Inl:
  "seal_in_place_detached A pt aad c = (Inl e, c') \<Longrightarrow> c' = c"
  by (auto simp: seal_in_place_detached_def split: sum.splits)

lemma reserve_sequence_Inr:
  "reserve_sequence n c = Inr (base, c') \<longleftrightarrow>
     \<not> poisoned (ac_records c) \<and> base = codec_sequence c \<and> unat (codec_sequence c) + unat n < 2 ^ 64 \<and>
     c' = c\<lparr>ac_records := (ac_records c)\<lparr>rs_next := codec_sequence c + n\<rparr>\<rparr>"
  by (auto simp: reserve_sequence_def and_then_eq_Inr seq_reserve_Inr codec_sequence_def split: prod.splits)

text \<open>A cipher for the examples: it does not encrypt, and its tag is constant.\<close>

definition plain_aead :: aead where
  "plain_aead = \<lparr>a_seal = (\<lambda>suite key nonce aad pt. Some (pt, replicate 16 0)),
     a_open = (\<lambda>suite key nonce aad ct. Some (take (length ct - 16) ct))\<rparr>"

lemma plain_aead_correct: "aead_correct plain_aead"
  by (simp add: aead_correct_def plain_aead_def AEAD_TAG_LEN_def)

section \<open>Lemmas: a stream of records\<close>

fun seal_stream :: "aead \<Rightarrow> (bytes \<times> bytes) list \<Rightarrow> aead_codec \<Rightarrow> session_error + (bytes list \<times> aead_codec)" where
  "seal_stream A [] c = Inr ([], c)"
| "seal_stream A ((pt, aad) # ms) c =
     (case codec_seal A pt aad c of
        (Inl e, _) \<Rightarrow> Inl e
      | (Inr ct, c') \<Rightarrow> and_then (seal_stream A ms c') (\<lambda>(cts, c''). Inr (ct # cts, c'')))"

fun open_stream :: "aead \<Rightarrow> (bytes \<times> bytes) list \<Rightarrow> aead_codec \<Rightarrow> session_error + (bytes list \<times> aead_codec)" where
  "open_stream A [] c = Inr ([], c)"
| "open_stream A ((ct, aad) # ms) c =
     (case codec_open A ct aad c of
        (Inl e, _) \<Rightarrow> Inl e
      | (Inr pt, c') \<Rightarrow> and_then (open_stream A ms c') (\<lambda>(pts, c''). Inr (pt # pts, c'')))"

lemma codec_seal_open:
  assumes "aead_correct A" "codec_seal A pt aad c = (Inr ct, c')"
  shows "codec_open A ct aad c = (Inr pt, c')"
proof -
  obtain body tag where s: "seal_in_place_detached A pt aad c = (Inr (body, tag), c')" and ct: "ct = body @ tag"
    using assms(2) by (auto simp: codec_seal_def split: prod.splits sum.splits)
  note d = seal_in_place_detached_Inr [OF s]
  have "length tag = AEAD_TAG_LEN"
    "a_open A (ac_suite c) (ac_key c) (record_nonce_from (ac_nonce_base c) (codec_sequence c)) aad ct = Some pt"
    using assms(1) d(3) ct unfolding aead_correct_def by blast+
  then show ?thesis
    using d ct seq_advance_1 [of "ac_records c"]
    by (simp add: codec_open_def open_in_place_def open_in_place_split_def ensure_usable_def seq_ensure_usable_def
        open_in_place_split_with_def codec_sequence_def advance_sequence_def)
qed

lemma seal_stream_open:
  assumes "aead_correct A"
  shows "seal_stream A ms c = Inr (cts, c') \<Longrightarrow>
    length cts = length ms \<and> open_stream A (zip cts (map snd ms)) c = Inr (map fst ms, c')"
proof (induction ms arbitrary: c cts)
  case (Cons m ms)
  obtain pt aad where m: "m = (pt, aad)" by (cases m)
  obtain ct c1 cts' where s: "codec_seal A pt aad c = (Inr ct, c1)" "seal_stream A ms c1 = Inr (cts', c')"
    "cts = ct # cts'"
    using Cons.prems by (auto simp: m and_then_eq_Inr split: prod.splits sum.splits)
  show ?case using Cons.IH [OF s(2)] codec_seal_open [OF assms s(1)] s(3) by (simp add: m)
qed simp

text \<open>Sealing goes through while the counter has room, the codec is not poisoned and the cipher does not
  fail.\<close>

lemma codec_seal_ok:
  assumes "\<not> poisoned (ac_records c)" "codec_sequence c \<noteq> - 1" "\<And>nonce. a_seal A (ac_suite c) (ac_key c) nonce aad pt \<noteq> None"
  obtains ct where "codec_seal A pt aad c = (Inr ct, c\<lparr>ac_records := (ac_records c)\<lparr>rs_next := codec_sequence c + 1\<rparr>\<rparr>)"
proof -
  obtain r where "a_seal A (ac_suite c) (ac_key c) (record_nonce_from (ac_nonce_base c) (codec_sequence c)) aad pt = Some r"
    using assms(3) by blast
  then show ?thesis
    using assms(1,2) seq_advance_1 [of "ac_records c"]
    by (cases r) (auto intro!: that simp: codec_seal_def seal_in_place_detached_def ensure_usable_def
        seq_ensure_usable_def seal_in_place_detached_with_def codec_sequence_def advance_sequence_def)
qed

lemma seal_stream_ok:
  assumes "\<And>suite key nonce aad pt. a_seal A suite key nonce aad pt \<noteq> None"
  shows "\<not> poisoned (ac_records c) \<Longrightarrow> unat (codec_sequence c) + length ms < 2 ^ 64 \<Longrightarrow> \<exists>cts c'. seal_stream A ms c = Inr (cts, c')"
proof (induction ms arbitrary: c)
  case (Cons m ms)
  obtain pt aad where m: "m = (pt, aad)" by (cases m)
  have "unat (- 1 :: u64) = 2 ^ 64 - 1" by (simp add: unsigned_minus_1_eq_mask mask_eq_exp_minus_1)
  then have n: "codec_sequence c \<noteq> - 1" using Cons.prems(2) by auto
  have u: "unat (codec_sequence c + 1) = unat (codec_sequence c) + 1"
    using Cons.prems(2) word_add_unat_less [of "codec_sequence c" 1] by simp
  obtain ct where s: "codec_seal A pt aad c = (Inr ct, c\<lparr>ac_records := (ac_records c)\<lparr>rs_next := codec_sequence c + 1\<rparr>\<rparr>)"
    by (rule codec_seal_ok [OF Cons.prems(1) n assms])
  obtain cts c' where "seal_stream A ms (c\<lparr>ac_records := (ac_records c)\<lparr>rs_next := codec_sequence c + 1\<rparr>\<rparr>) = Inr (cts, c')"
    using Cons.IH [of "c\<lparr>ac_records := (ac_records c)\<lparr>rs_next := codec_sequence c + 1\<rparr>\<rparr>"] Cons.prems u
    by (auto simp: codec_sequence_def)
  then show ?case using s by (simp add: m)
qed simp

text \<open>A sealed stream opens: while the sequence counter has room and the cipher does not fail, a sender
  seals every message, and a receiver whose codec starts in the same state opens the records in order to
  the same messages and ends in the same state as the sender.\<close>

theorem record_stream_roundtrip:
  assumes "aead_correct A" "\<And>suite key nonce aad pt. a_seal A suite key nonce aad pt \<noteq> None"
    "\<not> poisoned (ac_records c)" "unat (codec_sequence c) + length ms < 2 ^ 64"
  shows "\<exists>cts c'. seal_stream A ms c = Inr (cts, c') \<and> length cts = length ms \<and>
    open_stream A (zip cts (map snd ms)) c = Inr (map fst ms, c')"
  using seal_stream_ok [OF assms(2-4)] seal_stream_open [OF assms(1)] by blast

theorem record_stream_roundtrip_witness:
  "\<exists>cts c'. seal_stream plain_aead [([1, 2], []), ([3], [9])] (codec_new (replicate 32 5) (replicate 12 0)) = Inr (cts, c') \<and>
    open_stream plain_aead (zip cts [[], [9]]) (codec_new (replicate 32 5) (replicate 12 0)) = Inr ([[1, 2], [3]], c')"
proof -
  have "a_seal plain_aead suite key nonce aad pt \<noteq> None" for suite key nonce aad pt
    by (simp add: plain_aead_def)
  then show ?thesis
    using record_stream_roundtrip [OF plain_aead_correct, of "codec_new (replicate 32 5) (replicate 12 0)"
        "[([1, 2], []), ([3], [9])]"]
    by (simp add: codec_new_def codec_new_with_suite_def seq_default_def codec_sequence_def) blast
qed

section \<open>Lemmas: the key schedule\<close>

lemma write_all_ok:
  "sum_list (map length bss) \<le> m \<Longrightarrow>
   write_all bss (pre @ replicate m 0, length pre) =
     Some (pre @ concat bss @ replicate (m - sum_list (map length bss)) 0, length pre + sum_list (map length bss))"
proof (induction bss arbitrary: pre m)
  case (Cons bs bss)
  have "write_bytes bs (pre @ replicate m 0, length pre) = Some ((pre @ bs) @ replicate (m - length bs) 0, length (pre @ bs))"
    using Cons.prems by (simp add: write_bytes_def Let_def)
  then show ?case
    using Cons.IH [of "m - length bs" "pre @ bs"] Cons.prems by (simp add: algebra_simps)
qed simp

lemma write_all_fresh:
  assumes "sum_list (map length bss) \<le> m"
  shows "\<exists>out. write_all bss (replicate m 0, 0) = Some (out, sum_list (map length bss)) \<and>
    take (sum_list (map length bss)) out = concat bss"
  using write_all_ok [of bss m "[]"] assms by (simp add: length_concat)

lemma length_u16_len [simp]: "length (u16_len bs) = 2"
  by (simp add: u16_len_def)

lemma u16_len_inject:
  assumes "length a < 2 ^ 16" "length b < 2 ^ 16" "u16_len a = u16_len b"
  shows "length a = length b"
proof -
  have "(of_nat (length a) :: u16) = of_nat (length b)"
    by (rule be_bytes_inject [of 2]) (use assms(3) in \<open>simp_all add: u16_len_def\<close>)
  then have "take_bit 16 (length a) = take_bit 16 (length b)"
    by (simp add: word_of_nat_eq_iff)
  then show ?thesis using assms(1,2) by (simp add: take_bit_nat_eq_self)
qed

text \<open>Both branches of \<open>expand\<close> build the same bytes, and the stack buffer never overflows.\<close>

lemma expand_info_eq: "expand_info label ep th = Some (u16_len label @ label @ be_bytes 8 ep @ u16_len th @ th)"
  using write_all_fresh [of "[u16_len label, label, be_bytes 8 ep, u16_len th, th]" HKDF_INFO_STACK_LEN]
  by (auto simp: expand_info_def Let_def write_epoch_hkdf_info_def algebra_simps)

definition substream_info :: "bytes \<Rightarrow> u64 \<Rightarrow> u64 \<Rightarrow> bytes \<Rightarrow> bytes option" where
  "substream_info label ep stream_id th =
     map_option (\<lambda>(info, used). take used info)
       (write_substream_hkdf_info (replicate HKDF_INFO_STACK_LEN 0) label ep stream_id th)"

lemma substream_info_eq:
  assumes "length label + length th \<le> 108"
  shows "substream_info label ep stream_id th =
    Some (u16_len label @ label @ be_bytes 8 ep @ be_bytes 8 stream_id @ u16_len th @ th)"
  using write_all_fresh [of "[u16_len label, label, be_bytes 8 ep, be_bytes 8 stream_id, u16_len th, th]" HKDF_INFO_STACK_LEN] assms
  by (auto simp: substream_info_def write_substream_hkdf_info_def HKDF_INFO_STACK_LEN_def algebra_simps)

lemma expand_substream_eq:
  "expand_substream H hk label ep stream_id th n =
     map_option (\<lambda>info. ok_or (h_expand H hk info n) Hkdf) (substream_info label ep stream_id th)"
  by (auto simp: expand_substream_def substream_info_def option.map_comp intro!: option.map_cong0)

lemma info_split:
  assumes "u16_len a = u16_len b" "a @ r = b @ q" "length a < 2 ^ 16" "length b < 2 ^ 16"
  shows "a = b \<and> r = q"
  using assms u16_len_inject [OF assms(3,4)] by simp

lemma try_bind_simps [simp]:
  "try_bind (Some (Inl e)) k = Some (Inl e)" "try_bind (Some (Inr x)) k = k x"
  by (simp_all add: try_bind_def)

lemma length_ascii [simp]: "length (ascii s) = length s"
  by (simp add: ascii_def)

lemma h_expand_ok:
  assumes "hkdf_correct H" "n \<le> 32"
  obtains out where "h_expand H prk info n = Some out" "length out = n"
proof -
  have "n \<le> 255 * 32" using assms(2) by simp
  then show ?thesis using assms(1) that unfolding hkdf_correct_def by blast
qed

lemma expand_ok:
  assumes "hkdf_correct H" "n \<le> 32"
  obtains out where "expand H hk label ep th n = Some (Inr out)" "length out = n"
proof -
  obtain out where "h_expand H hk (u16_len label @ label @ be_bytes 8 ep @ u16_len th @ th) n = Some out" "length out = n"
    by (rule h_expand_ok [OF assms])
  then show ?thesis by (intro that) (simp_all add: expand_def expand_info_eq)
qed

lemma expand_substream_ok:
  assumes "hkdf_correct H" "n \<le> 32" "length label + length th \<le> 108"
  obtains out where "expand_substream H hk label ep sid th n = Some (Inr out)" "length out = n"
proof -
  obtain out where "h_expand H hk (u16_len label @ label @ be_bytes 8 ep @ be_bytes 8 sid @ u16_len th @ th) n = Some out"
    "length out = n"
    by (rule h_expand_ok [OF assms(1,2)])
  then show ?thesis by (intro that) (simp_all add: expand_substream_eq substream_info_eq [OF assms(3)])
qed

definition keys_wf :: "session_keys \<Rightarrow> bool" where
  "keys_wf k \<longleftrightarrow> length (client_key k) = KEY_LEN \<and> length (server_key k) = KEY_LEN \<and>
     length (client_nonce k) = NONCE_LEN \<and> length (server_nonce k) = NONCE_LEN \<and>
     length (chain_secret k) = KEY_LEN \<and> length (transcript_hash k) = KEY_LEN \<and> length (shared_secret k) = KEY_LEN"

lemma len_consts: "KEY_LEN \<le> 32" "NONCE_LEN \<le> 32"
  by (simp_all add: KEY_LEN_def NONCE_LEN_def)

lemma expand_epoch_keys_ok:
  assumes "hkdf_correct H" "length chain = KEY_LEN" "length th = KEY_LEN" "length shared = KEY_LEN"
  obtains k where "expand_epoch_keys H chain ep th shared = Some (Inr k)" "keys_wf k" "epoch k = ep"
proof -
  note o = expand_ok [OF assms(1)]
  obtain ck where 1: "expand H chain (ascii ''client appdata key'') ep th KEY_LEN = Some (Inr ck)" "length ck = KEY_LEN"
    using o len_consts(1) by blast
  obtain sk where 2: "expand H chain (ascii ''server appdata key'') ep th KEY_LEN = Some (Inr sk)" "length sk = KEY_LEN"
    using o len_consts(1) by blast
  obtain cn where 3: "expand H chain (ascii ''client appdata nonce'') ep th NONCE_LEN = Some (Inr cn)" "length cn = NONCE_LEN"
    using o len_consts(2) by blast
  obtain sn where 4: "expand H chain (ascii ''server appdata nonce'') ep th NONCE_LEN = Some (Inr sn)" "length sn = NONCE_LEN"
    using o len_consts(2) by blast
  have "\<not> length chain < 32" using assms(2) by (simp add: KEY_LEN_def)
  then show ?thesis
    by (intro that [of "\<lparr>client_key = ck, server_key = sk, client_nonce = cn, server_nonce = sn,
          chain_secret = chain, epoch = ep, transcript_hash = th, shared_secret = shared\<rparr>"])
      (simp_all add: expand_epoch_keys_def 1 2 3 4 keys_wf_def assms)
qed

lemma expand_substream_keys_ok:
  assumes "hkdf_correct H" "keys_wf k"
  obtains k' where "expand_substream_keys H k sid = Some (Inr k')" "keys_wf k'" "chain_secret k' = chain_secret k"
    "epoch k' = epoch k" "transcript_hash k' = transcript_hash k"
proof -
  let ?th = "transcript_hash k" and ?ch = "chain_secret k" and ?ep = "epoch k"
  have th: "length ?th = 32" using assms(2) by (simp add: keys_wf_def KEY_LEN_def)
  note o = expand_substream_ok [OF assms(1)]
  obtain ck where 1: "expand_substream H ?ch (ascii ''ParallaX v1 mux substream client key'') ?ep sid ?th KEY_LEN = Some (Inr ck)"
    "length ck = KEY_LEN"
    by (rule o [OF len_consts(1), of "ascii ''ParallaX v1 mux substream client key''" ?th ?ch ?ep sid]) (simp_all add: th)
  obtain sk where 2: "expand_substream H ?ch (ascii ''ParallaX v1 mux substream server key'') ?ep sid ?th KEY_LEN = Some (Inr sk)"
    "length sk = KEY_LEN"
    by (rule o [OF len_consts(1), of "ascii ''ParallaX v1 mux substream server key''" ?th ?ch ?ep sid]) (simp_all add: th)
  obtain cn where 3: "expand_substream H ?ch (ascii ''ParallaX v1 mux substream client nonce'') ?ep sid ?th NONCE_LEN = Some (Inr cn)"
    "length cn = NONCE_LEN"
    by (rule o [OF len_consts(2), of "ascii ''ParallaX v1 mux substream client nonce''" ?th ?ch ?ep sid]) (simp_all add: th)
  obtain sn where 4: "expand_substream H ?ch (ascii ''ParallaX v1 mux substream server nonce'') ?ep sid ?th NONCE_LEN = Some (Inr sn)"
    "length sn = NONCE_LEN"
    by (rule o [OF len_consts(2), of "ascii ''ParallaX v1 mux substream server nonce''" ?th ?ch ?ep sid]) (simp_all add: th)
  have "\<not> length ?ch < 32" using assms(2) by (simp add: KEY_LEN_def keys_wf_def)
  then show ?thesis
    using assms(2)
    by (intro that [of "k\<lparr>client_key := ck, server_key := sk, client_nonce := cn, server_nonce := sn\<rparr>"])
      (simp_all add: expand_substream_keys_def 1 2 3 4 keys_wf_def)
qed

text \<open>The infos of the four values of an epoch and of a substream, in the order of the fields they fill, and
  keys whose fields are the expansions of a chain secret under given infos.\<close>

definition epoch_info :: "u64 \<Rightarrow> bytes \<Rightarrow> string \<Rightarrow> bytes" where
  "epoch_info ep th label = u16_len (ascii label) @ ascii label @ be_bytes 8 ep @ u16_len th @ th"

definition epoch_labels :: "string list" where
  "epoch_labels = [''client appdata key'', ''server appdata key'', ''client appdata nonce'', ''server appdata nonce'']"

definition epoch_infos :: "u64 \<Rightarrow> bytes \<Rightarrow> bytes list" where
  "epoch_infos ep th = map (epoch_info ep th) epoch_labels"

definition stream_info :: "u64 \<Rightarrow> u64 \<Rightarrow> bytes \<Rightarrow> string \<Rightarrow> bytes" where
  "stream_info ep sid th label = u16_len (ascii label) @ ascii label @ be_bytes 8 ep @ be_bytes 8 sid @ u16_len th @ th"

definition stream_labels :: "string list" where
  "stream_labels = [''ParallaX v1 mux substream client key'', ''ParallaX v1 mux substream server key'',
     ''ParallaX v1 mux substream client nonce'', ''ParallaX v1 mux substream server nonce'']"

definition stream_infos :: "u64 \<Rightarrow> u64 \<Rightarrow> bytes \<Rightarrow> bytes list" where
  "stream_infos ep sid th = map (stream_info ep sid th) stream_labels"

definition expanded :: "hkdf \<Rightarrow> bytes \<Rightarrow> bytes list \<Rightarrow> session_keys \<Rightarrow> bool" where
  "expanded H chain infos k \<longleftrightarrow>
     map2 (h_expand H chain) infos [KEY_LEN, KEY_LEN, NONCE_LEN, NONCE_LEN] =
     map Some [client_key k, server_key k, client_nonce k, server_nonce k]"

lemma info_inject:
  assumes "length th = KEY_LEN" "length th' = KEY_LEN" "length l < 2 ^ 16" "length l' < 2 ^ 16"
  shows "epoch_info ep th l = epoch_info ep' th' l' \<Longrightarrow> ascii l = ascii l' \<and> ep = ep' \<and> th = th'"
    and "stream_info ep sid th l = stream_info ep' sid' th' l' \<Longrightarrow> ascii l = ascii l' \<and> ep = ep' \<and> sid = sid' \<and> th = th'"
    and "epoch_info ep th l = stream_info ep' sid' th' l' \<Longrightarrow> ascii l = ascii l'"
  using assms info_split [of "ascii l" "ascii l'"] by (auto simp: epoch_info_def stream_info_def)

lemma labels_facts:
  "\<forall>l\<in>set (epoch_labels @ stream_labels). length l < 2 ^ 16" "distinct (map ascii (epoch_labels @ stream_labels))"
  by (simp_all add: epoch_labels_def stream_labels_def ascii_def)

lemma infos_distinct:
  assumes "length th = KEY_LEN" "length th' = KEY_LEN"
  shows "distinct (epoch_infos ep th @ stream_infos ep' sid' th')"
proof -
  note len = labels_facts(1) [THEN bspec] and d = labels_facts(2)
  have "distinct (epoch_infos ep th)"
    using d info_inject(1) [OF assms(1,1) len len]
    by (simp add: epoch_infos_def distinct_map) (metis (no_types, lifting) Un_iff inj_onD inj_onI)
  moreover have "distinct (stream_infos ep' sid' th')"
    using d info_inject(2) [OF assms(2,2) len len]
    by (simp add: stream_infos_def distinct_map) (metis (no_types, lifting) Un_iff inj_onD inj_onI)
  moreover have "ascii l \<noteq> ascii l'" if "l \<in> set epoch_labels" "l' \<in> set stream_labels" for l l'
    using d that unfolding map_append distinct_append by auto
  then have "set (epoch_infos ep th) \<inter> set (stream_infos ep' sid' th') = {}"
    unfolding epoch_infos_def stream_infos_def using info_inject(3) [OF assms len len] by fastforce
  ultimately show ?thesis by simp
qed

lemma infos_disjoint:
  assumes "length th = KEY_LEN" "length th' = KEY_LEN"
  shows "(ep, th) \<noteq> (ep', th') \<Longrightarrow> set (epoch_infos ep th) \<inter> set (epoch_infos ep' th') = {}"
    and "(ep, sid, th) \<noteq> (ep', sid', th') \<Longrightarrow> set (stream_infos ep sid th) \<inter> set (stream_infos ep' sid' th') = {}"
proof -
  note inj = info_inject [OF assms labels_facts(1) [THEN bspec] labels_facts(1) [THEN bspec]]
  show "set (epoch_infos ep th) \<inter> set (epoch_infos ep' th') = {}" if "(ep, th) \<noteq> (ep', th')"
    unfolding epoch_infos_def using that inj(1) by fastforce
  show "set (stream_infos ep sid th) \<inter> set (stream_infos ep' sid' th') = {}" if "(ep, sid, th) \<noteq> (ep', sid', th')"
    unfolding stream_infos_def using that inj(2) by fastforce
qed

lemma try_bind_Inr: "try_bind r k = Some (Inr y) \<longleftrightarrow> (\<exists>x. r = Some (Inr x) \<and> k x = Some (Inr y))"
  by (auto simp: try_bind_def split: option.splits sum.splits)

lemma expand_Inr: "expand H hk (ascii label) ep th n = Some (Inr out) \<longleftrightarrow> h_expand H hk (epoch_info ep th label) n = Some out"
  by (auto simp: expand_def expand_info_eq epoch_info_def ok_or_def split: option.splits)

lemma expand_substream_Inr:
  assumes "length label + length th \<le> 108"
  shows "expand_substream H hk (ascii label) ep sid th n = Some (Inr out) \<longleftrightarrow> h_expand H hk (stream_info ep sid th label) n = Some out"
  using assms by (auto simp: expand_substream_eq substream_info_eq stream_info_def ok_or_def split: option.splits)

lemma expand_epoch_keys_expanded:
  "expand_epoch_keys H chain ep th shared = Some (Inr k) \<Longrightarrow>
   expanded H chain (epoch_infos ep th) k \<and> chain_secret k = chain \<and> epoch k = ep \<and> transcript_hash k = th \<and> shared_secret k = shared"
  by (auto simp: expand_epoch_keys_def try_bind_Inr expand_Inr expanded_def epoch_infos_def epoch_labels_def split: if_splits)

lemma expand_substream_keys_expanded:
  assumes "length (transcript_hash k) = KEY_LEN" "expand_substream_keys H k sid = Some (Inr k')"
  shows "expanded H (chain_secret k) (stream_infos (epoch k) sid (transcript_hash k)) k'"
  using assms
  by (auto simp: expand_substream_keys_def Let_def try_bind_Inr expand_substream_Inr expanded_def stream_infos_def
      stream_labels_def KEY_LEN_def split: if_splits)

text \<open>C24. Every key and nonce the session derives from a chain secret has an HKDF info of its own. Deriving an
  epoch's keys, and from them a multiplexed stream's keys, succeeds and fills the four fields with the expansions of
  the chain secret under the infos of the program's labels. Those infos differ between the four fields, between
  epochs and streams, and between any two epochs, streams or transcripts.\<close>

theorem derived_key_domains:
  assumes "hkdf_correct H" "length chain = KEY_LEN" "length shared = KEY_LEN" "length th = KEY_LEN" "length th' = KEY_LEN"
  shows "(\<exists>k s. expand_epoch_keys H chain ep th shared = Some (Inr k) \<and> expanded H chain (epoch_infos ep th) k \<and>
      expand_substream_keys H k sid = Some (Inr s) \<and> expanded H chain (stream_infos ep sid th) s) \<and>
    distinct (epoch_infos ep th @ stream_infos ep' sid' th') \<and>
    ((ep, th) \<noteq> (ep', th') \<longrightarrow> set (epoch_infos ep th) \<inter> set (epoch_infos ep' th') = {}) \<and>
    ((ep, sid, th) \<noteq> (ep', sid', th') \<longrightarrow> set (stream_infos ep sid th) \<inter> set (stream_infos ep' sid' th') = {})"
proof -
  obtain k where k: "expand_epoch_keys H chain ep th shared = Some (Inr k)" "keys_wf k"
    by (rule expand_epoch_keys_ok [OF assms(1,2,4,3)])
  note e = expand_epoch_keys_expanded [OF k(1)]
  obtain s where s: "expand_substream_keys H k sid = Some (Inr s)" by (rule expand_substream_keys_ok [OF assms(1) k(2)])
  have x: "expanded H chain (stream_infos ep sid th) s" using expand_substream_keys_expanded [OF _ s] e assms(4) by simp
  show ?thesis
  proof (intro conjI impI)
    show "\<exists>k s. expand_epoch_keys H chain ep th shared = Some (Inr k) \<and> expanded H chain (epoch_infos ep th) k \<and>
      expand_substream_keys H k sid = Some (Inr s) \<and> expanded H chain (stream_infos ep sid th) s"
      using k(1) e s x by blast
  qed (rule infos_distinct [OF assms(4,5)] infos_disjoint [OF assms(4,5)]; assumption)+
qed

lemma derive_keys_from_shared_ok:
  assumes "hkdf_correct H" "length shared = KEY_LEN" "length th = KEY_LEN" "shared \<noteq> replicate KEY_LEN 0" "psk \<noteq> []"
  shows "\<exists>k. derive_keys_from_shared H psk shared th = Some (Inr k) \<and> keys_wf k \<and> epoch k = 0 \<and>
    transcript_hash k = th \<and> shared_secret k = shared"
proof -
  obtain chain where 1: "initial_chain_secret H psk shared th = Some (Inr chain)" "length chain = KEY_LEN"
    using expand_ok [OF assms(1) len_consts(1)] assms(5) by (metis initial_chain_secret_def)
  obtain k where "expand_epoch_keys H chain 0 th shared = Some (Inr k)" "keys_wf k" "epoch k = 0"
    by (rule expand_epoch_keys_ok [OF assms(1) 1(2) assms(3,2)])
  then show ?thesis
    using 1 assms(4) expand_epoch_keys_expanded [of H chain 0 th shared k] by (simp add: derive_keys_from_shared_def)
qed


text \<open>Examples of the primitives: addition of the first bytes for Diffie-Hellman, and a constant expansion.\<close>

definition sum_x25519 :: x25519 where
  "sum_x25519 = \<lparr>x_public = (\<lambda>a. a), x_shared = (\<lambda>a b. replicate 32 (hd a + hd b))\<rparr>"

definition const_hkdf :: hkdf where
  "const_hkdf = \<lparr>h_extract = (\<lambda>salt ikm. replicate 32 1), h_expand = (\<lambda>prk info n. Some (replicate n 1))\<rparr>"

theorem derived_key_domains_witness:
  "(\<exists>k s. expand_epoch_keys const_hkdf (replicate 32 1) 0 (replicate 32 7) (replicate 32 5) = Some (Inr k) \<and>
      expanded const_hkdf (replicate 32 1) (epoch_infos 0 (replicate 32 7)) k \<and> expand_substream_keys const_hkdf k 3 = Some (Inr s) \<and>
      expanded const_hkdf (replicate 32 1) (stream_infos 0 3 (replicate 32 7)) s) \<and>
   set (epoch_infos 0 (replicate 32 7)) \<inter> set (epoch_infos 1 (replicate 32 7)) = {} \<and>
   set (stream_infos 0 3 (replicate 32 7)) \<inter> set (stream_infos 1 4 (replicate 32 7)) = {}"
proof -
  have "hkdf_correct const_hkdf" by (simp add: hkdf_correct_def const_hkdf_def)
  from derived_key_domains [OF this, where chain = "replicate 32 1" and shared = "replicate 32 5" and th = "replicate 32 7"
      and th' = "replicate 32 7" and ep = 0 and ep' = 1 and sid = 3 and sid' = 4]
  show ?thesis by (simp add: KEY_LEN_def)
qed


end
