(* ===== verification/Tls_Record.thy ===== *)
theory Tls_Record
  imports Prelude "HOL-Library.Sublist"
begin

text \<open>
  TLS record framing: \<open>tls/record.rs\<close>. The header parser, the writer of application data records and the
  resumable record reader.

  The socket under the reader is a parameter in the form of a schedule: each call of \<open>read\<close> consumes one
  entry, \<open>0\<close> for a read that would block (the call is then cancelled, or \<open>try_read_record_into\<close> returns
  nothing) and \<open>s > 0\<close> for a read that delivers at most \<open>s\<close> bytes. Reading from an exhausted input returns no
  bytes: the end of the stream.
\<close>

definition TLS_HEADER_LEN :: nat where "TLS_HEADER_LEN = 5"
definition TLS_LEGACY_VERSION :: bytes where "TLS_LEGACY_VERSION = [0x03, 0x03]"
definition TLS_CONTENT_HANDSHAKE :: byte where "TLS_CONTENT_HANDSHAKE = 0x16"
definition TLS_CONTENT_APPLICATION_DATA :: byte where "TLS_CONTENT_APPLICATION_DATA = 0x17"
definition TLS_CONTENT_ALERT :: byte where "TLS_CONTENT_ALERT = 0x15"
definition MAX_TLS_RECORD_PAYLOAD :: nat where "MAX_TLS_RECORD_PAYLOAD = 16 * 1024"

record tls_record_header =
  content_type :: byte
  legacy_version :: bytes
  payload_len :: nat
  total_len :: nat

datatype tls_record_error = IncompleteHeader | IncompletePayload | PayloadTooLarge nat

definition parse_header :: "bytes \<Rightarrow> tls_record_error + tls_record_header" where
  "parse_header buf =
     (if length buf < TLS_HEADER_LEN then Inl IncompleteHeader
      else
        let n = unat (from_be [buf ! 3, buf ! 4] :: u16)
        in if n > MAX_TLS_RECORD_PAYLOAD + 256 then Inl (PayloadTooLarge n)
           else Inr \<lparr>content_type = buf ! 0, legacy_version = [buf ! 1, buf ! 2], payload_len = n,
             total_len = TLS_HEADER_LEN + n\<rparr>)"

definition parse_exact :: "bytes \<Rightarrow> tls_record_error + (tls_record_header \<times> bytes)" where
  "parse_exact buf =
     and_then (parse_header buf) (\<lambda>header.
       if length buf < total_len header then Inl IncompletePayload
       else Inr (header, take (total_len header - TLS_HEADER_LEN) (drop TLS_HEADER_LEN buf)))"

definition wrap_application_data :: "bytes \<Rightarrow> tls_record_error + bytes" where
  "wrap_application_data payload =
     (if length payload > MAX_TLS_RECORD_PAYLOAD then Inl (PayloadTooLarge (length payload))
      else Inr (TLS_CONTENT_APPLICATION_DATA # TLS_LEGACY_VERSION
        @ be_bytes 2 (of_nat (length payload) :: u16) @ payload))"

definition alert_bad_record_mac :: bytes where
  "alert_bad_record_mac = [TLS_CONTENT_ALERT, 0x03, 0x03, 0x00, 0x02, 0x02, 0x14]"

definition change_cipher_spec :: bytes where
  "change_cipher_spec = [0x14, 0x03, 0x03, 0x00, 0x01, 0x01]"

section \<open>The record reader\<close>

record tls_record_reader =
  rd_header :: bytes
  rd_header_pos :: nat
  rd_record :: bytes
  rd_payload_len :: "nat option"
  rd_payload_pos :: nat

definition reader_new :: tls_record_reader where
  "reader_new = \<lparr>rd_header = replicate TLS_HEADER_LEN 0, rd_header_pos = 0, rd_record = [],
     rd_payload_len = None, rd_payload_pos = 0\<rparr>"

definition at_record_boundary :: "tls_record_reader \<Rightarrow> bool" where
  "at_record_boundary rd \<longleftrightarrow> rd_header_pos rd = 0 \<and> rd_payload_len rd = None"

text \<open>One poll of the socket for up to \<open>k\<close> bytes.\<close>

definition poll_read :: "nat \<Rightarrow> nat \<Rightarrow> bytes \<Rightarrow> (bytes \<times> bytes) option" where
  "poll_read s k inp = (if s = 0 then None else Some (take (min s k) inp, drop (min s k) inp))"

datatype read_outcome =
    RecordReady bytes
  | WouldBlock
  | HeaderEof
  | PayloadEof
  | InvalidHeader tls_record_error

text \<open>The two loops; the outcome \<open>None\<close> means that the loop ran to its end.\<close>

fun fill_header ::
  "nat list \<Rightarrow> bytes \<Rightarrow> tls_record_reader \<Rightarrow> read_outcome option \<times> tls_record_reader \<times> bytes \<times> nat list" where
  "fill_header sched inp rd =
     (if rd_header_pos rd < TLS_HEADER_LEN then
        (case sched of
           [] \<Rightarrow> (Some WouldBlock, rd, inp, [])
         | s # ss \<Rightarrow>
             (case poll_read s (TLS_HEADER_LEN - rd_header_pos rd) inp of
                None \<Rightarrow> (Some WouldBlock, rd, inp, ss)
              | Some (bs, inp') \<Rightarrow>
                  if bs = [] then (Some HeaderEof, rd, inp', ss)
                  else fill_header ss inp'
                    (rd\<lparr>rd_header := take (rd_header_pos rd) (rd_header rd) @ bs
                          @ drop (rd_header_pos rd + length bs) (rd_header rd),
                        rd_header_pos := rd_header_pos rd + length bs\<rparr>)))
      else (None, rd, inp, sched))"

fun fill_payload ::
  "nat \<Rightarrow> nat list \<Rightarrow> bytes \<Rightarrow> tls_record_reader \<Rightarrow> read_outcome option \<times> tls_record_reader \<times> bytes \<times> nat list" where
  "fill_payload plen sched inp rd =
     (if rd_payload_pos rd < plen then
        (case sched of
           [] \<Rightarrow> (Some WouldBlock, rd, inp, [])
         | s # ss \<Rightarrow>
             (case poll_read s (plen - rd_payload_pos rd) inp of
                None \<Rightarrow> (Some WouldBlock, rd, inp, ss)
              | Some (bs, inp') \<Rightarrow>
                  if bs = [] then (Some PayloadEof, rd, inp', ss)
                  else fill_payload plen ss inp'
                    (rd\<lparr>rd_record := rd_record rd @ bs, rd_payload_pos := rd_payload_pos rd + length bs\<rparr>)))
      else (None, rd, inp, sched))"

definition start_payload :: "tls_record_reader \<Rightarrow> tls_record_error + tls_record_reader" where
  "start_payload rd =
     (if rd_payload_len rd = None then
        and_then (parse_header (rd_header rd)) (\<lambda>parsed.
          Inr (rd\<lparr>rd_record := rd_header rd, rd_payload_len := Some (payload_len parsed), rd_payload_pos := 0\<rparr>))
      else Inr rd)"

definition read_record_into ::
  "nat list \<Rightarrow> bytes \<Rightarrow> tls_record_reader \<Rightarrow> read_outcome \<times> tls_record_reader \<times> bytes" where
  "read_record_into sched inp rd =
     (case fill_header sched inp rd of
        (Some r, rd1, inp1, _) \<Rightarrow> (r, rd1, inp1)
      | (None, rd1, inp1, ss1) \<Rightarrow>
          (case start_payload rd1 of
             Inl e \<Rightarrow> (InvalidHeader e, rd1, inp1)
           | Inr rd2 \<Rightarrow>
               (case fill_payload (the (rd_payload_len rd2)) ss1 inp1 rd2 of
                  (Some r, rd3, inp3, _) \<Rightarrow> (r, rd3, inp3)
                | (None, rd3, inp3, _) \<Rightarrow> (RecordReady (rd_record rd3), reader_new, inp3))))"

text \<open>Successive calls, each with its own schedule; a call that does not give a record is followed by the
  next one on the state it left.\<close>

fun read_calls :: "nat list list \<Rightarrow> bytes \<Rightarrow> tls_record_reader \<Rightarrow> bytes list \<times> tls_record_reader \<times> bytes" where
  "read_calls [] inp rd = ([], rd, inp)"
| "read_calls (sched # scheds) inp rd =
     (case read_record_into sched inp rd of
        (RecordReady r, rd', inp') \<Rightarrow> (case read_calls scheds inp' rd' of (rs, rest) \<Rightarrow> (r # rs, rest))
      | (_, rd', inp') \<Rightarrow> read_calls scheds inp' rd')"

section \<open>Specification\<close>

text \<open>The complete records at the front of a byte stream.\<close>

function split_records :: "bytes \<Rightarrow> bytes list" where
  "split_records inp =
     (case parse_exact inp of
        Inl _ \<Rightarrow> []
      | Inr (header, _) \<Rightarrow> take (total_len header) inp # split_records (drop (total_len header) inp))"
  by pat_completeness auto

lemma parse_header_Inr:
  "parse_header buf = Inr h \<Longrightarrow>
     TLS_HEADER_LEN \<le> length buf \<and> total_len h = TLS_HEADER_LEN + payload_len h \<and>
     payload_len h \<le> MAX_TLS_RECORD_PAYLOAD + 256"
  by (auto simp: parse_header_def Let_def split: if_splits)

lemma parse_exact_Inr:
  "parse_exact buf = Inr (h, p) \<longleftrightarrow> parse_header buf = Inr h \<and> total_len h \<le> length buf \<and>
     p = take (payload_len h) (drop TLS_HEADER_LEN buf)"
  using parse_header_Inr [of buf h] by (cases "parse_header buf") (auto simp: parse_exact_def)

termination split_records
  by (relation "measure length")
    (auto simp: parse_exact_Inr TLS_HEADER_LEN_def dest!: parse_header_Inr)

declare split_records.simps [simp del] fill_header.simps [simp del] fill_payload.simps [simp del]

section \<open>Lemmas: headers\<close>

lemma parse_header_append [simp]:
  "length a = TLS_HEADER_LEN \<Longrightarrow> parse_header (a @ b) = parse_header a"
  by (simp add: parse_header_def TLS_HEADER_LEN_def nth_append Let_def)

lemma wrap_parse:
  assumes "wrap_application_data payload = Inr rec"
  shows "parse_exact (rec @ rest) = Inr (\<lparr>content_type = TLS_CONTENT_APPLICATION_DATA,
    legacy_version = TLS_LEGACY_VERSION, payload_len = length payload, total_len = TLS_HEADER_LEN + length payload\<rparr>, payload)"
    and "length rec = TLS_HEADER_LEN + length payload"
proof -
  have l: "length payload \<le> 16384" and r: "rec = [0x17, 3, 3] @ be_bytes 2 (of_nat (length payload) :: u16) @ payload"
    using assms by (auto simp: wrap_application_data_def MAX_TLS_RECORD_PAYLOAD_def TLS_LEGACY_VERSION_def
        TLS_CONTENT_APPLICATION_DATA_def split: if_splits)
  have u: "unat (of_nat (length payload) :: u16) = length payload"
    using l by (simp add: unsigned_of_nat take_bit_nat_eq_self)
  obtain x y where xy: "be_bytes 2 (of_nat (length payload) :: u16) = [x, y]"
    by (simp add: be_bytes_numeral)
  have "from_be [x, y] = (of_nat (length payload) :: u16)"
    unfolding xy [symmetric] by (rule from_be_be_bytes_full) simp
  then show "parse_exact (rec @ rest) = Inr (\<lparr>content_type = TLS_CONTENT_APPLICATION_DATA,
    legacy_version = TLS_LEGACY_VERSION, payload_len = length payload, total_len = TLS_HEADER_LEN + length payload\<rparr>, payload)"
    using l u unfolding r xy
    by (simp add: parse_exact_Inr parse_header_def Let_def TLS_HEADER_LEN_def MAX_TLS_RECORD_PAYLOAD_def
        TLS_LEGACY_VERSION_def TLS_CONTENT_APPLICATION_DATA_def)
  show "length rec = TLS_HEADER_LEN + length payload" by (simp add: r TLS_HEADER_LEN_def)
qed

section \<open>Lemmas: the reader\<close>

text \<open>What the reader has consumed of the record under way, and its invariant.\<close>

definition partial :: "tls_record_reader \<Rightarrow> bytes" where
  "partial rd = (if rd_payload_len rd = None then take (rd_header_pos rd) (rd_header rd) else rd_record rd)"

definition header_inv :: "tls_record_reader \<Rightarrow> bool" where
  "header_inv rd \<longleftrightarrow> rd_payload_len rd = None \<and> length (rd_header rd) = TLS_HEADER_LEN \<and>
     rd_header_pos rd \<le> TLS_HEADER_LEN"

definition payload_inv :: "nat \<Rightarrow> tls_record_reader \<Rightarrow> bool" where
  "payload_inv n rd \<longleftrightarrow> rd_payload_len rd = Some n \<and> rd_header_pos rd = TLS_HEADER_LEN \<and>
     length (rd_header rd) = TLS_HEADER_LEN \<and>
     (\<exists>h. parse_header (rd_header rd) = Inr h \<and> payload_len h = n) \<and>
     take TLS_HEADER_LEN (rd_record rd) = rd_header rd \<and>
     length (rd_record rd) = TLS_HEADER_LEN + rd_payload_pos rd \<and> rd_payload_pos rd \<le> n"

definition reader_inv :: "tls_record_reader \<Rightarrow> bool" where
  "reader_inv rd \<longleftrightarrow> header_inv rd \<or> (\<exists>n. payload_inv n rd)"

lemma reader_new_inv [simp]: "header_inv reader_new" "reader_inv reader_new" "partial reader_new = []"
  by (simp_all add: reader_inv_def header_inv_def reader_new_def partial_def)

lemma poll_read_Some:
  assumes "poll_read s k inp = Some (bs, inp')"
  shows "inp = bs @ inp'" "length bs \<le> k" "bs = [] \<Longrightarrow> 0 < k \<Longrightarrow> inp = []" "0 < s"
  using assms by (auto simp: poll_read_def split: if_splits)

text \<open>The loops keep the bytes: what they took from the input is in the partial record. With a schedule of
  at least as many positive entries as bytes, plus one to see the end, they do not block.\<close>

definition ready_sched :: "nat list \<Rightarrow> bytes \<Rightarrow> bool" where
  "ready_sched sched inp \<longleftrightarrow> (\<forall>s\<in>set sched. 0 < s) \<and> length inp < length sched"

lemma fill_header_correct:
  assumes "header_inv rd" "fill_header sched inp rd = (r, rd', inp', ss)"
  shows "header_inv rd' \<and> partial rd @ inp = partial rd' @ inp' \<and>
    (r = None \<longrightarrow> rd_header_pos rd' = TLS_HEADER_LEN \<and> (ready_sched sched inp \<longrightarrow> ready_sched ss inp')) \<and>
    (r \<noteq> None \<longrightarrow> r = Some WouldBlock \<and> \<not> ready_sched sched inp \<or>
       r = Some HeaderEof \<and> inp' = [] \<and> rd_header_pos rd' < TLS_HEADER_LEN)"
  using assms
proof (induction sched arbitrary: inp rd)
  case Nil
  then show ?case
    by (auto simp: fill_header.simps [of "[]"] header_inv_def ready_sched_def split: if_splits)
next
  case (Cons s sched)
  show ?case
  proof (cases "rd_header_pos rd < TLS_HEADER_LEN")
    case False
    then show ?thesis using Cons.prems by (auto simp: fill_header.simps [of "s # sched"] header_inv_def)
  next
    case True
    show ?thesis
    proof (cases "poll_read s (TLS_HEADER_LEN - rd_header_pos rd) inp")
      case None
      then show ?thesis
        using Cons.prems True by (auto simp: fill_header.simps [of "s # sched"] poll_read_def ready_sched_def split: if_splits)
    next
      case (Some q)
      obtain bs inp1 where q: "q = (bs, inp1)" by (cases q)
      note P = poll_read_Some [OF Some [unfolded q]]
      show ?thesis
      proof (cases "bs = []")
        case True
        then show ?thesis
          using Cons.prems \<open>rd_header_pos rd < TLS_HEADER_LEN\<close> P Some q
          by (auto simp: fill_header.simps [of "s # sched"])
      next
        case False
        define rd1 where "rd1 = rd\<lparr>rd_header := take (rd_header_pos rd) (rd_header rd) @ bs
            @ drop (rd_header_pos rd + length bs) (rd_header rd), rd_header_pos := rd_header_pos rd + length bs\<rparr>"
        have f: "fill_header sched inp1 rd1 = (r, rd', inp', ss)"
          using Cons.prems(2) True Some q False by (simp add: fill_header.simps [of "s # sched"] rd1_def)
        have i: "header_inv rd1" "partial rd1 = partial rd @ bs"
          using Cons.prems(1) P(2) True by (auto simp: header_inv_def rd1_def partial_def)
        have "ready_sched (s # sched) inp \<longrightarrow> ready_sched sched inp1"
          using P(1) False by (cases bs) (auto simp: ready_sched_def)
        moreover have "partial rd @ inp = partial rd1 @ inp1" using i(2) P(1) by simp
        ultimately show ?thesis using Cons.IH [OF i(1) f] by auto
      qed
    qed
  qed
qed

lemma fill_payload_correct:
  assumes "payload_inv n rd" "fill_payload n sched inp rd = (r, rd', inp', ss)"
  shows "payload_inv n rd' \<and> rd_header rd' = rd_header rd \<and> partial rd @ inp = partial rd' @ inp' \<and>
    (r = None \<longrightarrow> rd_payload_pos rd' = n) \<and>
    (r \<noteq> None \<longrightarrow> r = Some WouldBlock \<and> \<not> ready_sched sched inp \<or>
       r = Some PayloadEof \<and> inp' = [] \<and> rd_payload_pos rd' < n)"
  using assms
proof (induction sched arbitrary: inp rd)
  case Nil
  then show ?case
    by (auto simp: fill_payload.simps [of n "[]"] payload_inv_def ready_sched_def split: if_splits)
next
  case (Cons s sched)
  show ?case
  proof (cases "rd_payload_pos rd < n")
    case False
    then show ?thesis using Cons.prems by (auto simp: fill_payload.simps [of n "s # sched"] payload_inv_def)
  next
    case True
    show ?thesis
    proof (cases "poll_read s (n - rd_payload_pos rd) inp")
      case None
      then show ?thesis
        using Cons.prems True by (auto simp: fill_payload.simps [of n "s # sched"] poll_read_def ready_sched_def split: if_splits)
    next
      case (Some q)
      obtain bs inp1 where q: "q = (bs, inp1)" by (cases q)
      note P = poll_read_Some [OF Some [unfolded q]]
      show ?thesis
      proof (cases "bs = []")
        case True
        then show ?thesis
          using Cons.prems \<open>rd_payload_pos rd < n\<close> P Some q
          by (auto simp: fill_payload.simps [of n "s # sched"])
      next
        case False
        define rd1 where "rd1 = rd\<lparr>rd_record := rd_record rd @ bs, rd_payload_pos := rd_payload_pos rd + length bs\<rparr>"
        have f: "fill_payload n sched inp1 rd1 = (r, rd', inp', ss)"
          using Cons.prems(2) True Some q False by (simp add: fill_payload.simps [of n "s # sched"] rd1_def)
        have i: "payload_inv n rd1" "partial rd1 = partial rd @ bs" "rd_header rd1 = rd_header rd"
          using Cons.prems(1) P(2) True by (auto simp: payload_inv_def rd1_def partial_def)
        have "ready_sched (s # sched) inp \<longrightarrow> ready_sched sched inp1"
          using P(1) False by (cases bs) (auto simp: ready_sched_def)
        moreover have "partial rd @ inp = partial rd1 @ inp1" using i(2) P(1) by simp
        ultimately show ?thesis using Cons.IH [OF i(1) f] i(3) by auto
      qed
    qed
  qed
qed

lemma payload_inv_header:
  assumes "payload_inv n rd"
  obtains h where "parse_header (rd_record rd @ rest) = Inr h" "payload_len h = n" "total_len h = TLS_HEADER_LEN + n"
proof -
  obtain h where h: "parse_header (rd_header rd) = Inr h" "payload_len h = n" using assms by (auto simp: payload_inv_def)
  have "rd_record rd @ rest = rd_header rd @ (drop TLS_HEADER_LEN (rd_record rd) @ rest)"
    using assms by (metis append_assoc append_take_drop_id payload_inv_def)
  moreover have "parse_header (rd_header rd @ (drop TLS_HEADER_LEN (rd_record rd) @ rest)) = Inr h"
    by (subst parse_header_append) (use h(1) assms in \<open>simp_all add: payload_inv_def\<close>)
  ultimately have "parse_header (rd_record rd @ rest) = Inr h" by argo
  then show ?thesis using that h parse_header_Inr [OF h(1)] by simp
qed

text \<open>The contract of one call: it returns the first record of the bytes not yet delivered, or keeps them
  all; it blocks only when the schedule does, and fails only when no complete record remains.\<close>

definition call_ok :: "nat list \<Rightarrow> bytes \<Rightarrow> tls_record_reader \<Rightarrow> read_outcome \<Rightarrow> tls_record_reader \<Rightarrow> bytes \<Rightarrow> bool" where
  "call_ok sched inp rd r rd' inp' \<longleftrightarrow> reader_inv rd' \<and>
     (case r of
        RecordReady rec \<Rightarrow> rd' = reader_new \<and>
          (\<exists>h p. parse_exact (partial rd @ inp) = Inr (h, p) \<and> rec = take (total_len h) (partial rd @ inp) \<and>
             inp' = drop (total_len h) (partial rd @ inp))
      | WouldBlock \<Rightarrow> partial rd @ inp = partial rd' @ inp' \<and> \<not> ready_sched sched inp
      | _ \<Rightarrow> partial rd @ inp = partial rd' @ inp' \<and> (\<exists>e. parse_exact (partial rd @ inp) = Inl e))"

lemma finish_payload:
  assumes "payload_inv n rd" "fill_payload n sched inp rd = (r, rd', inp', ss)"
  shows "call_ok sched inp rd (case r of None \<Rightarrow> RecordReady (rd_record rd') | Some x \<Rightarrow> x)
    (if r = None then reader_new else rd') inp'"
proof -
  note F = fill_payload_correct [OF assms]
  have pr: "partial rd' = rd_record rd'" using F by (auto simp: partial_def payload_inv_def)
  obtain h where h: "parse_header (rd_record rd' @ inp') = Inr h" "payload_len h = n" "total_len h = TLS_HEADER_LEN + n"
    using F payload_inv_header by metis
  have len: "length (rd_record rd') = TLS_HEADER_LEN + rd_payload_pos rd'" using F by (simp add: payload_inv_def)
  show ?thesis
  proof (cases "r = None")
    case True
    then show ?thesis
      using F h len pr by (auto simp: call_ok_def parse_exact_Inr)
  next
    case False
    then show ?thesis
      using F h len pr by (auto simp: call_ok_def reader_inv_def parse_exact_def)
  qed
qed

lemma call_ok_shift:
  assumes "call_ok ss inp1 rd1 r rd' inp'" "partial rd @ inp = partial rd1 @ inp1"
    "ready_sched sched inp \<longrightarrow> ready_sched ss inp1"
  shows "call_ok sched inp rd r rd' inp'"
  using assms by (auto simp: call_ok_def split: read_outcome.splits)

lemma start_payload_inv:
  assumes "header_inv rd" "rd_header_pos rd = TLS_HEADER_LEN"
  shows "start_payload rd = Inr rd' \<Longrightarrow> \<exists>n. payload_inv n rd' \<and> partial rd' = partial rd"
    and "start_payload rd = Inl e \<Longrightarrow> parse_header (rd_header rd) = Inl e \<and> partial rd = rd_header rd"
  using assms
  by (auto simp: header_inv_def start_payload_def and_then_eq_Inr and_then_eq_Inl payload_inv_def partial_def)

lemma read_record_into_ok:
  assumes "reader_inv rd" "read_record_into sched inp rd = (r, rd', inp')"
  shows "call_ok sched inp rd r rd' inp'"
proof (cases "\<exists>n. payload_inv n rd")
  case True
  then obtain n where n: "payload_inv n rd" by blast
  obtain q rd3 inp3 ss where f: "fill_payload n sched inp rd = (q, rd3, inp3, ss)"
    by (cases "fill_payload n sched inp rd") auto
  have "fill_header sched inp rd = (None, rd, inp, sched)" "start_payload rd = Inr rd" "rd_payload_len rd = Some n"
    using n by (auto simp: payload_inv_def fill_header.simps [of sched] start_payload_def)
  then show ?thesis
    using finish_payload [OF n f] assms(2) f by (cases q) (auto simp: read_record_into_def)
next
  case False
  then have hi: "header_inv rd" using assms(1) by (auto simp: reader_inv_def)
  obtain q rd1 inp1 ss where f: "fill_header sched inp rd = (q, rd1, inp1, ss)"
    by (cases "fill_header sched inp rd") auto
  note F = fill_header_correct [OF hi f]
  show ?thesis
  proof (cases q)
    case (Some x)
    then show ?thesis
      using F f assms(2)
      by (auto simp: read_record_into_def call_ok_def reader_inv_def parse_exact_def parse_header_def header_inv_def partial_def)
  next
    case None
    note S = start_payload_inv [of rd1]
    show ?thesis
    proof (cases "start_payload rd1")
      case (Inl e)
      then have "parse_exact (partial rd1 @ inp1) = Inl e"
        using S(2) [of e] F None by (auto simp: parse_exact_def header_inv_def)
      then show ?thesis
        using F f assms(2) None Inl by (auto simp: read_record_into_def call_ok_def reader_inv_def)
    next
      case (Inr rd2)
      then obtain n where n: "payload_inv n rd2" "partial rd2 = partial rd1" using S(1) F None by blast
      obtain q3 rd3 inp3 ss3 where g: "fill_payload n ss inp1 rd2 = (q3, rd3, inp3, ss3)"
        by (cases "fill_payload n ss inp1 rd2") auto
      have pl: "rd_payload_len rd2 = Some n" using n by (simp add: payload_inv_def)
      have "call_ok ss inp1 rd2 r rd' inp'"
        using finish_payload [OF n(1) g] assms(2) f None Inr g pl
        by (cases q3) (auto simp: read_record_into_def)
      then show ?thesis by (rule call_ok_shift) (use F None n in auto)
    qed
  qed
qed

lemma split_records_Inl: "parse_exact inp = Inl e \<Longrightarrow> split_records inp = []"
  by (simp add: split_records.simps [of inp])

lemma split_records_Inr:
  "parse_exact inp = Inr (h, p) \<Longrightarrow> split_records inp = take (total_len h) inp # split_records (drop (total_len h) inp)"
  by (simp add: split_records.simps [of inp])

lemma read_calls_refines:
  assumes "reader_inv rd" "read_calls scheds inp rd = (rs, rd', inp')"
  shows "reader_inv rd' \<and> concat rs @ partial rd' @ inp' = partial rd @ inp \<and>
    split_records (partial rd @ inp) = rs @ split_records (partial rd' @ inp')"
  using assms
proof (induction scheds arbitrary: rd inp rs)
  case (Cons sched scheds)
  obtain r rd1 inp1 where c: "read_record_into sched inp rd = (r, rd1, inp1)"
    by (cases "read_record_into sched inp rd") auto
  note K = read_record_into_ok [OF Cons.prems(1) c, unfolded call_ok_def]
  show ?case
  proof (cases "\<exists>rec. r = RecordReady rec")
    case True
    then obtain rec h p where r: "r = RecordReady rec" "rd1 = reader_new"
      "parse_exact (partial rd @ inp) = Inr (h, p)" "rec = take (total_len h) (partial rd @ inp)"
      "inp1 = drop (total_len h) (partial rd @ inp)"
      using K by auto
    obtain rs' where rs: "read_calls scheds inp1 rd1 = (rs', rd', inp')" "rs = rec # rs'"
      using Cons.prems(2) c r(1) by (auto split: prod.splits)
    have IH: "reader_inv rd'" "concat rs' @ partial rd' @ inp' = inp1" "split_records inp1 = rs' @ split_records (partial rd' @ inp')"
      using Cons.IH [OF _ rs(1)] r(2) by simp_all
    have "rec @ inp1 = partial rd @ inp" unfolding r(4,5) by (rule append_take_drop_id)
    moreover have "split_records (partial rd @ inp) = rec # split_records inp1"
      unfolding r(4,5) by (rule split_records_Inr [OF r(3)])
    ultimately show ?thesis using IH rs(2) by simp
  next
    case False
    then have "reader_inv rd1" "partial rd @ inp = partial rd1 @ inp1" "read_calls scheds inp1 rd1 = (rs, rd', inp')"
      using K Cons.prems(2) c by (auto split: read_outcome.splits)
    then show ?thesis using Cons.IH [of rd1 inp1] by simp
  qed
qed simp

lemma boundary_partial: "reader_inv rd \<Longrightarrow> at_record_boundary rd \<longleftrightarrow> partial rd = []"
  by (auto simp: reader_inv_def at_record_boundary_def partial_def header_inv_def payload_inv_def TLS_HEADER_LEN_def)

text \<open>C6. The record reader loses and reorders nothing: however the socket splits the bytes and wherever reads
  are cancelled, the records returned so far, followed by the complete records of the bytes not yet
  returned, are the records of the whole input; the bytes add up, and the reader is at a record boundary
  exactly when it holds no byte of an unfinished record.\<close>

theorem record_reader_refines_split:
  assumes "read_calls scheds inp reader_new = (rs, rd', inp')"
  shows "split_records inp = rs @ split_records (partial rd' @ inp') \<and>
    concat rs @ partial rd' @ inp' = inp \<and> (at_record_boundary rd' \<longleftrightarrow> partial rd' = [])"
  using read_calls_refines [OF _ assms] boundary_partial [of rd'] by simp

theorem record_reader_refines_split_witness:
  "\<exists>rd'. read_calls [[3, 0], [9, 1], [1]] [0x17, 3, 3, 0, 1, 42, 0x17] reader_new = ([[0x17, 3, 3, 0, 1, 42]], rd', []) \<and>
    split_records [0x17, 3, 3, 0, 1, 42, 0x17] = [[0x17, 3, 3, 0, 1, 42]] @ split_records (partial rd' @ [])"
proof -
  let ?inp = "[0x17, 3, 3, 0, 1, 42, 0x17] :: bytes"
  have "fst (read_calls [[3, 0], [9, 1], [1]] ?inp reader_new) = [[0x17, 3, 3, 0, 1, 42]] \<and>
      snd (snd (read_calls [[3, 0], [9, 1], [1]] ?inp reader_new)) = []"
    by code_simp
  then obtain rd' where "read_calls [[3, 0], [9, 1], [1]] ?inp reader_new = ([[0x17, 3, 3, 0, 1, 42]], rd', [])"
    by (cases "read_calls [[3, 0], [9, 1], [1]] ?inp reader_new") auto
  then show ?thesis using record_reader_refines_split by blast
qed

lemma read_calls_live:
  assumes "reader_inv rd" "\<And>sched. sched \<in> set scheds \<Longrightarrow> ready_sched sched (partial rd @ inp)"
  shows "fst (read_calls scheds inp rd) = take (length scheds) (split_records (partial rd @ inp))"
  using assms
proof (induction scheds arbitrary: rd inp)
  case (Cons sched scheds)
  obtain r rd1 inp1 where c: "read_record_into sched inp rd = (r, rd1, inp1)"
    by (cases "read_record_into sched inp rd") auto
  note K = read_record_into_ok [OF Cons.prems(1) c, unfolded call_ok_def]
  have rdy: "ready_sched sched inp" using Cons.prems(2) [of sched] by (simp add: ready_sched_def)
  show ?case
  proof (cases "\<exists>rec. r = RecordReady rec")
    case True
    then obtain rec h p where r: "r = RecordReady rec" "rd1 = reader_new"
      "parse_exact (partial rd @ inp) = Inr (h, p)" "rec = take (total_len h) (partial rd @ inp)"
      "inp1 = drop (total_len h) (partial rd @ inp)"
      using K by auto
    have "ready_sched sched' (partial rd1 @ inp1)" if "sched' \<in> set scheds" for sched'
      using Cons.prems(2) [of sched'] that r(2,5) by (auto simp: ready_sched_def)
    then have "fst (read_calls scheds inp1 rd1) = take (length scheds) (split_records inp1)"
      using Cons.IH [of rd1 inp1] r(2) by simp
    moreover have "fst (read_calls (sched # scheds) inp rd) = rec # fst (read_calls scheds inp1 rd1)"
      using c r(1) by (simp split: prod.splits)
    ultimately show ?thesis using split_records_Inr [OF r(3)] r(4,5) by simp
  next
    case False
    then have e: "reader_inv rd1" "partial rd @ inp = partial rd1 @ inp1" "\<exists>e. parse_exact (partial rd @ inp) = Inl e"
      "fst (read_calls (sched # scheds) inp rd) = fst (read_calls scheds inp1 rd1)"
      using K c rdy by (auto split: read_outcome.splits)
    have "fst (read_calls scheds inp1 rd1) = take (length scheds) (split_records (partial rd1 @ inp1))"
      using Cons.IH [OF e(1)] Cons.prems(2) e(2) by simp
    then show ?thesis using e split_records_Inl by auto
  qed
qed simp

text \<open>C26. The reader makes progress: if every call may read until the input ends, then each call returns the
  next complete record as long as there is one.\<close>

theorem record_reader_live:
  assumes "\<forall>sched\<in>set scheds. (\<forall>s\<in>set sched. 0 < s) \<and> length inp < length sched"
  shows "fst (read_calls scheds inp reader_new) = take (length scheds) (split_records inp)"
  using read_calls_live [of reader_new scheds inp] assms by (simp add: ready_sched_def)

theorem record_reader_live_witness:
  "fst (read_calls [replicate 8 1] [0x17, 3, 3, 0, 1, 42] reader_new) = take 1 (split_records [0x17, 3, 3, 0, 1, 42])"
  using record_reader_live [of "[replicate 8 1]" "[0x17, 3, 3, 0, 1, 42]"] by simp

text \<open>An application data record parses back, whatever follows it, and the split of a stream of wrapped
  payloads is the list of records; a payload above 16 KiB is refused.\<close>

theorem wrap_application_data_roundtrip:
  "(case wrap_application_data payload of
      Inl e \<Rightarrow> e = PayloadTooLarge (length payload) \<and> MAX_TLS_RECORD_PAYLOAD < length payload
    | Inr rec \<Rightarrow> split_records (rec @ rest) = rec # split_records rest \<and>
        map_sum id snd (parse_exact (rec @ rest)) = Inr payload)"
proof (cases "wrap_application_data payload")
  case (Inl e)
  then show ?thesis by (auto simp: wrap_application_data_def split: if_splits)
next
  case (Inr rec)
  note W = wrap_parse(1) [OF Inr, of rest] wrap_parse(2) [OF Inr]
  show ?thesis using Inr W split_records_Inr [OF W(1)] by simp
qed

end
