(* ===== verification/Tls_Hello.thy ===== *)
theory Tls_Hello
  imports Tls_Record Utf8
begin

text \<open>
  The hello parsers: \<open>tls/client_hello.rs\<close> and \<open>tls/server_hello.rs\<close>. Both files have the same cursor over a
  byte slice; its operations are modelled once, with the truncation error and the panic of an index out of
  range as \<open>cursor_fail\<close>, and each parser maps them to its own error type.
\<close>

unbundle bit_operations_syntax

section \<open>The cursor\<close>

record cursor =
  c_data :: bytes
  c_pos :: nat
  c_end :: nat

datatype cursor_fail = CTruncated | CPanic

definition cursor_new :: "bytes \<Rightarrow> nat \<Rightarrow> nat \<Rightarrow> cursor" where
  "cursor_new data pos en = \<lparr>c_data = data, c_pos = pos, c_end = en\<rparr>"

definition set_end :: "nat \<Rightarrow> cursor \<Rightarrow> cursor" where
  "set_end en c = c\<lparr>c_end := en\<rparr>"

definition c_remaining :: "cursor \<Rightarrow> nat" where
  "c_remaining c = c_end c - c_pos c"

text \<open>\<open>data[i]\<close> and \<open>data[a..b]\<close> panic outside the slice.\<close>

definition index :: "bytes \<Rightarrow> nat \<Rightarrow> cursor_fail + byte" where
  "index data i = ok_or (get_at data i) CPanic"

definition c_u8 :: "cursor \<Rightarrow> cursor_fail + (byte \<times> cursor)" where
  "c_u8 c =
     (if c_remaining c < 1 then Inl CTruncated
      else and_then (index (c_data c) (c_pos c)) (\<lambda>v. Inr (v, c\<lparr>c_pos := c_pos c + 1\<rparr>)))"

definition c_u16 :: "cursor \<Rightarrow> cursor_fail + (u16 \<times> cursor)" where
  "c_u16 c =
     (if c_remaining c < 2 then Inl CTruncated
      else
        and_then (index (c_data c) (c_pos c)) (\<lambda>a.
        and_then (index (c_data c) (c_pos c + 1)) (\<lambda>b.
        Inr (from_be [a, b], c\<lparr>c_pos := c_pos c + 2\<rparr>))))"

definition c_u24 :: "cursor \<Rightarrow> cursor_fail + (u32 \<times> cursor)" where
  "c_u24 c =
     (if c_remaining c < 3 then Inl CTruncated
      else
        and_then (index (c_data c) (c_pos c)) (\<lambda>a.
        and_then (index (c_data c) (c_pos c + 1)) (\<lambda>b.
        and_then (index (c_data c) (c_pos c + 2)) (\<lambda>d.
        Inr (push_bit 16 (ucast a) OR push_bit 8 (ucast b) OR ucast d, c\<lparr>c_pos := c_pos c + 3\<rparr>)))))"

definition c_bytes :: "nat \<Rightarrow> cursor \<Rightarrow> cursor_fail + (bytes \<times> cursor)" where
  "c_bytes n c =
     (if c_remaining c < n then Inl CTruncated
      else and_then (ok_or (get_range (c_data c) (c_pos c) (c_pos c + n)) CPanic) (\<lambda>bs.
        Inr (bs, c\<lparr>c_pos := c_pos c + n\<rparr>)))"

definition c_bytes_vec_u16 :: "cursor \<Rightarrow> cursor_fail + (bytes \<times> cursor)" where
  "c_bytes_vec_u16 c = and_then (c_u16 c) (\<lambda>(n, c). c_bytes (unat n) c)"

definition c_skip :: "nat \<Rightarrow> cursor \<Rightarrow> cursor_fail + cursor" where
  "c_skip n c = and_then (c_bytes n c) (\<lambda>(_, c). Inr c)"

definition c_skip_vec_u8 :: "cursor \<Rightarrow> cursor_fail + cursor" where
  "c_skip_vec_u8 c = and_then (c_u8 c) (\<lambda>(n, c). c_skip (unat n) c)"

definition c_skip_vec_u16 :: "cursor \<Rightarrow> cursor_fail + cursor" where
  "c_skip_vec_u16 c = and_then (c_u16 c) (\<lambda>(n, c). c_skip (unat n) c)"

text \<open>Every successful read moves the position forward by what it read and stays within the end.\<close>

lemma c_u8_adv: "c_u8 c = Inr (v, c') \<Longrightarrow> c' = c\<lparr>c_pos := c_pos c + 1\<rparr> \<and> c_pos c < c_end c"
  by (auto simp: c_u8_def and_then_eq_Inr c_remaining_def split: if_splits)

lemma c_u16_adv: "c_u16 c = Inr (v, c') \<Longrightarrow> c' = c\<lparr>c_pos := c_pos c + 2\<rparr> \<and> c_pos c + 2 \<le> c_end c"
  by (auto simp: c_u16_def and_then_eq_Inr c_remaining_def split: if_splits)

lemma c_bytes_adv:
  "c_bytes n c = Inr (v, c') \<Longrightarrow> c' = c\<lparr>c_pos := c_pos c + n\<rparr> \<and> length v = n \<and> (n = 0 \<or> c_pos c + n \<le> c_end c)"
  by (auto simp: c_bytes_def and_then_eq_Inr c_remaining_def get_range_def split: if_splits)

lemma c_vec_adv:
  "c_bytes_vec_u16 c = Inr (v, c') \<Longrightarrow> c' = c\<lparr>c_pos := c_pos c + 2 + length v\<rparr> \<and> c_pos c + 2 + length v \<le> c_end c"
  by (auto simp: c_bytes_vec_u16_def and_then_eq_Inr dest!: c_u16_adv c_bytes_adv split: prod.splits)

section \<open>ClientHello\<close>

definition HANDSHAKE_CLIENT_HELLO :: byte where "HANDSHAKE_CLIENT_HELLO = 0x01"
definition EXT_SERVER_NAME :: u16 where "EXT_SERVER_NAME = 0x0000"
definition EXT_SUPPORTED_VERSIONS :: u16 where "EXT_SUPPORTED_VERSIONS = 0x002b"
definition EXT_KEY_SHARE :: u16 where "EXT_KEY_SHARE = 0x0033"
definition TLS13_VERSION :: u16 where "TLS13_VERSION = 0x0304"
definition NAMED_GROUP_X25519 :: u16 where "NAMED_GROUP_X25519 = 0x001d"

record client_hello =
  record_len :: nat
  client_random :: bytes
  session_id_range :: "nat \<times> nat"
  sni :: "bytes option"
  tls13_supported :: bool
  x25519_key_share :: "bytes option"

datatype client_hello_error =
    ChRecord tls_record_error | NotHandshakeRecord | NotClientHello | ChTruncated | ChInvalidLength | InvalidSni | ChPanic

fun ch_fail :: "cursor_fail \<Rightarrow> client_hello_error" where
  "ch_fail CTruncated = ChTruncated"
| "ch_fail CPanic = ChPanic"

text \<open>Short names for reads that give the parser's error.\<close>

abbreviation ch :: "cursor_fail + 'a \<Rightarrow> client_hello_error + 'a" where
  "ch r \<equiv> map_err ch_fail r"

function parse_sni_loop :: "cursor \<Rightarrow> client_hello_error + bytes option" where
  "parse_sni_loop c =
     (if c_remaining c > 0 then
        (case c_u8 c of
           Inl e \<Rightarrow> Inl (ch_fail e)
         | Inr (name_type, c1) \<Rightarrow>
             (case c_bytes_vec_u16 c1 of
                Inl e \<Rightarrow> Inl (ch_fail e)
              | Inr (name, c2) \<Rightarrow>
                  if name_type = 0 then (if utf8_valid name then Inr (Some name) else Inl InvalidSni)
                  else parse_sni_loop c2))
      else Inr None)"
  by pat_completeness auto
termination
  by (relation "measure (\<lambda>c. c_end c - c_pos c)") (auto simp: c_remaining_def dest!: c_u8_adv c_vec_adv)

definition parse_sni :: "bytes \<Rightarrow> client_hello_error + bytes option" where
  "parse_sni data =
     and_then (ch (c_u16 (cursor_new data 0 (length data)))) (\<lambda>(list_len, c).
     and_then (ok_or (checked_add_usize (c_pos c) (unat list_len)) ChInvalidLength) (\<lambda>list_end.
     if list_end > length data then Inl ChInvalidLength
     else parse_sni_loop (set_end list_end c)))"

function ch_versions_loop :: "nat \<Rightarrow> cursor \<Rightarrow> client_hello_error + bool" where
  "ch_versions_loop en c =
     (if c_pos c < en then
        (case c_u16 c of
           Inl e \<Rightarrow> Inl (ch_fail e)
         | Inr (v, c1) \<Rightarrow> if v = TLS13_VERSION then Inr True else ch_versions_loop en c1)
      else Inr False)"
  by pat_completeness auto
termination
  by (relation "measure (\<lambda>(en, c). en - c_pos c)") (auto dest!: c_u16_adv)

definition ch_parse_supported_versions :: "bytes \<Rightarrow> client_hello_error + bool" where
  "ch_parse_supported_versions data =
     and_then (ch (c_u8 (cursor_new data 0 (length data)))) (\<lambda>(len, c).
     if unat len mod 2 \<noteq> 0 \<or> unat len > c_remaining c then Inl ChInvalidLength
     else ch_versions_loop (c_pos c + unat len) c)"

function key_share_loop :: "cursor \<Rightarrow> client_hello_error + bytes option" where
  "key_share_loop c =
     (if c_remaining c > 0 then
        (case c_u16 c of
           Inl e \<Rightarrow> Inl (ch_fail e)
         | Inr (grp, c1) \<Rightarrow>
             (case c_bytes_vec_u16 c1 of
                Inl e \<Rightarrow> Inl (ch_fail e)
              | Inr (key, c2) \<Rightarrow>
                  if grp = NAMED_GROUP_X25519 \<and> length key = 32 then Inr (Some key) else key_share_loop c2))
      else Inr None)"
  by pat_completeness auto
termination
  by (relation "measure (\<lambda>c. c_end c - c_pos c)") (auto simp: c_remaining_def dest!: c_u16_adv c_vec_adv)

definition parse_key_share :: "bytes \<Rightarrow> client_hello_error + bytes option" where
  "parse_key_share data =
     and_then (ch (c_u16 (cursor_new data 0 (length data)))) (\<lambda>(len, c).
     and_then (ok_or (checked_add_usize (c_pos c) (unat len)) ChInvalidLength) (\<lambda>en.
     if en > length data then Inl ChInvalidLength
     else key_share_loop (set_end en c)))"

text \<open>One extension changes the fields found so far.\<close>

type_synonym ext_fields = "bytes option \<times> bool \<times> bytes option"

definition ch_extension :: "u16 \<Rightarrow> bytes \<Rightarrow> ext_fields \<Rightarrow> client_hello_error + ext_fields" where
  "ch_extension ext_type data = (\<lambda>(host, tls13, share).
     if ext_type = EXT_SERVER_NAME then and_then (parse_sni data) (\<lambda>host'. Inr (host', tls13, share))
     else if ext_type = EXT_SUPPORTED_VERSIONS then
       and_then (ch_parse_supported_versions data) (\<lambda>tls13'. Inr (host, tls13', share))
     else if ext_type = EXT_KEY_SHARE then and_then (parse_key_share data) (\<lambda>share'. Inr (host, tls13, share'))
     else Inr (host, tls13, share))"

function ch_extensions_loop :: "cursor \<Rightarrow> ext_fields \<Rightarrow> client_hello_error + ext_fields" where
  "ch_extensions_loop c fs =
     (if c_remaining c > 0 then
        (case c_u16 c of
           Inl e \<Rightarrow> Inl (ch_fail e)
         | Inr (ext_type, c1) \<Rightarrow>
             (case c_bytes_vec_u16 c1 of
                Inl e \<Rightarrow> Inl (ch_fail e)
              | Inr (data, c2) \<Rightarrow>
                  (case ch_extension ext_type data fs of Inl e \<Rightarrow> Inl e | Inr fs' \<Rightarrow> ch_extensions_loop c2 fs')))
      else Inr fs)"
  by pat_completeness auto
termination
  by (relation "measure (\<lambda>(c, _). c_end c - c_pos c)") (auto simp: c_remaining_def dest!: c_u16_adv c_vec_adv)

declare parse_sni_loop.simps [simp del] ch_versions_loop.simps [simp del] key_share_loop.simps [simp del]
  ch_extensions_loop.simps [simp del]

definition ch_extensions :: "nat \<Rightarrow> cursor \<Rightarrow> client_hello_error + ext_fields" where
  "ch_extensions body_end c =
     (if c_remaining c = 0 then Inr (None, False, None)
      else
        and_then (ch (c_u16 c)) (\<lambda>(ext_len, c).
        and_then (ok_or (checked_add_usize (c_pos c) (unat ext_len)) ChInvalidLength) (\<lambda>ext_end.
        if ext_end > body_end then Inl ChInvalidLength
        else ch_extensions_loop (set_end ext_end c) (None, False, None))))"

definition parse_client_hello :: "bytes \<Rightarrow> client_hello_error + client_hello" where
  "parse_client_hello rec =
     and_then (map_err ChRecord (parse_header rec)) (\<lambda>header.
     if length rec < total_len header then Inl ChTruncated
     else if content_type header \<noteq> TLS_CONTENT_HANDSHAKE then Inl NotHandshakeRecord
     else
       and_then (ch (c_u8 (cursor_new rec TLS_HEADER_LEN (total_len header)))) (\<lambda>(handshake_type, c).
       if handshake_type \<noteq> HANDSHAKE_CLIENT_HELLO then Inl NotClientHello
       else
         and_then (ch (c_u24 c)) (\<lambda>(body_len, c).
         and_then (ok_or (checked_add_usize (c_pos c) (unat body_len)) ChInvalidLength) (\<lambda>body_end.
         if body_end > total_len header then Inl ChInvalidLength
         else
           and_then (ch (c_skip 2 (set_end body_end c))) (\<lambda>c.
           and_then (ch (c_bytes 32 c)) (\<lambda>(rnd, c).
           and_then (ch (c_u8 c)) (\<lambda>(session_len, c1).
           and_then (ch (c_skip (unat session_len) c1)) (\<lambda>c.
           and_then (ch (c_skip_vec_u16 c)) (\<lambda>c.
           and_then (ch (c_skip_vec_u8 c)) (\<lambda>c.
           and_then (ch_extensions body_end c) (\<lambda>(host, tls13, share).
           Inr \<lparr>record_len = total_len header, client_random = rnd,
             session_id_range = (c_pos c1, c_pos c1 + unat session_len),
             sni = host, tls13_supported = tls13, x25519_key_share = share\<rparr>)))))))))))"

section \<open>ServerHello\<close>

definition HANDSHAKE_SERVER_HELLO :: byte where "HANDSHAKE_SERVER_HELLO = 0x02"
definition RANDOM_LEN :: nat where "RANDOM_LEN = 32"

record server_hello =
  sh_record_len :: nat
  sh_random :: bytes
  sh_session_id_range :: "nat \<times> nat"
  tls13_selected :: bool

datatype server_hello_error =
    ShRecord tls_record_error | ShNotHandshakeRecord | NotServerHello | ShTruncated | ShInvalidLength | ShPanic

fun sh_fail :: "cursor_fail \<Rightarrow> server_hello_error" where
  "sh_fail CTruncated = ShTruncated"
| "sh_fail CPanic = ShPanic"

abbreviation sh :: "cursor_fail + 'a \<Rightarrow> server_hello_error + 'a" where
  "sh r \<equiv> map_err sh_fail r"

definition sh_parse_supported_versions :: "bytes \<Rightarrow> server_hello_error + bool" where
  "sh_parse_supported_versions data =
     (if length data \<noteq> 2 then Inl ShInvalidLength
      else Inr ((from_be [data ! 0, data ! 1] :: u16) = TLS13_VERSION))"

function sh_extensions_loop :: "cursor \<Rightarrow> bool \<Rightarrow> server_hello_error + bool" where
  "sh_extensions_loop c tls13 =
     (if c_remaining c > 0 then
        (case c_u16 c of
           Inl e \<Rightarrow> Inl (sh_fail e)
         | Inr (ext_type, c1) \<Rightarrow>
             (case c_bytes_vec_u16 c1 of
                Inl e \<Rightarrow> Inl (sh_fail e)
              | Inr (data, c2) \<Rightarrow>
                  if ext_type = EXT_SUPPORTED_VERSIONS then
                    (case sh_parse_supported_versions data of
                       Inl e \<Rightarrow> Inl e | Inr tls13' \<Rightarrow> sh_extensions_loop c2 tls13')
                  else sh_extensions_loop c2 tls13))
      else Inr tls13)"
  by pat_completeness auto
termination
  by (relation "measure (\<lambda>(c, _). c_end c - c_pos c)") (auto simp: c_remaining_def dest!: c_u16_adv c_vec_adv)

declare sh_extensions_loop.simps [simp del]

definition sh_extensions :: "nat \<Rightarrow> cursor \<Rightarrow> server_hello_error + bool" where
  "sh_extensions body_end c =
     (if c_remaining c > 0 then
        and_then (sh (c_u16 c)) (\<lambda>(ext_len, c).
        and_then (ok_or (checked_add_usize (c_pos c) (unat ext_len)) ShInvalidLength) (\<lambda>ext_end.
        if ext_end > body_end then Inl ShInvalidLength
        else sh_extensions_loop (set_end ext_end c) False))
      else Inr False)"

definition parse_server_hello :: "bytes \<Rightarrow> server_hello_error + server_hello" where
  "parse_server_hello rec =
     and_then (map_err ShRecord (parse_header rec)) (\<lambda>header.
     if length rec < total_len header then Inl ShTruncated
     else if content_type header \<noteq> TLS_CONTENT_HANDSHAKE then Inl ShNotHandshakeRecord
     else
       and_then (sh (c_u8 (cursor_new rec TLS_HEADER_LEN (total_len header)))) (\<lambda>(handshake_type, c).
       if handshake_type \<noteq> HANDSHAKE_SERVER_HELLO then Inl NotServerHello
       else
         and_then (sh (c_u24 c)) (\<lambda>(body_len, c).
         and_then (ok_or (checked_add_usize (c_pos c) (unat body_len)) ShInvalidLength) (\<lambda>body_end.
         if body_end > total_len header then Inl ShInvalidLength
         else
           and_then (sh (c_skip 2 (set_end body_end c))) (\<lambda>c.
           and_then (sh (c_bytes RANDOM_LEN c)) (\<lambda>(rnd, c).
           and_then (sh (c_u8 c)) (\<lambda>(session_len, c1).
           and_then (sh (c_skip (unat session_len) c1)) (\<lambda>c.
           and_then (sh (c_skip 2 c)) (\<lambda>c.
           and_then (sh (c_skip 1 c)) (\<lambda>c.
           and_then (sh_extensions body_end c) (\<lambda>tls13.
           Inr \<lparr>sh_record_len = total_len header, sh_random = rnd,
             sh_session_id_range = (c_pos c1, c_pos c1 + unat session_len), tls13_selected = tls13\<rparr>)))))))))))"

section \<open>Lemmas: the cursor\<close>

definition cursor_ok :: "cursor \<Rightarrow> bool" where
  "cursor_ok c \<longleftrightarrow> c_pos c \<le> c_end c \<and> c_end c \<le> length (c_data c)"

definition adv :: "nat \<Rightarrow> cursor \<Rightarrow> cursor" where
  "adv n c = c\<lparr>c_pos := c_pos c + n\<rparr>"

text \<open>What is left between the position and the end.\<close>

definition cview :: "cursor \<Rightarrow> bytes" where
  "cview c = take (c_end c - c_pos c) (drop (c_pos c) (c_data c))"

lemma length_cview: "cursor_ok c \<Longrightarrow> length (cview c) = c_remaining c"
  by (auto simp: cview_def cursor_ok_def c_remaining_def)

lemma adv_simps [simp]:
  "c_pos (adv n c) = c_pos c + n" "c_end (adv n c) = c_end c" "c_data (adv n c) = c_data c"
  by (simp_all add: adv_def)

lemma set_end_simps [simp]:
  "c_pos (set_end n c) = c_pos c" "c_end (set_end n c) = n" "c_data (set_end n c) = c_data c"
  by (simp_all add: set_end_def)

lemma cursor_new_simps [simp]:
  "c_pos (cursor_new d p e) = p" "c_end (cursor_new d p e) = e" "c_data (cursor_new d p e) = d"
  by (simp_all add: cursor_new_def)

lemma cview_adv:
  assumes "cursor_ok c" "cview c = bs @ r"
  shows "cursor_ok (adv (length bs) c)" "cview (adv (length bs) c) = r" "length bs \<le> c_remaining c"
proof -
  have l: "length bs + length r = c_end c - c_pos c"
    using length_cview [OF assms(1)] assms(2) by (simp add: c_remaining_def)
  then show "cursor_ok (adv (length bs) c)" using assms(1) by (auto simp: cursor_ok_def)
  show "length bs \<le> c_remaining c" using l by (simp add: c_remaining_def)
  have "cview (adv (length bs) c) = drop (length bs) (cview c)"
    by (simp add: cview_def drop_take add.commute)
  then show "cview (adv (length bs) c) = r" using assms(2) by simp
qed

lemma cview_get:
  assumes "cursor_ok c" "cview c = bs @ r"
  shows "get_range (c_data c) (c_pos c) (c_pos c + length bs) = Some bs"
proof -
  have "take (length bs) (cview c) = bs" using assms(2) by simp
  then have "take (length bs) (drop (c_pos c) (c_data c)) = bs"
    using cview_adv(3) [OF assms] by (simp add: cview_def c_remaining_def min_def split: if_splits)
  then show ?thesis
    using assms(1) cview_adv(3) [OF assms] by (auto simp: get_range_def cursor_ok_def c_remaining_def)
qed

lemma cview_nth:
  assumes "cursor_ok c" "cview c = bs @ r" "i < length bs"
  shows "index (c_data c) (c_pos c + i) = Inr (bs ! i)"
proof -
  have "bs ! i = cview c ! i" using assms by (simp add: nth_append)
  also have "\<dots> = c_data c ! (c_pos c + i)"
    using assms(1,3) cview_adv(3) [OF assms(1,2)] by (simp add: cview_def c_remaining_def cursor_ok_def)
  finally show ?thesis
    using assms(1,3) cview_adv(3) [OF assms(1,2)]
    by (auto simp: index_def get_at_def c_remaining_def cursor_ok_def)
qed

lemma c_u8_view: "cursor_ok c \<Longrightarrow> cview c = b # r \<Longrightarrow> c_u8 c = Inr (b, adv 1 c)"
  using cview_nth [of c "[b]" r 0] cview_adv(3) [of c "[b]" r] by (simp add: c_u8_def adv_def)

lemma c_u16_view:
  assumes "cursor_ok c" "cview c = be_bytes 2 (v :: u16) @ r"
  shows "c_u16 c = Inr (v, adv 2 c)"
proof -
  obtain x y where xy: "be_bytes 2 v = [x, y]" by (simp add: be_bytes_numeral)
  have "from_be [x, y] = v" unfolding xy [symmetric] by (rule from_be_be_bytes_full) simp
  then show ?thesis
    using cview_nth [of c "[x, y]" r 0] cview_nth [of c "[x, y]" r 1] cview_adv(3) [of c "[x, y]" r] assms xy
    by (simp add: c_u16_def adv_def)
qed

lemma u24_value:
  fixes v :: u32
  assumes "unat v < 2 ^ 24" "be_bytes 3 v = [x, y, z]"
  shows "push_bit 16 (ucast x) OR push_bit 8 (ucast y) OR ucast z = v"
proof -
  have "from_be [x, y, z] = take_bit 24 v" unfolding assms(2) [symmetric] by (simp add: from_be_be_bytes)
  moreover have "from_be [x, y, z] = (push_bit 16 (ucast x) OR push_bit 8 (ucast y) OR ucast z :: u32)"
    by (simp add: from_be_def push_bit_or or.assoc)
  moreover have "take_bit 24 v = v"
    by (rule word_unat_eqI) (simp only: unsigned_take_bit_eq take_bit_nat_eq_self [OF assms(1)])
  ultimately show ?thesis by simp
qed

lemma c_u24_view:
  assumes "cursor_ok c" "cview c = be_bytes 3 (v :: u32) @ r" "unat v < 2 ^ 24"
  shows "c_u24 c = Inr (v, adv 3 c)"
proof -
  obtain x y z where xyz: "be_bytes 3 v = [x, y, z]" by (simp add: be_bytes_numeral)
  have i: "index (c_data c) (c_pos c) = Inr x" "index (c_data c) (c_pos c + 1) = Inr y" "index (c_data c) (c_pos c + 2) = Inr z"
    using cview_nth [of c "[x, y, z]" r 0] cview_nth [of c "[x, y, z]" r 1] cview_nth [of c "[x, y, z]" r 2] assms xyz
    by simp_all
  show ?thesis
    using cview_adv(3) [of c "[x, y, z]" r] assms(1,2) xyz u24_value [OF assms(3) xyz]
    by (simp add: c_u24_def adv_def i i [simplified])
qed

lemma c_bytes_view: "cursor_ok c \<Longrightarrow> cview c = bs @ r \<Longrightarrow> c_bytes (length bs) c = Inr (bs, adv (length bs) c)"
  using cview_get [of c bs r] cview_adv(3) [of c bs r] by (simp add: c_bytes_def adv_def)

lemma c_skip_view: "cursor_ok c \<Longrightarrow> cview c = bs @ r \<Longrightarrow> c_skip (length bs) c = Inr (adv (length bs) c)"
  by (simp add: c_skip_def c_bytes_view)

lemma adv_adv: "adv m (adv n c) = adv (n + m) c"
  by (simp add: adv_def add.assoc)

lemma unat_of_nat_u8: "n < 2 ^ 8 \<Longrightarrow> unat (of_nat n :: byte) = n"
  by (simp add: unsigned_of_nat take_bit_nat_eq_self)

text \<open>A vector with a 16-bit length in front.\<close>

definition vec16 :: "bytes \<Rightarrow> bytes" where
  "vec16 bs = be_bytes 2 (of_nat (length bs) :: u16) @ bs"

lemma length_vec16: "length (vec16 bs) = 2 + length bs"
  by (simp add: vec16_def)

lemma c_vec_view:
  assumes "cursor_ok c" "cview c = vec16 bs @ r" "length bs < 2 ^ 16"
  shows "c_bytes_vec_u16 c = Inr (bs, adv (length (vec16 bs)) c)"
proof -
  have v: "cview c = be_bytes 2 (of_nat (length bs) :: u16) @ bs @ r" using assms(2) by (simp add: vec16_def)
  note A = cview_adv [OF assms(1) v]
  show ?thesis
    using c_u16_view [OF assms(1) v] c_bytes_view [OF A(1,2)] unat_of_nat_u16 [OF assms(3)]
    by (simp add: c_bytes_vec_u16_def length_vec16 adv_adv)
qed

text \<open>No operation on a cursor within its slice panics.\<close>

lemma index_ok: "i < length data \<Longrightarrow> index data i = Inr (data ! i)"
  by (simp add: index_def get_at_def)

lemma c_u8_safe: "cursor_ok c \<Longrightarrow> safe CPanic (\<lambda>(v, c'). cursor_ok c' \<and> c' = adv 1 c) (c_u8 c)"
  by (auto simp: c_u8_def index_ok cursor_ok_def c_remaining_def adv_def)

lemma c_u16_safe: "cursor_ok c \<Longrightarrow> safe CPanic (\<lambda>(v, c'). cursor_ok c' \<and> c' = adv 2 c) (c_u16 c)"
  by (auto simp: c_u16_def index_ok cursor_ok_def c_remaining_def adv_def)

lemma c_u24_safe: "cursor_ok c \<Longrightarrow> safe CPanic (\<lambda>(v, c'). cursor_ok c' \<and> c' = adv 3 c) (c_u24 c)"
  by (auto simp: c_u24_def index_ok cursor_ok_def c_remaining_def adv_def)

lemma c_bytes_safe:
  "cursor_ok c \<Longrightarrow> safe CPanic (\<lambda>(bs, c'). cursor_ok c' \<and> c' = adv n c \<and> length bs = n) (c_bytes n c)"
  by (auto simp: c_bytes_def get_range_def cursor_ok_def c_remaining_def adv_def)

lemma c_vec_safe: "cursor_ok c \<Longrightarrow> safe CPanic (\<lambda>(bs, c'). cursor_ok c' \<and> c' = adv (2 + length bs) c) (c_bytes_vec_u16 c)"
  unfolding c_bytes_vec_u16_def
  by (rule safe_and_then [OF c_u16_safe]) (auto intro!: safe_mono [OF c_bytes_safe])

lemma c_skip_safe: "cursor_ok c \<Longrightarrow> safe CPanic (\<lambda>c'. cursor_ok c' \<and> c' = adv n c) (c_skip n c)"
  unfolding c_skip_def by (rule safe_and_then [OF c_bytes_safe]) auto

lemma c_skip_vec_u8_safe: "cursor_ok c \<Longrightarrow> safe CPanic (\<lambda>c'. cursor_ok c' \<and> c_end c' = c_end c \<and> c_data c' = c_data c) (c_skip_vec_u8 c)"
  unfolding c_skip_vec_u8_def
  by (rule safe_and_then [OF c_u8_safe]) (auto intro!: safe_mono [OF c_skip_safe])

lemma c_skip_vec_u16_safe: "cursor_ok c \<Longrightarrow> safe CPanic (\<lambda>c'. cursor_ok c' \<and> c_end c' = c_end c \<and> c_data c' = c_data c) (c_skip_vec_u16 c)"
  unfolding c_skip_vec_u16_def
  by (rule safe_and_then [OF c_u16_safe]) (auto intro!: safe_mono [OF c_skip_safe])

section \<open>The parsers do not panic\<close>

lemma ch_fail_panic [simp]: "ch_fail e = ChPanic \<longleftrightarrow> e = CPanic"
  by (cases e) auto

lemma sh_fail_panic [simp]: "sh_fail e = ShPanic \<longleftrightarrow> e = CPanic"
  by (cases e) auto

lemma safe_ch [simp]: "safe ChPanic P (ch r) = safe CPanic P r"
  by (cases r) auto

lemma safe_sh [simp]: "safe ShPanic P (sh r) = safe CPanic P r"
  by (cases r) auto

lemma parse_sni_loop_safe: "cursor_ok c \<Longrightarrow> safe ChPanic (\<lambda>r. \<forall>n. r = Some n \<longrightarrow> utf8_valid n) (parse_sni_loop c)"
proof (induction c rule: parse_sni_loop.induct)
  case (1 c)
  then show ?case
    using c_u8_safe [of c] c_vec_safe [of "adv 1 c"]
    by (subst parse_sni_loop.simps) (auto split: sum.splits prod.splits)
qed

lemma ch_versions_loop_safe: "cursor_ok c \<Longrightarrow> safe ChPanic (\<lambda>_. True) (ch_versions_loop en c)"
proof (induction en c rule: ch_versions_loop.induct)
  case (1 en c)
  then show ?case
    using c_u16_safe [of c]
    by (subst ch_versions_loop.simps) (auto split: sum.splits prod.splits)
qed

lemma key_share_loop_safe: "cursor_ok c \<Longrightarrow> safe ChPanic (\<lambda>r. \<forall>k. r = Some k \<longrightarrow> length k = 32) (key_share_loop c)"
proof (induction c rule: key_share_loop.induct)
  case (1 c)
  then show ?case
    using c_u16_safe [of c] c_vec_safe [of "adv 2 c"]
    by (subst key_share_loop.simps) (auto split: sum.splits prod.splits)
qed

lemma cursor_new_ok [simp]: "cursor_ok (cursor_new data 0 (length data))"
  by (simp add: cursor_ok_def)

lemma checked_add_safe: "e \<noteq> bad \<Longrightarrow> safe bad (\<lambda>x. x = a + b) (ok_or (checked_add_usize a b) e)"
  by (simp add: checked_add_usize_def)

lemma set_end_ok: "cursor_ok c \<Longrightarrow> c_pos c \<le> e \<Longrightarrow> e \<le> length (c_data c) \<Longrightarrow> cursor_ok (set_end e c)"
  by (simp add: cursor_ok_def)

lemma parse_sni_safe: "safe ChPanic (\<lambda>r. \<forall>n. r = Some n \<longrightarrow> utf8_valid n) (parse_sni data)"
  unfolding parse_sni_def
proof (rule safe_and_then)
  show "safe ChPanic (\<lambda>(v, c'). cursor_ok c' \<and> c' = adv 2 (cursor_new data 0 (length data))) (ch (c_u16 (cursor_new data 0 (length data))))"
    using c_u16_safe [of "cursor_new data 0 (length data)"] by simp
qed (auto intro!: safe_and_then [OF checked_add_safe] parse_sni_loop_safe set_end_ok)

lemma ch_parse_supported_versions_safe: "safe ChPanic (\<lambda>_. True) (ch_parse_supported_versions data)"
  unfolding ch_parse_supported_versions_def
proof (rule safe_and_then)
  show "safe ChPanic (\<lambda>(v, c'). cursor_ok c' \<and> c' = adv 1 (cursor_new data 0 (length data))) (ch (c_u8 (cursor_new data 0 (length data))))"
    using c_u8_safe [of "cursor_new data 0 (length data)"] by simp
qed (auto intro!: ch_versions_loop_safe)

lemma parse_key_share_safe: "safe ChPanic (\<lambda>r. \<forall>k. r = Some k \<longrightarrow> length k = 32) (parse_key_share data)"
  unfolding parse_key_share_def
proof (rule safe_and_then)
  show "safe ChPanic (\<lambda>(v, c'). cursor_ok c' \<and> c' = adv 2 (cursor_new data 0 (length data))) (ch (c_u16 (cursor_new data 0 (length data))))"
    using c_u16_safe [of "cursor_new data 0 (length data)"] by simp
qed (auto intro!: safe_and_then [OF checked_add_safe] key_share_loop_safe set_end_ok)

definition fields_ok :: "ext_fields \<Rightarrow> bool" where
  "fields_ok = (\<lambda>(host, _, share). (\<forall>n. host = Some n \<longrightarrow> utf8_valid n) \<and> (\<forall>k. share = Some k \<longrightarrow> length k = 32))"

lemma ch_extension_safe: "fields_ok fs \<Longrightarrow> safe ChPanic fields_ok (ch_extension t data fs)"
  by (auto simp: ch_extension_def fields_ok_def split: prod.splits
      intro!: safe_and_then [OF parse_sni_safe] safe_and_then [OF ch_parse_supported_versions_safe]
        safe_and_then [OF parse_key_share_safe])

lemma ch_extensions_loop_safe:
  "cursor_ok c \<Longrightarrow> fields_ok fs \<Longrightarrow> safe ChPanic fields_ok (ch_extensions_loop c fs)"
proof (induction c fs rule: ch_extensions_loop.induct)
  case (1 c fs)
  show ?case
  proof (cases "c_remaining c > 0")
    case False
    then show ?thesis using 1 by (subst ch_extensions_loop.simps) simp
  next
    case True
    have *: "safe ChPanic fields_ok (ch_extensions_loop c2 fs')"
      if "c_u16 c = Inr (t, c1)" "c_bytes_vec_u16 c1 = Inr (d, c2)" "ch_extension t d fs = Inr fs'" for t c1 d c2 fs'
      using 1(1) [OF True that(1) refl that(2) refl that(3)] that c_u16_safe [OF 1(2)] c_vec_safe [of c1] ch_extension_safe [OF 1(3), of t d]
      by auto
    show ?thesis
      using True * c_u16_safe [OF 1(2)] c_vec_safe ch_extension_safe [OF 1(3)]
      apply (subst ch_extensions_loop.simps)
      apply (auto split: sum.splits prod.splits)
      apply (metis (no_types, lifting) case_prod_conv safe_simps)+
      done
  qed
qed

lemma fields_ok_start [simp]: "fields_ok (None, b, None)"
  by (simp add: fields_ok_def)

lemma ch_extensions_safe:
  assumes "cursor_ok c" "body_end \<le> length (c_data c)"
  shows "safe ChPanic fields_ok (ch_extensions body_end c)"
proof (cases "c_remaining c = 0")
  case True
  then show ?thesis by (simp add: ch_extensions_def)
next
  case False
  show ?thesis
    unfolding ch_extensions_def if_not_P [OF False]
  proof (rule safe_and_then)
    show "safe ChPanic (\<lambda>(v, c'). cursor_ok c' \<and> c' = adv 2 c) (ch (c_u16 c))"
      using c_u16_safe [OF assms(1)] by simp
  qed (use assms(2) in \<open>auto intro!: safe_and_then [OF checked_add_safe] ch_extensions_loop_safe set_end_ok\<close>)
qed

text \<open>The same rules as steps of a parser that maps the failures of the cursor.\<close>

definition panic_map :: "(cursor_fail \<Rightarrow> 'e) \<Rightarrow> 'e \<Rightarrow> bool" where
  "panic_map f bad \<longleftrightarrow> f CTruncated \<noteq> bad"

lemma panic_map_ch [simp]: "panic_map ch_fail ChPanic" "panic_map sh_fail ShPanic"
  by (simp_all add: panic_map_def)

lemma safe_bind:
  assumes "panic_map f bad" "safe CPanic P r" "\<And>x. P x \<Longrightarrow> safe bad Q (k x)"
  shows "safe bad Q (and_then (map_err f r) k)"
  using assms by (cases r) (auto simp: panic_map_def, metis cursor_fail.exhaust)

lemma u8_bind:
  assumes "cursor_ok c" "panic_map f bad" "\<And>v. cursor_ok (adv 1 c) \<Longrightarrow> safe bad Q (k (v, adv 1 c))"
  shows "safe bad Q (and_then (map_err f (c_u8 c)) k)"
  by (rule safe_bind [OF assms(2) c_u8_safe [OF assms(1)]]) (use assms(3) in auto)

lemma u16_bind:
  assumes "cursor_ok c" "panic_map f bad" "\<And>v. cursor_ok (adv 2 c) \<Longrightarrow> safe bad Q (k (v, adv 2 c))"
  shows "safe bad Q (and_then (map_err f (c_u16 c)) k)"
  by (rule safe_bind [OF assms(2) c_u16_safe [OF assms(1)]]) (use assms(3) in auto)

lemma u24_bind:
  assumes "cursor_ok c" "panic_map f bad" "\<And>v. cursor_ok (adv 3 c) \<Longrightarrow> safe bad Q (k (v, adv 3 c))"
  shows "safe bad Q (and_then (map_err f (c_u24 c)) k)"
  by (rule safe_bind [OF assms(2) c_u24_safe [OF assms(1)]]) (use assms(3) in auto)

lemma bytes_bind:
  assumes "cursor_ok c" "panic_map f bad" "\<And>bs. cursor_ok (adv n c) \<Longrightarrow> length bs = n \<Longrightarrow> safe bad Q (k (bs, adv n c))"
  shows "safe bad Q (and_then (map_err f (c_bytes n c)) k)"
  by (rule safe_bind [OF assms(2) c_bytes_safe [OF assms(1)]]) (use assms(3) in auto)

lemma skip_bind:
  assumes "cursor_ok c" "panic_map f bad" "cursor_ok (adv n c) \<Longrightarrow> safe bad Q (k (adv n c))"
  shows "safe bad Q (and_then (map_err f (c_skip n c)) k)"
  by (rule safe_bind [OF assms(2) c_skip_safe [OF assms(1)]]) (use assms(3) in auto)

lemma skip_vec_bind:
  assumes "cursor_ok c" "panic_map f bad"
    "\<And>c'. cursor_ok c' \<Longrightarrow> c_end c' = c_end c \<Longrightarrow> c_data c' = c_data c \<Longrightarrow> safe bad Q (k c')"
  shows "safe bad Q (and_then (map_err f (c_skip_vec_u8 c)) k)" "safe bad Q (and_then (map_err f (c_skip_vec_u16 c)) k)"
  by (rule safe_bind [OF assms(2) c_skip_vec_u8_safe [OF assms(1)]] safe_bind [OF assms(2) c_skip_vec_u16_safe [OF assms(1)]];
      use assms(3) in auto)+

lemma add_bind:
  assumes "e \<noteq> bad" "safe bad Q (k (a + b))"
  shows "safe bad Q (and_then (ok_or (checked_add_usize a b) e) k)"
  by (rule safe_and_then [OF checked_add_safe [OF assms(1)]]) (use assms(2) in simp)

lemma header_bind:
  assumes "\<And>e. f e \<noteq> bad" "\<And>h. TLS_HEADER_LEN \<le> total_len h \<Longrightarrow> safe bad Q (k h)"
  shows "safe bad Q (and_then (map_err f (parse_header rec)) k)"
  by (cases "parse_header rec") (auto simp: assms(1) intro!: assms(2) dest!: parse_header_Inr)

lemmas parser_binds = header_bind u8_bind u16_bind u24_bind bytes_bind skip_bind skip_vec_bind add_bind

definition hello_ok :: "bytes \<Rightarrow> client_hello \<Rightarrow> bool" where
  "hello_ok rec h \<longleftrightarrow> record_len h \<le> length rec \<and> length (client_random h) = 32 \<and>
     fst (session_id_range h) \<le> snd (session_id_range h) \<and> snd (session_id_range h) \<le> record_len h \<and>
     fields_ok (sni h, tls13_supported h, x25519_key_share h)"

lemma parse_client_hello_safe: "safe ChPanic (hello_ok rec) (parse_client_hello rec)"
  unfolding parse_client_hello_def
  by (auto intro!: parser_binds safe_and_then [OF ch_extensions_safe] set_end_ok split: prod.splits
      simp: cursor_ok_def [of "cursor_new rec _ _"] hello_ok_def)
    (auto simp: cursor_ok_def)

text \<open>C27. The ClientHello parser is safe on every input: it does not index out of range, and what it returns
  lies within the record: the session id range is inside it, the random has 32 bytes, the server name is
  UTF-8 and the key share has 32 bytes.\<close>

theorem client_hello_safe: "safe ChPanic (hello_ok rec) (parse_client_hello rec)"
  by (rule parse_client_hello_safe)

lemma sh_extensions_loop_safe: "cursor_ok c \<Longrightarrow> safe ShPanic (\<lambda>_. True) (sh_extensions_loop c t)"
proof (induction c t rule: sh_extensions_loop.induct)
  case (1 c t)
  then show ?case
    using c_u16_safe [of c] c_vec_safe [of "adv 2 c"]
    by (subst sh_extensions_loop.simps)
      (auto simp: sh_parse_supported_versions_def split: sum.splits prod.splits)
qed

definition server_hello_ok :: "bytes \<Rightarrow> server_hello \<Rightarrow> bool" where
  "server_hello_ok rec h \<longleftrightarrow> sh_record_len h \<le> length rec \<and> length (sh_random h) = RANDOM_LEN \<and>
     fst (sh_session_id_range h) \<le> snd (sh_session_id_range h) \<and> snd (sh_session_id_range h) \<le> sh_record_len h"

lemma sh_extensions_safe:
  assumes "cursor_ok c" "body_end \<le> length (c_data c)"
  shows "safe ShPanic (\<lambda>_. True) (sh_extensions body_end c)"
  unfolding sh_extensions_def using assms
  by (auto intro!: parser_binds sh_extensions_loop_safe set_end_ok)

text \<open>The ServerHello parser is safe on every input, and the session id range it returns is inside the
  record.\<close>

theorem server_hello_safe: "safe ShPanic (server_hello_ok rec) (parse_server_hello rec)"
  unfolding parse_server_hello_def
  by (auto intro!: parser_binds safe_and_then [OF sh_extensions_safe] set_end_ok split: prod.splits
      simp: cursor_ok_def [of "cursor_new rec _ _"] server_hello_ok_def)
    (auto simp: cursor_ok_def)

section \<open>What the ClientHello parser returns\<close>

text \<open>The wire format, as a grammar: the three extensions the parser reads, and others.\<close>

datatype hello_ext =
    ServerNames "(byte \<times> bytes) list"
  | SupportedVersions "u16 list"
  | KeyShares "(u16 \<times> bytes) list"
  | OtherExt u16 bytes

fun ext_data :: "hello_ext \<Rightarrow> bytes" where
  "ext_data (ServerNames names) = vec16 (concat (map (\<lambda>(t, name). t # vec16 name) names))"
| "ext_data (SupportedVersions vs) = of_nat (2 * length vs) # concat (map (be_bytes 2) vs)"
| "ext_data (KeyShares ks) = vec16 (concat (map (\<lambda>(g, key). be_bytes 2 g @ vec16 key) ks))"
| "ext_data (OtherExt t data) = data"

fun ext_code :: "hello_ext \<Rightarrow> u16" where
  "ext_code (ServerNames names) = EXT_SERVER_NAME"
| "ext_code (SupportedVersions vs) = EXT_SUPPORTED_VERSIONS"
| "ext_code (KeyShares ks) = EXT_KEY_SHARE"
| "ext_code (OtherExt t data) = t"

fun ext_wf :: "hello_ext \<Rightarrow> bool" where
  "ext_wf (ServerNames names) \<longleftrightarrow> list_all (\<lambda>(t, name). t = 0 \<longrightarrow> utf8_valid name) names"
| "ext_wf (SupportedVersions vs) \<longleftrightarrow> length vs < 128"
| "ext_wf (KeyShares ks) \<longleftrightarrow> True"
| "ext_wf (OtherExt t data) \<longleftrightarrow> t \<notin> {EXT_SERVER_NAME, EXT_SUPPORTED_VERSIONS, EXT_KEY_SHARE}"

fun ext_meaning :: "hello_ext \<Rightarrow> ext_fields \<Rightarrow> ext_fields" where
  "ext_meaning (ServerNames names) (host, tls13, share) =
     (map_option snd (find (\<lambda>(t, name). t = 0) names), tls13, share)"
| "ext_meaning (SupportedVersions vs) (host, tls13, share) = (host, TLS13_VERSION \<in> set vs, share)"
| "ext_meaning (KeyShares ks) (host, tls13, share) =
     (host, tls13, map_option snd (find (\<lambda>(g, key). g = NAMED_GROUP_X25519 \<and> length key = 32) ks))"
| "ext_meaning (OtherExt t data) fs = fs"

definition ext_bytes :: "hello_ext \<Rightarrow> bytes" where
  "ext_bytes x = be_bytes 2 (ext_code x) @ vec16 (ext_data x)"

definition hello_body :: "bytes \<Rightarrow> bytes \<Rightarrow> bytes \<Rightarrow> bytes \<Rightarrow> bytes \<Rightarrow> hello_ext list \<Rightarrow> bytes" where
  "hello_body ver rnd sid suites cmps exts =
     ver @ rnd @ [of_nat (length sid)] @ sid @ vec16 suites @ [of_nat (length cmps)] @ cmps @ vec16 (concat (map ext_bytes exts))"

definition hello_record :: "bytes \<Rightarrow> bytes \<Rightarrow> bytes" where
  "hello_record rec_ver body =
     TLS_CONTENT_HANDSHAKE # rec_ver @ vec16 (HANDSHAKE_CLIENT_HELLO # be_bytes 3 (of_nat (length body) :: u32) @ body)"

lemma parse_sni_loop_view:
  assumes "cursor_ok c" "cview c = concat (map (\<lambda>(t, name). t # vec16 name) names)" "ext_wf (ServerNames names)"
    "length (cview c) < 2 ^ 16"
  shows "parse_sni_loop c = Inr (map_option snd (find (\<lambda>(t, name). t = 0) names))"
  using assms
proof (induction names arbitrary: c)
  case Nil
  then show ?case using length_cview [of c] by (subst parse_sni_loop.simps) simp
next
  case (Cons nm names)
  obtain t name where nm: "nm = (t, name)" by (cases nm)
  define r where "r = concat (map (\<lambda>(t, name). t # vec16 name) names)"
  have v: "cview c = [t] @ (vec16 name @ r)" using Cons.prems(2) by (simp add: nm r_def)
  note A = cview_adv [OF Cons.prems(1) v]
  define c2 where "c2 = adv (length (vec16 name)) (adv 1 c)"
  have B: "cursor_ok c2" "cview c2 = r" using cview_adv [OF A(1,2)] by (simp_all add: c2_def)
  have l: "length name < 2 ^ 16" "length r < 2 ^ 16" using Cons.prems(4) v by (simp_all add: length_vec16)
  have rm: "c_remaining c > 0" using A(3) by simp
  have u: "c_u8 c = Inr (t, adv 1 c)" "c_bytes_vec_u16 (adv 1 c) = Inr (name, c2)"
    using c_u8_view [OF Cons.prems(1)] c_vec_view [of "adv 1 c", OF _ _ l(1)] A v by (simp_all add: c2_def)
  have IH: "parse_sni_loop c2 = Inr (map_option snd (find (\<lambda>(t, name). t = 0) names))"
    by (rule Cons.IH) (use B Cons.prems(3) l in \<open>simp_all add: nm r_def\<close>)
  show ?case using rm u IH Cons.prems(3) by (subst parse_sni_loop.simps) (simp add: nm)
qed

lemma key_share_loop_view:
  assumes "cursor_ok c" "cview c = concat (map (\<lambda>(g, key). be_bytes 2 g @ vec16 key) ks)" "length (cview c) < 2 ^ 16"
  shows "key_share_loop c = Inr (map_option snd (find (\<lambda>(g, key). g = NAMED_GROUP_X25519 \<and> length key = 32) ks))"
  using assms
proof (induction ks arbitrary: c)
  case Nil
  then show ?case using length_cview [of c] by (subst key_share_loop.simps) simp
next
  case (Cons k ks)
  obtain g key where k: "k = (g, key)" by (cases k)
  define r where "r = concat (map (\<lambda>(g, key). be_bytes 2 g @ vec16 key) ks)"
  have v: "cview c = be_bytes 2 g @ (vec16 key @ r)" using Cons.prems(2) by (simp add: k r_def)
  note A = cview_adv [OF Cons.prems(1) v]
  define c2 where "c2 = adv (length (vec16 key)) (adv 2 c)"
  have B: "cursor_ok c2" "cview c2 = r" using cview_adv [of "adv 2 c"] A by (simp_all add: c2_def)
  have l: "length key < 2 ^ 16" "length r < 2 ^ 16" using Cons.prems(3) v by (simp_all add: length_vec16)
  have rm: "c_remaining c > 0" using A(3) by simp
  have u: "c_u16 c = Inr (g, adv 2 c)" "c_bytes_vec_u16 (adv 2 c) = Inr (key, c2)"
    using c_u16_view [OF Cons.prems(1) v] c_vec_view [of "adv 2 c", OF _ _ l(1)] A by (simp_all add: c2_def)
  have IH: "key_share_loop c2 = Inr (map_option snd (find (\<lambda>(g, key). g = NAMED_GROUP_X25519 \<and> length key = 32) ks))"
    by (rule Cons.IH) (use B l in \<open>simp_all add: r_def\<close>)
  show ?case using rm u IH by (subst key_share_loop.simps) (auto simp: k)
qed

lemma ch_versions_loop_view:
  assumes "cursor_ok c" "cview c = concat (map (be_bytes 2) vs)" "en = c_pos c + 2 * length vs"
  shows "ch_versions_loop en c = Inr (TLS13_VERSION \<in> set vs)"
  using assms
proof (induction vs arbitrary: c)
  case Nil
  then show ?case by (subst ch_versions_loop.simps) simp
next
  case (Cons w vs)
  have v: "cview c = be_bytes 2 w @ concat (map (be_bytes 2) vs)" using Cons.prems(2) by simp
  note A = cview_adv [OF Cons.prems(1) v]
  have "ch_versions_loop en (adv 2 c) = Inr (TLS13_VERSION \<in> set vs)"
    by (rule Cons.IH) (use A Cons.prems(3) in simp_all)
  then show ?case
    using c_u16_view [OF Cons.prems(1) v] Cons.prems(3) by (subst ch_versions_loop.simps) auto
qed

lemma cview_new [simp]: "cview (cursor_new data 0 (length data)) = data"
  by (simp add: cview_def)

lemma set_end_same [simp]: "c_end c = e \<Longrightarrow> set_end e c = c"
  by (simp add: set_end_def)

lemma checked_add_small: "a + b < 2 ^ 64 \<Longrightarrow> checked_add_usize a b = Some (a + b)"
  by (simp add: checked_add_usize_def usize_limit_def)

text \<open>The list inside an extension: the cursor after its length covers exactly the list.\<close>

lemma list_cursor:
  assumes "length bs < 2 ^ 16"
  defines "c0 \<equiv> cursor_new (vec16 bs) 0 (length (vec16 bs))"
  shows "c_u16 c0 = Inr (of_nat (length bs), adv 2 c0)"
    "checked_add_usize (c_pos (adv 2 c0)) (unat (of_nat (length bs) :: u16)) = Some (length (vec16 bs))"
    "cursor_ok (adv 2 c0)" "cview (adv 2 c0) = bs" "set_end (length (vec16 bs)) (adv 2 c0) = adv 2 c0"
proof -
  have ok: "cursor_ok c0" and v: "cview c0 = be_bytes 2 (of_nat (length bs) :: u16) @ bs"
    by (simp_all add: c0_def) (simp add: vec16_def)
  show "c_u16 c0 = Inr (of_nat (length bs), adv 2 c0)" by (rule c_u16_view [OF ok v])
  show "cursor_ok (adv 2 c0)" "cview (adv 2 c0) = bs" using cview_adv [OF ok v] by simp_all
  show "set_end (length (vec16 bs)) (adv 2 c0) = adv 2 c0" by (rule set_end_same) (simp add: c0_def)
  show "checked_add_usize (c_pos (adv 2 c0)) (unat (of_nat (length bs) :: u16)) = Some (length (vec16 bs))"
    using assms(1)
    by (simp add: c0_def unat_of_nat_u16 [OF assms(1)] length_vec16 checked_add_usize_def usize_limit_def)
qed

lemma ext_code_distinct [simp]:
  "EXT_SUPPORTED_VERSIONS \<noteq> EXT_SERVER_NAME" "EXT_KEY_SHARE \<noteq> EXT_SERVER_NAME" "EXT_KEY_SHARE \<noteq> EXT_SUPPORTED_VERSIONS"
  by (simp_all add: EXT_SUPPORTED_VERSIONS_def EXT_SERVER_NAME_def EXT_KEY_SHARE_def)

lemma ch_extension_view:
  assumes "ext_wf x" "length (ext_data x) < 2 ^ 16"
  shows "ch_extension (ext_code x) (ext_data x) fs = Inr (ext_meaning x fs)"
proof (cases x)
  case (ServerNames names)
  let ?bs = "concat (map (\<lambda>(t, name). t # vec16 name) names)"
  have l: "length ?bs < 2 ^ 16" using assms(2) by (simp add: ServerNames length_vec16)
  note L = list_cursor [OF l]
  have "parse_sni (vec16 ?bs) = Inr (map_option snd (find (\<lambda>(t, name). t = 0) names))"
    using L parse_sni_loop_view [OF L(3,4)] l assms(1) by (simp add: parse_sni_def ServerNames)
  then show ?thesis by (cases fs) (simp add: ServerNames ch_extension_def)
next
  case (KeyShares ks)
  let ?bs = "concat (map (\<lambda>(g, key). be_bytes 2 g @ vec16 key) ks)"
  have l: "length ?bs < 2 ^ 16" using assms(2) by (simp add: KeyShares length_vec16)
  note L = list_cursor [OF l]
  have "parse_key_share (vec16 ?bs) = Inr (map_option snd (find (\<lambda>(g, key). g = NAMED_GROUP_X25519 \<and> length key = 32) ks))"
    using L key_share_loop_view [OF L(3,4)] l by (simp add: parse_key_share_def)
  then show ?thesis by (cases fs) (simp add: KeyShares ch_extension_def)
next
  case (SupportedVersions vs)
  define d where "d = (of_nat (2 * length vs) :: byte) # concat (map (be_bytes 2) vs)"
  define c where "c = cursor_new d 0 (length d)"
  have n: "unat (of_nat (2 * length vs) :: byte) = 2 * length vs"
    using assms(1) unat_of_nat_u8 [of "2 * length vs"] by (simp add: SupportedVersions)
  have v: "cursor_ok c" "cview c = [of_nat (2 * length vs)] @ concat (map (be_bytes 2) vs)"
    by (simp_all add: c_def) (simp add: d_def)
  note A = cview_adv [OF v]
  have len: "length (concat (map (be_bytes 2) vs)) = 2 * length vs" by (induction vs) simp_all
  have u: "c_u8 c = Inr (of_nat (2 * length vs), adv 1 c)" using c_u8_view [OF v(1)] v(2) by simp
  have r: "c_remaining (adv 1 c) = 2 * length vs" using length_cview [of "adv 1 c"] A len by simp
  have w: "ch_versions_loop (c_pos (adv 1 c) + 2 * length vs) (adv 1 c) = Inr (TLS13_VERSION \<in> set vs)"
    by (rule ch_versions_loop_view) (use A in simp_all)
  have "ch_parse_supported_versions d = Inr (TLS13_VERSION \<in> set vs)"
    unfolding ch_parse_supported_versions_def c_def [symmetric] u using n r w by simp
  then show ?thesis by (cases fs) (simp add: SupportedVersions ch_extension_def d_def)
next
  case (OtherExt t data)
  then show ?thesis using assms(1) by (cases fs) (simp add: ch_extension_def)
qed

lemma ch_extensions_loop_view:
  assumes "cursor_ok c" "cview c = concat (map ext_bytes exts)" "list_all ext_wf exts" "length (cview c) < 2 ^ 16"
  shows "ch_extensions_loop c fs = Inr (fold ext_meaning exts fs)"
  using assms
proof (induction exts arbitrary: c fs)
  case Nil
  then show ?case using length_cview [of c] by (subst ch_extensions_loop.simps) simp
next
  case (Cons x exts)
  define r where "r = concat (map ext_bytes exts)"
  have v: "cview c = be_bytes 2 (ext_code x) @ (vec16 (ext_data x) @ r)"
    using Cons.prems(2) by (simp add: ext_bytes_def [of x] r_def)
  note A = cview_adv [OF Cons.prems(1) v]
  define c2 where "c2 = adv (length (vec16 (ext_data x))) (adv 2 c)"
  have B: "cursor_ok c2" "cview c2 = r" using cview_adv [of "adv 2 c"] A by (simp_all add: c2_def)
  have l: "length (ext_data x) < 2 ^ 16" "length r < 2 ^ 16" using Cons.prems(4) v by (simp_all add: length_vec16)
  have rm: "c_remaining c > 0" using A(3) by simp
  have u: "c_u16 c = Inr (ext_code x, adv 2 c)" "c_bytes_vec_u16 (adv 2 c) = Inr (ext_data x, c2)"
    using c_u16_view [OF Cons.prems(1) v] c_vec_view [of "adv 2 c", OF _ _ l(1)] A by (simp_all add: c2_def)
  have "ch_extensions_loop c2 (ext_meaning x fs) = Inr (fold ext_meaning exts (ext_meaning x fs))"
    by (rule Cons.IH) (use B l Cons.prems(3) in \<open>simp_all add: r_def\<close>)
  then show ?case
    using rm u ch_extension_view [of x fs] l Cons.prems(3) by (subst ch_extensions_loop.simps) simp
qed

lemma hello_record_header:
  fixes rest :: bytes
  assumes "length rec_ver = 2" "length body \<le> 16384"
  defines "rec \<equiv> hello_record rec_ver body @ rest"
  shows "parse_header rec = Inr \<lparr>content_type = TLS_CONTENT_HANDSHAKE, legacy_version = rec_ver,
      payload_len = 4 + length body, total_len = 9 + length body\<rparr>"
    and "length (hello_record rec_ver body) = 9 + length body"
proof -
  obtain p q where pq: "rec_ver = [p, q]" using assms(1) by (auto simp: length_Suc_conv numeral_2_eq_2)
  define v :: u16 where "v = of_nat (4 + length body)"
  obtain x y where xy: "be_bytes 2 v = [x, y]" by (simp add: be_bytes_numeral)
  have "from_be [x, y] = v" unfolding xy [symmetric] by (rule from_be_be_bytes_full) simp
  moreover have "unat v = 4 + length body" unfolding v_def by (rule unat_of_nat_u16) (use assms(2) in simp)
  moreover have "rec = [TLS_CONTENT_HANDSHAKE, p, q, x, y] @ (HANDSHAKE_CLIENT_HELLO # be_bytes 3 (of_nat (length body) :: u32) @ body @ rest)"
    using xy by (simp add: rec_def hello_record_def vec16_def pq v_def add.commute)
  ultimately show "parse_header rec = Inr \<lparr>content_type = TLS_CONTENT_HANDSHAKE, legacy_version = rec_ver,
      payload_len = 4 + length body, total_len = 9 + length body\<rparr>"
    using assms(2) by (simp add: parse_header_def Let_def TLS_HEADER_LEN_def MAX_TLS_RECORD_PAYLOAD_def pq)
  show "length (hello_record rec_ver body) = 9 + length body"
    by (simp add: hello_record_def length_vec16 assms(1))
qed

text \<open>The cursor at the start of the handshake message sees the message, whatever follows the record.\<close>

lemma hello_record_cursor:
  fixes rest body :: bytes
  assumes "length rec_ver = 2"
  defines "c0 \<equiv> cursor_new (hello_record rec_ver body @ rest) TLS_HEADER_LEN (9 + length body)"
  shows "cursor_ok c0" "cview c0 = HANDSHAKE_CLIENT_HELLO # be_bytes 3 (of_nat (length body) :: u32) @ body"
proof -
  have l: "length (hello_record rec_ver body) = 9 + length body" by (simp add: hello_record_def length_vec16 assms(1))
  show "cursor_ok c0" using l by (simp add: c0_def cursor_ok_def TLS_HEADER_LEN_def)
  have "cview c0 = drop 5 (hello_record rec_ver body)"
    using l by (simp add: c0_def cview_def TLS_HEADER_LEN_def)
  also have "\<dots> = HANDSHAKE_CLIENT_HELLO # be_bytes 3 (of_nat (length body) :: u32) @ body"
    using assms(1) by (simp add: hello_record_def vec16_def drop_Cons')
  finally show "cview c0 = HANDSHAKE_CLIENT_HELLO # be_bytes 3 (of_nat (length body) :: u32) @ body" .
qed

lemma skip_vec_u16_view:
  assumes "cursor_ok c" "cview c = vec16 bs @ r" "length bs < 2 ^ 16"
  shows "c_skip_vec_u16 c = Inr (adv (length (vec16 bs)) c)"
proof -
  have v: "cview c = be_bytes 2 (of_nat (length bs) :: u16) @ bs @ r" using assms(2) by (simp add: vec16_def)
  note A = cview_adv [OF assms(1) v]
  show ?thesis
    using c_u16_view [OF assms(1) v] c_skip_view [OF A(1,2)] unat_of_nat_u16 [OF assms(3)]
    by (simp add: c_skip_vec_u16_def length_vec16 adv_adv)
qed

lemma skip_vec_u8_view:
  assumes "cursor_ok c" "cview c = (of_nat (length bs) # bs) @ r" "length bs < 2 ^ 8"
  shows "c_skip_vec_u8 c = Inr (adv (length ((of_nat (length bs) :: byte) # bs)) c)"
proof -
  have v: "cview c = [of_nat (length bs)] @ bs @ r" using assms(2) by simp
  note A = cview_adv [OF assms(1) v]
  show ?thesis
    using c_u8_view [OF assms(1)] v c_skip_view [OF A(1,2)] unat_of_nat_u8 [OF assms(3)]
    by (simp add: c_skip_vec_u8_def adv_adv)
qed

lemma ch_extensions_view:
  assumes "cursor_ok c" "cview c = vec16 (concat (map ext_bytes exts))" "list_all ext_wf exts"
    "length (concat (map ext_bytes exts)) < 2 ^ 16" "c_end c = e" "e < 2 ^ 63"
  shows "ch_extensions e c = Inr (fold ext_meaning exts (None, False, None))"
proof -
  let ?E = "concat (map ext_bytes exts)"
  have v: "cview c = be_bytes 2 (of_nat (length ?E) :: u16) @ ?E" using assms(2) by (simp add: vec16_def)
  note A = cview_adv [OF assms(1) v]
  have e: "c_pos (adv 2 c) + length ?E = e"
    using length_cview [of "adv 2 c"] A assms(1,5) by (simp add: c_remaining_def cursor_ok_def)
  have "checked_add_usize (c_pos (adv 2 c)) (unat (of_nat (length ?E) :: u16)) = Some e"
    using checked_add_small [of "c_pos (adv 2 c)" "length ?E"] e assms(6) unat_of_nat_u16 [OF assms(4)] by simp
  moreover have "ch_extensions_loop (adv 2 c) (None, False, None) = Inr (fold ext_meaning exts (None, False, None))"
    by (rule ch_extensions_loop_view) (use A assms in simp_all)
  moreover have "c_remaining c \<noteq> 0" using A(3) by simp
  ultimately show ?thesis using c_u16_view [OF assms(1) v] assms(5) by (simp add: ch_extensions_def)
qed

text \<open>The fields of the body, read one after the other.\<close>

lemma hello_body_steps:
  assumes "cursor_ok c2" "cview c2 = hello_body ver rnd sid suites cmps exts" "length ver = 2" "length rnd = 32"
    "length sid < 2 ^ 8" "length suites < 2 ^ 16" "length cmps < 2 ^ 8"
  obtains c3 c4 c5 c6 c7 c8 where "c_skip 2 c2 = Inr c3" "c_bytes 32 c3 = Inr (rnd, c4)"
    "c_u8 c4 = Inr (of_nat (length sid), c5)" "c_pos c5 = c_pos c2 + 35" "c_skip (length sid) c5 = Inr c6"
    "c_skip_vec_u16 c6 = Inr c7" "c_skip_vec_u8 c7 = Inr c8" "cursor_ok c8" "c_end c8 = c_end c2"
    "cview c8 = vec16 (concat (map ext_bytes exts))"
proof -
  let ?E = "vec16 (concat (map ext_bytes exts))"
  let ?C = "(of_nat (length cmps) # cmps) @ ?E"
  have v2: "cview c2 = ver @ (rnd @ [of_nat (length sid)] @ sid @ vec16 suites @ ?C)"
    using assms(2) by (simp add: hello_body_def)
  note A3 = cview_adv [OF assms(1) v2]
  note A4 = cview_adv [OF A3(1,2)]
  note A5 = cview_adv [OF A4(1,2)]
  note A6 = cview_adv [OF A5(1,2)]
  note A7 = cview_adv [OF A6(1,2)]
  note A8 = cview_adv [OF A7(1,2)]
  show ?thesis
  proof (rule that)
    show "c_skip 2 c2 = Inr (adv (length ver) c2)" using c_skip_view [OF assms(1) v2] assms(3) by simp
    show "c_bytes 32 (adv (length ver) c2) = Inr (rnd, adv (length rnd) (adv (length ver) c2))"
      using c_bytes_view [OF A3(1,2)] assms(4) by simp
    show "c_u8 (adv (length rnd) (adv (length ver) c2)) = Inr (of_nat (length sid), adv (length [of_nat (length sid) :: byte]) (adv (length rnd) (adv (length ver) c2)))"
      using c_u8_view [OF A4(1)] A4(2) by simp
    show "c_pos (adv (length [of_nat (length sid) :: byte]) (adv (length rnd) (adv (length ver) c2))) = c_pos c2 + 35"
      using assms(3,4) by simp
    show "c_skip (length sid) (adv (length [of_nat (length sid) :: byte]) (adv (length rnd) (adv (length ver) c2)))
        = Inr (adv (length sid) (adv (length [of_nat (length sid) :: byte]) (adv (length rnd) (adv (length ver) c2))))"
      by (rule c_skip_view [OF A5(1,2)])
  qed (use skip_vec_u16_view [OF A6(1,2) assms(6)] skip_vec_u8_view [OF A7(1,2) assms(7)] A8 in simp_all)
qed

lemma client_hello_decodes_aux:
  assumes "length rec_ver = 2" "length ver = 2" "length rnd = 32" "length sid < 2 ^ 8" "length suites < 2 ^ 16"
    "length cmps < 2 ^ 8" "list_all ext_wf exts" "length (hello_body ver rnd sid suites cmps exts) \<le> 16384"
  shows "parse_client_hello (hello_record rec_ver (hello_body ver rnd sid suites cmps exts) @ rest) =
    (case fold ext_meaning exts (None, False, None) of (host, tls13, share) \<Rightarrow>
       Inr \<lparr>record_len = 9 + length (hello_body ver rnd sid suites cmps exts), client_random = rnd,
         session_id_range = (44, 44 + length sid), sni = host, tls13_supported = tls13, x25519_key_share = share\<rparr>)"
proof -
  define body where "body = hello_body ver rnd sid suites cmps exts"
  define c0 where "c0 = cursor_new (hello_record rec_ver body @ rest) TLS_HEADER_LEN (9 + length body)"
  have c0: "cursor_ok c0" "cview c0 = [HANDSHAKE_CLIENT_HELLO] @ be_bytes 3 (of_nat (length body) :: u32) @ body"
    using hello_record_cursor [OF assms(1)] by (simp_all add: c0_def)
  have u24: "unat (of_nat (length body) :: u32) = length body"
    using assms(8) by (simp add: body_def unsigned_of_nat take_bit_nat_eq_self)
  note A1 = cview_adv [OF c0]
  note A2 = cview_adv [OF A1(1,2)]
  define c2 where "c2 = adv 3 (adv 1 c0)"
  have c2: "cursor_ok c2" "cview c2 = body" "c_pos c2 = 9" "c_end c2 = 9 + length body"
    using A2 by (simp_all add: c2_def c0_def TLS_HEADER_LEN_def)
  have r1: "c_u8 c0 = Inr (HANDSHAKE_CLIENT_HELLO, adv 1 c0)" using c_u8_view [OF c0(1)] c0(2) by simp
  have r2: "c_u24 (adv 1 c0) = Inr (of_nat (length body), c2)"
    unfolding c2_def by (rule c_u24_view) (use A1 u24 assms(8) in \<open>simp_all add: body_def\<close>)
  have E: "length (concat (map ext_bytes exts)) < 2 ^ 16"
    using assms(8) by (simp add: hello_body_def length_vec16)
  obtain c3 c4 c5 c6 c7 c8 where S: "c_skip 2 c2 = Inr c3" "c_bytes 32 c3 = Inr (rnd, c4)"
    "c_u8 c4 = Inr (of_nat (length sid), c5)" "c_pos c5 = c_pos c2 + 35" "c_skip (length sid) c5 = Inr c6"
    "c_skip_vec_u16 c6 = Inr c7" "c_skip_vec_u8 c7 = Inr c8" "cursor_ok c8" "c_end c8 = c_end c2"
    "cview c8 = vec16 (concat (map ext_bytes exts))"
    by (rule hello_body_steps [OF c2(1) c2(2) [unfolded body_def] assms(2-6)])
  have X: "ch_extensions (9 + length body) c8 = Inr (fold ext_meaning exts (None, False, None))"
    by (rule ch_extensions_view [OF S(8,10) assms(7) E]) (use S(9) c2(4) assms(8) in \<open>simp_all add: body_def\<close>)
  have L: "checked_add_usize 9 (length body) = Some (9 + length body)"
    by (rule checked_add_small) (use assms(8) in \<open>simp add: body_def\<close>)
  have "length body \<le> 16384" using assms(8) by (simp add: body_def)
  note H = hello_record_header [OF assms(1) this]
  show ?thesis
    unfolding body_def [symmetric] parse_client_hello_def H(1)
    using H(2) r1 r2 u24 c2 L S X unat_of_nat_u8 [OF assms(4)]
    by (simp flip: c0_def split: prod.splits)
qed

text \<open>C28. The ClientHello parser returns what the message says: for a record built from a version, a random, a
  session id, suites, compression methods and extensions, whatever bytes follow it, the parser returns the
  random, the place of the session id, and the fields given by the extensions in order: the first host name,
  whether TLS 1.3 is offered, and the first 32-byte X25519 share.\<close>

theorem client_hello_decodes:
  assumes "length rec_ver = 2" "length ver = 2" "length rnd = 32" "length sid < 2 ^ 8" "length suites < 2 ^ 16"
    "length cmps < 2 ^ 8" "list_all ext_wf exts" "length (hello_body ver rnd sid suites cmps exts) \<le> 16384"
  shows "parse_client_hello (hello_record rec_ver (hello_body ver rnd sid suites cmps exts) @ rest) =
    (case fold ext_meaning exts (None, False, None) of (host, tls13, share) \<Rightarrow>
       Inr \<lparr>record_len = 9 + length (hello_body ver rnd sid suites cmps exts), client_random = rnd,
         session_id_range = (44, 44 + length sid), sni = host, tls13_supported = tls13, x25519_key_share = share\<rparr>)"
  by (rule client_hello_decodes_aux [OF assms])

theorem client_hello_decodes_witness:
  "parse_client_hello (hello_record [3, 1] (hello_body [3, 3] (replicate 32 7) [1] [0x13, 1] [0]
      [ServerNames [(0, [0x61])], SupportedVersions [0x0303, 0x0304]]) @ [99]) =
    Inr \<lparr>record_len = 9 + length (hello_body [3, 3] (replicate 32 7) [1] [0x13, 1] [0]
        [ServerNames [(0, [0x61])], SupportedVersions [0x0303, 0x0304]]), client_random = replicate 32 7,
      session_id_range = (44, 45), sni = Some [0x61], tls13_supported = True, x25519_key_share = None\<rparr>"
proof -
  let ?exts = "[ServerNames [(0, [0x61])], SupportedVersions [0x0303, 0x0304]]"
  have "length (hello_body [3, 3] (replicate 32 7) [1] [0x13, 1] [0] ?exts) \<le> 16384"
    by (simp add: hello_body_def length_vec16 ext_bytes_def)
  then show ?thesis
    using client_hello_decodes [of "[3, 1]" "[3, 3]" "replicate 32 7" "[1]" "[0x13, 1]" "[0]" ?exts "[99]"]
    by (simp add: TLS13_VERSION_def)
qed

end
