(* ===== verification/Auth.thy ===== *)
theory Auth
  imports Session Tls_Hello
begin

text \<open>
  Client authentication inside the ClientHello: \<open>crypto/auth.rs\<close>. The client hides its X25519 public key in the
  random and a tag and an encrypted tail (timestamp and nonce) in the session id; the server recovers and
  verifies them. HMAC-SHA256 is the parameter \<open>hm\<close> (key, then message), HKDF and X25519 are those of the
  session theory; the clock and the random bytes are arguments. Zeroizing has no effect on values.
\<close>

unbundle bit_operations_syntax

definition SESSION_ID_LEN :: nat where "SESSION_ID_LEN = 32"
definition AUTH_TAG_LEN :: nat where "AUTH_TAG_LEN = 16"
definition STATEFUL_AUTH_TAIL_LEN :: nat where "STATEFUL_AUTH_TAIL_LEN = SESSION_ID_LEN - AUTH_TAG_LEN"
definition AUTH_TIMESTAMP_LEN :: nat where "AUTH_TIMESTAMP_LEN = 8"
definition AUTH_NONCE_LEN :: nat where "AUTH_NONCE_LEN = STATEFUL_AUTH_TAIL_LEN - AUTH_TIMESTAMP_LEN"

lemmas auth_lens = SESSION_ID_LEN_def AUTH_TAG_LEN_def STATEFUL_AUTH_TAIL_LEN_def AUTH_TIMESTAMP_LEN_def AUTH_NONCE_LEN_def

record client_auth =
  authenticated :: bool
  au_sni :: "bytes option"
  au_x25519_key_share :: "bytes option"
  timestamp :: "u64 option"
  nonce :: "bytes option"

record stateful_auth_material =
  x25519_public :: bytes
  tail :: bytes

datatype auth_error =
    AuEmptyPsk | AuClientHello client_hello_error | InvalidSessionIdLen | AuHkdf | AuDegenerateSharedSecret | Clock | AuPanic

section \<open>Keys\<close>

definition reject_degenerate_shared_secret :: "bytes \<Rightarrow> auth_error + unit" where
  "reject_degenerate_shared_secret shared =
     (if shared = replicate 32 0 then Inl AuDegenerateSharedSecret else Inr ())"

definition derive_auth_key_from_shared :: "hkdf \<Rightarrow> bytes \<Rightarrow> bytes \<Rightarrow> auth_error + bytes" where
  "derive_auth_key_from_shared H psk shared =
     (if psk = [] then Inl AuEmptyPsk
      else and_then (reject_degenerate_shared_secret shared) (\<lambda>_.
        ok_or (h_expand H (h_extract H psk shared) (ascii ''ParallaX v1 ClientHello authentication'') 32) AuHkdf))"

definition derive_auth_key :: "hkdf \<Rightarrow> x25519 \<Rightarrow> bytes \<Rightarrow> bytes \<Rightarrow> bytes \<Rightarrow> auth_error + bytes" where
  "derive_auth_key H X psk private peer_public =
     (if psk = [] then Inl AuEmptyPsk
      else derive_auth_key_from_shared H psk (x_shared X private peer_public))"

definition derive_client_auth_key :: "hkdf \<Rightarrow> x25519 \<Rightarrow> bytes \<Rightarrow> bytes \<Rightarrow> bytes \<Rightarrow> auth_error + bytes" where
  "derive_client_auth_key H X psk client_private server_public = derive_auth_key H X psk client_private server_public"

definition derive_server_auth_key :: "hkdf \<Rightarrow> x25519 \<Rightarrow> bytes \<Rightarrow> bytes \<Rightarrow> bytes \<Rightarrow> auth_error + bytes" where
  "derive_server_auth_key H X psk server_private client_public = derive_auth_key H X psk server_private client_public"

definition derive_client_auth_key_from_shared :: "hkdf \<Rightarrow> bytes \<Rightarrow> bytes \<Rightarrow> auth_error + bytes" where
  "derive_client_auth_key_from_shared H psk shared = derive_auth_key_from_shared H psk shared"

definition derive_server_auth_key_from_shared :: "hkdf \<Rightarrow> bytes \<Rightarrow> bytes \<Rightarrow> auth_error + bytes" where
  "derive_server_auth_key_from_shared H psk shared = derive_auth_key_from_shared H psk shared"

definition derive_mask_key :: "hkdf \<Rightarrow> bytes \<Rightarrow> bytes \<Rightarrow> auth_error + bytes" where
  "derive_mask_key H psk mask_ecdh =
     (if psk = [] then Inl AuEmptyPsk
      else ok_or (h_expand H (h_extract H psk mask_ecdh) (ascii ''ParallaX v4 ClientHello carrier mask key'') 32) AuHkdf)"

section \<open>Masks and the tag\<close>

definition stateful_mask :: "hmac \<Rightarrow> bytes \<Rightarrow> bytes \<Rightarrow> bytes \<Rightarrow> bytes \<Rightarrow> bytes \<Rightarrow> auth_error + bytes" where
  "stateful_mask hm mask_key label host fst_part snd_part =
     Inr (hm mask_key (label @ u16_len host @ host @ u16_len fst_part @ fst_part @ u16_len snd_part @ snd_part))"

definition stateful_client_random_mask :: "hmac \<Rightarrow> bytes \<Rightarrow> bytes \<Rightarrow> bytes \<Rightarrow> auth_error + bytes" where
  "stateful_client_random_mask hm mask_key host tl0 =
     stateful_mask hm mask_key (ascii ''ParallaX v4 ClientHello.random mask'') host tl0 []"

definition stateful_auth_tail_mask :: "hmac \<Rightarrow> bytes \<Rightarrow> bytes \<Rightarrow> bytes \<Rightarrow> auth_error + bytes" where
  "stateful_auth_tail_mask hm mask_key host encoded_client_random =
     stateful_mask hm mask_key (ascii ''ParallaX v4 ClientHello session_id tail mask'') host encoded_client_random []"

definition encode_stateful_auth_tail :: "hmac \<Rightarrow> bytes \<Rightarrow> bytes \<Rightarrow> bytes \<Rightarrow> bytes \<Rightarrow> auth_error + bytes" where
  "encode_stateful_auth_tail hm mask_key host encoded_client_random tl0 =
     and_then (stateful_auth_tail_mask hm mask_key host encoded_client_random) (\<lambda>msk. Inr (xor_bytes tl0 msk))"

definition decode_stateful_auth_tail :: "hmac \<Rightarrow> bytes \<Rightarrow> bytes \<Rightarrow> bytes \<Rightarrow> bytes \<Rightarrow> auth_error + bytes" where
  "decode_stateful_auth_tail hm mask_key host encoded_client_random encoded_tail =
     and_then (stateful_auth_tail_mask hm mask_key host encoded_client_random) (\<lambda>msk. Inr (xor_bytes encoded_tail msk))"

definition decode_stateful_auth_material ::
  "hmac \<Rightarrow> bytes \<Rightarrow> bytes \<Rightarrow> bytes \<Rightarrow> bytes \<Rightarrow> auth_error + stateful_auth_material" where
  "decode_stateful_auth_material hm mask_key host encoded_client_random encoded_tail =
     and_then (decode_stateful_auth_tail hm mask_key host encoded_client_random encoded_tail) (\<lambda>tl0.
     and_then (stateful_client_random_mask hm mask_key host tl0) (\<lambda>msk.
     Inr \<lparr>x25519_public = xor_bytes encoded_client_random msk, tail = tl0\<rparr>))"

definition compute_masked_stateful_tag ::
  "hmac \<Rightarrow> bytes \<Rightarrow> bytes \<Rightarrow> bytes \<Rightarrow> bytes \<Rightarrow> bytes \<Rightarrow> bytes \<Rightarrow> auth_error + bytes" where
  "compute_masked_stateful_tag hm auth_key host parallax_public tl0 encoded_client_random encoded_tail =
     (if auth_key = [] then Inl AuEmptyPsk
      else Inr (take AUTH_TAG_LEN (hm auth_key
        (ascii ''ParallaX v3 masked stateful rustls ClientHello auth'' @ u16_len host @ host @ parallax_public @ tl0
          @ encoded_client_random @ encoded_tail))))"

section \<open>The client\<close>

definition build_masked_stateful_client_random ::
  "hkdf \<Rightarrow> hmac \<Rightarrow> bytes \<Rightarrow> bytes \<Rightarrow> bytes \<Rightarrow> bytes \<Rightarrow> bytes \<Rightarrow> auth_error + bytes" where
  "build_masked_stateful_client_random H hm psk mask_ecdh host parallax_public tl0 =
     and_then (derive_mask_key H psk mask_ecdh) (\<lambda>mask_key.
     and_then (stateful_client_random_mask hm mask_key host tl0) (\<lambda>msk.
     Inr (xor_bytes parallax_public msk)))"

definition build_masked_stateful_auth_session_id ::
  "hkdf \<Rightarrow> hmac \<Rightarrow> bytes \<Rightarrow> bytes \<Rightarrow> bytes \<Rightarrow> bytes \<Rightarrow> bytes \<Rightarrow> bytes \<Rightarrow> bytes \<Rightarrow> auth_error + bytes" where
  "build_masked_stateful_auth_session_id H hm psk mask_ecdh auth_key host parallax_public encoded_client_random tl0 =
     and_then (derive_mask_key H psk mask_ecdh) (\<lambda>mask_key.
     and_then (encode_stateful_auth_tail hm mask_key host encoded_client_random tl0) (\<lambda>encoded_tail.
     and_then (compute_masked_stateful_tag hm auth_key host parallax_public tl0 encoded_client_random encoded_tail) (\<lambda>tag.
     Inr (tag @ encoded_tail))))"

definition build_auth_tail_at :: "u64 \<Rightarrow> bytes \<Rightarrow> bytes" where
  "build_auth_tail_at ts rng_bytes = be_bytes 8 ts @ rng_bytes"

text \<open>The clock: \<open>None\<close> when the system time is before the epoch.\<close>

definition current_unix_timestamp :: "u64 option \<Rightarrow> auth_error + u64" where
  "current_unix_timestamp now = ok_or now Clock"

definition build_auth_tail :: "u64 option \<Rightarrow> bytes \<Rightarrow> auth_error + bytes" where
  "build_auth_tail now rng_bytes =
     and_then (current_unix_timestamp now) (\<lambda>ts. Inr (build_auth_tail_at ts rng_bytes))"

section \<open>The server\<close>

definition range_len :: "nat \<times> nat \<Rightarrow> nat" where
  "range_len r = snd r - fst r"

definition recover_from_parsed ::
  "hkdf \<Rightarrow> hmac \<Rightarrow> bytes \<Rightarrow> bytes \<Rightarrow> bytes \<Rightarrow> client_hello \<Rightarrow> auth_error + stateful_auth_material option" where
  "recover_from_parsed H hm rec psk mask_ecdh parsed =
     (if range_len (session_id_range parsed) \<noteq> SESSION_ID_LEN then Inr None
      else
        (case sni parsed of
           None \<Rightarrow> Inr None
         | Some host \<Rightarrow>
             and_then (derive_mask_key H psk mask_ecdh) (\<lambda>mask_key.
             and_then (ok_or (get_range rec (fst (session_id_range parsed) + AUTH_TAG_LEN) (snd (session_id_range parsed))) AuPanic) (\<lambda>encoded_tail.
             and_then (decode_stateful_auth_material hm mask_key host (client_random parsed) encoded_tail) (\<lambda>material.
             Inr (Some material))))))"

definition recover_stateful_auth_material ::
  "hkdf \<Rightarrow> hmac \<Rightarrow> bytes \<Rightarrow> bytes \<Rightarrow> bytes \<Rightarrow> auth_error + stateful_auth_material option" where
  "recover_stateful_auth_material H hm rec psk mask_ecdh =
     and_then (map_err AuClientHello (parse_client_hello rec)) (\<lambda>parsed. recover_from_parsed H hm rec psk mask_ecdh parsed)"

definition auth_tail_timestamp_nonce :: "bytes \<Rightarrow> u64 \<times> bytes" where
  "auth_tail_timestamp_nonce tl0 = (from_be (take AUTH_TIMESTAMP_LEN tl0), drop AUTH_TIMESTAMP_LEN tl0)"

definition verify_with_parsed_material ::
  "hmac \<Rightarrow> bytes \<Rightarrow> bytes \<Rightarrow> stateful_auth_material \<Rightarrow> client_hello \<Rightarrow> auth_error + client_auth" where
  "verify_with_parsed_material hm rec auth_key material parsed =
     (if auth_key = [] then Inl AuEmptyPsk
      else if range_len (session_id_range parsed) \<noteq> SESSION_ID_LEN then
        Inr \<lparr>authenticated = False, au_sni = sni parsed, au_x25519_key_share = Some (x25519_public material),
          timestamp = None, nonce = None\<rparr>
      else
        let (ts, nce) = auth_tail_timestamp_nonce (tail material)
        in case sni parsed of
             None \<Rightarrow>
               Inr \<lparr>authenticated = False, au_sni = sni parsed, au_x25519_key_share = Some (x25519_public material),
                 timestamp = Some ts, nonce = Some nce\<rparr>
           | Some host \<Rightarrow>
               let start = fst (session_id_range parsed)
               in and_then (ok_or (get_range rec start (start + AUTH_TAG_LEN)) AuPanic) (\<lambda>actual.
                  and_then (ok_or (get_range rec (start + AUTH_TAG_LEN) (snd (session_id_range parsed))) AuPanic) (\<lambda>encoded_tail.
                  and_then (compute_masked_stateful_tag hm auth_key host (x25519_public material) (tail material)
                      (client_random parsed) encoded_tail) (\<lambda>expected.
                  Inr \<lparr>authenticated = (actual = expected), au_sni = sni parsed,
                    au_x25519_key_share = Some (x25519_public material), timestamp = Some ts, nonce = Some nce\<rparr>))))"

definition verify_with_material :: "hmac \<Rightarrow> bytes \<Rightarrow> bytes \<Rightarrow> stateful_auth_material \<Rightarrow> auth_error + client_auth" where
  "verify_with_material hm rec auth_key material =
     and_then (map_err AuClientHello (parse_client_hello rec)) (\<lambda>parsed.
       verify_with_parsed_material hm rec auth_key material parsed)"

section \<open>Lemmas\<close>

lemma auth_tail_roundtrip: "auth_tail_timestamp_nonce (build_auth_tail_at ts r) = (ts, r)"
  by (simp add: auth_tail_timestamp_nonce_def build_auth_tail_at_def AUTH_TIMESTAMP_LEN_def from_be_be_bytes_full)

lemma derive_auth_key_agree:
  assumes "x25519_agrees X"
  shows "derive_client_auth_key H X psk a (x_public X b) = derive_server_auth_key H X psk b (x_public X a)"
  using assms by (simp add: derive_client_auth_key_def derive_server_auth_key_def derive_auth_key_def x25519_agrees_def)

lemma derive_mask_key_ok:
  assumes "hkdf_correct H" "psk \<noteq> []"
  obtains k where "derive_mask_key H psk ecdh = Inr k"
  using h_expand_ok [OF assms(1), of 32] assms(2) by (metis derive_mask_key_def le_refl ok_or_simps(2))

lemma derive_auth_key_nonempty:
  assumes "hkdf_correct H" "derive_auth_key H X psk a b = Inr k"
  shows "k \<noteq> []" "psk \<noteq> []"
proof -
  obtain out where o: "h_expand H (h_extract H psk (x_shared X a b)) (ascii ''ParallaX v1 ClientHello authentication'') 32 = Some out"
    "length out = 32"
    by (rule h_expand_ok [OF assms(1), of 32]) simp_all
  then show "k \<noteq> []" "psk \<noteq> []"
    using assms(2) by (auto simp: derive_auth_key_def derive_auth_key_from_shared_def and_then_eq_Inr split: if_splits)
qed

text \<open>Unmasking: from the random and the tail of the session id the server gets back the key and the tail.\<close>

lemma decode_material_encode:
  assumes "hmac_correct hm" "length tl0 = 16" "length pub = 32"
    "stateful_client_random_mask hm mk host tl0 = Inr msk" "rnd = xor_bytes pub msk"
    "encode_stateful_auth_tail hm mk host rnd tl0 = Inr et"
  shows "decode_stateful_auth_material hm mk host rnd et = Inr \<lparr>x25519_public = pub, tail = tl0\<rparr>"
proof -
  have m: "length msk = 32" using assms(1,4) by (auto simp: stateful_client_random_mask_def stateful_mask_def hmac_correct_def)
  obtain tm where tm: "stateful_auth_tail_mask hm mk host rnd = Inr tm" "length tm = 32"
    using assms(1) by (simp add: stateful_auth_tail_mask_def stateful_mask_def hmac_correct_def)
  then have "decode_stateful_auth_tail hm mk host rnd et = Inr tl0"
    using assms(2,6) xor_bytes_involutive [of tl0 tm] by (simp add: encode_stateful_auth_tail_def decode_stateful_auth_tail_def)
  then show ?thesis
    using assms(3-5) m xor_bytes_involutive [of pub msk] by (simp add: decode_stateful_auth_material_def)
qed

lemma get_range_parts:
  "rec = a @ b @ c \<Longrightarrow> i = length a \<Longrightarrow> j = length a + length b \<Longrightarrow> get_range rec i j = Some b"
  by (simp add: get_range_def)

text \<open>Where the session id stands in a record built as in the wire format.\<close>

lemma hello_record_sid:
  assumes "length rec_ver = 2" "length ver = 2" "length rnd = 32"
  shows "\<exists>pre post. hello_record rec_ver (hello_body ver rnd sid suites cmps exts) @ rest = pre @ sid @ post \<and> length pre = 44"
  using assms
  by (intro exI [of _ "TLS_CONTENT_HANDSHAKE # rec_ver @ be_bytes 2 (of_nat (length (HANDSHAKE_CLIENT_HELLO
        # be_bytes 3 (of_nat (length (hello_body ver rnd sid suites cmps exts)) :: u32) @ hello_body ver rnd sid suites cmps exts)) :: u16)
        @ HANDSHAKE_CLIENT_HELLO # be_bytes 3 (of_nat (length (hello_body ver rnd sid suites cmps exts)) :: u32) @ ver @ rnd @ [of_nat (length sid)]"]
      exI [of _ "vec16 suites @ [of_nat (length cmps)] @ cmps @ vec16 (concat (map ext_bytes exts)) @ rest"])
    (simp add: hello_record_def vec16_def [of "_ # _"] hello_body_def)

text \<open>The server on a hello that carries the client's random and session id.\<close>

lemma server_accepts:
  assumes "hkdf_correct H" "hmac_correct hm" "length tl0 = 16" "length pub = 32" "ak \<noteq> []"
    "build_masked_stateful_client_random H hm psk ecdh host pub tl0 = Inr rnd"
    "build_masked_stateful_auth_session_id H hm psk ecdh ak host pub rnd tl0 = Inr sid"
    "parse_client_hello rec = Inr parsed" "sni parsed = Some host" "client_random parsed = rnd"
    "session_id_range parsed = (44, 44 + length sid)" "rec = pre @ sid @ post" "length pre = 44"
  shows "recover_stateful_auth_material H hm rec psk ecdh = Inr (Some \<lparr>x25519_public = pub, tail = tl0\<rparr>)"
    and "map_sum id (\<lambda>a. (authenticated a, timestamp a, nonce a, au_x25519_key_share a))
      (verify_with_material hm rec ak \<lparr>x25519_public = pub, tail = tl0\<rparr>) =
      Inr (True, Some (from_be (take 8 tl0)), Some (drop 8 tl0), Some pub)"
proof -
  obtain mk msk where mk: "derive_mask_key H psk ecdh = Inr mk" "stateful_client_random_mask hm mk host tl0 = Inr msk"
    and rnd: "rnd = xor_bytes pub msk"
    using assms(6) by (auto simp: build_masked_stateful_client_random_def and_then_eq_Inr)
  obtain et tag where et: "encode_stateful_auth_tail hm mk host rnd tl0 = Inr et"
    "compute_masked_stateful_tag hm ak host pub tl0 rnd et = Inr tag" "sid = tag @ et"
    using assms(7) mk(1) by (auto simp: build_masked_stateful_auth_session_id_def and_then_eq_Inr)
  have l: "length tag = 16" "length et = 16"
    using et(1,2) assms(2,3,5)
    by (auto simp: compute_masked_stateful_tag_def encode_stateful_auth_tail_def stateful_auth_tail_mask_def
        stateful_mask_def hmac_correct_def AUTH_TAG_LEN_def)
  have r: "get_range rec 44 60 = Some tag" "get_range rec 60 76 = Some et"
    by (rule get_range_parts [of _ pre _ "et @ post"] get_range_parts [of _ "pre @ tag" _ post];
        simp add: assms(12,13) et(3) l)+
  show "recover_stateful_auth_material H hm rec psk ecdh = Inr (Some \<lparr>x25519_public = pub, tail = tl0\<rparr>)"
    using decode_material_encode [OF assms(2,3,4) mk(2) rnd et(1)] r(2) mk(1) l
    by (simp add: recover_stateful_auth_material_def recover_from_parsed_def range_len_def assms(8-11) et(3) auth_lens)
  show "map_sum id (\<lambda>a. (authenticated a, timestamp a, nonce a, au_x25519_key_share a))
      (verify_with_material hm rec ak \<lparr>x25519_public = pub, tail = tl0\<rparr>) =
      Inr (True, Some (from_be (take 8 tl0)), Some (drop 8 tl0), Some pub)"
    using r et l by (simp add: verify_with_material_def verify_with_parsed_material_def assms(5,8-11) range_len_def auth_lens
        auth_tail_timestamp_nonce_def)
qed

text \<open>C5. A client that knows the pre-shared key and the server's public key authenticates: when it puts the masked
  key into the random and the tag and masked tail into the session id of any well-formed ClientHello with its
  host name, the server recovers the client's public key and the tail, derives the same authentication key
  from its own private key, accepts the tag, and reads the timestamp and nonce the client sent.\<close>

theorem client_hello_authenticates:
  assumes "hkdf_correct H" "hmac_correct hm" "x25519_agrees X" "length (x_public X cpriv) = 32" "length rng_bytes = 8"
    "derive_client_auth_key H X psk cpriv (x_public X spriv) = Inr ak"
    "ecdh = x_shared X eph (x_public X spriv)"
    "build_masked_stateful_client_random H hm psk ecdh host (x_public X cpriv) (build_auth_tail_at ts rng_bytes) = Inr rnd"
    "build_masked_stateful_auth_session_id H hm psk ecdh ak host (x_public X cpriv) rnd (build_auth_tail_at ts rng_bytes) = Inr sid"
    "length rec_ver = 2" "length ver = 2" "length suites < 2 ^ 16" "length cmps < 2 ^ 8" "list_all ext_wf exts"
    "length (hello_body ver rnd sid suites cmps exts) \<le> 16384"
    "fold ext_meaning exts (None, False, None) = (Some host, tls13, share)"
    "rec = hello_record rec_ver (hello_body ver rnd sid suites cmps exts)"
  shows "\<exists>m. recover_stateful_auth_material H hm rec psk (x_shared X spriv (x_public X eph)) = Inr (Some m) \<and>
    x25519_public m = x_public X cpriv \<and>
    derive_server_auth_key H X psk spriv (x25519_public m) = Inr ak \<and>
    map_sum id (\<lambda>a. (authenticated a, timestamp a, nonce a)) (verify_with_material hm rec ak m) =
      Inr (True, Some ts, Some rng_bytes)"
proof -
  let ?tl = "build_auth_tail_at ts rng_bytes"
  have tl0: "length ?tl = 16" using assms(5) by (simp add: build_auth_tail_at_def)
  have ak: "ak \<noteq> []" using derive_auth_key_nonempty(1) [OF assms(1)] assms(6) by (simp add: derive_client_auth_key_def)
  have rnd: "length rnd = 32"
    using assms(2,4,8) by (auto simp: build_masked_stateful_client_random_def and_then_eq_Inr
        stateful_client_random_mask_def stateful_mask_def hmac_correct_def)
  have sid: "length sid < 2 ^ 8"
    using assms(2,9) tl0
    by (auto simp: build_masked_stateful_auth_session_id_def and_then_eq_Inr encode_stateful_auth_tail_def
        compute_masked_stateful_tag_def hmac_correct_def AUTH_TAG_LEN_def split: if_splits)
  note P = client_hello_decodes_aux [OF assms(10,11) rnd sid assms(12-15), of "[]", unfolded assms(16), simplified, folded assms(17)]
  obtain pre post where pp: "rec = pre @ sid @ post" "length pre = 44"
    using hello_record_sid [OF assms(10,11) rnd, of sid suites cmps exts "[]"] assms(17) by auto
  have e: "x_shared X spriv (x_public X eph) = ecdh" using assms(3,7) by (simp add: x25519_agrees_def)
  note S = server_accepts [OF assms(1,2) tl0 assms(4) ak assms(8,9) P, simplified, OF pp]
  have "derive_server_auth_key H X psk spriv (x_public X cpriv) = Inr ak"
    using derive_auth_key_agree [OF assms(3)] assms(6) by metis
  then show ?thesis
    using S unfolding e
    by (intro exI [of _ "\<lparr>x25519_public = x_public X cpriv, tail = ?tl\<rparr>"])
      (auto simp: map_sum_def auth_tail_roundtrip [unfolded auth_tail_timestamp_nonce_def AUTH_TIMESTAMP_LEN_def, simplified] split: sum.splits)
qed

theorem client_hello_authenticates_witness:
  "\<exists>sid m. build_masked_stateful_auth_session_id const_hkdf const_hmac [1] (x_shared sum_x25519 (replicate 32 9) (replicate 32 3))
      (replicate 32 1) [0x61] (replicate 32 2) (replicate 32 7) (build_auth_tail_at 1700000000 (replicate 8 4)) = Inr sid \<and>
    recover_stateful_auth_material const_hkdf const_hmac
      (hello_record [3, 1] (hello_body [3, 3] (replicate 32 7) sid [0x13, 1] [0] [ServerNames [(0, [0x61])]])) [1]
      (x_shared sum_x25519 (replicate 32 3) (x_public sum_x25519 (replicate 32 9))) = Inr (Some m) \<and>
    map_sum id (\<lambda>a. (authenticated a, timestamp a, nonce a)) (verify_with_material const_hmac
      (hello_record [3, 1] (hello_body [3, 3] (replicate 32 7) sid [0x13, 1] [0] [ServerNames [(0, [0x61])]])) (replicate 32 1) m) =
      Inr (True, Some 1700000000, Some (replicate 8 4))"
proof -
  let ?tl = "build_auth_tail_at 1700000000 (replicate 8 4)"
  define ecdh where "ecdh = x_shared sum_x25519 (replicate 32 9) (x_public sum_x25519 (replicate 32 3))"
  define sid where "sid = replicate 16 5 @ xor_bytes ?tl (replicate 32 5)"
  define rec where "rec = hello_record [3, 1] (hello_body [3, 3] (replicate 32 7) sid [0x13, 1] [0] [ServerNames [(0, [0x61])]])"
  have H: "hkdf_correct const_hkdf" by (simp add: hkdf_correct_def const_hkdf_def)
  have M: "hmac_correct const_hmac" by (simp add: hmac_correct_def const_hmac_def)
  have X: "x25519_agrees sum_x25519" by (simp add: x25519_agrees_def sum_x25519_def add.commute)
  have ak: "derive_client_auth_key const_hkdf sum_x25519 [1] (replicate 32 2) (x_public sum_x25519 (replicate 32 3)) = Inr (replicate 32 1)"
    by (simp add: derive_client_auth_key_def derive_auth_key_def derive_auth_key_from_shared_def
        reject_degenerate_shared_secret_def sum_x25519_def const_hkdf_def)
  have r: "build_masked_stateful_client_random const_hkdf const_hmac [1] ecdh [0x61] (x_public sum_x25519 (replicate 32 2)) ?tl = Inr (replicate 32 7)"
    by (simp add: build_masked_stateful_client_random_def derive_mask_key_def const_hkdf_def const_hmac_def sum_x25519_def
        stateful_client_random_mask_def stateful_mask_def xor_bytes_def zip_replicate)
  have s: "build_masked_stateful_auth_session_id const_hkdf const_hmac [1] ecdh (replicate 32 1) [0x61]
      (x_public sum_x25519 (replicate 32 2)) (replicate 32 7) ?tl = Inr sid"
    by (simp add: build_masked_stateful_auth_session_id_def derive_mask_key_def const_hkdf_def const_hmac_def
        encode_stateful_auth_tail_def stateful_auth_tail_mask_def stateful_mask_def compute_masked_stateful_tag_def
        AUTH_TAG_LEN_def sid_def)
  have l: "length sid = 32" by (simp add: sid_def build_auth_tail_at_def)
  have "\<exists>m. recover_stateful_auth_material const_hkdf const_hmac rec [1]
      (x_shared sum_x25519 (replicate 32 3) (x_public sum_x25519 (replicate 32 9))) = Inr (Some m) \<and>
    x25519_public m = x_public sum_x25519 (replicate 32 2) \<and>
    derive_server_auth_key const_hkdf sum_x25519 [1] (replicate 32 3) (x25519_public m) = Inr (replicate 32 1) \<and>
    map_sum id (\<lambda>a. (authenticated a, timestamp a, nonce a)) (verify_with_material const_hmac rec (replicate 32 1) m) =
      Inr (True, Some 1700000000, Some (replicate 8 4))"
    by (rule client_hello_authenticates [OF H M X _ _ ak ecdh_def r s, of "[3, 1]" "[3, 3]" "[0x13, 1]" "[0]"
          "[ServerNames [(0, [0x61])]]" False None])
      (simp_all add: sum_x25519_def rec_def hello_body_def l length_vec16 ext_bytes_def)
  then show ?thesis
    using s unfolding rec_def ecdh_def by (auto simp: sum_x25519_def)
qed

section \<open>Outcomes on any record\<close>

lemma parsed_ranges:
  assumes "parse_client_hello rec = Inr p" "range_len (session_id_range p) = SESSION_ID_LEN"
  obtains tag et where "get_range rec (fst (session_id_range p)) (fst (session_id_range p) + AUTH_TAG_LEN) = Some tag"
    "get_range rec (fst (session_id_range p) + AUTH_TAG_LEN) (snd (session_id_range p)) = Some et"
    "get_range rec (fst (session_id_range p)) (snd (session_id_range p)) = Some (tag @ et)"
    "length tag = 16" "length et = 16" "length (client_random p) = 32"
proof -
  obtain i j where ij: "session_id_range p = (i, j)" by (cases "session_id_range p")
  have "hello_ok rec p" using parse_client_hello_safe [of rec] assms(1) by simp
  then have j: "j = i + 32" "i + 32 \<le> length rec" "length (client_random p) = 32"
    using assms(2) by (auto simp: hello_ok_def range_len_def SESSION_ID_LEN_def ij)
  have "take 32 (drop i rec) = take 16 (drop i rec) @ take 16 (drop (i + 16) rec)"
    using take_add [of 16 16 "drop i rec"] by (simp add: add.commute)
  then show ?thesis
    using j by (intro that [of "take 16 (drop i rec)" "take 16 (drop (i + 16) rec)"])
      (simp_all add: get_range_def AUTH_TAG_LEN_def ij drop_take)
qed

text \<open>What the server unmasks, the client's builders mask back.\<close>

lemma decoded_rebuilds:
  assumes "hmac_correct hm" "length rnd = 32" "length et = 16" "derive_mask_key H psk ecdh = Inr mk"
    "decode_stateful_auth_material hm mk host rnd et = Inr m"
  shows "build_masked_stateful_client_random H hm psk ecdh host (x25519_public m) (tail m) = Inr rnd"
    and "build_masked_stateful_auth_session_id H hm psk ecdh ak host (x25519_public m) rnd (tail m) =
      and_then (compute_masked_stateful_tag hm ak host (x25519_public m) (tail m) rnd et) (\<lambda>tag. Inr (tag @ et))"
proof -
  obtain tm where tm: "stateful_auth_tail_mask hm mk host rnd = Inr tm" "length tm = 32"
    using assms(1) by (simp add: stateful_auth_tail_mask_def stateful_mask_def hmac_correct_def)
  obtain msk where msk: "stateful_client_random_mask hm mk host (xor_bytes et tm) = Inr msk" "length msk = 32"
    using assms(1) by (simp add: stateful_client_random_mask_def stateful_mask_def hmac_correct_def)
  have m: "x25519_public m = xor_bytes rnd msk" "tail m = xor_bytes et tm"
    using assms(5) tm msk by (auto simp: decode_stateful_auth_material_def decode_stateful_auth_tail_def)
  show "build_masked_stateful_client_random H hm psk ecdh host (x25519_public m) (tail m) = Inr rnd"
    using assms(2,4) msk m by (simp add: build_masked_stateful_client_random_def xor_bytes_involutive)
  show "build_masked_stateful_auth_session_id H hm psk ecdh ak host (x25519_public m) rnd (tail m) =
      and_then (compute_masked_stateful_tag hm ak host (x25519_public m) (tail m) rnd et) (\<lambda>tag. Inr (tag @ et))"
    using assms(3,4) tm m by (simp add: build_masked_stateful_auth_session_id_def encode_stateful_auth_tail_def xor_bytes_involutive)
qed

text \<open>C29. The server's decision on any bytes is exact, and none of its steps panics. A record that is not a
  ClientHello gives its parse error; one without a 32-byte session id or without a host name carries no material; an
  empty key is refused. In every other case the server recovers the one key and tail that the client's
  builder masks into this random, and it authenticates the record exactly when the session id in the record is the
  one the client's builder makes from them.\<close>

theorem auth_outcomes:
  assumes "hkdf_correct H" "hmac_correct hm"
  shows "case parse_client_hello rec of
      Inl e \<Rightarrow> recover_stateful_auth_material H hm rec psk ecdh = Inl (AuClientHello e) \<and>
        verify_with_material hm rec ak m0 = Inl (AuClientHello e)
    | Inr p \<Rightarrow>
        if range_len (session_id_range p) \<noteq> SESSION_ID_LEN \<or> sni p = None
        then recover_stateful_auth_material H hm rec psk ecdh = Inr None
        else if psk = [] then recover_stateful_auth_material H hm rec psk ecdh = Inl AuEmptyPsk
        else \<exists>m sid. recover_stateful_auth_material H hm rec psk ecdh = Inr (Some m) \<and>
          get_range rec (fst (session_id_range p)) (snd (session_id_range p)) = Some sid \<and>
          build_masked_stateful_client_random H hm psk ecdh (the (sni p)) (x25519_public m) (tail m) = Inr (client_random p) \<and>
          (if ak = [] then verify_with_material hm rec ak m = Inl AuEmptyPsk
           else \<exists>a. verify_with_material hm rec ak m = Inr a \<and>
             (authenticated a \<longleftrightarrow> build_masked_stateful_auth_session_id H hm psk ecdh ak (the (sni p))
                (x25519_public m) (client_random p) (tail m) = Inr sid))"
proof (cases "parse_client_hello rec")
  case (Inl e)
  then show ?thesis by (simp add: recover_stateful_auth_material_def verify_with_material_def)
next
  case (Inr p)
  show ?thesis
  proof (cases "range_len (session_id_range p) \<noteq> SESSION_ID_LEN \<or> sni p = None \<or> psk = []")
    case True
    then show ?thesis
      using Inr by (auto simp: recover_stateful_auth_material_def recover_from_parsed_def derive_mask_key_def split: option.splits)
  next
    case False
    then obtain host where h: "range_len (session_id_range p) = SESSION_ID_LEN" "sni p = Some host" "psk \<noteq> []" by auto
    obtain tag et where g: "get_range rec (fst (session_id_range p)) (fst (session_id_range p) + AUTH_TAG_LEN) = Some tag"
      "get_range rec (fst (session_id_range p) + AUTH_TAG_LEN) (snd (session_id_range p)) = Some et"
      "get_range rec (fst (session_id_range p)) (snd (session_id_range p)) = Some (tag @ et)"
      "length tag = 16" "length et = 16" "length (client_random p) = 32"
      by (rule parsed_ranges [OF Inr h(1)])
    obtain mk where mk: "derive_mask_key H psk ecdh = Inr mk" by (rule derive_mask_key_ok [OF assms(1) h(3)])
    obtain m where m: "decode_stateful_auth_material hm mk host (client_random p) et = Inr m"
      by (simp add: decode_stateful_auth_material_def decode_stateful_auth_tail_def stateful_auth_tail_mask_def
          stateful_client_random_mask_def stateful_mask_def)
    note B = decoded_rebuilds [OF assms(2) g(6,5) mk m]
    have "recover_stateful_auth_material H hm rec psk ecdh = Inr (Some m)"
      using Inr h g mk m by (simp add: recover_stateful_auth_material_def recover_from_parsed_def)
    moreover have "if ak = [] then verify_with_material hm rec ak m = Inl AuEmptyPsk
       else \<exists>a. verify_with_material hm rec ak m = Inr a \<and>
         (authenticated a \<longleftrightarrow> build_masked_stateful_auth_session_id H hm psk ecdh ak host
            (x25519_public m) (client_random p) (tail m) = Inr (tag @ et))"
      using Inr h g by (auto simp: B(2) verify_with_material_def verify_with_parsed_material_def compute_masked_stateful_tag_def
          Let_def split: prod.splits)
    ultimately show ?thesis using Inr h g(3) B(1) by auto
  qed
qed

text \<open>A hello with the tag of the example cipher, and one with another tag.\<close>

definition example_hello :: "byte \<Rightarrow> bytes" where
  "example_hello t = hello_record [3, 1] (hello_body [3, 3] (replicate 32 7)
     (replicate 16 t @ replicate 16 4) [0x13, 1] [0] [ServerNames [(0, [0x61])]])"

lemma example_hello_parses: "\<exists>p. parse_client_hello (example_hello t) = Inr p \<and> session_id_range p = (44, 76) \<and> sni p = Some [0x61] \<and>
    client_random p = replicate 32 7"
  unfolding example_hello_def
  by (subst client_hello_decodes_aux [where rest = "[]", unfolded append_Nil2])
    (simp_all add: hello_body_def length_vec16 ext_bytes_def)

lemma example_hello_sid: "get_range (example_hello t) 44 76 = Some (replicate 16 t @ replicate 16 4)"
proof -
  obtain pre post where "example_hello t = pre @ (replicate 16 t @ replicate 16 4) @ post" "length pre = 44"
    using hello_record_sid [of "[3, 1]" "[3, 3]" "replicate 32 7" "replicate 16 t @ replicate 16 4" "[0x13, 1]" "[0]"
        "[ServerNames [(0, [0x61])]]" "[]"] unfolding example_hello_def by auto
  then show ?thesis by (intro get_range_parts [of _ pre _ post]) simp_all
qed

theorem auth_outcomes_witness:
  "recover_stateful_auth_material const_hkdf const_hmac [] [1] [] = Inl (AuClientHello (ChRecord IncompleteHeader)) \<and>
   (\<exists>m a. recover_stateful_auth_material const_hkdf const_hmac (example_hello 5) [1] [9] = Inr (Some m) \<and>
      verify_with_material const_hmac (example_hello 5) [1] m = Inr a \<and> authenticated a) \<and>
   (\<exists>m a. recover_stateful_auth_material const_hkdf const_hmac (example_hello 6) [1] [9] = Inr (Some m) \<and>
      verify_with_material const_hmac (example_hello 6) [1] m = Inr a \<and> \<not> authenticated a)"
proof -
  have H: "hkdf_correct const_hkdf" "hmac_correct const_hmac"
    by (simp_all add: hkdf_correct_def const_hkdf_def hmac_correct_def const_hmac_def)
  have sid: "build_masked_stateful_auth_session_id const_hkdf const_hmac [1] [9] [1] [0x61] pub rnd tl0 =
      Inr (replicate 16 5 @ xor_bytes tl0 (replicate 32 5))" for pub rnd tl0
    by (simp add: build_masked_stateful_auth_session_id_def derive_mask_key_def const_hkdf_def const_hmac_def
        encode_stateful_auth_tail_def stateful_auth_tail_mask_def stateful_mask_def compute_masked_stateful_tag_def
        AUTH_TAG_LEN_def)
  have E: "\<exists>m a. recover_stateful_auth_material const_hkdf const_hmac (example_hello t) [1] [9] = Inr (Some m) \<and>
      verify_with_material const_hmac (example_hello t) [1] m = Inr a \<and>
      (authenticated a \<longleftrightarrow> replicate 16 5 @ xor_bytes (tail m) (replicate 32 5) = replicate 16 t @ replicate 16 4)" for t
  proof -
    obtain p where p: "parse_client_hello (example_hello t) = Inr p" "session_id_range p = (44, 76)" "sni p = Some [0x61]"
      using example_hello_parses by blast
    show ?thesis
      using auth_outcomes [OF H, of "example_hello t" "[1]" "[9]" "[1]" undefined] p example_hello_sid [of t]
      by (auto simp: range_len_def SESSION_ID_LEN_def sid)
  qed
  have T: "tail m = replicate 16 1" if "recover_stateful_auth_material const_hkdf const_hmac (example_hello t) [1] [9] = Inr (Some m)" for m t
  proof -
    obtain p where p: "parse_client_hello (example_hello t) = Inr p" "session_id_range p = (44, 76)" "sni p = Some [0x61]"
      using example_hello_parses by blast
    have "get_range (example_hello t) 60 76 = Some (replicate 16 4)"
      using example_hello_sid [of t] drop_take [of 16 32 "drop 44 (example_hello t)"] by (simp add: get_range_def split: if_splits)
    then show ?thesis
      using that p by (auto simp: recover_stateful_auth_material_def recover_from_parsed_def range_len_def auth_lens derive_mask_key_def
          const_hkdf_def const_hmac_def decode_stateful_auth_material_def decode_stateful_auth_tail_def stateful_auth_tail_mask_def
          stateful_client_random_mask_def stateful_mask_def xor_bytes_def zip_replicate)
  qed
  have "parse_client_hello [] = Inl (ChRecord IncompleteHeader)"
    by (simp add: parse_client_hello_def parse_header_def TLS_HEADER_LEN_def)
  then have "recover_stateful_auth_material const_hkdf const_hmac [] [1] [] = Inl (AuClientHello (ChRecord IncompleteHeader))"
    using auth_outcomes [OF H, of "[]" "[1]" "[]" "[1]" undefined] by simp
  moreover have "\<exists>m a. recover_stateful_auth_material const_hkdf const_hmac (example_hello 5) [1] [9] = Inr (Some m) \<and>
      verify_with_material const_hmac (example_hello 5) [1] m = Inr a \<and> authenticated a"
    using E [of 5] T by (fastforce simp: xor_bytes_def zip_replicate)
  moreover have "replicate 16 5 @ xs \<noteq> replicate 16 6 @ ys" for xs ys :: bytes by (simp add: append_eq_append_conv replicate_eq_replicate)
  ultimately show ?thesis using E [of 6] by metis
qed

end
