(* ===== verification/Traffic.thy ===== *)
theory Traffic
  imports Prelude
begin

text \<open>
  Traffic shaping: \<open>traffic.rs\<close>. The padding suffix of data records, the choice of its length, and the
  delays of the timing and cover profiles. The random generator is a parameter: its state is threaded, and
  \<open>rng_correct\<close> is what the code relies on. Lengths of type \<open>u16\<close> are naturals with the casts written out;
  durations are whole milliseconds, the only unit the code builds them from.
\<close>

record 'r rng =
  r_range :: "nat \<Rightarrow> nat \<Rightarrow> 'r \<Rightarrow> nat \<times> 'r"
  r_fill :: "nat \<Rightarrow> 'r \<Rightarrow> bytes \<times> 'r"
  r_u64 :: "'r \<Rightarrow> u64 \<times> 'r"
  r_seed :: "u64 \<Rightarrow> 'r"

definition rng_correct :: "'r rng \<Rightarrow> bool" where
  "rng_correct R \<longleftrightarrow>
     (\<forall>lo hi r. lo < hi \<longrightarrow> lo \<le> fst (r_range R lo hi r) \<and> fst (r_range R lo hi r) < hi) \<and>
     (\<forall>n r. length (fst (r_fill R n r)) = n)"

datatype traffic_error = InvalidPaddingRange | PaddedFrameTooShort | PaddingLengthOutOfRange

record traffic_config =
  min_padding :: nat
  max_padding :: nat
  min_delay_ms :: nat
  max_delay_ms :: nat
  cover_min_interval_ms :: nat
  cover_max_interval_ms :: nat

section \<open>Padding\<close>

record padding_profile =
  pp_min :: nat
  pp_max :: nat

definition OBSERVED_PACKET_TARGETS :: "nat list" where
  "OBSERVED_PACKET_TARGETS =
     [64, 83, 91, 132, 144, 191, 286, 339, 469, 519, 569, 713, 735, 1353, 1440, 1459, 1500, 1500]"

definition OBSERVED_DELAY_MS :: "nat list" where
  "OBSERVED_DELAY_MS = [0, 3, 7, 12, 25, 25, 41, 218, 410, 747, 790, 804]"

definition padding_new :: "nat \<Rightarrow> nat \<Rightarrow> traffic_error + padding_profile" where
  "padding_new mn mx = (if mx < mn then Inl InvalidPaddingRange else Inr \<lparr>pp_min = mn, pp_max = mx\<rparr>)"

definition padding_from_config :: "traffic_config \<Rightarrow> traffic_error + padding_profile" where
  "padding_from_config c = padding_new (min_padding c) (max_padding c)"

definition max_len :: "padding_profile \<Rightarrow> nat" where
  "max_len p = pp_max p"

definition clamp :: "nat \<Rightarrow> nat \<Rightarrow> nat \<Rightarrow> nat" where
  "clamp x lo hi = (if x < lo then lo else if hi < x then hi else x)"

text \<open>The padding drawn from a random span above the floor.\<close>

definition sample_span :: "'r rng \<Rightarrow> padding_profile \<Rightarrow> 'r \<Rightarrow> nat \<times> 'r" where
  "sample_span R p r =
     (let span = pp_max p - pp_min p;
          (bucket, r) = r_range R 0 100 r;
          capped_span = (if bucket < 70 then min span 64 else if bucket < 92 then min span 256 else span);
          (extra, r) = r_range R 0 (capped_span + 1) r
      in (pp_min p + extra, r))"

definition sample_padding_len :: "'r rng \<Rightarrow> padding_profile \<Rightarrow> nat \<Rightarrow> 'r \<Rightarrow> nat \<times> 'r" where
  "sample_padding_len R p plen r =
     (if pp_min p = pp_max p then (pp_min p, r)
      else
        let (coin, r) = r_range R 0 100 r
        in if coin < 55 then
             let (i, r) = r_range R 0 (length OBSERVED_PACKET_TARGETS) r;
                 target = OBSERVED_PACKET_TARGETS ! i
             in if plen + 2 + pp_min p < target then
                  (clamp (target - plen mod 2 ^ 16 - 2) (pp_min p) (pp_max p), r)
                else sample_span R p r
           else sample_span R p r)"

definition write_padding_suffix :: "'r rng \<Rightarrow> nat \<Rightarrow> 'r \<Rightarrow> bytes \<Rightarrow> bytes \<times> 'r" where
  "write_padding_suffix R pad_len r out =
     (let (pad, r) = (if pad_len \<noteq> 0 then r_fill R pad_len r else ([], r))
      in (out @ pad @ be_bytes 2 (of_nat pad_len :: u16), r))"

definition apply_suffix_into :: "'r rng \<Rightarrow> padding_profile \<Rightarrow> nat \<Rightarrow> 'r \<Rightarrow> bytes \<Rightarrow> bytes \<times> 'r" where
  "apply_suffix_into R p plen r out =
     (let (pad_len, r) = sample_padding_len R p plen r in write_padding_suffix R pad_len r out)"

definition apply_into :: "'r rng \<Rightarrow> padding_profile \<Rightarrow> bytes \<Rightarrow> 'r \<Rightarrow> bytes \<Rightarrow> bytes \<times> 'r" where
  "apply_into R p payload r out =
     (let (pad_len, r) = sample_padding_len R p (length payload) r
      in write_padding_suffix R pad_len r (out @ payload))"

definition padding_apply :: "'r rng \<Rightarrow> padding_profile \<Rightarrow> bytes \<Rightarrow> 'r \<Rightarrow> bytes \<times> 'r" where
  "padding_apply R p payload r = apply_into R p payload r []"

definition write_extra_padded_suffix_into ::
  "'r rng \<Rightarrow> padding_profile \<Rightarrow> nat \<Rightarrow> nat \<Rightarrow> 'r \<Rightarrow> bytes \<Rightarrow> bytes \<times> 'r" where
  "write_extra_padded_suffix_into R p plen extra_pad r out =
     (let (profile_pad, r) = sample_padding_len R p plen r
      in write_padding_suffix R (min (min (profile_pad + extra_pad) (usize_limit - 1)) (2 ^ 16 - 1)) r out)"

definition write_exact_padding_suffix :: "'r rng \<Rightarrow> nat \<Rightarrow> 'r \<Rightarrow> bytes \<Rightarrow> bytes \<times> 'r" where
  "write_exact_padding_suffix R pad_len r out = write_padding_suffix R (min pad_len (2 ^ 16 - 1)) r out"

definition unpadded_len :: "bytes \<Rightarrow> traffic_error + nat" where
  "unpadded_len padded =
     (if length padded < 2 then Inl PaddedFrameTooShort
      else
        let pad_len = unat (from_be [padded ! (length padded - 2), padded ! (length padded - 1)] :: u16)
        in if pad_len + 2 > length padded then Inl PaddingLengthOutOfRange
           else Inr (length padded - pad_len - 2))"

definition padding_remove :: "bytes \<Rightarrow> traffic_error + bytes" where
  "padding_remove padded = and_then (unpadded_len padded) (\<lambda>n. Inr (take n padded))"

text \<open>In place the buffer is returned also when the removal fails.\<close>

definition remove_in_place :: "bytes \<Rightarrow> (traffic_error + unit) \<times> bytes" where
  "remove_in_place padded =
     (case unpadded_len padded of Inl e \<Rightarrow> (Inl e, padded) | Inr n \<Rightarrow> (Inr (), take n padded))"

section \<open>Timing\<close>

record timing_profile =
  tp_min :: nat
  tp_max :: nat

definition timing_from_config :: "traffic_config \<Rightarrow> timing_profile" where
  "timing_from_config c = \<lparr>tp_min = min_delay_ms c, tp_max = max_delay_ms c\<rparr>"

definition timing_is_enabled :: "timing_profile \<Rightarrow> bool" where
  "timing_is_enabled t \<longleftrightarrow> tp_max t \<noteq> 0"

definition sample_delay :: "'r rng \<Rightarrow> timing_profile \<Rightarrow> 'r \<Rightarrow> nat \<times> 'r" where
  "sample_delay R t r =
     (if tp_min t \<ge> tp_max t then (tp_min t, r)
      else
        let (coin, r) = r_range R 0 100 r
        in if coin < 60 then
             let (i, r) = r_range R 0 (length OBSERVED_DELAY_MS) r
             in (clamp (OBSERVED_DELAY_MS ! i) (tp_min t) (tp_max t), r)
           else r_range R (tp_min t) (tp_max t + 1) r)"

record cover_traffic_profile =
  min_interval :: nat
  max_interval :: nat

definition cover_from_config :: "traffic_config \<Rightarrow> cover_traffic_profile" where
  "cover_from_config c = \<lparr>min_interval = cover_min_interval_ms c, max_interval = cover_max_interval_ms c\<rparr>"

definition cover_is_enabled :: "cover_traffic_profile \<Rightarrow> bool" where
  "cover_is_enabled c \<longleftrightarrow> max_interval c \<noteq> 0"

definition sample_interval :: "'r rng \<Rightarrow> cover_traffic_profile \<Rightarrow> 'r \<Rightarrow> nat \<times> 'r" where
  "sample_interval R c r =
     (if \<not> cover_is_enabled c \<or> min_interval c \<ge> max_interval c then (min_interval c, r)
      else r_range R (min_interval c) (max_interval c + 1) r)"

section \<open>Lemmas\<close>

definition profile_ok :: "padding_profile \<Rightarrow> bool" where
  "profile_ok p \<longleftrightarrow> pp_min p \<le> pp_max p \<and> pp_max p < 2 ^ 16"

lemma r_rangeD:
  assumes "rng_correct R" "r_range R lo hi r = (v, r')" "lo < hi"
  shows "lo \<le> v \<and> v < hi"
  using assms unfolding rng_correct_def by (metis fst_conv)

lemma r_fillD: "rng_correct R \<Longrightarrow> r_fill R n r = (bs, r') \<Longrightarrow> length bs = n"
  unfolding rng_correct_def by (metis fst_conv)

lemma clamp_bounds: "lo \<le> hi \<Longrightarrow> lo \<le> clamp x lo hi \<and> clamp x lo hi \<le> hi"
  by (simp add: clamp_def)

lemma sample_span_bounds:
  assumes "rng_correct R" "profile_ok p" "sample_span R p r = (n, r')"
  shows "pp_min p \<le> n \<and> n \<le> pp_max p"
proof -
  obtain b r1 where b: "r_range R 0 100 r = (b, r1)" by (cases "r_range R 0 100 r")
  define cs where "cs = (if b < 70 then min (pp_max p - pp_min p) 64 else if b < 92 then min (pp_max p - pp_min p) 256
    else pp_max p - pp_min p)"
  obtain e r2 where e: "r_range R 0 (cs + 1) r1 = (e, r2)" by (cases "r_range R 0 (cs + 1) r1")
  have "cs \<le> pp_max p - pp_min p" by (simp add: cs_def)
  moreover have "n = pp_min p + e" using assms(3) b e by (simp add: sample_span_def Let_def flip: cs_def)
  ultimately show ?thesis using r_rangeD [OF assms(1) e] assms(2) by (auto simp: profile_ok_def)
qed

lemma sample_padding_len_bounds:
  assumes "rng_correct R" "profile_ok p" "sample_padding_len R p plen r = (n, r')"
  shows "pp_min p \<le> n \<and> n \<le> pp_max p"
  using assms(2,3) sample_span_bounds [OF assms(1,2)] clamp_bounds [of "pp_min p" "pp_max p"]
  by (auto simp: sample_padding_len_def Let_def profile_ok_def split: prod.splits if_splits)

lemma unpadded_len_suffix:
  assumes "n < 2 ^ 16" "length pad = n"
  shows "unpadded_len (payload @ pad @ be_bytes 2 (of_nat n :: u16)) = Inr (length payload)"
proof -
  obtain x y where xy: "be_bytes 2 (of_nat n :: u16) = [x, y]" by (simp add: be_bytes_numeral)
  have f: "from_be [x, y] = (of_nat n :: u16)" unfolding xy [symmetric] by (rule from_be_be_bytes_full) simp
  have u: "unat (of_nat n :: u16) = n" using assms(1) by (simp add: unsigned_of_nat take_bit_nat_eq_self)
  have "(payload @ pad @ [x, y]) ! (length payload + n) = x" "(payload @ pad @ [x, y]) ! (Suc (length payload + n)) = y"
    using assms(2) by (simp_all add: nth_append)
  then show ?thesis using f u assms(2) unfolding xy by (simp add: unpadded_len_def)
qed

text \<open>The suffix of a given length: it is what the trailer says, so the receiver strips exactly it.\<close>

lemma write_padding_suffix_spec:
  assumes "rng_correct R" "n < 2 ^ 16" "write_padding_suffix R n r out = (out', r')"
  obtains pad where "out' = out @ pad @ be_bytes 2 (of_nat n :: u16)" "length pad = n"
proof (cases "n = 0")
  case True
  then show ?thesis using assms(3) that [of "[]"] by (simp add: write_padding_suffix_def)
next
  case False
  obtain pad r1 where "r_fill R n r = (pad, r1)" by (cases "r_fill R n r")
  then show ?thesis
    using False assms(3) that [of pad] r_fillD [OF assms(1)] by (simp add: write_padding_suffix_def)
qed

lemma remove_suffix:
  assumes "n < 2 ^ 16" "length pad = n"
  shows "padding_remove (payload @ pad @ be_bytes 2 (of_nat n :: u16)) = Inr payload"
    "remove_in_place (payload @ pad @ be_bytes 2 (of_nat n :: u16)) = (Inr (), payload)"
  using unpadded_len_suffix [OF assms] by (simp_all add: padding_remove_def remove_in_place_def)

text \<open>Padding is transparent: whatever the generator returns, the padding a profile adds has a length within
  its range, and the receiver removes exactly it; the same holds for a suffix with extra padding, whose length is
  kept within the 16 bits of its trailer, and for a suffix of an exact length.\<close>

theorem padding_roundtrip:
  assumes "rng_correct R" "profile_ok p"
  shows "padding_remove (fst (padding_apply R p payload r)) = Inr payload \<and>
    length payload + pp_min p + 2 \<le> length (fst (padding_apply R p payload r)) \<and>
    length (fst (padding_apply R p payload r)) \<le> length payload + pp_max p + 2 \<and>
    padding_remove (fst (write_extra_padded_suffix_into R p (length payload) extra r payload)) = Inr payload \<and>
    padding_remove (fst (write_exact_padding_suffix R exact r payload)) = Inr payload"
proof -
  obtain n r1 where n: "sample_padding_len R p (length payload) r = (n, r1)" by (cases "sample_padding_len R p (length payload) r")
  have b: "pp_min p \<le> n" "n \<le> pp_max p" "n < 2 ^ 16"
    using sample_padding_len_bounds [OF assms n] assms(2) by (auto simp: profile_ok_def)
  obtain pad where 1: "fst (write_padding_suffix R n r1 payload) = payload @ pad @ be_bytes 2 (of_nat n :: u16)" "length pad = n"
    using write_padding_suffix_spec [OF assms(1) b(3), of r1 payload] by (metis prod.collapse)
  define m where "m = min (min (n + extra) (usize_limit - 1)) (2 ^ 16 - 1)"
  have m: "m < 2 ^ 16" by (simp add: m_def)
  obtain pad2 where 2: "fst (write_padding_suffix R m r1 payload) = payload @ pad2 @ be_bytes 2 (of_nat m :: u16)" "length pad2 = m"
    using write_padding_suffix_spec [OF assms(1) m, of r1 payload] by (metis prod.collapse)
  define k where "k = min exact (2 ^ 16 - 1)"
  have k: "k < 2 ^ 16" by (simp add: k_def)
  obtain pad3 where 3: "fst (write_padding_suffix R k r payload) = payload @ pad3 @ be_bytes 2 (of_nat k :: u16)" "length pad3 = k"
    using write_padding_suffix_spec [OF assms(1) k, of r payload] by (metis prod.collapse)
  have "fst (padding_apply R p payload r) = payload @ pad @ be_bytes 2 (of_nat n :: u16)"
    "fst (write_extra_padded_suffix_into R p (length payload) extra r payload) = payload @ pad2 @ be_bytes 2 (of_nat m :: u16)"
    "fst (write_exact_padding_suffix R exact r payload) = payload @ pad3 @ be_bytes 2 (of_nat k :: u16)"
    unfolding padding_apply_def apply_into_def write_extra_padded_suffix_into_def write_exact_padding_suffix_def n
      k_def [symmetric] prod.case Let_def m_def [symmetric]
    using 1 2 3 by simp_all
  then show ?thesis using remove_suffix(1) 1(2) 2(2) 3(2) b m k by simp
qed

text \<open>A generator for the examples: the lowest value of a range, and zero bytes.\<close>

definition low_rng :: "nat rng" where
  "low_rng = \<lparr>r_range = (\<lambda>lo hi r. (lo, r + 1)), r_fill = (\<lambda>n r. (replicate n 0, r + 1)),
     r_u64 = (\<lambda>r. (0, r + 1)), r_seed = (\<lambda>s. 0)\<rparr>"

lemma low_rng_correct: "rng_correct low_rng"
  by (simp add: rng_correct_def low_rng_def)

theorem padding_roundtrip_witness:
  "padding_remove (fst (padding_apply low_rng \<lparr>pp_min = 1, pp_max = 20\<rparr> [7, 8] 0)) = Inr [7, 8]"
  using padding_roundtrip [OF low_rng_correct, of "\<lparr>pp_min = 1, pp_max = 20\<rparr>" "[7, 8]" 0] by (simp add: profile_ok_def)

text \<open>Delays stay in their configured range, whatever the generator returns, and a profile that is not
  enabled gives its minimum.\<close>

theorem delays_bounded:
  assumes "rng_correct R"
  shows "(tp_min t \<le> tp_max t \<longrightarrow> tp_min t \<le> fst (sample_delay R t r) \<and> fst (sample_delay R t r) \<le> tp_max t) \<and>
    (min_interval c \<le> max_interval c \<longrightarrow>
       min_interval c \<le> fst (sample_interval R c r) \<and> fst (sample_interval R c r) \<le> max_interval c) \<and>
    (\<not> timing_is_enabled t \<longrightarrow> fst (sample_delay R t r) = tp_min t) \<and>
    (\<not> cover_is_enabled c \<longrightarrow> fst (sample_interval R c r) = min_interval c)"
proof -
  obtain v r1 where v: "r_range R (min_interval c) (max_interval c + 1) r = (v, r1)"
    by (cases "r_range R (min_interval c) (max_interval c + 1) r")
  have d: "tp_min t \<le> fst (sample_delay R t r) \<and> fst (sample_delay R t r) \<le> tp_max t" if "tp_min t < tp_max t"
  proof -
    obtain coin r2 where coin: "r_range R 0 100 r = (coin, r2)" by (cases "r_range R 0 100 r")
    obtain i r3 where i: "r_range R 0 (length OBSERVED_DELAY_MS) r2 = (i, r3)" by (cases "r_range R 0 (length OBSERVED_DELAY_MS) r2")
    obtain w r4 where w: "r_range R (tp_min t) (tp_max t + 1) r2 = (w, r4)" by (cases "r_range R (tp_min t) (tp_max t + 1) r2")
    show ?thesis
      using that coin i w clamp_bounds [of "tp_min t" "tp_max t"] r_rangeD [OF assms w]
      by (simp add: sample_delay_def)
  qed
  show ?thesis
    using d v r_rangeD [OF assms v]
    by (auto simp: sample_interval_def sample_delay_def timing_is_enabled_def cover_is_enabled_def)
qed

theorem delays_bounded_witness:
  "5 \<le> fst (sample_delay low_rng \<lparr>tp_min = 5, tp_max = 50\<rparr> 0) \<and> fst (sample_delay low_rng \<lparr>tp_min = 5, tp_max = 50\<rparr> 0) \<le> 50"
  using delays_bounded [OF low_rng_correct, of "\<lparr>tp_min = 5, tp_max = 50\<rparr>" 0 "\<lparr>min_interval = 0, max_interval = 0\<rparr>"] by simp

end
