(* ===== verification/Command.thy ===== *)
theory Command
  imports Prelude Utf8 Session
begin

text \<open>
  The in-band control commands of \<open>protocol/command.rs\<close>: the connect request, the post-quantum rekey and
  key-exchange frames, the identity proof, the speed-test frames, the multiplexer frames and the UDP negotiation
  frames, with the freelist of multiplexer payload buffers. A decoder that borrows (\<open>decode_ref\<close>) and the one that
  copies (\<open>decode\<close>) return the same value here, so each pair is one definition. A \<open>String\<close> is its UTF-8 bytes. The
  calls to \<open>exclude_from_core_dump\<close> do not change the values and are left out.

  Every command obeys the contract \<open>frame_codec\<close>: what a well-formed value encodes to decodes to that value, and only
  well-formed values come out of the decoder; \<open>canonical_codec\<close> adds that a decoded input is the encoding of its value.
\<close>

section \<open>The contract of a command codec\<close>

locale frame_codec =
  fixes enc :: "'a \<Rightarrow> 'e + bytes"
    and dec :: "bytes \<Rightarrow> 'e + 'a"
    and ok :: "'a \<Rightarrow> bool"
  assumes enc_dec: "ok x \<Longrightarrow> \<exists>bs. enc x = Inr bs \<and> dec bs = Inr x"
    and dec_ok: "dec bs = Inr x \<Longrightarrow> ok x"
begin

lemma round_trip: "ok x \<Longrightarrow> and_then (enc x) dec = Inr x"
  by (metis enc_dec and_then_simps(2))

lemma enc_inj:
  assumes "ok x" and "ok y" and "enc x = enc y"
  shows "x = y"
  by (metis assms round_trip sum.inject(2))

lemma decodable_iff: "(\<exists>bs. dec bs = Inr x) \<longleftrightarrow> ok x"
  by (metis enc_dec dec_ok)

end

locale canonical_codec = frame_codec +
  assumes dec_enc: "dec bs = Inr x \<Longrightarrow> enc x = Inr bs"
begin

lemma dec_iff: "dec bs = Inr x \<longleftrightarrow> ok x \<and> enc x = Inr bs"
  by (metis enc_dec dec_ok dec_enc sum.inject(2))

lemma dec_inj:
  assumes "dec bs = Inr x" and "dec cs = Inr x"
  shows "bs = cs"
  by (metis assms dec_enc sum.inject(2))

end

section \<open>Fields of a frame\<close>

text \<open>\<open>from_be_bytes\<close> on the \<open>n\<close> bytes of \<open>input\<close> from \<open>pos\<close> on, which every use has checked to be in range.\<close>

definition be_at :: "nat \<Rightarrow> bytes \<Rightarrow> nat \<Rightarrow> 'a::len word" where
  "be_at n input pos = from_be (take n (drop pos input))"

named_theorems frame_simps \<open>fields of a frame and the frame rebuilt from them\<close>

lemma be_at_encoded [frame_simps]:
  "drop pos input = be_bytes n w @ rest \<Longrightarrow> LENGTH('a) \<le> 8 * n \<Longrightarrow> be_at n input pos = (w :: 'a::len word)"
  by (simp add: be_at_def from_be_be_bytes_full)

lemma be_bytes_be_at [frame_simps]:
  "pos + n \<le> length input \<Longrightarrow> 8 * n \<le> LENGTH('a::len) \<Longrightarrow>
     be_bytes n (be_at n input pos :: 'a word) = take n (drop pos input)"
  using be_bytes_from_be [of "take n (drop pos input)", where 'a = 'a] by (simp add: be_at_def)

lemma take_drop_append [frame_simps]: "k = p + n \<Longrightarrow> take n (drop p xs) @ drop k xs = drop p xs"
  by (metis add.commute append_take_drop_id drop_drop)

lemma magic_append: "take n xs = m \<Longrightarrow> m @ drop n xs = xs"
  by (metis append_take_drop_id)

lemma nth_take_drop [frame_simps]: "p < length xs \<Longrightarrow> k = Suc p \<Longrightarrow> xs ! p # drop k xs = drop p xs"
  by (simp add: Cons_nth_drop_Suc)

lemma length_u32: "unat (w :: u32) < 2 ^ 32"
  using unat_lt_exp [of w] by simp

text \<open>\<open>&input[..4]\<close> against a four-byte magic, and the \<open>has_magic\<close> test of several commands.\<close>

definition has_magic :: "bytes \<Rightarrow> bytes \<Rightarrow> bool" where
  "has_magic m input \<longleftrightarrow> length input \<ge> 4 \<and> take 4 input = m"

section \<open>Magics and lengths\<close>

definition CONNECT_MAGIC :: bytes where "CONNECT_MAGIC = ascii ''PX1C''"
definition PQ_REKEY_MAGIC :: bytes where "PQ_REKEY_MAGIC = ascii ''PX1Q''"
definition SERVER_KEY_EXCHANGE_MAGIC :: bytes where "SERVER_KEY_EXCHANGE_MAGIC = ascii ''PX1K''"
definition SERVER_IDENTITY_MAGIC :: bytes where "SERVER_IDENTITY_MAGIC = ascii ''PX1S''"
definition SERVER_IDENTITY_CHUNK_MAGIC :: bytes where "SERVER_IDENTITY_CHUNK_MAGIC = ascii ''PX1I''"
definition FRAMED_CHUNK_MAGIC :: bytes where "FRAMED_CHUNK_MAGIC = ascii ''PX1F''"
definition SPEED_TEST_MAGIC :: bytes where "SPEED_TEST_MAGIC = ascii ''PX1T''"
definition SPEED_WARMUP_DOWNLOAD_DONE_MAGIC :: bytes where "SPEED_WARMUP_DOWNLOAD_DONE_MAGIC = ascii ''PX1W''"
definition SPEED_WARMUP_UPLOAD_DONE_MAGIC :: bytes where "SPEED_WARMUP_UPLOAD_DONE_MAGIC = ascii ''PX1V''"
definition SPEED_DOWNLOAD_DONE_MAGIC :: bytes where "SPEED_DOWNLOAD_DONE_MAGIC = ascii ''PX1D''"
definition SPEED_UPLOAD_DONE_MAGIC :: bytes where "SPEED_UPLOAD_DONE_MAGIC = ascii ''PX1U''"
definition MUX_FRAME_MAGIC :: bytes where "MUX_FRAME_MAGIC = ascii ''PX1M''"
definition UDP_OFFER_MAGIC :: bytes where "UDP_OFFER_MAGIC = ascii ''PX1O''"
definition UDP_PROBE_ACK_MAGIC :: bytes where "UDP_PROBE_ACK_MAGIC = ascii ''PX1P''"
definition UDP_REQUEST_MAGIC :: bytes where "UDP_REQUEST_MAGIC = ascii ''PX1G''"
definition UDP_DECLINE_MAGIC :: bytes where "UDP_DECLINE_MAGIC = ascii ''PX1N''"

lemmas magic_defs = CONNECT_MAGIC_def PQ_REKEY_MAGIC_def SERVER_KEY_EXCHANGE_MAGIC_def SERVER_IDENTITY_MAGIC_def
  SERVER_IDENTITY_CHUNK_MAGIC_def FRAMED_CHUNK_MAGIC_def SPEED_TEST_MAGIC_def SPEED_WARMUP_DOWNLOAD_DONE_MAGIC_def
  SPEED_WARMUP_UPLOAD_DONE_MAGIC_def SPEED_DOWNLOAD_DONE_MAGIC_def SPEED_UPLOAD_DONE_MAGIC_def MUX_FRAME_MAGIC_def
  UDP_OFFER_MAGIC_def UDP_PROBE_ACK_MAGIC_def UDP_REQUEST_MAGIC_def UDP_DECLINE_MAGIC_def

lemma length_magics [simp]:
  "length CONNECT_MAGIC = 4" "length PQ_REKEY_MAGIC = 4" "length SERVER_KEY_EXCHANGE_MAGIC = 4"
  "length SERVER_IDENTITY_MAGIC = 4" "length SERVER_IDENTITY_CHUNK_MAGIC = 4" "length FRAMED_CHUNK_MAGIC = 4"
  "length SPEED_TEST_MAGIC = 4" "length SPEED_WARMUP_DOWNLOAD_DONE_MAGIC = 4"
  "length SPEED_WARMUP_UPLOAD_DONE_MAGIC = 4" "length SPEED_DOWNLOAD_DONE_MAGIC = 4"
  "length SPEED_UPLOAD_DONE_MAGIC = 4" "length MUX_FRAME_MAGIC = 4" "length UDP_OFFER_MAGIC = 4"
  "length UDP_PROBE_ACK_MAGIC = 4" "length UDP_REQUEST_MAGIC = 4" "length UDP_DECLINE_MAGIC = 4"
  by (simp_all add: magic_defs)

definition MAX_HOST_LEN :: nat where "MAX_HOST_LEN = 255"
definition CONNECT_FIXED_LEN :: nat where "CONNECT_FIXED_LEN = 4 + 2 + 2 + 4"
definition MUX_FRAME_FIXED_LEN :: nat where "MUX_FRAME_FIXED_LEN = 4 + 4 + 1 + 4"
definition UDP_OFFER_ID_LEN :: nat where "UDP_OFFER_ID_LEN = 16"
definition UDP_OFFER_LEN :: nat where "UDP_OFFER_LEN = 4 + UDP_OFFER_ID_LEN + 2 + 8 + 1 + 1 + 1"
definition UDP_PROBE_ACK_LEN :: nat where "UDP_PROBE_ACK_LEN = 4 + UDP_OFFER_ID_LEN + 1 + 4"
definition UDP_REQUEST_LEN :: nat where "UDP_REQUEST_LEN = 4 + 1"
definition UDP_DECLINE_LEN :: nat where "UDP_DECLINE_LEN = 4 + 1"

lemmas frame_len_defs = MAX_HOST_LEN_def CONNECT_FIXED_LEN_def MUX_FRAME_FIXED_LEN_def UDP_OFFER_ID_LEN_def
  UDP_OFFER_LEN_def UDP_PROBE_ACK_LEN_def UDP_REQUEST_LEN_def UDP_DECLINE_LEN_def

section \<open>Connect request\<close>

record connect_request =
  cr_host :: bytes
  cr_port :: u16
  cr_initial_payload :: bytes

datatype connect_request_error =
  CR_Truncated | CR_BadMagic | EmptyHost | HostTooLong | InvalidHost | ZeroPort | CR_InvalidPayloadLength

definition max_initial_payload_len :: "bytes \<Rightarrow> nat \<Rightarrow> nat" where
  "max_initial_payload_len host max_encoded_len = max_encoded_len - (CONNECT_FIXED_LEN + length host)"

definition connect_encoded_len :: "connect_request \<Rightarrow> nat" where
  "connect_encoded_len q = CONNECT_FIXED_LEN + length (cr_host q) + length (cr_initial_payload q)"

definition connect_encode :: "connect_request \<Rightarrow> connect_request_error + bytes" where
  "connect_encode q =
     (let host = cr_host q in
      if host = [] then Inl EmptyHost
      else if length host > MAX_HOST_LEN then Inl HostTooLong
      else if cr_port q = 0 then Inl ZeroPort
      else Inr (CONNECT_MAGIC @ be_bytes 2 (of_nat (length host) :: u16) @ host @ be_bytes 2 (cr_port q) @
        be_bytes 4 (of_nat (length (cr_initial_payload q)) :: u32) @ cr_initial_payload q))"

text \<open>The cursor: the reads return the value and the new position.\<close>

definition cursor_remaining :: "bytes \<Rightarrow> nat \<Rightarrow> nat" where
  "cursor_remaining input pos = length input - pos"

definition cursor_bytes :: "bytes \<Rightarrow> nat \<Rightarrow> nat \<Rightarrow> connect_request_error + (bytes \<times> nat)" where
  "cursor_bytes input pos len =
     (if cursor_remaining input pos < len then Inl CR_Truncated
      else Inr (take len (drop pos input), pos + len))"

definition cursor_u16 :: "bytes \<Rightarrow> nat \<Rightarrow> connect_request_error + (u16 \<times> nat)" where
  "cursor_u16 input pos = and_then (cursor_bytes input pos 2) (\<lambda>(bs, pos). Inr (from_be [bs ! 0, bs ! 1], pos))"

definition cursor_u32 :: "bytes \<Rightarrow> nat \<Rightarrow> connect_request_error + (u32 \<times> nat)" where
  "cursor_u32 input pos =
     and_then (cursor_bytes input pos 4) (\<lambda>(bs, pos). Inr (from_be [bs ! 0, bs ! 1, bs ! 2, bs ! 3], pos))"

definition connect_decode :: "bytes \<Rightarrow> connect_request_error + connect_request" where
  "connect_decode input =
     (if length input < 4 then Inl CR_Truncated
      else if take 4 input \<noteq> CONNECT_MAGIC then Inl CR_BadMagic
      else and_then (cursor_u16 input 4) (\<lambda>(hl, pos).
        let host_len = unat hl in
        if host_len = 0 then Inl EmptyHost
        else if host_len > MAX_HOST_LEN then Inl HostTooLong
        else and_then (cursor_bytes input pos host_len) (\<lambda>(host, pos).
          if \<not> utf8_valid host then Inl InvalidHost
          else and_then (cursor_u16 input pos) (\<lambda>(port, pos).
            if port = 0 then Inl ZeroPort
            else and_then (cursor_u32 input pos) (\<lambda>(pl, pos).
              let payload_len = unat pl in
              if cursor_remaining input pos \<noteq> payload_len then Inl CR_InvalidPayloadLength
              else and_then (cursor_bytes input pos payload_len) (\<lambda>(initial_payload, pos).
                Inr \<lparr>cr_host = host, cr_port = port, cr_initial_payload = initial_payload\<rparr>))))))"

definition connect_ok :: "connect_request \<Rightarrow> bool" where
  "connect_ok q \<longleftrightarrow> 1 \<le> length (cr_host q) \<and> length (cr_host q) \<le> 255 \<and> utf8_valid (cr_host q) \<and> cr_port q \<noteq> 0 \<and>
     length (cr_initial_payload q) < 2 ^ 32"

lemma four_bytes: "length bs = 4 \<Longrightarrow> [bs ! 0, bs ! 1, bs ! 2, bs ! 3] = bs"
  by (auto simp: numeral_eq_Suc length_Suc_conv)

lemma two_bytes: "length bs = 2 \<Longrightarrow> [bs ! 0, bs ! 1] = bs"
  by (auto simp: numeral_eq_Suc length_Suc_conv)

lemma cursor_u16_eq:
  "cursor_u16 input pos = (if length input - pos < 2 then Inl CR_Truncated else Inr (be_at 2 input pos, pos + 2))"
  using two_bytes [of "take 2 (drop pos input)"]
  by (auto simp: cursor_u16_def cursor_bytes_def cursor_remaining_def be_at_def)

lemma cursor_u32_eq:
  "cursor_u32 input pos = (if length input - pos < 4 then Inl CR_Truncated else Inr (be_at 4 input pos, pos + 4))"
  using four_bytes [of "take 4 (drop pos input)"]
  by (auto simp: cursor_u32_def cursor_bytes_def cursor_remaining_def be_at_def)

lemmas cursor_eqs = cursor_u16_eq cursor_u32_eq cursor_bytes_def cursor_remaining_def

text \<open>What the decoder accepts, with every field located in the input.\<close>

lemma connect_decode_Inr:
  "connect_decode input = Inr q \<longleftrightarrow>
     (let h = unat (be_at 2 input 4 :: u16) in
      take 4 input = CONNECT_MAGIC \<and> 1 \<le> h \<and> h \<le> 255 \<and> 12 + h \<le> length input \<and>
      utf8_valid (take h (drop 6 input)) \<and> be_at 2 input (6 + h) \<noteq> (0 :: u16) \<and>
      length input = 12 + h + unat (be_at 4 input (8 + h) :: u32) \<and>
      q = \<lparr>cr_host = take h (drop 6 input), cr_port = be_at 2 input (6 + h),
        cr_initial_payload = drop (12 + h) input\<rparr>)"
  by (auto simp: connect_decode_def cursor_eqs and_then_eq_Inr Let_def MAX_HOST_LEN_def algebra_simps
      split: if_splits prod.splits)

lemma connect_enc_dec:
  assumes "connect_ok q"
  shows "\<exists>bs. connect_encode q = Inr bs \<and> connect_decode bs = Inr q"
proof -
  let ?h = "length (cr_host q)" and ?p = "length (cr_initial_payload q)"
  define bs where "bs = CONNECT_MAGIC @ be_bytes 2 (of_nat ?h :: u16) @ cr_host q @ be_bytes 2 (cr_port q) @
    be_bytes 4 (of_nat ?p :: u32) @ cr_initial_payload q"
  have h: "unat (of_nat ?h :: u16) = ?h" and p: "unat (of_nat ?p :: u32) = ?p"
    using assms by (simp_all add: connect_ok_def unat_of_nat_u16 unat_of_nat_u32)
  have f1: "be_at 2 bs 4 = (of_nat ?h :: u16)"
    by (rule be_at_encoded) (simp_all add: bs_def)
  have f2: "be_at 2 bs (6 + ?h) = cr_port q"
    by (rule be_at_encoded) (simp_all add: bs_def)
  have f3: "be_at 4 bs (8 + ?h) = (of_nat ?p :: u32)"
    by (rule be_at_encoded) (simp_all add: bs_def)
  have "connect_encode q = Inr bs"
    using assms by (auto simp: connect_encode_def connect_ok_def bs_def MAX_HOST_LEN_def Let_def)
  moreover have "connect_decode bs = Inr q"
    unfolding connect_decode_Inr Let_def f1 h f2 f3 p
    using assms by (simp add: bs_def connect_ok_def)
  ultimately show ?thesis by blast
qed

lemma connect_dec_enc:
  assumes "connect_decode input = Inr q"
  shows "connect_encode q = Inr input"
proof -
  define h where "h = unat (be_at 2 input 4 :: u16)"
  note D = assms [unfolded connect_decode_Inr Let_def, folded h_def]
  have bounds: "12 + h \<le> length input" "1 \<le> h" "h \<le> 255"
    and q: "q = \<lparr>cr_host = take h (drop 6 input), cr_port = be_at 2 input (6 + h),
        cr_initial_payload = drop (12 + h) input\<rparr>"
    and len: "length input - (12 + h) = unat (be_at 4 input (8 + h) :: u32)"
    using D by simp_all
  have hl: "of_nat (length (cr_host q)) = (be_at 2 input 4 :: u16)"
    using bounds by (simp add: q h_def)
  have pl: "of_nat (length (cr_initial_payload q)) = (be_at 4 input (8 + h) :: u32)"
    unfolding q connect_request.simps length_drop len by simp
  have "CONNECT_MAGIC @ be_bytes 2 (be_at 2 input 4 :: u16) @ cr_host q @ be_bytes 2 (cr_port q) @
      be_bytes 4 (be_at 4 input (8 + h) :: u32) @ cr_initial_payload q = input"
    using D bounds by (simp add: q be_bytes_be_at take_drop_append magic_append)
  then show ?thesis
    using D bounds hl pl by (auto simp: connect_encode_def Let_def MAX_HOST_LEN_def q)
qed

lemma connect_dec_ok: "connect_decode input = Inr q \<Longrightarrow> connect_ok q"
  using length_u32 [of "be_at 4 input (8 + unat (be_at 2 input 4 :: u16))"]
  by (simp add: connect_decode_Inr connect_ok_def Let_def)

interpretation cr: canonical_codec connect_encode connect_decode connect_ok
  by unfold_locales (fact connect_enc_dec, fact connect_dec_ok, fact connect_dec_enc)

section \<open>Post-quantum rekey, server key exchange, identity proof\<close>

record pq_rekey_request =
  pq_client_x25519_public :: bytes
  pq_client_mlkem_public_key :: bytes

datatype pq_rekey_error = PQ_Truncated | PQ_BadMagic | EmptyPublicKey | InvalidPublicKeyLength

definition pq_encode_borrowed :: "bytes \<Rightarrow> bytes \<Rightarrow> pq_rekey_error + bytes" where
  "pq_encode_borrowed xpub mlkem =
     (if mlkem = [] then Inl EmptyPublicKey
      else Inr (PQ_REKEY_MAGIC @ xpub @ be_bytes 4 (of_nat (length mlkem) :: u32) @ mlkem))"

definition pq_encode :: "pq_rekey_request \<Rightarrow> pq_rekey_error + bytes" where
  "pq_encode q = pq_encode_borrowed (pq_client_x25519_public q) (pq_client_mlkem_public_key q)"

definition pq_decode :: "bytes \<Rightarrow> pq_rekey_error + pq_rekey_request" where
  "pq_decode input =
     (if length input < 4 then Inl PQ_Truncated
      else if take 4 input \<noteq> PQ_REKEY_MAGIC then Inl PQ_BadMagic
      else if length input < 40 then Inl PQ_Truncated
      else
        let len = unat (be_at 4 input 36 :: u32)
        in if len = 0 then Inl EmptyPublicKey
           else if length input \<noteq> 40 + len then Inl InvalidPublicKeyLength
           else Inr \<lparr>pq_client_x25519_public = take 32 (drop 4 input), pq_client_mlkem_public_key = drop 40 input\<rparr>)"

text \<open>The X25519 public key is a \<open>[u8; 32]\<close>.\<close>

definition pq_ok :: "pq_rekey_request \<Rightarrow> bool" where
  "pq_ok q \<longleftrightarrow> length (pq_client_x25519_public q) = 32 \<and>
     1 \<le> length (pq_client_mlkem_public_key q) \<and> length (pq_client_mlkem_public_key q) < 2 ^ 32"

record server_key_exchange =
  ske_server_x25519_public :: bytes
  ske_mlkem_ciphertext :: bytes

datatype server_key_exchange_error =
  SKE_Truncated | SKE_BadMagic | EmptyCiphertext | InvalidCiphertextLength | InvalidCipherSuite

definition ske_encode :: "server_key_exchange \<Rightarrow> server_key_exchange_error + bytes" where
  "ske_encode x =
     (if ske_mlkem_ciphertext x = [] then Inl EmptyCiphertext
      else Inr (SERVER_KEY_EXCHANGE_MAGIC @ ske_server_x25519_public x @
        be_bytes 4 (of_nat (length (ske_mlkem_ciphertext x)) :: u32) @ ske_mlkem_ciphertext x))"

definition ske_encode_with_suite :: "server_key_exchange \<Rightarrow> cipher_suite \<Rightarrow> server_key_exchange_error + bytes" where
  "ske_encode_with_suite x suite = and_then (ske_encode x) (\<lambda>out. Inr (out @ [suite_to_wire suite]))"

definition ske_decode_with_suite ::
  "bytes \<Rightarrow> server_key_exchange_error + (server_key_exchange \<times> cipher_suite)" where
  "ske_decode_with_suite input =
     (if length input < 4 then Inl SKE_Truncated
      else if take 4 input \<noteq> SERVER_KEY_EXCHANGE_MAGIC then Inl SKE_BadMagic
      else if length input < 40 then Inl SKE_Truncated
      else
        let len = unat (be_at 4 input 36 :: u32)
        in if len = 0 then Inl EmptyCiphertext
           else if len > length input then Inl InvalidCiphertextLength
           else if length input \<noteq> 41 + len then Inl InvalidCiphertextLength
           else and_then (ok_or (suite_from_wire (input ! (40 + len))) InvalidCipherSuite) (\<lambda>suite.
             Inr (\<lparr>ske_server_x25519_public = take 32 (drop 4 input), ske_mlkem_ciphertext = take len (drop 40 input)\<rparr>,
               suite)))"

definition ske_decode :: "bytes \<Rightarrow> server_key_exchange_error + server_key_exchange" where
  "ske_decode input = and_then (ske_decode_with_suite input) (\<lambda>(exchange, suite). Inr exchange)"

definition ske_ok :: "server_key_exchange \<Rightarrow> bool" where
  "ske_ok x \<longleftrightarrow> length (ske_server_x25519_public x) = 32 \<and>
     1 \<le> length (ske_mlkem_ciphertext x) \<and> length (ske_mlkem_ciphertext x) < 2 ^ 32"

record server_identity_proof =
  sip_signature :: bytes

datatype server_identity_proof_error = SIP_Truncated | SIP_BadMagic | EmptySignature | InvalidSignatureLength

definition sip_encode :: "server_identity_proof \<Rightarrow> server_identity_proof_error + bytes" where
  "sip_encode p =
     (if sip_signature p = [] then Inl EmptySignature
      else Inr (SERVER_IDENTITY_MAGIC @ be_bytes 4 (of_nat (length (sip_signature p)) :: u32) @ sip_signature p))"

definition sip_signature_of :: "bytes \<Rightarrow> server_identity_proof_error + bytes" where
  "sip_signature_of input =
     (if length input < 4 then Inl SIP_Truncated
      else if take 4 input \<noteq> SERVER_IDENTITY_MAGIC then Inl SIP_BadMagic
      else if length input < 8 then Inl SIP_Truncated
      else
        let len = unat (be_at 4 input 4 :: u32)
        in if len = 0 then Inl EmptySignature
           else if length input \<noteq> 8 + len then Inl InvalidSignatureLength
           else Inr (drop 8 input))"

definition sip_decode :: "bytes \<Rightarrow> server_identity_proof_error + server_identity_proof" where
  "sip_decode input = and_then (sip_signature_of input) (\<lambda>sig. Inr \<lparr>sip_signature = sig\<rparr>)"

definition sip_ok :: "server_identity_proof \<Rightarrow> bool" where
  "sip_ok p \<longleftrightarrow> 1 \<le> length (sip_signature p) \<and> length (sip_signature p) < 2 ^ 32"

text \<open>A length field that was written from a slice length, and one that was read and matches the slice.\<close>

lemma unat_u32_eq_0 [simp]: "unat (w :: u32) = 0 \<longleftrightarrow> w = 0"
  by (simp add: unat_eq_0)

lemma of_nat_length_field:
  "length bs = unat (w :: u32) \<Longrightarrow> of_nat (length bs) = w"
  by simp

lemma pq_decode_Inr:
  "pq_decode input = Inr q \<longleftrightarrow>
     take 4 input = PQ_REKEY_MAGIC \<and> be_at 4 input 36 \<noteq> (0 :: u32) \<and>
     length input = 40 + unat (be_at 4 input 36 :: u32) \<and>
     q = \<lparr>pq_client_x25519_public = take 32 (drop 4 input), pq_client_mlkem_public_key = drop 40 input\<rparr>"
  by (auto simp: pq_decode_def Let_def unat_eq_0 split: if_splits)

lemma pq_enc_dec:
  assumes "pq_ok q"
  shows "\<exists>bs. pq_encode q = Inr bs \<and> pq_decode bs = Inr q"
proof -
  let ?n = "length (pq_client_mlkem_public_key q)"
  define bs where "bs = PQ_REKEY_MAGIC @ pq_client_x25519_public q @ be_bytes 4 (of_nat ?n :: u32) @
    pq_client_mlkem_public_key q"
  have n: "unat (of_nat ?n :: u32) = ?n" and pos: "?n \<noteq> 0"
    using assms by (auto simp: pq_ok_def unat_of_nat_u32)
  have f: "be_at 4 bs 36 = (of_nat ?n :: u32)"
    using assms by (intro be_at_encoded [where rest = "pq_client_mlkem_public_key q"]) (simp_all add: bs_def pq_ok_def)
  have "of_nat ?n \<noteq> (0 :: u32)"
    using n pos by (metis unsigned_0)
  then have "pq_decode bs = Inr q"
    unfolding pq_decode_Inr f n using assms by (simp add: bs_def pq_ok_def)
  moreover have "pq_encode q = Inr bs"
    using pos by (auto simp: pq_encode_def pq_encode_borrowed_def bs_def)
  ultimately show ?thesis by blast
qed

lemma pq_dec_ok: "pq_decode input = Inr q \<Longrightarrow> pq_ok q"
  using length_u32 [of "be_at 4 input 36"] by (auto simp: pq_decode_Inr pq_ok_def Suc_le_eq unat_gt_0)

lemma pq_dec_enc:
  assumes "pq_decode input = Inr q"
  shows "pq_encode q = Inr input"
proof -
  note D = assms [unfolded pq_decode_Inr]
  have len: "40 \<le> length input" and ne: "length input - 40 = unat (be_at 4 input 36 :: u32)"
    using D by simp_all
  have "PQ_REKEY_MAGIC @ take 32 (drop 4 input) @ be_bytes 4 (be_at 4 input 36 :: u32) @ drop 40 input = input"
    using D len by (simp add: be_bytes_be_at take_drop_append magic_append)
  moreover have "of_nat (length (drop 40 input)) = (be_at 4 input 36 :: u32)"
    by (rule of_nat_length_field) (simp add: ne)
  moreover have "length input \<noteq> 40"
    using D by (simp add: unat_eq_0)
  ultimately show ?thesis
    using D len by (simp add: pq_encode_def pq_encode_borrowed_def)
qed

interpretation pq: canonical_codec pq_encode pq_decode pq_ok
  by unfold_locales (fact pq_enc_dec, fact pq_dec_ok, fact pq_dec_enc)

lemma suite_from_to_wire [simp]: "suite_from_wire (suite_to_wire s) = Some s"
  by (cases s) (simp_all add: suite_from_wire_def)

lemma suite_to_from_wire: "suite_from_wire b = Some s \<Longrightarrow> suite_to_wire s = b"
  by (auto simp: suite_from_wire_def split: if_splits)

definition ske_encode_pair :: "server_key_exchange \<times> cipher_suite \<Rightarrow> server_key_exchange_error + bytes" where
  "ske_encode_pair = (\<lambda>(x, suite). ske_encode_with_suite x suite)"

lemma ske_decode_Inr:
  "ske_decode_with_suite input = Inr (x, suite) \<longleftrightarrow>
     (let n = unat (be_at 4 input 36 :: u32) in
      take 4 input = SERVER_KEY_EXCHANGE_MAGIC \<and> 0 < n \<and> length input = 41 + n \<and>
      suite_from_wire (input ! (40 + n)) = Some suite \<and>
      x = \<lparr>ske_server_x25519_public = take 32 (drop 4 input), ske_mlkem_ciphertext = take n (drop 40 input)\<rparr>)"
  by (auto simp: ske_decode_with_suite_def Let_def and_then_eq_Inr unat_gt_0 split: if_splits)

lemma ske_enc_dec:
  assumes "ske_ok x"
  shows "\<exists>bs. ske_encode_with_suite x suite = Inr bs \<and> ske_decode_with_suite bs = Inr (x, suite)"
proof -
  let ?n = "length (ske_mlkem_ciphertext x)"
  define bs where "bs = SERVER_KEY_EXCHANGE_MAGIC @ ske_server_x25519_public x @ be_bytes 4 (of_nat ?n :: u32) @
    ske_mlkem_ciphertext x @ [suite_to_wire suite]"
  have n: "unat (of_nat ?n :: u32) = ?n" and pos: "?n \<noteq> 0" and l32: "length (ske_server_x25519_public x) = 32"
    using assms by (auto simp: ske_ok_def unat_of_nat_u32)
  have f: "be_at 4 bs 36 = (of_nat ?n :: u32)"
    by (rule be_at_encoded [where rest = "ske_mlkem_ciphertext x @ [suite_to_wire suite]"])
      (simp_all add: bs_def l32)
  have "ske_decode_with_suite bs = Inr (x, suite)"
    unfolding ske_decode_Inr Let_def f n using pos by (simp add: bs_def l32 nth_append)
  moreover have "ske_encode_with_suite x suite = Inr bs"
    using pos by (auto simp: ske_encode_with_suite_def ske_encode_def bs_def)
  ultimately show ?thesis by blast
qed

lemma ske_dec_ok: "ske_decode_with_suite input = Inr (x, suite) \<Longrightarrow> ske_ok x"
  using length_u32 [of "be_at 4 input 36"] by (auto simp: ske_decode_Inr ske_ok_def Let_def Suc_le_eq)

lemma ske_dec_enc:
  assumes "ske_decode_with_suite input = Inr (x, suite)"
  shows "ske_encode_with_suite x suite = Inr input"
proof -
  define n where "n = unat (be_at 4 input 36 :: u32)"
  note D = assms [unfolded ske_decode_Inr Let_def, folded n_def]
  have x: "x = \<lparr>ske_server_x25519_public = take 32 (drop 4 input), ske_mlkem_ciphertext = take n (drop 40 input)\<rparr>"
    and len: "length input = 41 + n" and pos: "0 < n"
    using D by simp_all
  have tail: "take n (drop 40 input) @ [suite_to_wire suite] = drop 40 input"
  proof -
    have "[input ! (40 + n)] = drop (40 + n) input"
      using len by (simp add: Cons_nth_drop_Suc [symmetric])
    then show ?thesis
      using D suite_to_from_wire [of "input ! (40 + n)" suite] by (simp add: take_drop_append)
  qed
  have "of_nat (length (take n (drop 40 input))) = (be_at 4 input 36 :: u32)"
    by (rule of_nat_length_field) (use len in \<open>simp add: n_def\<close>)
  then have "ske_encode_with_suite x suite = Inr (SERVER_KEY_EXCHANGE_MAGIC @ take 32 (drop 4 input) @
      be_bytes 4 (be_at 4 input 36 :: u32) @ take n (drop 40 input) @ [suite_to_wire suite])"
    using pos len by (simp add: ske_encode_with_suite_def ske_encode_def x)
  also have "\<dots> = Inr input"
    unfolding tail using D len by (simp add: be_bytes_be_at take_drop_append magic_append)
  finally show ?thesis .
qed

interpretation ske: canonical_codec ske_encode_pair ske_decode_with_suite "\<lambda>(x, suite). ske_ok x"
  by unfold_locales (auto simp: ske_encode_pair_def ske_enc_dec ske_dec_ok ske_dec_enc)

lemma sip_decode_Inr:
  "sip_decode input = Inr p \<longleftrightarrow>
     take 4 input = SERVER_IDENTITY_MAGIC \<and> 0 < unat (be_at 4 input 4 :: u32) \<and>
     length input = 8 + unat (be_at 4 input 4 :: u32) \<and> p = \<lparr>sip_signature = drop 8 input\<rparr>"
  by (auto simp: sip_decode_def sip_signature_of_def Let_def and_then_eq_Inr unat_gt_0 split: if_splits)

lemma sip_enc_dec:
  assumes "sip_ok p"
  shows "\<exists>bs. sip_encode p = Inr bs \<and> sip_decode bs = Inr p"
proof -
  let ?n = "length (sip_signature p)"
  define bs where "bs = SERVER_IDENTITY_MAGIC @ be_bytes 4 (of_nat ?n :: u32) @ sip_signature p"
  have n: "unat (of_nat ?n :: u32) = ?n" and pos: "?n \<noteq> 0"
    using assms by (auto simp: sip_ok_def unat_of_nat_u32)
  have f: "be_at 4 bs 4 = (of_nat ?n :: u32)"
    by (rule be_at_encoded [where rest = "sip_signature p"]) (simp_all add: bs_def)
  have "sip_decode bs = Inr p"
    unfolding sip_decode_Inr f n using pos by (simp add: bs_def)
  moreover have "sip_encode p = Inr bs"
    using pos by (auto simp: sip_encode_def bs_def)
  ultimately show ?thesis by blast
qed

lemma sip_dec_ok: "sip_decode input = Inr p \<Longrightarrow> sip_ok p"
  using length_u32 [of "be_at 4 input 4"] by (auto simp: sip_decode_Inr sip_ok_def Suc_le_eq)

lemma sip_dec_enc:
  assumes "sip_decode input = Inr p"
  shows "sip_encode p = Inr input"
proof -
  note D = assms [unfolded sip_decode_Inr]
  have "of_nat (length (drop 8 input)) = (be_at 4 input 4 :: u32)"
    by (rule of_nat_length_field) (simp add: D)
  moreover have "SERVER_IDENTITY_MAGIC @ be_bytes 4 (be_at 4 input 4 :: u32) @ drop 8 input = input"
    using D by (simp add: be_bytes_be_at take_drop_append magic_append)
  ultimately show ?thesis
    using D by (auto simp: sip_encode_def)
qed

interpretation sip: canonical_codec sip_encode sip_decode sip_ok
  by unfold_locales (fact sip_enc_dec, fact sip_dec_ok, fact sip_dec_enc)

section \<open>Speed test\<close>

record speed_test_request =
  st_warmup_bytes :: u64
  st_download_bytes :: u64
  st_upload_bytes :: u64
  st_sample_count :: u16

datatype speed_test_request_error = ST_Truncated | ST_BadMagic | ZeroBytes | ZeroSamples | ST_InvalidLength

definition speed_encode :: "speed_test_request \<Rightarrow> speed_test_request_error + bytes" where
  "speed_encode q =
     (if st_warmup_bytes q = 0 \<or> st_download_bytes q = 0 \<or> st_upload_bytes q = 0 then Inl ZeroBytes
      else if st_sample_count q = 0 then Inl ZeroSamples
      else Inr (SPEED_TEST_MAGIC @ be_bytes 8 (st_warmup_bytes q) @ be_bytes 8 (st_download_bytes q) @
        be_bytes 8 (st_upload_bytes q) @ be_bytes 2 (st_sample_count q)))"

definition speed_decode :: "bytes \<Rightarrow> speed_test_request_error + speed_test_request" where
  "speed_decode input =
     (if length input < 4 then Inl ST_Truncated
      else if take 4 input \<noteq> SPEED_TEST_MAGIC then Inl ST_BadMagic
      else if length input < 30 then Inl ST_Truncated
      else if length input \<noteq> 30 then Inl ST_InvalidLength
      else
        let warmup_bytes = be_at 8 input 4;
            download_bytes = be_at 8 input 12;
            upload_bytes = be_at 8 input 20;
            sample_count = be_at 2 input 28
        in if warmup_bytes = 0 \<or> download_bytes = 0 \<or> upload_bytes = 0 then Inl ZeroBytes
           else if sample_count = 0 then Inl ZeroSamples
           else Inr \<lparr>st_warmup_bytes = warmup_bytes, st_download_bytes = download_bytes,
             st_upload_bytes = upload_bytes, st_sample_count = sample_count\<rparr>)"

definition speed_ok :: "speed_test_request \<Rightarrow> bool" where
  "speed_ok q \<longleftrightarrow> st_warmup_bytes q \<noteq> 0 \<and> st_download_bytes q \<noteq> 0 \<and> st_upload_bytes q \<noteq> 0 \<and> st_sample_count q \<noteq> 0"

datatype speed_test_ack_kind = WarmupDownloadDone | WarmupUploadDone | DownloadDone | UploadDone

record speed_test_ack =
  sa_kind :: speed_test_ack_kind
  sa_bytes :: u64

datatype speed_test_ack_error = SA_Truncated | SA_BadMagic | SA_InvalidLength

definition warmup_download_done :: "u64 \<Rightarrow> speed_test_ack" where
  "warmup_download_done n = \<lparr>sa_kind = WarmupDownloadDone, sa_bytes = n\<rparr>"

definition warmup_upload_done :: "u64 \<Rightarrow> speed_test_ack" where
  "warmup_upload_done n = \<lparr>sa_kind = WarmupUploadDone, sa_bytes = n\<rparr>"

definition download_done :: "u64 \<Rightarrow> speed_test_ack" where
  "download_done n = \<lparr>sa_kind = DownloadDone, sa_bytes = n\<rparr>"

definition upload_done :: "u64 \<Rightarrow> speed_test_ack" where
  "upload_done n = \<lparr>sa_kind = UploadDone, sa_bytes = n\<rparr>"

definition ack_encode :: "speed_test_ack \<Rightarrow> bytes" where
  "ack_encode a =
     (case sa_kind a of
        WarmupDownloadDone \<Rightarrow> SPEED_WARMUP_DOWNLOAD_DONE_MAGIC
      | WarmupUploadDone \<Rightarrow> SPEED_WARMUP_UPLOAD_DONE_MAGIC
      | DownloadDone \<Rightarrow> SPEED_DOWNLOAD_DONE_MAGIC
      | UploadDone \<Rightarrow> SPEED_UPLOAD_DONE_MAGIC) @ be_bytes 8 (sa_bytes a)"

definition ack_decode :: "bytes \<Rightarrow> speed_test_ack_error + speed_test_ack" where
  "ack_decode input =
     (if length input < 4 then Inl SA_Truncated
      else
        let magic = take 4 input
        in and_then
          (if magic = SPEED_WARMUP_DOWNLOAD_DONE_MAGIC then Inr WarmupDownloadDone
           else if magic = SPEED_WARMUP_UPLOAD_DONE_MAGIC then Inr WarmupUploadDone
           else if magic = SPEED_DOWNLOAD_DONE_MAGIC then Inr DownloadDone
           else if magic = SPEED_UPLOAD_DONE_MAGIC then Inr UploadDone
           else Inl SA_BadMagic)
          (\<lambda>kind.
             if length input < 12 then Inl SA_Truncated
             else if length input \<noteq> 12 then Inl SA_InvalidLength
             else Inr \<lparr>sa_kind = kind, sa_bytes = be_at 8 input 4\<rparr>))"

lemma speed_decode_Inr:
  "speed_decode input = Inr q \<longleftrightarrow>
     take 4 input = SPEED_TEST_MAGIC \<and> length input = 30 \<and> speed_ok q \<and>
     q = \<lparr>st_warmup_bytes = be_at 8 input 4, st_download_bytes = be_at 8 input 12,
       st_upload_bytes = be_at 8 input 20, st_sample_count = be_at 2 input 28\<rparr>"
  by (auto simp: speed_decode_def speed_ok_def Let_def split: if_splits)

lemma speed_enc_dec:
  assumes "speed_ok q"
  shows "\<exists>bs. speed_encode q = Inr bs \<and> speed_decode bs = Inr q"
proof -
  define bs where "bs = SPEED_TEST_MAGIC @ be_bytes 8 (st_warmup_bytes q) @ be_bytes 8 (st_download_bytes q) @
    be_bytes 8 (st_upload_bytes q) @ be_bytes 2 (st_sample_count q)"
  have f: "be_at 8 bs 4 = st_warmup_bytes q" "be_at 8 bs 12 = st_download_bytes q"
    "be_at 8 bs 20 = st_upload_bytes q" "be_at 2 bs 28 = st_sample_count q"
    by (rule be_at_encoded [where rest = "drop 12 bs"], simp_all add: bs_def)
      (rule be_at_encoded [where rest = "drop 20 bs"], simp_all add: bs_def,
       rule be_at_encoded [where rest = "drop 28 bs"], simp_all add: bs_def,
       rule be_at_encoded [where rest = "[]"], simp_all)
  have "speed_decode bs = Inr q"
    unfolding speed_decode_Inr f using assms by (simp add: bs_def)
  moreover have "speed_encode q = Inr bs"
    using assms by (simp add: speed_encode_def speed_ok_def bs_def)
  ultimately show ?thesis by blast
qed

lemma speed_dec_enc:
  assumes "speed_decode input = Inr q"
  shows "speed_encode q = Inr input"
proof -
  note D = assms [unfolded speed_decode_Inr]
  have "SPEED_TEST_MAGIC @ take 8 (drop 4 input) @ take 8 (drop 12 input) @ take 8 (drop 20 input) @ drop 28 input = input"
    using D by (simp add: take_drop_append magic_append)
  then show ?thesis
    using D by (auto simp: speed_encode_def speed_ok_def be_bytes_be_at)
qed

interpretation sp_req: canonical_codec speed_encode speed_decode speed_ok
  by unfold_locales (fact speed_enc_dec, simp add: speed_decode_Inr, fact speed_dec_enc)

lemma ack_magics_distinct:
  "distinct [SPEED_WARMUP_DOWNLOAD_DONE_MAGIC, SPEED_WARMUP_UPLOAD_DONE_MAGIC, SPEED_DOWNLOAD_DONE_MAGIC,
     SPEED_UPLOAD_DONE_MAGIC]"
  by (simp add: magic_defs ascii_def)

lemma ack_enc_dec: "ack_decode (ack_encode a) = Inr a"
proof -
  have "be_at 8 (m @ be_bytes 8 (sa_bytes a)) 4 = sa_bytes a" if "length m = 4" for m
    by (rule be_at_encoded [where rest = "[]"]) (simp_all add: that)
  then show ?thesis
    using ack_magics_distinct
    by (cases "sa_kind a") (simp_all add: ack_encode_def ack_decode_def Let_def eq_commute)
qed

lemma ack_dec_enc: "ack_decode input = Inr a \<Longrightarrow> ack_encode a = input"
  by (auto simp: ack_decode_def ack_encode_def Let_def and_then_eq_Inr be_bytes_be_at magic_append
      split: if_splits)

interpretation sa: canonical_codec "\<lambda>a. Inr (ack_encode a)" ack_decode "\<lambda>_. True"
  by unfold_locales (simp_all add: ack_enc_dec ack_dec_enc)

section \<open>UDP negotiation\<close>

record udp_offer =
  uo_offer_id :: bytes
  uo_udp_port :: u16
  uo_port_hop_seed :: u64
  uo_cc :: byte
  uo_fec_profile :: byte
  uo_ignore_client_bandwidth :: bool

datatype udp_offer_error = UO_Truncated | UO_BadMagic | UO_InvalidLength | UO_ZeroPort

definition offer_encode :: "udp_offer \<Rightarrow> udp_offer_error + bytes" where
  "offer_encode x =
     (if uo_udp_port x = 0 then Inl UO_ZeroPort
      else Inr (UDP_OFFER_MAGIC @ uo_offer_id x @ be_bytes 2 (uo_udp_port x) @ be_bytes 8 (uo_port_hop_seed x) @
        [uo_cc x, uo_fec_profile x, if uo_ignore_client_bandwidth x then 1 else 0]))"

definition offer_decode :: "bytes \<Rightarrow> udp_offer_error + udp_offer" where
  "offer_decode input =
     (if length input < 4 then Inl UO_Truncated
      else if take 4 input \<noteq> UDP_OFFER_MAGIC then Inl UO_BadMagic
      else if length input < UDP_OFFER_LEN then Inl UO_Truncated
      else if length input \<noteq> UDP_OFFER_LEN then Inl UO_InvalidLength
      else
        let pos = 4 + UDP_OFFER_ID_LEN;
            udp_port = be_at 2 input pos;
            pos = pos + 2;
            port_hop_seed = be_at 8 input pos;
            pos = pos + 8
        in if udp_port = 0 then Inl UO_ZeroPort
           else Inr \<lparr>uo_offer_id = take UDP_OFFER_ID_LEN (drop 4 input), uo_udp_port = udp_port,
             uo_port_hop_seed = port_hop_seed, uo_cc = input ! pos, uo_fec_profile = input ! (pos + 1),
             uo_ignore_client_bandwidth = (input ! (pos + 2) \<noteq> 0)\<rparr>)"

definition offer_ok :: "udp_offer \<Rightarrow> bool" where
  "offer_ok x \<longleftrightarrow> length (uo_offer_id x) = 16 \<and> uo_udp_port x \<noteq> 0"

datatype udp_probe_status = Verified | Unreachable | Failed

datatype udp_probe_ack_error = UP_Truncated | UP_BadMagic | UP_InvalidLength | InvalidStatus byte

fun status_to_byte :: "udp_probe_status \<Rightarrow> byte" where
  "status_to_byte Verified = 0"
| "status_to_byte Unreachable = 1"
| "status_to_byte Failed = 2"

definition status_from_byte :: "byte \<Rightarrow> udp_probe_ack_error + udp_probe_status" where
  "status_from_byte b =
     (if b = 0 then Inr Verified else if b = 1 then Inr Unreachable else if b = 2 then Inr Failed
      else Inl (InvalidStatus b))"

record udp_probe_ack =
  up_offer_id :: bytes
  up_status :: udp_probe_status
  up_rtt_micros :: u32

definition probe_encode :: "udp_probe_ack \<Rightarrow> bytes" where
  "probe_encode a =
     UDP_PROBE_ACK_MAGIC @ up_offer_id a @ [status_to_byte (up_status a)] @ be_bytes 4 (up_rtt_micros a)"

definition probe_decode :: "bytes \<Rightarrow> udp_probe_ack_error + udp_probe_ack" where
  "probe_decode input =
     (if length input < 4 then Inl UP_Truncated
      else if take 4 input \<noteq> UDP_PROBE_ACK_MAGIC then Inl UP_BadMagic
      else if length input < UDP_PROBE_ACK_LEN then Inl UP_Truncated
      else if length input \<noteq> UDP_PROBE_ACK_LEN then Inl UP_InvalidLength
      else
        let pos = 4 + UDP_OFFER_ID_LEN
        in and_then (status_from_byte (input ! pos)) (\<lambda>status.
             Inr \<lparr>up_offer_id = take UDP_OFFER_ID_LEN (drop 4 input), up_status = status,
               up_rtt_micros = be_at 4 input (pos + 1)\<rparr>))"

record udp_request =
  ur_version :: byte

datatype udp_request_error = UR_Truncated | UR_BadMagic | UR_InvalidLength

definition request_encode :: "udp_request \<Rightarrow> bytes" where
  "request_encode q = UDP_REQUEST_MAGIC @ [ur_version q]"

definition request_decode :: "bytes \<Rightarrow> udp_request_error + udp_request" where
  "request_decode input =
     (if length input < 4 then Inl UR_Truncated
      else if take 4 input \<noteq> UDP_REQUEST_MAGIC then Inl UR_BadMagic
      else if length input < UDP_REQUEST_LEN then Inl UR_Truncated
      else if length input \<noteq> UDP_REQUEST_LEN then Inl UR_InvalidLength
      else Inr \<lparr>ur_version = input ! 4\<rparr>)"

record udp_decline =
  ud_reason :: byte

datatype udp_decline_error = UD_Truncated | UD_BadMagic | UD_InvalidLength

definition decline_encode :: "udp_decline \<Rightarrow> bytes" where
  "decline_encode q = UDP_DECLINE_MAGIC @ [ud_reason q]"

definition decline_decode :: "bytes \<Rightarrow> udp_decline_error + udp_decline" where
  "decline_decode input =
     (if length input < 4 then Inl UD_Truncated
      else if take 4 input \<noteq> UDP_DECLINE_MAGIC then Inl UD_BadMagic
      else if length input < UDP_DECLINE_LEN then Inl UD_Truncated
      else if length input \<noteq> UDP_DECLINE_LEN then Inl UD_InvalidLength
      else Inr \<lparr>ud_reason = input ! 4\<rparr>)"

lemma offer_decode_Inr:
  "offer_decode input = Inr x \<longleftrightarrow>
     take 4 input = UDP_OFFER_MAGIC \<and> length input = 33 \<and> be_at 2 input 20 \<noteq> (0 :: u16) \<and>
     x = \<lparr>uo_offer_id = take 16 (drop 4 input), uo_udp_port = be_at 2 input 20, uo_port_hop_seed = be_at 8 input 22,
       uo_cc = input ! 30, uo_fec_profile = input ! 31, uo_ignore_client_bandwidth = (input ! 32 \<noteq> 0)\<rparr>"
  by (auto simp: offer_decode_def frame_len_defs Let_def split: if_splits)

lemma offer_enc_dec:
  assumes "offer_ok x"
  shows "\<exists>bs. offer_encode x = Inr bs \<and> offer_decode bs = Inr x"
proof -
  let ?tail = "[uo_cc x, uo_fec_profile x, if uo_ignore_client_bandwidth x then 1 else 0]"
  define bs where "bs = UDP_OFFER_MAGIC @ uo_offer_id x @ be_bytes 2 (uo_udp_port x) @
    be_bytes 8 (uo_port_hop_seed x) @ ?tail"
  have l16: "length (uo_offer_id x) = 16"
    using assms by (simp add: offer_ok_def)
  have f1: "be_at 2 bs 20 = uo_udp_port x"
    by (rule be_at_encoded [where rest = "drop 22 bs"]) (simp_all add: bs_def l16)
  have f2: "be_at 8 bs 22 = uo_port_hop_seed x"
    by (rule be_at_encoded [where rest = ?tail]) (simp_all add: bs_def l16)
  have "offer_decode bs = Inr x"
    unfolding offer_decode_Inr f1 f2 using assms by (simp add: bs_def offer_ok_def nth_append)
  moreover have "offer_encode x = Inr bs"
    using assms by (simp add: offer_encode_def offer_ok_def bs_def)
  ultimately show ?thesis by blast
qed

interpretation uo: frame_codec offer_encode offer_decode offer_ok
  by unfold_locales (fact offer_enc_dec, simp add: offer_decode_Inr offer_ok_def)

lemma status_from_to_byte [simp]: "status_from_byte (status_to_byte s) = Inr s"
  by (cases s) (simp_all add: status_from_byte_def)

lemma status_to_from_byte: "status_from_byte b = Inr s \<Longrightarrow> status_to_byte s = b"
  by (auto simp: status_from_byte_def split: if_splits)

lemma probe_decode_Inr:
  "probe_decode input = Inr a \<longleftrightarrow>
     take 4 input = UDP_PROBE_ACK_MAGIC \<and> length input = 25 \<and> status_from_byte (input ! 20) = Inr (up_status a) \<and>
     up_offer_id a = take 16 (drop 4 input) \<and> up_rtt_micros a = be_at 4 input 21"
  by (cases a) (auto simp: probe_decode_def frame_len_defs Let_def and_then_eq_Inr split: if_splits)

lemma probe_enc_dec: "length (up_offer_id a) = 16 \<Longrightarrow> probe_decode (probe_encode a) = Inr a"
proof -
  assume l16: "length (up_offer_id a) = 16"
  have "be_at 4 (probe_encode a) 21 = up_rtt_micros a"
    by (rule be_at_encoded [where rest = "[]"]) (simp_all add: probe_encode_def l16)
  then show ?thesis
    by (simp add: probe_decode_Inr) (simp add: probe_encode_def l16 nth_append)
qed

lemma probe_dec_enc:
  assumes "probe_decode input = Inr a"
  shows "probe_encode a = input"
proof -
  note D = assms [unfolded probe_decode_Inr]
  have "input ! 20 # drop 21 input = drop 20 input"
    using D by (intro nth_take_drop) simp_all
  then show ?thesis
    using D status_to_from_byte [of "input ! 20" "up_status a"]
    by (simp add: probe_encode_def be_bytes_be_at take_drop_append magic_append)
qed

interpretation up: canonical_codec "\<lambda>a. Inr (probe_encode a)" probe_decode "\<lambda>a. length (up_offer_id a) = 16"
  by unfold_locales (simp add: probe_enc_dec, simp add: probe_decode_Inr, simp, erule probe_dec_enc)

lemma last_byte:
  assumes "length xs = 5" and "take 4 xs = m"
  shows "m @ [xs ! 4] = xs"
proof -
  have "[xs ! 4] = drop 4 xs"
    using assms(1) by (simp add: Cons_nth_drop_Suc [symmetric])
  then show ?thesis
    using magic_append [OF assms(2)] by simp
qed

interpretation ur: canonical_codec "\<lambda>q. Inr (request_encode q)" request_decode "\<lambda>_. True"
  by unfold_locales
    (auto simp: request_encode_def request_decode_def frame_len_defs last_byte nth_append split: if_splits)

interpretation ud: canonical_codec "\<lambda>q. Inr (decline_encode q)" decline_decode "\<lambda>_. True"
  by unfold_locales
    (auto simp: decline_encode_def decline_decode_def frame_len_defs last_byte nth_append split: if_splits)

definition mux_has_magic :: "bytes \<Rightarrow> bool" where "mux_has_magic = has_magic MUX_FRAME_MAGIC"
definition speed_has_magic :: "bytes \<Rightarrow> bool" where "speed_has_magic = has_magic SPEED_TEST_MAGIC"
definition offer_has_magic :: "bytes \<Rightarrow> bool" where "offer_has_magic = has_magic UDP_OFFER_MAGIC"
definition request_has_magic :: "bytes \<Rightarrow> bool" where "request_has_magic = has_magic UDP_REQUEST_MAGIC"
definition decline_has_magic :: "bytes \<Rightarrow> bool" where "decline_has_magic = has_magic UDP_DECLINE_MAGIC"

section \<open>Multiplexer frames\<close>

datatype mux_frame_kind = MuxOpen | MuxData | MuxFin | MuxReset | MuxCover

record mux_frame =
  mf_stream_id :: u32
  mf_kind :: mux_frame_kind
  mf_payload :: bytes

datatype mux_frame_error =
  MF_Truncated | MF_BadMagic | InvalidKind | InvalidStreamId | PayloadTooLong | MF_InvalidPayloadLength

fun kind_to_wire :: "mux_frame_kind \<Rightarrow> byte" where
  "kind_to_wire MuxOpen = 1"
| "kind_to_wire MuxData = 2"
| "kind_to_wire MuxFin = 3"
| "kind_to_wire MuxReset = 4"
| "kind_to_wire MuxCover = 5"

definition kind_from_wire :: "byte \<Rightarrow> mux_frame_error + mux_frame_kind" where
  "kind_from_wire b =
     (if b = 1 then Inr MuxOpen else if b = 2 then Inr MuxData else if b = 3 then Inr MuxFin
      else if b = 4 then Inr MuxReset else if b = 5 then Inr MuxCover else Inl InvalidKind)"

definition validate_mux_stream :: "mux_frame_kind \<Rightarrow> u32 \<Rightarrow> mux_frame_error + unit" where
  "validate_mux_stream kind stream_id =
     (if kind = MuxCover \<and> stream_id = 0 then Inr ()
      else if kind \<in> {MuxOpen, MuxData, MuxFin, MuxReset} \<and> stream_id \<noteq> 0 then Inr ()
      else Inl InvalidStreamId)"

definition max_payload_len :: "nat \<Rightarrow> nat" where
  "max_payload_len max_encoded_len = max_encoded_len - MUX_FRAME_FIXED_LEN"

definition max_open_initial_payload_len :: "bytes \<Rightarrow> nat \<Rightarrow> nat" where
  "max_open_initial_payload_len host max_encoded_len =
     max_initial_payload_len host (max_payload_len max_encoded_len)"

definition mux_encoded_len :: "nat \<Rightarrow> mux_frame_error + nat" where
  "mux_encoded_len payload_len =
     (if payload_len > 2 ^ 32 - 1 then Inl PayloadTooLong
      else ok_or (checked_add_usize MUX_FRAME_FIXED_LEN payload_len) PayloadTooLong)"

text \<open>The encoder appends to \<open>out\<close>, which an error leaves as it was.\<close>

definition mux_encode_borrowed_into ::
  "u32 \<Rightarrow> mux_frame_kind \<Rightarrow> bytes \<Rightarrow> bytes \<Rightarrow> mux_frame_error + bytes" where
  "mux_encode_borrowed_into stream_id kind payload out =
     and_then (validate_mux_stream kind stream_id) (\<lambda>_.
       if length payload > 2 ^ 32 - 1 then Inl PayloadTooLong
       else Inr (out @ MUX_FRAME_MAGIC @ be_bytes 4 stream_id @ [kind_to_wire kind] @
         be_bytes 4 (of_nat (length payload) :: u32) @ payload))"

definition mux_encode_borrowed :: "u32 \<Rightarrow> mux_frame_kind \<Rightarrow> bytes \<Rightarrow> mux_frame_error + bytes" where
  "mux_encode_borrowed stream_id kind payload =
     and_then (mux_encoded_len (length payload)) (\<lambda>_. mux_encode_borrowed_into stream_id kind payload [])"

definition mux_encode :: "mux_frame \<Rightarrow> mux_frame_error + bytes" where
  "mux_encode f = mux_encode_borrowed (mf_stream_id f) (mf_kind f) (mf_payload f)"

definition mux_encode_into :: "mux_frame \<Rightarrow> bytes \<Rightarrow> mux_frame_error + bytes" where
  "mux_encode_into f out = mux_encode_borrowed_into (mf_stream_id f) (mf_kind f) (mf_payload f) out"

definition mux_decode_prefix :: "bytes \<Rightarrow> mux_frame_error + (mux_frame \<times> nat)" where
  "mux_decode_prefix input =
     (if length input < 4 then Inl MF_Truncated
      else if take 4 input \<noteq> MUX_FRAME_MAGIC then Inl MF_BadMagic
      else if length input < MUX_FRAME_FIXED_LEN then Inl MF_Truncated
      else
        let stream_id = be_at 4 input 4
        in and_then (kind_from_wire (input ! 8)) (\<lambda>kind.
           and_then (validate_mux_stream kind stream_id) (\<lambda>_.
           and_then (mux_encoded_len (unat (be_at 4 input 9 :: u32))) (\<lambda>used.
             if length input < used then Inl MF_InvalidPayloadLength
             else Inr (\<lparr>mf_stream_id = stream_id, mf_kind = kind,
               mf_payload = take (used - MUX_FRAME_FIXED_LEN) (drop MUX_FRAME_FIXED_LEN input)\<rparr>, used)))))"

definition mux_decode :: "bytes \<Rightarrow> mux_frame_error + mux_frame" where
  "mux_decode input =
     and_then (mux_decode_prefix input) (\<lambda>(frame, used).
       if length input \<noteq> used then Inl MF_InvalidPayloadLength else Inr frame)"

lemma mux_encoded_len_u32: "mux_encoded_len (unat (w :: u32)) = Inr (13 + unat w)"
  using length_u32 [of w]
  by (simp add: mux_encoded_len_def checked_add_usize_def usize_limit_def MUX_FRAME_FIXED_LEN_def)

lemma mux_decode_prefix_Inr:
  "mux_decode_prefix input = Inr (f, used) \<longleftrightarrow>
     (let n = unat (be_at 4 input 9 :: u32) in
      take 4 input = MUX_FRAME_MAGIC \<and> used = 13 + n \<and> used \<le> length input \<and>
      kind_from_wire (input ! 8) = Inr (mf_kind f) \<and>
      validate_mux_stream (mf_kind f) (mf_stream_id f) = Inr () \<and>
      mf_stream_id f = be_at 4 input 4 \<and> mf_payload f = take n (drop 13 input))"
  by (cases f) (auto simp: mux_decode_prefix_def mux_encoded_len_u32 Let_def and_then_eq_Inr
      MUX_FRAME_FIXED_LEN_def split: if_splits)

text \<open>The loop over a buffer that holds several frames.\<close>

function mux_decode_all_loop :: "mux_frame list \<Rightarrow> bytes \<Rightarrow> mux_frame_error + mux_frame list" where
  "mux_decode_all_loop frames rest =
     (if rest = [] then Inr frames
      else case mux_decode_prefix rest of
          Inl e \<Rightarrow> Inl e
        | Inr (frame, used) \<Rightarrow> mux_decode_all_loop (frames @ [frame]) (drop used rest))"
  by pat_completeness auto

termination
  by (relation "measure (\<lambda>(_, rest). length rest)") (auto simp: mux_decode_prefix_Inr Let_def)

declare mux_decode_all_loop.simps [simp del]

definition mux_decode_all :: "bytes \<Rightarrow> mux_frame_error + mux_frame list" where
  "mux_decode_all input = mux_decode_all_loop [] input"

definition mux_ok :: "mux_frame \<Rightarrow> bool" where
  "mux_ok f \<longleftrightarrow> (mf_kind f = MuxCover \<longleftrightarrow> mf_stream_id f = 0) \<and> length (mf_payload f) < 2 ^ 32"

text \<open>The bytes of a well-formed frame.\<close>

definition mux_wire :: "mux_frame \<Rightarrow> bytes" where
  "mux_wire f = MUX_FRAME_MAGIC @ be_bytes 4 (mf_stream_id f) @ [kind_to_wire (mf_kind f)] @
     be_bytes 4 (of_nat (length (mf_payload f)) :: u32) @ mf_payload f"

lemma validate_mux_stream_iff: "validate_mux_stream k i = Inr () \<longleftrightarrow> (k = MuxCover \<longleftrightarrow> i = 0)"
  by (cases k) (simp_all add: validate_mux_stream_def)

lemma kind_from_to_wire [simp]: "kind_from_wire (kind_to_wire k) = Inr k"
  by (cases k) (simp_all add: kind_from_wire_def)

lemma kind_to_from_wire: "kind_from_wire b = Inr k \<Longrightarrow> kind_to_wire k = b"
  by (auto simp: kind_from_wire_def split: if_splits)

lemma mux_encode_Inr: "mux_encode f = Inr bs \<longleftrightarrow> mux_ok f \<and> bs = mux_wire f"
  by (auto simp: mux_encode_def mux_encode_borrowed_def mux_encode_borrowed_into_def mux_encoded_len_def mux_ok_def
      mux_wire_def and_then_eq_Inr validate_mux_stream_iff checked_add_usize_def usize_limit_def
      MUX_FRAME_FIXED_LEN_def split: if_splits)

lemma mux_decode_prefix_wire:
  assumes "mux_ok f"
  shows "mux_decode_prefix (mux_wire f @ rest) = Inr (f, length (mux_wire f))"
proof -
  let ?n = "length (mf_payload f)" and ?input = "mux_wire f @ rest"
  have n: "unat (of_nat ?n :: u32) = ?n"
    using assms by (simp add: mux_ok_def unat_of_nat_u32)
  have f1: "be_at 4 ?input 4 = mf_stream_id f"
    by (rule be_at_encoded [where rest = "drop 8 ?input"]) (simp_all add: mux_wire_def)
  have f2: "be_at 4 ?input 9 = (of_nat ?n :: u32)"
    by (rule be_at_encoded [where rest = "mf_payload f @ rest"]) (simp_all add: mux_wire_def)
  have "kind_from_wire (?input ! 8) = Inr (mf_kind f)"
    by (simp add: mux_wire_def nth_append)
  moreover have "validate_mux_stream (mf_kind f) (mf_stream_id f) = Inr ()"
    using assms by (simp add: validate_mux_stream_iff mux_ok_def)
  ultimately show ?thesis
    unfolding mux_decode_prefix_Inr Let_def f1 f2 n by (simp add: mux_wire_def)
qed

lemma mux_decode_prefix_canonical:
  assumes "mux_decode_prefix input = Inr (f, used)"
  shows "mux_ok f \<and> used = length (mux_wire f) \<and> input = mux_wire f @ drop used input"
proof -
  define n where "n = unat (be_at 4 input 9 :: u32)"
  note D = assms [unfolded mux_decode_prefix_Inr Let_def, folded n_def]
  have len: "13 + n \<le> length input" and pl: "mf_payload f = take n (drop 13 input)"
    using D by simp_all
  have "length (mf_payload f) = n"
    using len pl by simp
  then have field: "of_nat (length (mf_payload f)) = (be_at 4 input 9 :: u32)"
    by (simp add: n_def)
  have byte8: "kind_to_wire (mf_kind f) # drop 9 input = drop 8 input"
    using D kind_to_from_wire [of "input ! 8" "mf_kind f"] nth_take_drop [of 8 input 9] by simp
  have "mux_wire f @ drop (13 + n) input = input"
    unfolding mux_wire_def field
    using D len byte8 by (simp add: be_bytes_be_at take_drop_append magic_append)
  moreover have "mux_ok f"
    using D \<open>length (mf_payload f) = n\<close> length_u32 [of "be_at 4 input 9"]
    by (simp add: mux_ok_def validate_mux_stream_iff n_def)
  ultimately show ?thesis
    using D \<open>length (mf_payload f) = n\<close> by (simp add: mux_wire_def)
qed

lemma mux_dec_iff: "mux_decode bs = Inr f \<longleftrightarrow> mux_ok f \<and> mux_encode f = Inr bs"
proof
  assume "mux_decode bs = Inr f"
  then have "mux_decode_prefix bs = Inr (f, length bs)"
    by (auto simp: mux_decode_def and_then_eq_Inr split: if_splits)
  from mux_decode_prefix_canonical [OF this] show "mux_ok f \<and> mux_encode f = Inr bs"
    by (simp add: mux_encode_Inr)
next
  assume "mux_ok f \<and> mux_encode f = Inr bs"
  then show "mux_decode bs = Inr f"
    using mux_decode_prefix_wire [of f "[]"] by (auto simp: mux_encode_Inr mux_decode_def)
qed

interpretation mf: canonical_codec mux_encode mux_decode mux_ok
  by unfold_locales (auto simp: mux_dec_iff mux_encode_Inr)

lemma mux_wire_nonempty [simp]: "mux_wire f \<noteq> []"
  by (simp add: mux_wire_def MUX_FRAME_MAGIC_def ascii_def)

lemma mux_decode_all_loop_wire:
  "list_all mux_ok fs \<Longrightarrow> mux_decode_all_loop acc (concat (map mux_wire fs)) = Inr (acc @ fs)"
proof (induction fs arbitrary: acc)
  case Nil
  then show ?case by (simp add: mux_decode_all_loop.simps)
next
  case (Cons f fs)
  then show ?case
    by (subst mux_decode_all_loop.simps) (simp add: mux_decode_prefix_wire)
qed

lemma mux_decode_all_loop_canonical:
  "mux_decode_all_loop acc rest = Inr fs \<Longrightarrow>
     \<exists>gs. fs = acc @ gs \<and> list_all mux_ok gs \<and> rest = concat (map mux_wire gs)"
proof (induction acc rest rule: mux_decode_all_loop.induct)
  case (1 acc rest)
  show ?case
  proof (cases "rest = []")
    case True
    then show ?thesis
      using "1.prems" by (auto simp: mux_decode_all_loop.simps [of acc "[]"] intro: exI [of _ "[]"])
  next
    case False
    then obtain f used where pre: "mux_decode_prefix rest = Inr (f, used)"
      and rec: "mux_decode_all_loop (acc @ [f]) (drop used rest) = Inr fs"
      using "1.prems" by (auto simp: mux_decode_all_loop.simps [of acc rest] split: sum.splits)
    obtain gs where gs: "fs = (acc @ [f]) @ gs" "list_all mux_ok gs" "drop used rest = concat (map mux_wire gs)"
      using "1.IH" [OF False pre refl rec] by blast
    have "mux_ok f" "rest = mux_wire f @ drop used rest"
      using mux_decode_prefix_canonical [OF pre] by blast+
    then show ?thesis
      using gs by (intro exI [of _ "f # gs"]) simp
  qed
qed

lemma mux_decode_all_iff:
  "mux_decode_all bs = Inr fs \<longleftrightarrow> list_all mux_ok fs \<and> bs = concat (map mux_wire fs)"
  using mux_decode_all_loop_wire [of fs "[]"] mux_decode_all_loop_canonical [of "[]" bs fs]
  by (auto simp: mux_decode_all_def)

lemma mux_encode_into_Inr: "mux_encode_into f out = Inr bs \<longleftrightarrow> mux_ok f \<and> bs = out @ mux_wire f"
  by (auto simp: mux_encode_into_def mux_encode_borrowed_into_def mux_ok_def mux_wire_def and_then_eq_Inr
      validate_mux_stream_iff split: if_splits)

lemma mux_encode_into_run:
  "foldl (\<lambda>r f. and_then r (mux_encode_into f)) (Inr out) fs = Inr bs \<longleftrightarrow>
     list_all mux_ok fs \<and> bs = out @ concat (map mux_wire fs)"
proof (induction fs arbitrary: out)
  case Nil
  then show ?case by auto
next
  case (Cons f fs)
  have err: "foldl (\<lambda>r f. and_then r (mux_encode_into f)) (Inl e) fs = Inl e" for e
    by (induction fs) simp_all
  show ?case
  proof (cases "mux_encode_into f out")
    case (Inl e)
    then have "\<not> mux_ok f"
      using mux_encode_into_Inr [of f out "out @ mux_wire f"] by auto
    then show ?thesis
      by (simp add: Inl err)
  next
    case (Inr out')
    then have "mux_ok f" "out' = out @ mux_wire f"
      by (simp_all add: mux_encode_into_Inr)
    then show ?thesis
      using Cons.IH [of out'] by (simp add: Inr)
  qed
qed

text \<open>C31. A buffer that holds the encodings of several multiplexer frames one after the other, appended by
  \<open>MuxFrame::encode_into\<close>, is what \<open>MuxFrame::decode_all\<close> takes apart into exactly these frames, and nothing else is
  accepted: the decoder succeeds on a buffer if and only if the encoder produces it.\<close>

theorem mux_frames_roundtrip:
  "mux_decode_all bs = Inr fs \<longleftrightarrow> foldl (\<lambda>r f. and_then r (mux_encode_into f)) (Inr []) fs = Inr bs"
  by (simp add: mux_encode_into_run mux_decode_all_iff)

section \<open>Payload buffers\<close>

text \<open>A \<open>Vec<u8>\<close> with its capacity. \<open>grow\<close> is the capacity the allocator gives to a vector of some capacity that must
  hold more bytes; \<open>locked\<close> says that the mutex could be taken (it is not poisoned).\<close>

record vec_u8 =
  v_capacity :: nat
  v_data :: bytes

record mux_payload_pool =
  mp_free :: "vec_u8 list"
  mp_buffer_capacity :: nat
  mp_max_buffers :: nat

definition MUX_PAYLOAD_POOL_DEFAULT_MAX :: nat where "MUX_PAYLOAD_POOL_DEFAULT_MAX = 64"

definition vec_extend :: "(nat \<Rightarrow> nat \<Rightarrow> nat) \<Rightarrow> vec_u8 \<Rightarrow> bytes \<Rightarrow> vec_u8" where
  "vec_extend grow b chunk =
     (let n = length (v_data b) + length chunk in
      \<lparr>v_capacity = (if n \<le> v_capacity b then v_capacity b else grow (v_capacity b) n), v_data = v_data b @ chunk\<rparr>)"

definition pool_new :: "nat \<Rightarrow> nat \<Rightarrow> mux_payload_pool" where
  "pool_new buffer_capacity max_buffers =
     \<lparr>mp_free = [], mp_buffer_capacity = max buffer_capacity 1, mp_max_buffers = max max_buffers 1\<rparr>"

definition pool_with_capacity :: "nat \<Rightarrow> mux_payload_pool" where
  "pool_with_capacity buffer_capacity = pool_new buffer_capacity MUX_PAYLOAD_POOL_DEFAULT_MAX"

definition pool_take :: "bool \<Rightarrow> mux_payload_pool \<Rightarrow> vec_u8 \<times> mux_payload_pool" where
  "pool_take locked p =
     (if locked \<and> mp_free p \<noteq> [] then (last (mp_free p), p\<lparr>mp_free := butlast (mp_free p)\<rparr>)
      else (\<lparr>v_capacity = mp_buffer_capacity p, v_data = []\<rparr>, p))"

definition pool_take_filled ::
  "(nat \<Rightarrow> nat \<Rightarrow> nat) \<Rightarrow> bool \<Rightarrow> bytes \<Rightarrow> mux_payload_pool \<Rightarrow> vec_u8 \<times> mux_payload_pool" where
  "pool_take_filled grow locked chunk p = (let (buf, p) = pool_take locked p in (vec_extend grow buf chunk, p))"

definition pool_put :: "bool \<Rightarrow> vec_u8 \<Rightarrow> mux_payload_pool \<Rightarrow> mux_payload_pool" where
  "pool_put locked buf p =
     (if v_capacity buf < mp_buffer_capacity p then p
      else
        let buf = buf\<lparr>v_data := []\<rparr>
        in if locked \<and> length (mp_free p) < mp_max_buffers p then p\<lparr>mp_free := mp_free p @ [buf]\<rparr> else p)"

text \<open>The freelist stays within its cap and holds only empty buffers of a full slot each, so a buffer taken from it
  never carries bytes of another stream.\<close>

definition pool_inv :: "mux_payload_pool \<Rightarrow> bool" where
  "pool_inv p \<longleftrightarrow> length (mp_free p) \<le> mp_max_buffers p \<and>
     list_all (\<lambda>b. v_data b = [] \<and> mp_buffer_capacity p \<le> v_capacity b) (mp_free p)"

lemma pool_inv_new: "pool_inv (pool_new c m)"
  by (simp add: pool_inv_def pool_new_def)

lemma pool_inv_put: "pool_inv p \<Longrightarrow> pool_inv (pool_put locked buf p)"
  by (auto simp: pool_inv_def pool_put_def Let_def)

lemma pool_inv_take: "pool_inv p \<Longrightarrow> pool_inv (snd (pool_take locked p))"
  by (auto simp: pool_inv_def pool_take_def list_all_iff dest: in_set_butlastD)

lemma pool_take_clean:
  "pool_inv p \<Longrightarrow> v_data (fst (pool_take locked p)) = [] \<and> mp_buffer_capacity p \<le> v_capacity (fst (pool_take locked p))"
  by (auto simp: pool_inv_def pool_take_def list_all_iff)

lemma pool_take_filled_data: "pool_inv p \<Longrightarrow> v_data (fst (pool_take_filled grow locked chunk p)) = chunk"
  using pool_take_clean [of p locked] by (auto simp: pool_take_filled_def vec_extend_def Let_def split: prod.splits)

end
