(* ===== verification/Command_Chunk.thy ===== *)
theory Command_Chunk
  imports Command Traffic
begin

text \<open>
  Record-size shaping and chunked frames of \<open>protocol/command.rs\<close>: the padding that snaps a control record onto a
  size band, the sizes of the post-quantum flight, the offset-addressed chunks with their splitters, and the
  reassembler. The random generator is the parameter of \<open>Traffic\<close>. The two loops that draw sizes make progress only
  because of what the generator returns, so they are partial functions and their termination is a theorem. A slice
  \<open>&payload[offset..end]\<close> out of range panics: the splitters return \<open>None\<close> then, and for an endless loop.
\<close>

section \<open>Record-size shaping\<close>

definition DATA_RECORD_WIRE_OVERHEAD :: nat where "DATA_RECORD_WIRE_OVERHEAD = 2 + 16"

definition CONNECT_RECORD_SIZE_BANDS :: "nat list" where
  "CONNECT_RECORD_SIZE_BANDS = [286, 339, 469, 519, 569, 713, 735, 1353]"

definition SHAPED_RECORD_SIZE_JITTER :: nat where "SHAPED_RECORD_SIZE_JITTER = 96"
definition PQ_HANDSHAKE_CHUNK_MIN_PLAINTEXT :: nat where "PQ_HANDSHAKE_CHUNK_MIN_PLAINTEXT = 256"
definition PQ_HANDSHAKE_CHUNK_MAX_PLAINTEXT :: nat where "PQ_HANDSHAKE_CHUNK_MAX_PLAINTEXT = 1024"

definition PQ_FLIGHT_RECORD_TARGETS :: "nat list" where
  "PQ_FLIGHT_RECORD_TARGETS = [144, 191, 286, 339, 469, 519, 569, 713, 735, 1353, 1440, 1459]"

definition PQ_FLIGHT_RECORD_MIN :: nat where "PQ_FLIGHT_RECORD_MIN = 144"
definition PQ_FLIGHT_AGGREGATE_PAD_MIN :: nat where "PQ_FLIGHT_AGGREGATE_PAD_MIN = 64"
definition PQ_FLIGHT_AGGREGATE_PAD_MAX :: nat where "PQ_FLIGHT_AGGREGATE_PAD_MAX = 512"
definition PQ_CHUNK_FRAME_HEADER_LEN :: nat where "PQ_CHUNK_FRAME_HEADER_LEN = 16"
definition MAX_PQ_HANDSHAKE_FRAME :: nat where "MAX_PQ_HANDSHAKE_FRAME = 4096"
definition OFFSET_CHUNK_HEADER_LEN :: nat where "OFFSET_CHUNK_HEADER_LEN = 16"

lemmas shape_defs = DATA_RECORD_WIRE_OVERHEAD_def CONNECT_RECORD_SIZE_BANDS_def SHAPED_RECORD_SIZE_JITTER_def
  PQ_FLIGHT_RECORD_TARGETS_def PQ_FLIGHT_RECORD_MIN_def PQ_FLIGHT_AGGREGATE_PAD_MIN_def
  PQ_FLIGHT_AGGREGATE_PAD_MAX_def PQ_CHUNK_FRAME_HEADER_LEN_def

definition pq_flight_max_chunk_size :: "nat \<Rightarrow> nat" where
  "pq_flight_max_chunk_size max_sealed_plaintext =
     max (max_sealed_plaintext - (PQ_CHUNK_FRAME_HEADER_LEN + PQ_FLIGHT_AGGREGATE_PAD_MAX)) PQ_FLIGHT_RECORD_MIN"

definition connect_record_size_is_shaped :: "nat \<Rightarrow> bool" where
  "connect_record_size_is_shaped wire_payload_len \<longleftrightarrow>
     list_ex (\<lambda>center. center \<le> wire_payload_len \<and> wire_payload_len \<le> center + SHAPED_RECORD_SIZE_JITTER)
       CONNECT_RECORD_SIZE_BANDS"

definition skewed_pick :: "'r rng \<Rightarrow> nat list \<Rightarrow> 'r \<Rightarrow> nat \<times> 'r" where
  "skewed_pick R sorted_ascending r =
     (let n = length sorted_ascending;
          (a, r) = r_range R 0 n r;
          (b, r) = r_range R 0 n r
      in (sorted_ascending ! min a b, r))"

definition bucketed_jitter :: "'r rng \<Rightarrow> nat \<Rightarrow> 'r \<Rightarrow> nat \<times> 'r" where
  "bucketed_jitter R cap r =
     (if cap = 0 then (0, r)
      else
        let (bucket, r) = r_range R 0 100 r;
            span = (if bucket < 70 then min cap 32 else if bucket < 92 then min cap 64 else cap)
        in r_range R 0 (span + 1) r)"

definition band_shaping_pad :: "'r rng \<Rightarrow> nat \<Rightarrow> nat \<Rightarrow> 'r \<Rightarrow> nat \<times> 'r" where
  "band_shaping_pad R encoded_len max_extra_pad r =
     (let raw_wire = encoded_len + DATA_RECORD_WIRE_OVERHEAD;
          candidates = filter (\<lambda>band. band \<ge> raw_wire \<and> band - raw_wire \<le> max_extra_pad) CONNECT_RECORD_SIZE_BANDS
      in if candidates = [] then (0, r)
         else
           let (center, r) = skewed_pick R candidates r;
               base = center - raw_wire;
               budget = max_extra_pad - base;
               (jitter, r) = bucketed_jitter R (min budget SHAPED_RECORD_SIZE_JITTER) r
           in (base + jitter, r))"

definition shaping_extra_pad :: "'r rng \<Rightarrow> connect_request \<Rightarrow> nat \<Rightarrow> 'r \<Rightarrow> nat \<times> 'r" where
  "shaping_extra_pad R q max_extra_pad r = band_shaping_pad R (connect_encoded_len q) max_extra_pad r"

definition control_frame_shaping_pad :: "'r rng \<Rightarrow> nat \<Rightarrow> nat \<Rightarrow> 'r \<Rightarrow> nat \<times> 'r" where
  "control_frame_shaping_pad R encoded_len max_extra_pad r = band_shaping_pad R encoded_len max_extra_pad r"

definition aggregate_pad_len :: "'r rng \<Rightarrow> 'r \<Rightarrow> nat \<times> 'r" where
  "aggregate_pad_len R r = r_range R PQ_FLIGHT_AGGREGATE_PAD_MIN (PQ_FLIGHT_AGGREGATE_PAD_MAX + 1) r"

lemma rng_rangeD:
  "rng_correct R \<Longrightarrow> r_range R lo hi r = (x, r') \<Longrightarrow> lo < hi \<Longrightarrow> lo \<le> x \<and> x < hi"
  unfolding rng_correct_def by (metis fst_conv)

lemma skewed_pick_in:
  assumes "rng_correct R" and "xs \<noteq> []" and "skewed_pick R xs r = (x, r')"
  shows "x \<in> set xs"
proof -
  obtain a r1 b r2 where ab: "r_range R 0 (length xs) r = (a, r1)" "r_range R 0 (length xs) r1 = (b, r2)"
    by (metis prod.collapse)
  have "a < length xs"
    using rng_rangeD [OF assms(1) ab(1)] assms(2) by simp
  moreover have "x = xs ! min a b"
    using assms(3) ab by (simp add: skewed_pick_def Let_def)
  ultimately show ?thesis
    by (simp add: min.strict_coboundedI1)
qed

lemma bucketed_jitter_le:
  assumes "rng_correct R" and "bucketed_jitter R cap r = (j, r')"
  shows "j \<le> cap"
proof (cases "cap = 0")
  case False
  obtain bucket r1 where b: "r_range R 0 100 r = (bucket, r1)"
    by (metis prod.collapse)
  define span where "span = (if bucket < 70 then min cap 32 else if bucket < 92 then min cap 64 else cap)"
  have "r_range R 0 (span + 1) r1 = (j, r')"
    using assms(2) False b by (simp add: bucketed_jitter_def Let_def span_def)
  then have "j \<le> span"
    using rng_rangeD [OF assms(1)] by fastforce
  also have "span \<le> cap"
    by (simp add: span_def)
  finally show ?thesis .
qed (use assms in \<open>simp add: bucketed_jitter_def\<close>)

lemma band_shaping_pad_cases:
  assumes "rng_correct R" and "band_shaping_pad R n mx r = (pad, r')"
  shows "(pad = 0 \<and> (\<forall>c \<in> set CONNECT_RECORD_SIZE_BANDS. c < n + 18 \<or> mx < c - (n + 18))) \<or>
    (\<exists>c \<in> set CONNECT_RECORD_SIZE_BANDS. n + 18 \<le> c \<and> c \<le> n + 18 + pad \<and> n + 18 + pad \<le> c + 96 \<and> pad \<le> mx)"
proof -
  define cs where "cs = filter (\<lambda>band. band \<ge> n + 18 \<and> band - (n + 18) \<le> mx) CONNECT_RECORD_SIZE_BANDS"
  show ?thesis
  proof (cases "cs = []")
    case True
    then have "pad = 0"
      using assms(2) unfolding band_shaping_pad_def Let_def cs_def DATA_RECORD_WIRE_OVERHEAD_def by simp
    with True show ?thesis
      by (auto simp: cs_def filter_empty_conv not_le)
  next
    case False
    obtain c r1 where c: "skewed_pick R cs r = (c, r1)"
      by (metis prod.collapse)
    obtain j r2 where j: "bucketed_jitter R (min (mx - (c - (n + 18))) SHAPED_RECORD_SIZE_JITTER) r1 = (j, r2)"
      by (metis prod.collapse)
    have pad: "pad = c - (n + 18) + j"
      using assms(2) False c j
      unfolding band_shaping_pad_def Let_def cs_def DATA_RECORD_WIRE_OVERHEAD_def by simp
    have "c \<in> set cs"
      by (rule skewed_pick_in [OF assms(1) False c])
    then have "c \<in> set CONNECT_RECORD_SIZE_BANDS" "n + 18 \<le> c" "c - (n + 18) \<le> mx"
      by (simp_all add: cs_def)
    moreover have "j \<le> mx - (c - (n + 18))" "j \<le> 96"
      using bucketed_jitter_le [OF assms(1) j] by (simp_all add: SHAPED_RECORD_SIZE_JITTER_def)
    ultimately show ?thesis
      using pad by (intro disjI2 bexI [of _ c]) auto
  qed
qed

section \<open>Sizes of the post-quantum flight\<close>

definition pick_target_size :: "'r rng \<Rightarrow> nat \<Rightarrow> 'r \<Rightarrow> nat \<times> 'r" where
  "pick_target_size R hi r =
     (let choices = filter (\<lambda>t. t \<le> hi) PQ_FLIGHT_RECORD_TARGETS
      in if choices = [] then (max hi PQ_FLIGHT_RECORD_MIN, r)
         else
           let (center, r) = skewed_pick R choices r;
               (jitter, r) = bucketed_jitter R (min (center - PQ_FLIGHT_RECORD_MIN) SHAPED_RECORD_SIZE_JITTER) r
           in (center - jitter, r))"

text \<open>The loop of \<open>browser_shaped_sizes\<close>; \<open>None\<close> is a loop that never ends.\<close>

partial_function (option) browser_sizes_loop ::
  "'r rng \<Rightarrow> nat \<Rightarrow> nat \<Rightarrow> nat \<Rightarrow> nat list \<Rightarrow> 'r \<Rightarrow> (nat list \<times> 'r) option" where
  "browser_sizes_loop R payload_len max_target consumed sizes r =
     (if consumed < payload_len then
        let remaining = payload_len - consumed
        in if remaining \<le> max_target then Some (sizes @ [remaining], r)
           else
             let p = pick_target_size R (min max_target (remaining - PQ_FLIGHT_RECORD_MIN)) r
             in browser_sizes_loop R payload_len max_target (consumed + fst p) (sizes @ [fst p]) (snd p)
      else Some (sizes, r))"

declare browser_sizes_loop.simps [code]

definition browser_shaped_sizes :: "'r rng \<Rightarrow> nat \<Rightarrow> nat \<Rightarrow> 'r \<Rightarrow> (nat list \<times> 'r) option" where
  "browser_shaped_sizes R payload_len max_record_size r =
     (let target_max = Max (set PQ_FLIGHT_RECORD_TARGETS);
          max_target = min target_max (max max_record_size PQ_FLIGHT_RECORD_MIN)
      in browser_sizes_loop R payload_len max_target 0 [] r)"

partial_function (option) shaped_sizes_loop ::
  "'r rng \<Rightarrow> nat \<Rightarrow> nat \<Rightarrow> nat \<Rightarrow> nat \<Rightarrow> nat list \<Rightarrow> 'r \<Rightarrow> (nat list \<times> 'r) option" where
  "shaped_sizes_loop R payload_len min_chunk max_chunk consumed sizes r =
     (if consumed < payload_len then
        let remaining = payload_len - consumed
        in if remaining \<le> max_chunk then Some (sizes @ [remaining], r)
           else
             let hi = min max_chunk (remaining - min_chunk);
                 p = (if hi \<ge> min_chunk then r_range R min_chunk (hi + 1) r else (max_chunk, r))
             in shaped_sizes_loop R payload_len min_chunk max_chunk (consumed + fst p) (sizes @ [fst p]) (snd p)
      else Some (sizes, r))"

declare shaped_sizes_loop.simps [code]

lemma flight_target_ge: "t \<in> set PQ_FLIGHT_RECORD_TARGETS \<Longrightarrow> 144 \<le> t"
  by (auto simp: PQ_FLIGHT_RECORD_TARGETS_def)

lemma pick_target_size_bounds:
  assumes "rng_correct R" and "pick_target_size R hi r = (tk, r')"
  shows "144 \<le> tk \<and> tk \<le> max hi 144"
proof -
  define cs where "cs = filter (\<lambda>t. t \<le> hi) PQ_FLIGHT_RECORD_TARGETS"
  show ?thesis
  proof (cases "cs = []")
    case True
    then show ?thesis
      using assms(2) unfolding pick_target_size_def Let_def cs_def [symmetric] PQ_FLIGHT_RECORD_MIN_def by auto
  next
    case False
    obtain c r1 where c: "skewed_pick R cs r = (c, r1)"
      by (metis prod.collapse)
    obtain j r2 where j: "bucketed_jitter R (min (c - PQ_FLIGHT_RECORD_MIN) SHAPED_RECORD_SIZE_JITTER) r1 = (j, r2)"
      by (metis prod.collapse)
    have tk: "tk = c - j"
      using assms(2) False c j unfolding pick_target_size_def Let_def cs_def [symmetric] by simp
    have "c \<in> set cs"
      by (rule skewed_pick_in [OF assms(1) False c])
    then have "c \<le> hi" "144 \<le> c"
      using flight_target_ge by (auto simp: cs_def)
    moreover have "j \<le> c - 144"
      using bucketed_jitter_le [OF assms(1) j] by (simp add: PQ_FLIGHT_RECORD_MIN_def)
    ultimately show ?thesis
      using tk by auto
  qed
qed

text \<open>Both loops return sizes that tile the rest of the payload. \<open>sizes_ok\<close> collects the bounds: no size above the
  cap or zero, and none below the floor when the bounds leave room for two records of the floor.\<close>

definition sizes_ok :: "nat \<Rightarrow> nat \<Rightarrow> nat \<Rightarrow> nat list \<Rightarrow> bool" where
  "sizes_ok lo hi tot ss \<longleftrightarrow> sum_list ss = tot \<and> (\<forall>s \<in> set ss. 0 < s \<and> s \<le> hi) \<and>
     (lo \<le> tot \<and> 2 * lo \<le> hi + 1 \<longrightarrow> (\<forall>s \<in> set ss. lo \<le> s))"

lemma sizes_ok_single: "0 < n \<Longrightarrow> n \<le> hi \<Longrightarrow> sizes_ok lo hi n [n]"
  by (simp add: sizes_ok_def)

lemma sizes_ok_Cons:
  assumes "sizes_ok lo hi (tot - s) ss" and "0 < s" and "s \<le> hi" and "s \<le> tot"
    and "2 * lo \<le> hi + 1 \<Longrightarrow> lo \<le> s \<and> lo \<le> tot - s"
  shows "sizes_ok lo hi tot (s # ss)"
  using assms by (auto simp: sizes_ok_def)

lemma browser_sizes_loop_ok:
  assumes R: "rng_correct R" and mt: "144 \<le> mt"
  shows "consumed < len \<Longrightarrow> \<exists>ss r'. browser_sizes_loop R len mt consumed sizes r = Some (sizes @ ss, r') \<and>
    sizes_ok 144 mt (len - consumed) ss"
proof (induction "len - consumed" arbitrary: consumed sizes r rule: less_induct)
  case less
  let ?rem = "len - consumed"
  show ?case
  proof (cases "?rem \<le> mt")
    case True
    have "browser_sizes_loop R len mt consumed sizes r = Some (sizes @ [?rem], r)"
      using less.prems True by (subst browser_sizes_loop.simps) (simp add: Let_def)
    then show ?thesis
      using sizes_ok_single [of ?rem mt 144] less.prems True by (intro exI conjI) auto
  next
    case False
    obtain tk r1 where p: "pick_target_size R (min mt (?rem - PQ_FLIGHT_RECORD_MIN)) r = (tk, r1)"
      by (metis prod.collapse)
    have tk: "144 \<le> tk" "tk \<le> max (min mt (?rem - 144)) 144"
      using pick_target_size_bounds [OF R p] by (simp_all add: PQ_FLIGHT_RECORD_MIN_def)
    have step: "browser_sizes_loop R len mt consumed sizes r =
        browser_sizes_loop R len mt (consumed + tk) (sizes @ [tk]) r1"
      using less.prems False p by (subst browser_sizes_loop.simps) (simp add: Let_def)
    have le: "tk \<le> mt"
      using tk(2) mt by (simp add: max_def split: if_splits)
    then have rem: "len - (consumed + tk) = ?rem - tk" "consumed + tk < len" "len - (consumed + tk) < ?rem"
      using tk(1) False less.prems by simp_all
    obtain ss r' where ih: "browser_sizes_loop R len mt (consumed + tk) (sizes @ [tk]) r1 = Some ((sizes @ [tk]) @ ss, r')"
      "sizes_ok 144 mt (?rem - tk) ss"
      using less.hyps [OF rem(3,2), of "sizes @ [tk]" r1] unfolding rem(1) by blast
    have tail: "144 \<le> ?rem - tk" if "287 \<le> mt"
      using tk(2) that False by (simp add: max_def min_def split: if_splits)
    have "sizes_ok 144 mt ?rem (tk # ss)"
      by (rule sizes_ok_Cons [OF ih(2)]) (use tk(1) le tail False in simp_all)
    then show ?thesis
      using step ih(1) by (intro exI [of _ "tk # ss"] exI [of _ r']) simp
  qed
qed

lemma shaped_sizes_loop_ok:
  assumes R: "rng_correct R" and lo: "0 < lo" "lo \<le> hi"
  shows "consumed < len \<Longrightarrow> \<exists>ss r'. shaped_sizes_loop R len lo hi consumed sizes r = Some (sizes @ ss, r') \<and>
    sizes_ok lo hi (len - consumed) ss"
proof (induction "len - consumed" arbitrary: consumed sizes r rule: less_induct)
  case less
  let ?rem = "len - consumed"
  show ?case
  proof (cases "?rem \<le> hi")
    case True
    have "shaped_sizes_loop R len lo hi consumed sizes r = Some (sizes @ [?rem], r)"
      using less.prems True by (subst shaped_sizes_loop.simps) (simp add: Let_def)
    then show ?thesis
      using sizes_ok_single [of ?rem hi lo] less.prems True by (intro exI conjI) auto
  next
    case False
    let ?top = "min hi (?rem - lo)"
    obtain tk r1 where p: "(if lo \<le> ?top then r_range R lo (?top + 1) r else (hi, r)) = (tk, r1)"
      by (metis prod.collapse)
    have tk: "lo \<le> tk" "tk \<le> hi" "lo \<le> ?top \<Longrightarrow> tk \<le> ?rem - lo"
      using rng_rangeD [OF R, of lo "?top + 1" r tk r1] p lo by (auto simp: less_Suc_eq_le split: if_splits)
    have step: "shaped_sizes_loop R len lo hi consumed sizes r =
        shaped_sizes_loop R len lo hi (consumed + tk) (sizes @ [tk]) r1"
      by (subst shaped_sizes_loop.simps) (simp only: Let_def p less.prems False if_True if_False fst_conv snd_conv)
    have rem: "len - (consumed + tk) = ?rem - tk" "consumed + tk < len" "len - (consumed + tk) < ?rem"
      using tk(1,2) lo(1) False less.prems by simp_all
    obtain ss r' where ih: "shaped_sizes_loop R len lo hi (consumed + tk) (sizes @ [tk]) r1 = Some ((sizes @ [tk]) @ ss, r')"
      "sizes_ok lo hi (?rem - tk) ss"
      using less.hyps [OF rem(3,2), of "sizes @ [tk]" r1] unfolding rem(1) by blast
    have tail: "lo \<le> ?rem - tk" if "2 * lo \<le> hi + 1"
    proof -
      have "lo \<le> ?rem - lo"
        using that False by linarith
      then have "tk \<le> ?rem - lo"
        using tk(3) lo(2) by simp
      with \<open>lo \<le> ?rem - lo\<close> lo(1) show ?thesis
        by linarith
    qed
    have "sizes_ok lo hi ?rem (tk # ss)"
      by (rule sizes_ok_Cons [OF ih(2)]) (use tk(1,2) lo tail False in simp_all)
    then show ?thesis
      using step ih(1) by (intro exI [of _ "tk # ss"] exI [of _ r']) simp
  qed
qed

lemma browser_shaped_sizes_ok:
  assumes "rng_correct R" and "0 < len"
  shows "\<exists>ss r'. browser_shaped_sizes R len mx r = Some (ss, r') \<and> sizes_ok 144 (min 1459 (max mx 144)) len ss"
  using browser_sizes_loop_ok [OF assms(1), of "min 1459 (max mx 144)" 0 len "[]" r] assms(2)
  by (simp add: browser_shaped_sizes_def PQ_FLIGHT_RECORD_TARGETS_def PQ_FLIGHT_RECORD_MIN_def Let_def)

text \<open>A cap below twice the floor can leave a tail below the floor, whatever the generator does.\<close>

lemma short_tail_below_floor: "browser_shaped_sizes R 145 144 r = Some ([144, 1], r)"
  by (simp add: browser_shaped_sizes_def browser_sizes_loop.simps pick_target_size_def shape_defs Let_def)

section \<open>Offset-addressed chunks\<close>

datatype offset_chunk_error = OC_Truncated | OC_BadMagic | OC_EmptyChunk | OC_InvalidChunkLength | OC_InvalidOffset

record offset_chunk =
  oc_total_len :: u32
  oc_offset :: u32
  oc_bytes :: bytes

definition checked_add_u32 :: "u32 \<Rightarrow> u32 \<Rightarrow> u32 option" where
  "checked_add_u32 a b = (if unat a + unat b < 2 ^ 32 then Some (a + b) else None)"

definition encode_offset_chunk :: "bytes \<Rightarrow> u32 \<Rightarrow> u32 \<Rightarrow> bytes \<Rightarrow> offset_chunk_error + bytes" where
  "encode_offset_chunk magic total_len offset bs =
     (if bs = [] then Inl OC_EmptyChunk
      else and_then (if length bs < 2 ^ 32 then Inr (of_nat (length bs) :: u32) else Inl OC_InvalidChunkLength) (\<lambda>len.
        and_then (ok_or (checked_add_u32 offset len) OC_InvalidOffset) (\<lambda>end_pos.
          if total_len = 0 \<or> end_pos > total_len then Inl OC_InvalidOffset
          else Inr (magic @ be_bytes 4 total_len @ be_bytes 4 offset @ be_bytes 4 len @ bs))))"

definition decode_offset_chunk :: "bytes \<Rightarrow> bytes \<Rightarrow> offset_chunk_error + offset_chunk" where
  "decode_offset_chunk magic input =
     (if length input < 4 then Inl OC_Truncated
      else if take 4 input \<noteq> magic then Inl OC_BadMagic
      else if length input < OFFSET_CHUNK_HEADER_LEN then Inl OC_Truncated
      else
        let total_len = be_at 4 input 4 :: u32;
            offset = be_at 4 input 8 :: u32;
            len = unat (be_at 4 input 12 :: u32)
        in if len = 0 then Inl OC_EmptyChunk
           else and_then (ok_or (checked_add_usize OFFSET_CHUNK_HEADER_LEN len) OC_InvalidChunkLength) (\<lambda>expected.
             if length input \<noteq> expected then Inl OC_InvalidChunkLength
             else and_then (ok_or (checked_add_u32 offset (of_nat len)) OC_InvalidOffset) (\<lambda>end_pos.
               if total_len = 0 \<or> end_pos > total_len then Inl OC_InvalidOffset
               else Inr \<lparr>oc_total_len = total_len, oc_offset = offset, oc_bytes = drop OFFSET_CHUNK_HEADER_LEN input\<rparr>)))"

text \<open>A chunk lies within its frame.\<close>

definition chunk_ok :: "offset_chunk \<Rightarrow> bool" where
  "chunk_ok c \<longleftrightarrow> oc_bytes c \<noteq> [] \<and> unat (oc_offset c) + length (oc_bytes c) \<le> unat (oc_total_len c)"

definition chunk_wire :: "bytes \<Rightarrow> offset_chunk \<Rightarrow> bytes" where
  "chunk_wire magic c = magic @ be_bytes 4 (oc_total_len c) @ be_bytes 4 (oc_offset c) @
     be_bytes 4 (of_nat (length (oc_bytes c)) :: u32) @ oc_bytes c"

lemma checked_end:
  fixes tot off :: u32
  assumes "n < 2 ^ 32"
  shows "(\<exists>e. checked_add_u32 off (of_nat n) = Some e \<and> \<not> (tot = 0 \<or> e > tot)) \<longleftrightarrow>
    unat off + n \<le> unat tot \<and> tot \<noteq> 0"
proof -
  have n: "unat (of_nat n :: u32) = n"
    by (rule unat_of_nat_u32 [OF assms])
  show ?thesis
  proof (cases "unat off + n < 2 ^ 32")
    case True
    then have "unat (off + of_nat n) = unat off + n"
      using n by (simp add: unat_word_ariths)
    then show ?thesis
      using True n by (auto simp: checked_add_u32_def word_le_nat_alt not_less)
  next
    case False
    then show ?thesis
      using n length_u32 [of tot] by (auto simp: checked_add_u32_def)
  qed
qed

lemma chunk_ok_length:
  assumes "chunk_ok c"
  shows "length (oc_bytes c) < 2 ^ 32" "oc_total_len c \<noteq> 0"
proof -
  show len: "length (oc_bytes c) < 2 ^ 32"
    using assms length_u32 [of "oc_total_len c"] by (simp add: chunk_ok_def)
  show "oc_total_len c \<noteq> 0"
    using assms by (auto simp: chunk_ok_def)
qed

lemma encode_offset_chunk_ok:
  assumes "chunk_ok c"
  shows "encode_offset_chunk magic (oc_total_len c) (oc_offset c) (oc_bytes c) = Inr (chunk_wire magic c)"
proof -
  have ne: "oc_bytes c \<noteq> []" and fit: "unat (oc_offset c) + length (oc_bytes c) \<le> unat (oc_total_len c)"
    using assms by (simp_all add: chunk_ok_def)
  obtain e where "checked_add_u32 (oc_offset c) (of_nat (length (oc_bytes c))) = Some e"
    "\<not> (oc_total_len c = 0 \<or> e > oc_total_len c)"
    using checked_end [of "length (oc_bytes c)" "oc_offset c" "oc_total_len c"] fit chunk_ok_length [OF assms] by blast
  then show ?thesis
    using ne chunk_ok_length(1) [OF assms] by (simp add: encode_offset_chunk_def chunk_wire_def)
qed

lemma decode_offset_chunk_Inr:
  "decode_offset_chunk magic input = Inr c \<longleftrightarrow>
     take 4 input = magic \<and> 16 \<le> length input \<and> length input = 16 + unat (be_at 4 input 12 :: u32) \<and>
     chunk_ok c \<and> c = \<lparr>oc_total_len = be_at 4 input 4, oc_offset = be_at 4 input 8, oc_bytes = drop 16 input\<rparr>"
proof -
  define n where "n = unat (be_at 4 input 12 :: u32)"
  have n: "n < 2 ^ 32" "checked_add_usize 16 n = Some (16 + n)"
    using length_u32 [of "be_at 4 input 12"] by (simp_all add: n_def checked_add_usize_def usize_limit_def)
  have "decode_offset_chunk magic input = Inr c \<longleftrightarrow>
      take 4 input = magic \<and> 16 \<le> length input \<and> 0 < n \<and> length input = 16 + n \<and>
      (\<exists>e. checked_add_u32 (be_at 4 input 8) (of_nat n) = Some e \<and> \<not> (be_at 4 input 4 = (0 :: u32) \<or> e > be_at 4 input 4)) \<and>
      c = \<lparr>oc_total_len = be_at 4 input 4, oc_offset = be_at 4 input 8, oc_bytes = drop 16 input\<rparr>"
    unfolding decode_offset_chunk_def Let_def n_def [symmetric] OFFSET_CHUNK_HEADER_LEN_def n(2)
    by (auto simp: and_then_eq_Inr split: if_splits)
  also have "\<dots> \<longleftrightarrow> take 4 input = magic \<and> 16 \<le> length input \<and> length input = 16 + n \<and> chunk_ok c \<and>
      c = \<lparr>oc_total_len = be_at 4 input 4, oc_offset = be_at 4 input 8, oc_bytes = drop 16 input\<rparr>"
    unfolding checked_end [OF n(1)] by (auto simp: chunk_ok_def)
  finally show ?thesis
    by (simp add: n_def)
qed

lemma chunk_roundtrip:
  assumes "chunk_ok c" and "length magic = 4"
  shows "decode_offset_chunk magic (chunk_wire magic c) = Inr c"
proof -
  let ?n = "length (oc_bytes c)" and ?bs = "chunk_wire magic c"
  have n: "unat (of_nat ?n :: u32) = ?n"
    using chunk_ok_length [OF assms(1)] by (intro unat_of_nat_u32)
  have f1: "be_at 4 ?bs 4 = oc_total_len c"
    by (rule be_at_encoded [where rest = "drop 8 ?bs"]) (simp_all add: chunk_wire_def assms(2))
  have f2: "be_at 4 ?bs 8 = oc_offset c"
    by (rule be_at_encoded [where rest = "drop 12 ?bs"]) (simp_all add: chunk_wire_def assms(2))
  have f3: "be_at 4 ?bs 12 = (of_nat ?n :: u32)"
    by (rule be_at_encoded [where rest = "oc_bytes c"]) (simp_all add: chunk_wire_def assms(2))
  show ?thesis
    unfolding decode_offset_chunk_Inr f1 f2 f3 n using assms by (simp add: chunk_wire_def)
qed

lemma chunk_dec_ok: "decode_offset_chunk magic input = Inr c \<Longrightarrow> chunk_ok c"
  unfolding decode_offset_chunk_Inr by (elim conjE)

lemma chunk_canonical:
  assumes "decode_offset_chunk magic input = Inr c"
  shows "input = chunk_wire magic c"
proof -
  note D = assms [unfolded decode_offset_chunk_Inr]
  have "of_nat (length (drop 16 input)) = (be_at 4 input 12 :: u32)"
    by (rule of_nat_length_field) (use D in simp)
  then have "chunk_wire magic c = magic @ be_bytes 4 (be_at 4 input 4 :: u32) @ be_bytes 4 (be_at 4 input 8 :: u32) @
      be_bytes 4 (be_at 4 input 12 :: u32) @ drop 16 input"
    using D by (simp add: chunk_wire_def)
  also have "\<dots> = input"
    using D by (simp add: be_bytes_be_at take_drop_append magic_append)
  finally show ?thesis by simp
qed

section \<open>The two chunk types\<close>

datatype server_identity_chunk_error =
  SIC_Truncated | SIC_BadMagic | SIC_EmptyChunk | SIC_InvalidChunkLength | SIC_InvalidOffset

datatype framed_chunk_error =
  FC_Truncated | FC_BadMagic | FC_EmptyChunk | FC_InvalidChunkLength | FC_InvalidOffset | TooLarge
| InconsistentTotal | OutOfOrder

fun identity_from :: "offset_chunk_error \<Rightarrow> server_identity_chunk_error" where
  "identity_from OC_Truncated = SIC_Truncated"
| "identity_from OC_BadMagic = SIC_BadMagic"
| "identity_from OC_EmptyChunk = SIC_EmptyChunk"
| "identity_from OC_InvalidChunkLength = SIC_InvalidChunkLength"
| "identity_from OC_InvalidOffset = SIC_InvalidOffset"

fun framed_from :: "offset_chunk_error \<Rightarrow> framed_chunk_error" where
  "framed_from OC_Truncated = FC_Truncated"
| "framed_from OC_BadMagic = FC_BadMagic"
| "framed_from OC_EmptyChunk = FC_EmptyChunk"
| "framed_from OC_InvalidChunkLength = FC_InvalidChunkLength"
| "framed_from OC_InvalidOffset = FC_InvalidOffset"

definition identity_encode_borrowed :: "u32 \<Rightarrow> u32 \<Rightarrow> bytes \<Rightarrow> server_identity_chunk_error + bytes" where
  "identity_encode_borrowed total_len offset bs =
     map_err identity_from (encode_offset_chunk SERVER_IDENTITY_CHUNK_MAGIC total_len offset bs)"

definition identity_chunk_encode :: "offset_chunk \<Rightarrow> server_identity_chunk_error + bytes" where
  "identity_chunk_encode c = identity_encode_borrowed (oc_total_len c) (oc_offset c) (oc_bytes c)"

definition identity_chunk_decode :: "bytes \<Rightarrow> server_identity_chunk_error + offset_chunk" where
  "identity_chunk_decode input = map_err identity_from (decode_offset_chunk SERVER_IDENTITY_CHUNK_MAGIC input)"

definition framed_encode_borrowed :: "u32 \<Rightarrow> u32 \<Rightarrow> bytes \<Rightarrow> framed_chunk_error + bytes" where
  "framed_encode_borrowed total_len offset bs =
     map_err framed_from (encode_offset_chunk FRAMED_CHUNK_MAGIC total_len offset bs)"

definition framed_chunk_decode :: "bytes \<Rightarrow> framed_chunk_error + offset_chunk" where
  "framed_chunk_decode input = map_err framed_from (decode_offset_chunk FRAMED_CHUNK_MAGIC input)"

text \<open>The loop over equal pieces of \<open>encode_all\<close>; \<open>enc\<close> is the \<open>encode_borrowed\<close> of the chunk type with its total.\<close>

fun encode_all_loop :: "(u32 \<Rightarrow> bytes \<Rightarrow> 'e + bytes) \<Rightarrow> nat \<Rightarrow> nat \<Rightarrow> bytes list \<Rightarrow> bytes list \<Rightarrow> 'e + bytes list" where
  "encode_all_loop enc n idx [] cs = Inr cs"
| "encode_all_loop enc n idx (bs # pieces) cs =
     and_then (enc (of_nat (idx * n)) bs) (\<lambda>c. encode_all_loop enc n (Suc idx) pieces (cs @ [c]))"

definition identity_encode_all :: "bytes \<Rightarrow> nat \<Rightarrow> server_identity_chunk_error + bytes list" where
  "identity_encode_all payload max_chunk_len =
     (if payload = [] \<or> max_chunk_len = 0 \<or> length payload > 2 ^ 32 - 1 then Inl SIC_InvalidChunkLength
      else encode_all_loop (identity_encode_borrowed (of_nat (length payload))) max_chunk_len 0
        (chunks max_chunk_len payload) [])"

definition framed_encode_all :: "bytes \<Rightarrow> nat \<Rightarrow> framed_chunk_error + bytes list" where
  "framed_encode_all payload chunk_len =
     (if payload = [] \<or> chunk_len = 0 \<or> length payload > 2 ^ 32 - 1 then Inl FC_InvalidChunkLength
      else encode_all_loop (framed_encode_borrowed (of_nat (length payload))) chunk_len 0
        (chunks chunk_len payload) [])"

text \<open>The loop over drawn sizes; \<open>None\<close> is the panic of the slice.\<close>

fun encode_sizes_loop ::
  "(u32 \<Rightarrow> bytes \<Rightarrow> 'e + bytes) \<Rightarrow> bytes \<Rightarrow> nat \<Rightarrow> nat list \<Rightarrow> bytes list \<Rightarrow> ('e + bytes list) option" where
  "encode_sizes_loop enc payload offset [] cs = Some (Inr cs)"
| "encode_sizes_loop enc payload offset (sz # sizes) cs =
     (case get_range payload offset (offset + sz) of
        None \<Rightarrow> None
      | Some bs \<Rightarrow>
          (case enc (of_nat offset) bs of
             Inl e \<Rightarrow> Some (Inl e)
           | Inr c \<Rightarrow> encode_sizes_loop enc payload (offset + sz) sizes (cs @ [c])))"

definition identity_encode_all_browser_shaped ::
  "'r rng \<Rightarrow> bytes \<Rightarrow> nat \<Rightarrow> 'r \<Rightarrow> ((server_identity_chunk_error + bytes list) \<times> 'r) option" where
  "identity_encode_all_browser_shaped R payload max_record_size r =
     (if payload = [] \<or> length payload > 2 ^ 32 - 1 then Some (Inl SIC_InvalidChunkLength, r)
      else case browser_shaped_sizes R (length payload) max_record_size r of
          None \<Rightarrow> None
        | Some (sizes, r) \<Rightarrow>
            map_option (\<lambda>res. (res, r))
              (encode_sizes_loop (identity_encode_borrowed (of_nat (length payload))) payload 0 sizes []))"

definition framed_encode_all_browser_shaped ::
  "'r rng \<Rightarrow> bytes \<Rightarrow> nat \<Rightarrow> 'r \<Rightarrow> ((framed_chunk_error + bytes list) \<times> 'r) option" where
  "framed_encode_all_browser_shaped R payload max_record_size r =
     (if payload = [] \<or> length payload > 2 ^ 32 - 1 then Some (Inl FC_InvalidChunkLength, r)
      else case browser_shaped_sizes R (length payload) max_record_size r of
          None \<Rightarrow> None
        | Some (sizes, r) \<Rightarrow>
            map_option (\<lambda>res. (res, r))
              (encode_sizes_loop (framed_encode_borrowed (of_nat (length payload))) payload 0 sizes []))"

definition framed_encode_all_shaped ::
  "'r rng \<Rightarrow> bytes \<Rightarrow> nat \<Rightarrow> nat \<Rightarrow> 'r \<Rightarrow> ((framed_chunk_error + bytes list) \<times> 'r) option" where
  "framed_encode_all_shaped R payload min_chunk max_chunk r =
     (if payload = [] \<or> min_chunk = 0 \<or> max_chunk < min_chunk \<or> length payload > 2 ^ 32 - 1
      then Some (Inl FC_InvalidChunkLength, r)
      else case shaped_sizes_loop R (length payload) min_chunk max_chunk 0 [] r of
          None \<Rightarrow> None
        | Some (sizes, r) \<Rightarrow>
            map_option (\<lambda>res. (res, r))
              (encode_sizes_loop (framed_encode_borrowed (of_nat (length payload))) payload 0 sizes []))"

section \<open>Reassembly\<close>

record framed_reassembler =
  fr_expected_total :: "nat option"
  fr_assembled :: bytes

definition reassembler_default :: framed_reassembler where
  "reassembler_default = \<lparr>fr_expected_total = None, fr_assembled = []\<rparr>"

text \<open>The state is returned also with an error: the first chunk latches the total before its offset is checked.\<close>

definition reassembler_push ::
  "framed_reassembler \<Rightarrow> bytes \<Rightarrow> nat \<Rightarrow> (framed_chunk_error + bytes option) \<times> framed_reassembler" where
  "reassembler_push s chunk cap =
     (case framed_chunk_decode chunk of
        Inl e \<Rightarrow> (Inl e, s)
      | Inr c \<Rightarrow>
          let total_len = unat (oc_total_len c)
          in if total_len = 0 \<or> total_len > cap then (Inl TooLarge, s)
             else if (case fr_expected_total s of Some expected \<Rightarrow> expected \<noteq> total_len | None \<Rightarrow> False)
             then (Inl InconsistentTotal, s)
             else
               let s = (case fr_expected_total s of None \<Rightarrow> s\<lparr>fr_expected_total := Some total_len\<rparr> | Some _ \<Rightarrow> s)
               in if unat (oc_offset c) \<noteq> length (fr_assembled s) then (Inl OutOfOrder, s)
                  else
                    let s = s\<lparr>fr_assembled := fr_assembled s @ oc_bytes c\<rparr>
                    in if length (fr_assembled s) = total_len
                       then (Inr (Some (fr_assembled s)), s\<lparr>fr_expected_total := None, fr_assembled := []\<rparr>)
                       else if length (fr_assembled s) > total_len then (Inl OutOfOrder, s)
                       else (Inr None, s))"

text \<open>The reassembly of the identity proof in \<open>client/runtime.rs\<close>, over the opened records one after the other;
  \<open>None\<close> means that the loop waits for another record.\<close>

definition MAX_SERVER_IDENTITY_PAYLOAD :: nat where "MAX_SERVER_IDENTITY_PAYLOAD = 16 * 1024"

datatype identity_read_error =
  IdentityChunk server_identity_chunk_error | ServerIdentityTooLarge | InvalidServerIdentityChunks

fun read_server_identity_payload ::
  "nat option \<Rightarrow> bytes \<Rightarrow> bytes list \<Rightarrow> (identity_read_error + bytes) option" where
  "read_server_identity_payload expected_total assembled [] = None"
| "read_server_identity_payload expected_total assembled (record # records) =
     (case identity_chunk_decode record of
        Inl e \<Rightarrow> Some (Inl (IdentityChunk e))
      | Inr c \<Rightarrow>
          let total_len = unat (oc_total_len c)
          in if total_len = 0 \<or> total_len > MAX_SERVER_IDENTITY_PAYLOAD then Some (Inl ServerIdentityTooLarge)
             else if (case expected_total of Some expected \<Rightarrow> expected \<noteq> total_len | None \<Rightarrow> False)
             then Some (Inl InvalidServerIdentityChunks)
             else if unat (oc_offset c) \<noteq> length assembled then Some (Inl InvalidServerIdentityChunks)
             else
               let assembled = assembled @ oc_bytes c
               in if length assembled = total_len then Some (Inr assembled)
                  else if length assembled > total_len then Some (Inl InvalidServerIdentityChunks)
                  else read_server_identity_payload (Some total_len) assembled records)"

section \<open>Splitting and reassembly\<close>

text \<open>The chunks of a payload cut at the given sizes from some offset on.\<close>

fun cut_at :: "bytes \<Rightarrow> nat \<Rightarrow> nat list \<Rightarrow> offset_chunk list" where
  "cut_at payload off [] = []"
| "cut_at payload off (s # ss) =
     \<lparr>oc_total_len = of_nat (length payload), oc_offset = of_nat off, oc_bytes = take s (drop off payload)\<rparr> #
       cut_at payload (off + s) ss"

text \<open>Chunks are fed to the reassembler until one completes the frame or is refused; what was not looked at comes
  back too.\<close>

fun feed ::
  "framed_reassembler \<Rightarrow> nat \<Rightarrow> bytes list \<Rightarrow>
     (framed_chunk_error + (bytes \<times> bytes list) option) \<times> framed_reassembler" where
  "feed s cap [] = (Inr None, s)"
| "feed s cap (c # cs) =
     (case reassembler_push s c cap of
        (Inl e, s) \<Rightarrow> (Inl e, s)
      | (Inr (Some payload), s) \<Rightarrow> (Inr (Some (payload, cs)), s)
      | (Inr None, s) \<Rightarrow> feed s cap cs)"

definition tiles :: "bytes \<Rightarrow> nat \<Rightarrow> nat list \<Rightarrow> bool" where
  "tiles payload off ss \<longleftrightarrow> off + sum_list ss = length payload \<and> (\<forall>s \<in> set ss. 0 < s) \<and> length payload < 2 ^ 32"

lemma tiles_Cons:
  "tiles payload off (s # ss) \<longleftrightarrow> 0 < s \<and> off + s \<le> length payload \<and> tiles payload (off + s) ss"
  by (auto simp: tiles_def)

lemma cut_head_ok:
  assumes "tiles payload off (s # ss)"
  shows "chunk_ok \<lparr>oc_total_len = of_nat (length payload), oc_offset = of_nat off, oc_bytes = take s (drop off payload)\<rparr>"
    and "unat (of_nat (length payload) :: u32) = length payload" and "unat (of_nat off :: u32) = off"
proof -
  have "length payload < 2 ^ 32" "off < 2 ^ 32"
    using assms by (auto simp: tiles_def)
  then show *: "unat (of_nat (length payload) :: u32) = length payload" "unat (of_nat off :: u32) = off"
    using unat_of_nat_u32 by blast+
  show "chunk_ok \<lparr>oc_total_len = of_nat (length payload), oc_offset = of_nat off, oc_bytes = take s (drop off payload)\<rparr>"
    using assms by (auto simp: chunk_ok_def * tiles_Cons)
qed

text \<open>\<open>enc\<close> encodes the chunks of the payload with the given magic.\<close>

definition encodes :: "bytes \<Rightarrow> bytes \<Rightarrow> (u32 \<Rightarrow> bytes \<Rightarrow> 'e + bytes) \<Rightarrow> bool" where
  "encodes magic payload enc \<longleftrightarrow>
     (\<forall>c. chunk_ok c \<longrightarrow> oc_total_len c = of_nat (length payload) \<longrightarrow>
        enc (oc_offset c) (oc_bytes c) = Inr (chunk_wire magic c))"

lemma encodesD:
  "encodes magic payload enc \<Longrightarrow> chunk_ok c \<Longrightarrow> oc_total_len c = of_nat (length payload) \<Longrightarrow>
     enc (oc_offset c) (oc_bytes c) = Inr (chunk_wire magic c)"
  by (simp add: encodes_def)

lemma encode_sizes_loop_cut:
  assumes enc: "encodes magic payload enc"
  shows "tiles payload off ss \<Longrightarrow>
    encode_sizes_loop enc payload off ss acc = Some (Inr (acc @ map (chunk_wire magic) (cut_at payload off ss)))"
proof (induction ss arbitrary: off acc)
  case Nil
  then show ?case by simp
next
  case (Cons s ss)
  have "get_range payload off (off + s) = Some (take s (drop off payload))"
    using Cons.prems by (simp add: get_range_def tiles_Cons)
  moreover have "tiles payload (off + s) ss"
    using Cons.prems by (simp add: tiles_Cons)
  ultimately show ?case
    using encodesD [OF enc cut_head_ok(1) [OF Cons.prems]] Cons.IH by simp
qed

lemma encode_all_loop_cut:
  assumes enc: "encodes magic payload enc"
    and n: "0 < n" and len: "length payload < 2 ^ 32"
  shows "rest = drop (idx * n) payload \<Longrightarrow>
    encode_all_loop enc n idx (chunks n rest) acc =
      Inr (acc @ map (chunk_wire magic) (cut_at payload (idx * n) (map length (chunks n rest))))"
proof (induction "length rest" arbitrary: idx rest acc rule: less_induct)
  case less
  show ?case
  proof (cases "rest = []")
    case True
    then show ?thesis by (simp add: chunks.simps)
  next
    case False
    let ?s = "length (take n rest)"
    have ch: "chunks n rest = take n rest # chunks n (drop n rest)"
      using False n by (subst chunks.simps) simp
    let ?c = "\<lparr>oc_total_len = of_nat (length payload), oc_offset = of_nat (idx * n),
      oc_bytes = take ?s (drop (idx * n) payload)\<rparr>"
    have pos: "idx * n < length payload" and rest: "rest = drop (idx * n) payload"
      using False less.prems by (auto simp: not_less)
    have "tiles payload (idx * n) [?s, length payload - idx * n - ?s] \<or> tiles payload (idx * n) [?s]"
      using pos len n by (auto simp: tiles_def rest min_def)
    then have "chunk_ok ?c"
      using cut_head_ok(1) by blast
    have tk: "take ?s (drop (idx * n) payload) = take n rest"
      by (simp add: rest min_def)
    have step: "enc (of_nat (idx * n)) (take n rest) = Inr (chunk_wire magic ?c)"
      using encodesD [OF enc \<open>chunk_ok ?c\<close>] unfolding tk by simp
    have rec: "encode_all_loop enc n (Suc idx) (chunks n (drop n rest)) (acc @ [chunk_wire magic ?c]) =
        Inr ((acc @ [chunk_wire magic ?c]) @
          map (chunk_wire magic) (cut_at payload (Suc idx * n) (map length (chunks n (drop n rest)))))"
      by (rule less.hyps) (use False n in \<open>simp_all add: rest add.commute\<close>)
    have cut_eq: "cut_at payload (idx * n + ?s) xs = cut_at payload (Suc idx * n) xs"
      if "xs = map length (chunks n (drop n rest))" for xs
    proof (cases "n \<le> length rest")
      case False
      then have "xs = []"
        using that by (simp add: chunks.simps)
      then show ?thesis by simp
    qed (simp add: add.commute)
    show ?thesis
      using step rec cut_eq [OF refl] by (simp add: ch del: length_take)
  qed
qed

lemma chunks_tile:
  assumes "0 < n" and "length payload < 2 ^ 32"
  shows "tiles payload 0 (map length (chunks n payload))"
proof -
  have "sum_list (map length (chunks n payload)) = length payload"
    using chunks_concat [OF assms(1), of payload] by (metis length_concat)
  moreover have "\<forall>x \<in> set (chunks n xs). x \<noteq> []" for xs :: bytes
    by (induction n xs rule: chunks.induct) (subst chunks.simps, auto)
  ultimately show ?thesis
    using assms(2) by (auto simp: tiles_def)
qed

lemma framed_enc:
  "chunk_ok c \<Longrightarrow> oc_total_len c = tot \<Longrightarrow>
     framed_encode_borrowed tot (oc_offset c) (oc_bytes c) = Inr (chunk_wire FRAMED_CHUNK_MAGIC c)"
  using encode_offset_chunk_ok [of c FRAMED_CHUNK_MAGIC] by (auto simp: framed_encode_borrowed_def)

lemma identity_enc:
  "chunk_ok c \<Longrightarrow> oc_total_len c = tot \<Longrightarrow>
     identity_encode_borrowed tot (oc_offset c) (oc_bytes c) = Inr (chunk_wire SERVER_IDENTITY_CHUNK_MAGIC c)"
  using encode_offset_chunk_ok [of c SERVER_IDENTITY_CHUNK_MAGIC] by (auto simp: identity_encode_borrowed_def)

text \<open>The state of the reassembler when the first \<open>off\<close> bytes of a payload have arrived.\<close>

definition partial_state :: "bytes \<Rightarrow> nat \<Rightarrow> framed_reassembler" where
  "partial_state payload off =
     \<lparr>fr_expected_total = (if off = 0 then None else Some (length payload)), fr_assembled = take off payload\<rparr>"

lemma partial_state_0: "partial_state payload 0 = reassembler_default"
  by (simp add: partial_state_def reassembler_default_def)

lemma push_cut_head:
  assumes t: "tiles payload off (s # ss)" and cap: "length payload \<le> cap"
  shows "reassembler_push (partial_state payload off)
      (chunk_wire FRAMED_CHUNK_MAGIC \<lparr>oc_total_len = of_nat (length payload), oc_offset = of_nat off,
        oc_bytes = take s (drop off payload)\<rparr>) cap =
    (if ss = [] then (Inr (Some payload), reassembler_default) else (Inr None, partial_state payload (off + s)))"
proof -
  note ok = cut_head_ok [OF t]
  have le: "0 < s" "off + s \<le> length payload" and rest: "tiles payload (off + s) ss"
    using t by (simp_all add: tiles_Cons)
  have app: "take off payload @ take s (drop off payload) = take (off + s) payload"
    by (simp add: take_add)
  have last: "ss = [] \<longleftrightarrow> off + s = length payload"
    using rest by (cases ss) (auto simp: tiles_def)
  have dec: "framed_chunk_decode (chunk_wire FRAMED_CHUNK_MAGIC \<lparr>oc_total_len = of_nat (length payload),
      oc_offset = of_nat off, oc_bytes = take s (drop off payload)\<rparr>) =
      Inr \<lparr>oc_total_len = of_nat (length payload), oc_offset = of_nat off, oc_bytes = take s (drop off payload)\<rparr>"
    by (simp add: framed_chunk_decode_def chunk_roundtrip [OF ok(1)])
  have len: "length (take off payload) = off" "length (take (off + s) payload) = off + s" "length payload \<noteq> 0"
    "\<not> cap < length payload" "\<not> off + s > length payload"
    using le cap by auto
  show ?thesis
    unfolding reassembler_push_def dec sum.case Let_def offset_chunk.simps ok(2,3) last
    using le len by (auto simp: partial_state_def reassembler_default_def app)
qed

lemma feed_cut:
  "tiles payload off ss \<Longrightarrow> ss \<noteq> [] \<Longrightarrow> length payload \<le> cap \<Longrightarrow>
     feed (partial_state payload off) cap (map (chunk_wire FRAMED_CHUNK_MAGIC) (cut_at payload off ss)) =
       (Inr (Some (payload, [])), reassembler_default)"
proof (induction ss arbitrary: off)
  case (Cons s ss)
  show ?case
  proof (cases "ss = []")
    case True
    then show ?thesis
      using push_cut_head [OF Cons.prems(1,3)] by simp
  next
    case False
    then show ?thesis
      using push_cut_head [OF Cons.prems(1,3)] Cons.IH [of "off + s"] Cons.prems by (simp add: tiles_Cons)
  qed
qed simp

lemma read_identity_cut:
  "tiles payload off ss \<Longrightarrow> ss \<noteq> [] \<Longrightarrow> length payload \<le> MAX_SERVER_IDENTITY_PAYLOAD \<Longrightarrow>
     expected = None \<or> expected = Some (length payload) \<Longrightarrow>
     read_server_identity_payload expected (take off payload)
       (map (chunk_wire SERVER_IDENTITY_CHUNK_MAGIC) (cut_at payload off ss)) = Some (Inr payload)"
proof (induction ss arbitrary: off expected)
  case (Cons s ss)
  let ?c = "\<lparr>oc_total_len = of_nat (length payload), oc_offset = of_nat off, oc_bytes = take s (drop off payload)\<rparr>"
  note ok = cut_head_ok [OF Cons.prems(1)]
  have le: "0 < s" "off + s \<le> length payload" and rest: "tiles payload (off + s) ss"
    using Cons.prems(1) by (simp_all add: tiles_Cons)
  have last: "ss = [] \<longleftrightarrow> off + s = length payload"
    using rest by (cases ss) (auto simp: tiles_def)
  have dec: "identity_chunk_decode (chunk_wire SERVER_IDENTITY_CHUNK_MAGIC ?c) = Inr ?c"
    by (simp add: identity_chunk_decode_def chunk_roundtrip [OF ok(1)])
  have app: "take off payload @ take s (drop off payload) = take (off + s) payload"
    by (simp add: take_add)
  have ih: "ss \<noteq> [] \<Longrightarrow> read_server_identity_payload (Some (length payload)) (take (off + s) payload)
      (map (chunk_wire SERVER_IDENTITY_CHUNK_MAGIC) (cut_at payload (off + s) ss)) = Some (Inr payload)"
    using Cons.IH [OF rest _ Cons.prems(3)] by simp
  have len: "length (take off payload) = off" "length (take (off + s) payload) = off + s" "length payload \<noteq> 0"
    "\<not> MAX_SERVER_IDENTITY_PAYLOAD < length payload" "\<not> off + s > length payload"
    using le Cons.prems(3) by auto
  show ?case
    unfolding cut_at.simps list.map read_server_identity_payload.simps dec sum.case Let_def offset_chunk.simps ok(2,3) app
    using len ih last Cons.prems(4) by (auto split: option.splits)
qed simp

interpretation fc: canonical_codec
  "\<lambda>c. framed_encode_borrowed (oc_total_len c) (oc_offset c) (oc_bytes c)" framed_chunk_decode chunk_ok
proof
  fix c
  assume "chunk_ok c"
  then show "\<exists>bs. framed_encode_borrowed (oc_total_len c) (oc_offset c) (oc_bytes c) = Inr bs \<and>
      framed_chunk_decode bs = Inr c"
    using framed_enc [of c] chunk_roundtrip [of c FRAMED_CHUNK_MAGIC] by (simp add: framed_chunk_decode_def)
next
  fix bs c
  assume dec: "framed_chunk_decode bs = Inr c"
  then show ok: "chunk_ok c"
    by (auto simp: framed_chunk_decode_def intro: chunk_dec_ok)
  show "framed_encode_borrowed (oc_total_len c) (oc_offset c) (oc_bytes c) = Inr bs"
    using framed_enc [OF ok refl] chunk_canonical [of FRAMED_CHUNK_MAGIC bs c] dec
    by (simp add: framed_chunk_decode_def)
qed

interpretation ic: canonical_codec identity_chunk_encode identity_chunk_decode chunk_ok
proof
  fix c
  assume "chunk_ok c"
  then show "\<exists>bs. identity_chunk_encode c = Inr bs \<and> identity_chunk_decode bs = Inr c"
    using identity_enc [of c] chunk_roundtrip [of c SERVER_IDENTITY_CHUNK_MAGIC]
    by (simp add: identity_chunk_decode_def identity_chunk_encode_def)
next
  fix bs c
  assume dec: "identity_chunk_decode bs = Inr c"
  then show ok: "chunk_ok c"
    by (auto simp: identity_chunk_decode_def intro: chunk_dec_ok)
  show "identity_chunk_encode c = Inr bs"
    using identity_enc [OF ok refl] chunk_canonical [of SERVER_IDENTITY_CHUNK_MAGIC bs c] dec
    by (simp add: identity_chunk_decode_def identity_chunk_encode_def)
qed

lemma length_cut_at_wire:
  "tiles payload off ss \<Longrightarrow> length m = 4 \<Longrightarrow> map length (map (chunk_wire m) (cut_at payload off ss)) = map (\<lambda>s. 16 + s) ss"
proof (induction ss arbitrary: off)
  case (Cons s ss)
  then show ?case by (auto simp: tiles_Cons chunk_wire_def)
qed simp

lemma sizes_ok_tiles: "sizes_ok lo hi (length payload) ss \<Longrightarrow> length payload < 2 ^ 32 \<Longrightarrow> tiles payload 0 ss"
  by (simp add: sizes_ok_def tiles_def)

text \<open>Splitting at drawn sizes, for either chunk type and for both distributions.\<close>

lemma encode_sizes_flight:
  assumes enc: "encodes magic payload enc"
    and m: "length magic = 4" and ok: "sizes_ok lo hi (length payload) ss" and len: "length payload < 2 ^ 32"
  shows "encode_sizes_loop enc payload 0 ss [] = Some (Inr (map (chunk_wire magic) (cut_at payload 0 ss)))"
    and "c \<in> set (map (chunk_wire magic) (cut_at payload 0 ss)) \<Longrightarrow>
      length c \<le> 16 + hi \<and> (lo \<le> length payload \<and> 2 * lo \<le> hi + 1 \<longrightarrow> 16 + lo \<le> length c)"
proof -
  note t = sizes_ok_tiles [OF ok len]
  show "encode_sizes_loop enc payload 0 ss [] = Some (Inr (map (chunk_wire magic) (cut_at payload 0 ss)))"
    using encode_sizes_loop_cut [OF enc t] by simp
  assume c: "c \<in> set (map (chunk_wire magic) (cut_at payload 0 ss))"
  have "length c \<in> set (map length (map (chunk_wire magic) (cut_at payload 0 ss)))"
    using c by (metis image_eqI list.set_map)
  then have "length c \<in> set (map (\<lambda>s. 16 + s) ss)"
    unfolding length_cut_at_wire [OF t m] .
  then show "length c \<le> 16 + hi \<and> (lo \<le> length payload \<and> 2 * lo \<le> hi + 1 \<longrightarrow> 16 + lo \<le> length c)"
    using ok by (auto simp: sizes_ok_def)
qed

lemma framed_encodes: "encodes FRAMED_CHUNK_MAGIC payload (framed_encode_borrowed (of_nat (length payload)))"
  by (simp add: encodes_def framed_enc)

lemma identity_encodes: "encodes SERVER_IDENTITY_CHUNK_MAGIC payload (identity_encode_borrowed (of_nat (length payload)))"
  by (simp add: encodes_def identity_enc)

lemmas framed_all_cut = encode_all_loop_cut [OF framed_encodes]
lemmas identity_all_cut = encode_all_loop_cut [OF identity_encodes]
lemmas framed_sizes_flight = encode_sizes_flight [OF framed_encodes length_magics(6)]
lemmas identity_sizes_flight = encode_sizes_flight [OF identity_encodes length_magics(5)]

lemma sizes_ok_nonempty: "sizes_ok lo hi n ss \<Longrightarrow> 0 < n \<Longrightarrow> ss \<noteq> []"
  by (auto simp: sizes_ok_def)

lemma framed_encode_all_roundtrip:
  assumes "payload \<noteq> []" and "0 < n" and "length payload < 2 ^ 32" and "length payload \<le> cap"
  shows "\<exists>cs. framed_encode_all payload n = Inr cs \<and>
    feed reassembler_default cap cs = (Inr (Some (payload, [])), reassembler_default)"
proof -
  let ?ss = "map length (chunks n payload)"
  have "framed_encode_all payload n = Inr (map (chunk_wire FRAMED_CHUNK_MAGIC) (cut_at payload 0 ?ss))"
    using assms framed_all_cut [OF assms(2,3), of payload 0 "[]"]
    by (auto simp: framed_encode_all_def)
  moreover have "?ss \<noteq> []"
    using assms by (simp add: chunks.simps)
  ultimately show ?thesis
    using feed_cut [OF chunks_tile [OF assms(2,3)] _ assms(4)] by (simp add: partial_state_0)
qed

lemma identity_encode_all_roundtrip:
  assumes "payload \<noteq> []" and "0 < n" and "length payload \<le> MAX_SERVER_IDENTITY_PAYLOAD"
  shows "\<exists>cs. identity_encode_all payload n = Inr cs \<and> read_server_identity_payload None [] cs = Some (Inr payload)"
proof -
  let ?ss = "map length (chunks n payload)"
  have len: "length payload < 2 ^ 32"
    using assms(3) by (simp add: MAX_SERVER_IDENTITY_PAYLOAD_def)
  have "identity_encode_all payload n = Inr (map (chunk_wire SERVER_IDENTITY_CHUNK_MAGIC) (cut_at payload 0 ?ss))"
    using assms len identity_all_cut [OF assms(2) len, of payload 0 "[]"]
    by (auto simp: identity_encode_all_def)
  moreover have "?ss \<noteq> []"
    using assms by (simp add: chunks.simps)
  ultimately show ?thesis
    using read_identity_cut [OF chunks_tile [OF assms(2) len] _ assms(3), of None] by simp
qed

lemma framed_encode_all_shaped_roundtrip:
  assumes "rng_correct R" and "payload \<noteq> []" and "0 < lo" "lo \<le> hi" and "length payload < 2 ^ 32" and "length payload \<le> cap"
  shows "\<exists>cs r'. framed_encode_all_shaped R payload lo hi r = Some (Inr cs, r') \<and>
    feed reassembler_default cap cs = (Inr (Some (payload, [])), reassembler_default) \<and>
    (\<forall>c \<in> set cs. length c \<le> 16 + hi)"
proof -
  obtain ss r' where ss: "shaped_sizes_loop R (length payload) lo hi 0 [] r = Some (ss, r')"
    "sizes_ok lo hi (length payload) ss"
    using shaped_sizes_loop_ok [OF assms(1,3,4), of 0 "length payload" "[]" r] assms(2) by auto
  let ?cs = "map (chunk_wire FRAMED_CHUNK_MAGIC) (cut_at payload 0 ss)"
  have "framed_encode_all_shaped R payload lo hi r = Some (Inr ?cs, r')"
    using assms ss framed_sizes_flight(1) [OF ss(2) assms(5)]
    by (simp add: framed_encode_all_shaped_def)
  moreover have "feed reassembler_default cap ?cs = (Inr (Some (payload, [])), reassembler_default)"
    using feed_cut [OF sizes_ok_tiles [OF ss(2) assms(5)] _ assms(6)] sizes_ok_nonempty [OF ss(2)] assms(2)
    by (simp add: partial_state_0)
  moreover have "\<forall>c \<in> set ?cs. length c \<le> 16 + hi"
    using framed_sizes_flight(2) [OF ss(2) assms(5)] by simp
  ultimately show ?thesis by blast
qed

text \<open>The cap of \<open>pq_flight_max_chunk_size\<close>: with room for a chunk of the floor and the aggregate pad, every record of
  the flight fits, and with room for two floors none is below the floor.\<close>

lemma flight_cap:
  assumes "1024 \<le> mp"
  shows "16 + min 1459 (max (pq_flight_max_chunk_size mp) 144) + PQ_FLIGHT_AGGREGATE_PAD_MAX \<le> mp"
    and "2 * 144 \<le> min 1459 (max (pq_flight_max_chunk_size mp) 144) + 1"
  using assms by (simp_all add: pq_flight_max_chunk_size_def shape_defs)

text \<open>C32. The flight of the post-quantum handshake is split and put together again: for every generator that stays in its
  ranges, and a codec that accepts at least 1024 plaintext bytes, \<open>encode_all_browser_shaped\<close> ends and returns chunks
  that each fit into one record together with the largest aggregate pad and carry at least the floor of 144 payload
  bytes (unless the whole payload is smaller). Framed chunks fed to \<open>FramedReassembler::push\<close> complete with the payload at
  the last chunk and leave the reassembler fresh; identity chunks read by the client give back the proof.\<close>

theorem pq_flight_roundtrip:
  assumes R: "rng_correct R" and ne: "payload \<noteq> []" and len: "length payload \<le> MAX_SERVER_IDENTITY_PAYLOAD"
    and cap: "length payload \<le> cap" and mp: "1024 \<le> mp"
  shows "\<exists>cs ds r' r''.
    framed_encode_all_browser_shaped R payload (pq_flight_max_chunk_size mp) r = Some (Inr cs, r') \<and>
    feed reassembler_default cap cs = (Inr (Some (payload, [])), reassembler_default) \<and>
    identity_encode_all_browser_shaped R payload (pq_flight_max_chunk_size mp) r = Some (Inr ds, r'') \<and>
    read_server_identity_payload None [] ds = Some (Inr payload) \<and>
    (\<forall>c \<in> set (cs @ ds). length c + PQ_FLIGHT_AGGREGATE_PAD_MAX \<le> mp \<and>
       (144 \<le> length payload \<longrightarrow> PQ_CHUNK_FRAME_HEADER_LEN + PQ_FLIGHT_RECORD_MIN \<le> length c))"
proof -
  let ?hi = "min 1459 (max (pq_flight_max_chunk_size mp) 144)"
  have len32: "length payload < 2 ^ 32"
    using len by (simp add: MAX_SERVER_IDENTITY_PAYLOAD_def)
  obtain ss r' where ss: "browser_shaped_sizes R (length payload) (pq_flight_max_chunk_size mp) r = Some (ss, r')"
    and ok: "sizes_ok 144 ?hi (length payload) ss"
    using browser_shaped_sizes_ok [OF R] ne by blast
  note t = sizes_ok_tiles [OF ok len32]
  have nss: "ss \<noteq> []"
    using sizes_ok_nonempty [OF ok] ne by simp
  let ?cs = "map (chunk_wire FRAMED_CHUNK_MAGIC) (cut_at payload 0 ss)"
    and ?ds = "map (chunk_wire SERVER_IDENTITY_CHUNK_MAGIC) (cut_at payload 0 ss)"
  have "framed_encode_all_browser_shaped R payload (pq_flight_max_chunk_size mp) r = Some (Inr ?cs, r')"
    using ne len32 ss framed_sizes_flight(1) [OF ok len32] by (simp add: framed_encode_all_browser_shaped_def)
  moreover have "identity_encode_all_browser_shaped R payload (pq_flight_max_chunk_size mp) r = Some (Inr ?ds, r')"
    using ne len32 ss identity_sizes_flight(1) [OF ok len32] by (simp add: identity_encode_all_browser_shaped_def)
  moreover have "feed reassembler_default cap ?cs = (Inr (Some (payload, [])), reassembler_default)"
    using feed_cut [OF t nss cap] by (simp add: partial_state_0)
  moreover have "read_server_identity_payload None [] ?ds = Some (Inr payload)"
    using read_identity_cut [OF t nss len, of None] by simp
  moreover have "length c + PQ_FLIGHT_AGGREGATE_PAD_MAX \<le> mp \<and>
      (144 \<le> length payload \<longrightarrow> PQ_CHUNK_FRAME_HEADER_LEN + PQ_FLIGHT_RECORD_MIN \<le> length c)"
    if "c \<in> set (?cs @ ?ds)" for c
  proof -
    have "length c \<le> 16 + ?hi \<and> (144 \<le> length payload \<and> 2 * 144 \<le> ?hi + 1 \<longrightarrow> 16 + 144 \<le> length c)"
      using that framed_sizes_flight(2) [OF ok len32, of c] identity_sizes_flight(2) [OF ok len32, of c] by auto
    then show ?thesis
      using flight_cap [OF mp] unfolding PQ_CHUNK_FRAME_HEADER_LEN_def PQ_FLIGHT_RECORD_MIN_def by linarith
  qed
  ultimately show ?thesis
    by (intro exI [of _ ?cs] exI [of _ ?ds] exI [of _ r']) blast
qed

theorem pq_flight_roundtrip_witness:
  "\<exists>cs ds r' r''.
    framed_encode_all_browser_shaped low_rng [1, 2, 3] (pq_flight_max_chunk_size 1024) 0 = Some (Inr cs, r') \<and>
    feed reassembler_default 4096 cs = (Inr (Some ([1, 2, 3], [])), reassembler_default) \<and>
    identity_encode_all_browser_shaped low_rng [1, 2, 3] (pq_flight_max_chunk_size 1024) 0 = Some (Inr ds, r'') \<and>
    read_server_identity_payload None [] ds = Some (Inr [1, 2, 3])"
  using pq_flight_roundtrip [of low_rng "[1, 2, 3]" 4096 1024 0] low_rng_correct
  by (auto simp: MAX_SERVER_IDENTITY_PAYLOAD_def)

text \<open>What holds of a reassembler between pushes with a cap: a latched total is within the cap and not yet reached.\<close>

definition reassembler_inv :: "nat \<Rightarrow> framed_reassembler \<Rightarrow> bool" where
  "reassembler_inv cap s \<longleftrightarrow>
     (case fr_expected_total s of None \<Rightarrow> fr_assembled s = [] | Some t \<Rightarrow> t \<le> cap \<and> length (fr_assembled s) < t)"

lemma reassembler_inv_default: "reassembler_inv cap reassembler_default"
  by (simp add: reassembler_inv_def reassembler_default_def)

lemma reassembler_push_decoded:
  assumes inv: "reassembler_inv cap s" and dec: "framed_chunk_decode chunk = Inr c"
  shows "reassembler_push s chunk cap =
    (let t = unat (oc_total_len c); out = fr_assembled s @ oc_bytes c in
     if t > cap then (Inl TooLarge, s)
     else if fr_expected_total s \<noteq> None \<and> fr_expected_total s \<noteq> Some t then (Inl InconsistentTotal, s)
     else if unat (oc_offset c) \<noteq> length (fr_assembled s) then (Inl OutOfOrder, s\<lparr>fr_expected_total := Some t\<rparr>)
     else if length out = t then (Inr (Some out), reassembler_default)
     else (Inr None, \<lparr>fr_expected_total = Some t, fr_assembled = out\<rparr>))"
proof -
  have ok: "chunk_ok c"
    using dec fc.dec_ok by blast
  have t0: "unat (oc_total_len c) \<noteq> 0"
    using chunk_ok_length(2) [OF ok] by simp
  have bound: "unat (oc_offset c) + length (oc_bytes c) \<le> unat (oc_total_len c)"
    using ok by (simp add: chunk_ok_def)
  show ?thesis
    unfolding reassembler_push_def dec sum.case Let_def
    using t0 bound by (cases s) (auto simp: reassembler_default_def split: option.splits)
qed

text \<open>C33. No peer can make the reassembler hold more than the cap or return a frame that is not the concatenation of its
  chunks: from any state its operations reach, a push keeps the invariant (the bytes held stay strictly below a total
  within the cap), a completed frame is what was held followed by the bytes of this chunk, has exactly the announced
  total length, and leaves the reassembler fresh; the final overrun check is never taken.\<close>

theorem reassembler_bounded:
  assumes inv: "reassembler_inv cap s" and push: "reassembler_push s chunk cap = (res, s')"
  shows "reassembler_inv cap s' \<and> length (fr_assembled s') \<le> cap \<and>
    (\<forall>p. res = Inr (Some p) \<longrightarrow> s' = reassembler_default \<and> length p \<le> cap \<and>
       (\<exists>c. framed_chunk_decode chunk = Inr c \<and> p = fr_assembled s @ oc_bytes c \<and> length p = unat (oc_total_len c))) \<and>
    (res = Inl OutOfOrder \<longrightarrow>
       (\<exists>c. framed_chunk_decode chunk = Inr c \<and> unat (oc_offset c) \<noteq> length (fr_assembled s)))"
proof (cases "framed_chunk_decode chunk")
  case (Inl e)
  then have "res = Inl e" "s' = s" "e \<noteq> OutOfOrder"
    using push by (auto simp: reassembler_push_def framed_chunk_decode_def map_err_eq_Inl elim: framed_from.elims)
  then show ?thesis
    using inv by (auto simp: reassembler_inv_def split: option.splits)
next
  case (Inr c)
  have ok: "chunk_ok c"
    using Inr fc.dec_ok by blast
  then have bound: "unat (oc_offset c) + length (oc_bytes c) \<le> unat (oc_total_len c)" "0 < unat (oc_total_len c)"
    using chunk_ok_length(2) [OF ok] by (simp_all add: chunk_ok_def unat_gt_0)
  show ?thesis
    using push [unfolded reassembler_push_decoded [OF inv Inr] Let_def] inv bound Inr
    by (auto simp: reassembler_inv_def reassembler_default_def split: if_splits option.splits)
qed

theorem reassembler_bounded_witness:
  "fst (reassembler_push reassembler_default (chunk_wire FRAMED_CHUNK_MAGIC
      \<lparr>oc_total_len = 2, oc_offset = 1, oc_bytes = [7]\<rparr>) 10) = Inl OutOfOrder \<and>
   reassembler_inv 10 (snd (reassembler_push reassembler_default (chunk_wire FRAMED_CHUNK_MAGIC
      \<lparr>oc_total_len = 2, oc_offset = 1, oc_bytes = [7]\<rparr>) 10))"
proof
  let ?c = "\<lparr>oc_total_len = 2, oc_offset = 1, oc_bytes = [7]\<rparr> :: offset_chunk"
  have "framed_chunk_decode (chunk_wire FRAMED_CHUNK_MAGIC ?c) = Inr ?c"
    using chunk_roundtrip [of ?c FRAMED_CHUNK_MAGIC] by (simp add: framed_chunk_decode_def chunk_ok_def)
  then show "fst (reassembler_push reassembler_default (chunk_wire FRAMED_CHUNK_MAGIC ?c) 10) = Inl OutOfOrder"
    using reassembler_push_decoded [OF reassembler_inv_default] by (simp add: reassembler_default_def Let_def)
  show "reassembler_inv 10 (snd (reassembler_push reassembler_default (chunk_wire FRAMED_CHUNK_MAGIC ?c) 10))"
    using reassembler_bounded [OF reassembler_inv_default prod.collapse [symmetric]] by blast
qed

section \<open>All commands\<close>

text \<open>The decoders of the commands, as tests whether they accept an input, in the order of the source.\<close>

definition accepted_by :: "bytes \<Rightarrow> bool list" where
  "accepted_by input =
     [is_ok (connect_decode input), is_ok (pq_decode input), is_ok (ske_decode_with_suite input),
      is_ok (sip_decode input), is_ok (identity_chunk_decode input), is_ok (framed_chunk_decode input),
      is_ok (speed_decode input), is_ok (ack_decode input), is_ok (mux_decode input), is_ok (offer_decode input),
      is_ok (probe_decode input), is_ok (request_decode input), is_ok (decline_decode input)]"

definition command_magics :: "bytes list list" where
  "command_magics =
     [[CONNECT_MAGIC], [PQ_REKEY_MAGIC], [SERVER_KEY_EXCHANGE_MAGIC], [SERVER_IDENTITY_MAGIC],
      [SERVER_IDENTITY_CHUNK_MAGIC], [FRAMED_CHUNK_MAGIC], [SPEED_TEST_MAGIC],
      [SPEED_WARMUP_DOWNLOAD_DONE_MAGIC, SPEED_WARMUP_UPLOAD_DONE_MAGIC, SPEED_DOWNLOAD_DONE_MAGIC,
       SPEED_UPLOAD_DONE_MAGIC], [MUX_FRAME_MAGIC], [UDP_OFFER_MAGIC], [UDP_PROBE_ACK_MAGIC], [UDP_REQUEST_MAGIC],
      [UDP_DECLINE_MAGIC]]"

lemma at_most_one:
  assumes "list_all2 (\<lambda>a ms. a \<longrightarrow> m \<in> set ms) as mss" and "distinct (concat mss)"
  shows "length (filter id as) \<le> 1"
  using assms
proof (induction rule: list_all2_induct)
  case (Cons a as ms mss)
  show ?case
  proof (cases a)
    case True
    then have "m \<notin> set (concat mss)"
      using Cons by auto
    then have "\<forall>x \<in> set as. \<not> x"
      using Cons.hyps(2) by (fastforce simp: list_all2_conv_all_nth in_set_conv_nth)
    then show ?thesis
      by (simp add: filter_empty_conv)
  qed (use Cons in auto)
qed simp

lemma command_magics_distinct: "distinct (concat command_magics)"
  by (simp add: command_magics_def magic_defs ascii_def)

lemma chunk_decode_magic:
  "is_ok (framed_chunk_decode input) \<Longrightarrow> take 4 input = FRAMED_CHUNK_MAGIC"
  "is_ok (identity_chunk_decode input) \<Longrightarrow> take 4 input = SERVER_IDENTITY_CHUNK_MAGIC"
  by (auto simp: framed_chunk_decode_def identity_chunk_decode_def is_ok_iff decode_offset_chunk_Inr)

lemma command_decode_magic:
  "is_ok (connect_decode input) \<Longrightarrow> take 4 input = CONNECT_MAGIC"
  "is_ok (pq_decode input) \<Longrightarrow> take 4 input = PQ_REKEY_MAGIC"
  "is_ok (ske_decode_with_suite input) \<Longrightarrow> take 4 input = SERVER_KEY_EXCHANGE_MAGIC"
  "is_ok (sip_decode input) \<Longrightarrow> take 4 input = SERVER_IDENTITY_MAGIC"
  "is_ok (speed_decode input) \<Longrightarrow> take 4 input = SPEED_TEST_MAGIC"
  "is_ok (mux_decode input) \<Longrightarrow> take 4 input = MUX_FRAME_MAGIC"
  "is_ok (offer_decode input) \<Longrightarrow> take 4 input = UDP_OFFER_MAGIC"
  "is_ok (probe_decode input) \<Longrightarrow> take 4 input = UDP_PROBE_ACK_MAGIC"
  "is_ok (request_decode input) \<Longrightarrow> take 4 input = UDP_REQUEST_MAGIC"
  "is_ok (decline_decode input) \<Longrightarrow> take 4 input = UDP_DECLINE_MAGIC"
  by (auto simp: is_ok_iff connect_decode_Inr Let_def pq_decode_Inr ske_decode_Inr sip_decode_Inr speed_decode_Inr
      mux_decode_def and_then_eq_Inr mux_decode_prefix_Inr offer_decode_Inr probe_decode_Inr request_decode_def
      decline_decode_def split: if_splits)

lemma ack_decode_magic:
  "is_ok (ack_decode input) \<Longrightarrow> take 4 input \<in> {SPEED_WARMUP_DOWNLOAD_DONE_MAGIC, SPEED_WARMUP_UPLOAD_DONE_MAGIC,
     SPEED_DOWNLOAD_DONE_MAGIC, SPEED_UPLOAD_DONE_MAGIC}"
  by (auto simp: is_ok_iff ack_decode_def Let_def and_then_eq_Inr split: if_splits)

lemma accepted_by_magics: "list_all2 (\<lambda>a ms. a \<longrightarrow> take 4 input \<in> set ms) (accepted_by input) command_magics"
  unfolding accepted_by_def command_magics_def
  using chunk_decode_magic command_decode_magic ack_decode_magic [of input] by simp

text \<open>The UDP offer carries a flag whose byte may be any nonzero one: its decoder accepts the encodings up to that byte.\<close>

definition offer_body :: "udp_offer \<Rightarrow> bytes" where
  "offer_body x = UDP_OFFER_MAGIC @ uo_offer_id x @ be_bytes 2 (uo_udp_port x) @ be_bytes 8 (uo_port_hop_seed x) @
     [uo_cc x, uo_fec_profile x]"

lemma offer_dec_body:
  assumes "offer_decode bs = Inr x"
  shows "butlast bs = offer_body x" "bs \<noteq> []" "last bs \<noteq> 0 \<longleftrightarrow> uo_ignore_client_bandwidth x"
proof -
  note D = assms [unfolded offer_decode_Inr]
  have "take 2 (drop 30 bs) = [bs ! 30, bs ! 31]"
    using D by (intro nth_equalityI) (auto simp: less_2_cases_iff)
  moreover have "take 32 bs = take 4 bs @ take 16 (drop 4 bs) @ take 2 (drop 20 bs) @ take 8 (drop 22 bs) @ take 2 (drop 30 bs)"
    using take_add [of 4 28 bs] take_add [of 16 12 "drop 4 bs"] take_add [of 2 10 "drop 20 bs"] take_add [of 8 2 "drop 22 bs"]
    by simp
  ultimately show "butlast bs = offer_body x"
    using D by (simp add: offer_body_def butlast_conv_take be_bytes_be_at)
  show "bs \<noteq> []" using D by auto
  then show "last bs \<noteq> 0 \<longleftrightarrow> uo_ignore_client_bandwidth x" using D by (simp add: last_conv_nth)
qed

lemma offer_body_dec:
  assumes "offer_ok x"
  shows "offer_decode (offer_body x @ [f]) = Inr (x\<lparr>uo_ignore_client_bandwidth := (f \<noteq> 0)\<rparr>)"
proof -
  have l: "length (uo_offer_id x) = 16" "uo_udp_port x \<noteq> 0" using assms by (simp_all add: offer_ok_def)
  have f1: "be_at 2 (offer_body x @ [f]) 20 = uo_udp_port x"
    by (rule be_at_encoded [where rest = "drop 22 (offer_body x @ [f])"]) (simp_all add: offer_body_def l)
  have f2: "be_at 8 (offer_body x @ [f]) 22 = uo_port_hop_seed x"
    by (rule be_at_encoded [where rest = "[uo_cc x, uo_fec_profile x, f]"]) (simp_all add: offer_body_def l)
  show ?thesis
    unfolding offer_decode_Inr f1 f2 using l by (simp add: offer_body_def nth_append)
qed

lemma offer_dec_iff:
  "offer_decode bs = Inr x \<longleftrightarrow> offer_ok x \<and> bs \<noteq> [] \<and> map_sum id butlast (offer_encode x) = Inr (butlast bs) \<and>
     (last bs \<noteq> 0 \<longleftrightarrow> uo_ignore_client_bandwidth x)"
proof -
  have e: "map_sum id butlast (offer_encode x) = Inr (offer_body x)" if "offer_ok x"
    using that by (simp add: offer_encode_def offer_ok_def offer_body_def butlast_append)
  show ?thesis
  proof (intro iffI conjI)
    assume "offer_ok x \<and> bs \<noteq> [] \<and> map_sum id butlast (offer_encode x) = Inr (butlast bs) \<and>
     (last bs \<noteq> 0 \<longleftrightarrow> uo_ignore_client_bandwidth x)"
    then show "offer_decode bs = Inr x"
      using e offer_body_dec [of x "last bs"] append_butlast_last_id [of bs] by (cases x) auto
  qed (use e offer_dec_body uo.dec_ok in auto)
qed

text \<open>C34. The commands of the control plane are unambiguous. Each of the twelve decoders with a canonical wire form (connect,
  rekey request, key exchange, identity proof, identity chunk, framed chunk, speed request and acknowledgement, mux frame, UDP
  probe acknowledgement, request and decline) accepts an input if and only if it is the encoding of the well-formed value it
  returns. The UDP offer decoder accepts exactly the encodings up to the last byte, which may be any nonzero byte where the
  encoder writes 1. No input is accepted by two of the thirteen decoders.\<close>

theorem command_codecs_unambiguous:
  "(connect_decode bs = Inr q \<longleftrightarrow> connect_ok q \<and> connect_encode q = Inr bs) \<and>
   (pq_decode bs = Inr pr \<longleftrightarrow> pq_ok pr \<and> pq_encode pr = Inr bs) \<and>
   (ske_decode_with_suite bs = Inr (x, suite) \<longleftrightarrow> ske_ok x \<and> ske_encode_with_suite x suite = Inr bs) \<and>
   (sip_decode bs = Inr sp \<longleftrightarrow> sip_ok sp \<and> sip_encode sp = Inr bs) \<and>
   (identity_chunk_decode bs = Inr ch \<longleftrightarrow> chunk_ok ch \<and> identity_chunk_encode ch = Inr bs) \<and>
   (framed_chunk_decode bs = Inr ch \<longleftrightarrow>
      chunk_ok ch \<and> framed_encode_borrowed (oc_total_len ch) (oc_offset ch) (oc_bytes ch) = Inr bs) \<and>
   (speed_decode bs = Inr sr \<longleftrightarrow> speed_ok sr \<and> speed_encode sr = Inr bs) \<and>
   (ack_decode bs = Inr a \<longleftrightarrow> ack_encode a = bs) \<and>
   (mux_decode bs = Inr mx \<longleftrightarrow> mux_ok mx \<and> mux_encode mx = Inr bs) \<and>
   (probe_decode bs = Inr pa \<longleftrightarrow> length (up_offer_id pa) = 16 \<and> probe_encode pa = bs) \<and>
   (request_decode bs = Inr ur \<longleftrightarrow> request_encode ur = bs) \<and>
   (decline_decode bs = Inr ud \<longleftrightarrow> decline_encode ud = bs) \<and>
   (and_then (offer_encode uo) offer_decode = Inr uo \<longleftrightarrow> offer_ok uo) \<and>
   (offer_decode bs = Inr uo \<longleftrightarrow> offer_ok uo \<and> bs \<noteq> [] \<and> map_sum id butlast (offer_encode uo) = Inr (butlast bs) \<and>
      (last bs \<noteq> 0 \<longleftrightarrow> uo_ignore_client_bandwidth uo)) \<and>
   length (filter id (accepted_by bs)) \<le> 1"
proof -
  have "and_then (offer_encode uo) offer_decode = Inr uo \<longleftrightarrow> offer_ok uo"
    using uo.round_trip [of uo] uo.dec_ok by (auto simp: and_then_eq_Inr)
  moreover have "length (filter id (accepted_by bs)) \<le> 1"
    by (rule at_most_one [OF accepted_by_magics command_magics_distinct])
  ultimately show ?thesis
    using cr.dec_iff pq.dec_iff ske.dec_iff [of bs "(x, suite)"] sip.dec_iff sp_req.dec_iff sa.dec_iff up.dec_iff
      ur.dec_iff ud.dec_iff mf.dec_iff fc.dec_iff ic.dec_iff offer_dec_iff [of bs uo]
    by (simp add: ske_encode_pair_def)
qed

text \<open>The padding of a control record never exceeds its budget. When some size band can hold the record within the
  budget, the padded record lies in a band: at most 96 bytes above a band centre and at most 1449 bytes in all; when none
  can, the record is sent unpadded.\<close>

theorem control_records_shaped:
  assumes "rng_correct R" and "band_shaping_pad R n mx r = (pad, r')"
  shows "pad \<le> mx \<and>
    (if list_ex (\<lambda>c. n + DATA_RECORD_WIRE_OVERHEAD \<le> c \<and> c \<le> n + DATA_RECORD_WIRE_OVERHEAD + mx) CONNECT_RECORD_SIZE_BANDS
     then connect_record_size_is_shaped (n + DATA_RECORD_WIRE_OVERHEAD + pad) \<and> n + DATA_RECORD_WIRE_OVERHEAD + pad \<le> 1449
     else pad = 0)"
proof -
  have small: "c \<le> 1353" if "c \<in> set CONNECT_RECORD_SIZE_BANDS" for c
    using that by (auto simp: CONNECT_RECORD_SIZE_BANDS_def)
  consider (none) "pad = 0" "\<forall>c \<in> set CONNECT_RECORD_SIZE_BANDS. c < n + 18 \<or> mx < c - (n + 18)"
    | (some) c where "c \<in> set CONNECT_RECORD_SIZE_BANDS" "n + 18 \<le> c" "c \<le> n + 18 + pad" "n + 18 + pad \<le> c + 96" "pad \<le> mx"
    using band_shaping_pad_cases [OF assms] by blast
  then show ?thesis
  proof cases
    case none
    then show ?thesis
      by (fastforce simp: list_ex_iff DATA_RECORD_WIRE_OVERHEAD_def)
  next
    case some
    then show ?thesis
      using small [OF some(1)] by (auto simp: list_ex_iff DATA_RECORD_WIRE_OVERHEAD_def connect_record_size_is_shaped_def
          SHAPED_RECORD_SIZE_JITTER_def)
  qed
qed

theorem control_records_shaped_witness:
  "fst (band_shaping_pad low_rng 20 1000 0) \<le> 1000 \<and>
   connect_record_size_is_shaped (20 + DATA_RECORD_WIRE_OVERHEAD + fst (band_shaping_pad low_rng 20 1000 0))"
  using control_records_shaped [OF low_rng_correct, of 20 1000 0 "fst (band_shaping_pad low_rng 20 1000 0)"
      "snd (band_shaping_pad low_rng 20 1000 0)"]
  by (simp add: CONNECT_RECORD_SIZE_BANDS_def DATA_RECORD_WIRE_OVERHEAD_def)

end
