(* ===== verification/Data_Record.thy ===== *)
theory Data_Record
  imports Session Tls_Record Traffic Command_Chunk
begin

text \<open>
  The data record layer: \<open>protocol/data.rs\<close>. Padded, sealed and framed records, one at a time, in chunks, in
  batches with exact padding, and in batches spread over worker threads; and the matching ways to open them.

  Every operation returns its result together with the codec, the generator and the output buffer it leaves,
  also when it fails. The worker pool returns the results of its jobs in order, so a batch is modelled as a map
  over its jobs. Reserving capacity and wiping memory that is cut off next have no effect on the values.
\<close>

definition OUTER_TLS_RECORD_LIMIT :: nat where "OUTER_TLS_RECORD_LIMIT = MAX_TLS_RECORD_PAYLOAD + 17"
definition RELAY_READ_BUFFER_TARGET :: nat where "RELAY_READ_BUFFER_TARGET = 256 * 1024"
definition PADDING_LEN_FIELD :: nat where "PADDING_LEN_FIELD = 2"
definition AES_GCM_RECORD_LIMIT :: nat where "AES_GCM_RECORD_LIMIT = 2 ^ 23"
definition AES_GCM_MAX_AUTH_BLOCKS :: nat where "AES_GCM_MAX_AUTH_BLOCKS = 2 ^ 12"
definition PARALLEL_AEAD_MIN_RECORDS :: nat where "PARALLEL_AEAD_MIN_RECORDS = 3"
definition PARALLEL_AEAD_MIN_BYTES :: nat where "PARALLEL_AEAD_MIN_BYTES = 48 * 1024"

lemmas record_consts = OUTER_TLS_RECORD_LIMIT_def MAX_TLS_RECORD_PAYLOAD_def PADDING_LEN_FIELD_def AEAD_TAG_LEN_def
  TLS_HEADER_LEN_def

datatype data_record_error =
    DrTlsRecord tls_record_error
  | NotApplicationData
  | DrAead session_error
  | DrTraffic traffic_error
  | InvalidRecordLens
  | InvalidExactPadding
  | KeyUsageLimit
  | DrPanic

record data_record_codec =
  dc_aead :: aead_codec
  dc_padding :: padding_profile
  dc_aad :: bytes

record sealed_record =
  sr_range :: "nat \<times> nat"
  sr_plaintext_len :: nat

definition div_ceil :: "nat \<Rightarrow> nat \<Rightarrow> nat" where
  "div_ceil a b = (a + b - 1) div b"

section \<open>Checks\<close>

definition validate_record_header :: "bytes \<Rightarrow> nat \<Rightarrow> data_record_error + tls_record_header" where
  "validate_record_header buf offset =
     (if length buf < offset then Inl DrPanic
      else
        and_then (map_err DrTlsRecord (parse_header (drop offset buf))) (\<lambda>header.
        if content_type header \<noteq> TLS_CONTENT_APPLICATION_DATA then Inl NotApplicationData
        else if length buf < offset + total_len header then Inl (DrTlsRecord IncompletePayload)
        else if payload_len header < AEAD_TAG_LEN then Inl (DrAead Aead)
        else Inr header))"

fun sum_lens :: "nat \<Rightarrow> nat list \<Rightarrow> nat option" where
  "sum_lens acc [] = Some acc"
| "sum_lens acc (l # ls) = (case checked_add_usize acc l of None \<Rightarrow> None | Some acc' \<Rightarrow> sum_lens acc' ls)"

definition validate_record_lens :: "nat list \<Rightarrow> nat \<Rightarrow> data_record_error + unit" where
  "validate_record_lens record_lens plaintext_len =
     and_then (ok_or (sum_lens 0 record_lens) InvalidRecordLens) (\<lambda>s.
       if s \<noteq> plaintext_len then Inl InvalidRecordLens else Inr ())"

definition exact_padded_record_capacity :: "nat \<Rightarrow> nat \<Rightarrow> data_record_error + nat" where
  "exact_padded_record_capacity plen total_pad =
     (if total_pad > 2 ^ 16 - 1 then Inl (DrTlsRecord (PayloadTooLarge total_pad))
      else
        and_then (ok_or (Option.bind (checked_add_usize plen total_pad)
            (\<lambda>l. checked_add_usize l (PADDING_LEN_FIELD + AEAD_TAG_LEN))) (DrTlsRecord (PayloadTooLarge (usize_limit - 1)))) (\<lambda>tls_len.
        if tls_len > OUTER_TLS_RECORD_LIMIT then Inl (DrTlsRecord (PayloadTooLarge tls_len))
        else ok_or (checked_add_usize tls_len TLS_HEADER_LEN) InvalidExactPadding))"

fun sum_capacities :: "nat \<Rightarrow> (nat \<times> nat) list \<Rightarrow> data_record_error + nat" where
  "sum_capacities acc [] = Inr acc"
| "sum_capacities acc ((len, pad) # ps) =
     and_then (exact_padded_record_capacity len pad) (\<lambda>cap.
     and_then (ok_or (checked_add_usize acc cap) InvalidExactPadding) (\<lambda>acc'. sum_capacities acc' ps))"

definition validate_exact_padded_record_lens :: "nat list \<Rightarrow> nat list \<Rightarrow> nat \<Rightarrow> data_record_error + nat" where
  "validate_exact_padded_record_lens record_lens pad_lens plaintext_len =
     and_then (validate_record_lens record_lens plaintext_len) (\<lambda>_.
     if length record_lens \<noteq> length pad_lens then Inl InvalidExactPadding
     else sum_capacities 0 (zip record_lens pad_lens))"

definition checked_seal_end ::
  "session_error + unit \<Rightarrow> cipher_suite \<Rightarrow> u64 \<Rightarrow> u64 \<Rightarrow> nat \<Rightarrow> data_record_error + u64" where
  "checked_seal_end usable suite sequence record_count aad_len =
     and_then (map_err DrAead usable) (\<lambda>_.
     if record_count = 0 then Inr sequence
     else
       and_then (ok_or (checked_add_u64 sequence record_count) (DrAead NonceExhausted)) (\<lambda>en.
       if suite = Aes256Gcm \<and>
          (unat en > AES_GCM_RECORD_LIMIT \<or>
           (case checked_add_usize (div_ceil (OUTER_TLS_RECORD_LIMIT - AEAD_TAG_LEN) 16) (div_ceil aad_len 16) of
              None \<Rightarrow> True | Some blocks \<Rightarrow> blocks > AES_GCM_MAX_AUTH_BLOCKS))
       then Inl KeyUsageLimit
       else Inr en))"

definition check_padded_len :: "nat \<Rightarrow> data_record_error + unit" where
  "check_padded_len len =
     (if len > OUTER_TLS_RECORD_LIMIT - AEAD_TAG_LEN
      then Inl (DrTlsRecord (PayloadTooLarge (min (len + AEAD_TAG_LEN) (usize_limit - 1)))) else Inr ())"

definition max_plaintext_len :: "nat \<Rightarrow> nat" where
  "max_plaintext_len max_pad = OUTER_TLS_RECORD_LIMIT - (max_pad + AEAD_TAG_LEN + PADDING_LEN_FIELD)"

definition record_capacity :: "nat \<Rightarrow> nat \<Rightarrow> nat" where
  "record_capacity plen max_pad = TLS_HEADER_LEN + plen + max_pad + PADDING_LEN_FIELD + AEAD_TAG_LEN"

definition chunk_count :: "nat \<Rightarrow> nat \<Rightarrow> nat" where
  "chunk_count plen max_chunk_len = (if plen = 0 then 1 else div_ceil plen max_chunk_len)"

definition relay_read_buffer_len :: "nat \<Rightarrow> nat" where
  "relay_read_buffer_len max_chunk = (if max_chunk = 0 then 0 else max RELAY_READ_BUFFER_TARGET max_chunk)"

definition should_parallelize_aead :: "nat \<Rightarrow> nat \<Rightarrow> bool" where
  "should_parallelize_aead record_count total_bytes \<longleftrightarrow>
     record_count \<ge> PARALLEL_AEAD_MIN_RECORDS \<and> total_bytes \<ge> PARALLEL_AEAD_MIN_BYTES"

section \<open>Sealing one record\<close>

definition data_codec_new :: "aead_codec \<Rightarrow> padding_profile \<Rightarrow> bytes \<Rightarrow> data_record_codec" where
  "data_codec_new c p aad = \<lparr>dc_aead = c, dc_padding = p, dc_aad = aad\<rparr>"

definition data_rekey :: "bytes \<Rightarrow> bytes \<Rightarrow> data_record_codec \<Rightarrow> data_record_codec" where
  "data_rekey key base dc = dc\<lparr>dc_aead := codec_rekey key base (dc_aead dc)\<rparr>"

definition data_rekey_with_suite :: "cipher_suite \<Rightarrow> bytes \<Rightarrow> bytes \<Rightarrow> data_record_codec \<Rightarrow> data_record_codec" where
  "data_rekey_with_suite suite key base dc = dc\<lparr>dc_aead := rekey_with_suite suite key base (dc_aead dc)\<rparr>"

definition codec_max_plaintext_len :: "data_record_codec \<Rightarrow> nat" where
  "codec_max_plaintext_len dc = max_plaintext_len (max_len (dc_padding dc))"

definition max_sealed_len :: "nat \<Rightarrow> data_record_codec \<Rightarrow> nat" where
  "max_sealed_len plen dc = record_capacity plen (max_len (dc_padding dc))"

definition ensure_seal_budget :: "nat \<Rightarrow> data_record_codec \<Rightarrow> data_record_error + unit" where
  "ensure_seal_budget record_count dc =
     and_then (checked_seal_end (ensure_usable (dc_aead dc)) (ac_suite (dc_aead dc)) (codec_sequence (dc_aead dc))
       (of_nat record_count) (length (dc_aad dc))) (\<lambda>_. Inr ())"

definition seal_padded_payload ::
  "aead \<Rightarrow> bytes \<Rightarrow> data_record_codec \<Rightarrow> (data_record_error + (bytes \<times> bytes)) \<times> data_record_codec" where
  "seal_padded_payload A plaintext dc =
     (case ensure_seal_budget 1 dc of
        Inl e \<Rightarrow> (Inl e, dc)
      | Inr _ \<Rightarrow>
          (case check_padded_len (length plaintext) of
             Inl e \<Rightarrow> (Inl e, dc)
           | Inr _ \<Rightarrow>
               (case seal_in_place_detached A plaintext (dc_aad dc) (dc_aead dc) of
                  (r, c') \<Rightarrow> (map_err DrAead r, dc\<lparr>dc_aead := c'\<rparr>))))"

definition record_prefix :: bytes where
  "record_prefix = [TLS_CONTENT_APPLICATION_DATA, TLS_LEGACY_VERSION ! 0, TLS_LEGACY_VERSION ! 1, 0, 0]"

definition begin_record :: "bytes \<Rightarrow> nat \<times> bytes" where
  "begin_record out = (length out, out @ record_prefix)"

text \<open>The end of both ways to seal a record: the sealed bytes replace the plaintext, and the length field is
  filled in.\<close>

definition patch_record :: "nat \<Rightarrow> bytes \<Rightarrow> bytes \<Rightarrow> bytes \<Rightarrow> bytes" where
  "patch_record start out ct tag =
     (let out = take (start + TLS_HEADER_LEN) out @ ct @ tag;
          len = be_bytes 2 (of_nat (length out - (start + TLS_HEADER_LEN)) :: u16)
      in out[start + 3 := len ! 0, start + 4 := len ! 1])"

type_synonym 'r seal_result = "(data_record_error + (nat \<times> nat)) \<times> data_record_codec \<times> 'r \<times> bytes"

text \<open>The part after the padding: the record in \<open>out\<close> from \<open>start\<close> is padded plaintext.\<close>

definition seal_framed :: "aead \<Rightarrow> nat \<Rightarrow> 'r \<Rightarrow> bytes \<Rightarrow> data_record_codec \<Rightarrow> 'r seal_result" where
  "seal_framed A start r out dc =
     (let padded_len = length out - (start + TLS_HEADER_LEN)
      in if padded_len + AEAD_TAG_LEN > OUTER_TLS_RECORD_LIMIT
         then (Inl (DrTlsRecord (PayloadTooLarge (padded_len + AEAD_TAG_LEN))), dc, r, take start out)
         else
           (case seal_padded_payload A (drop (start + TLS_HEADER_LEN) out) dc of
              (Inl e, dc') \<Rightarrow> (Inl e, dc', r, take start out)
            | (Inr (ct, tag), dc') \<Rightarrow>
                let out' = patch_record start out ct tag in (Inr (start, length out'), dc', r, out')))"

definition finish_record :: "aead \<Rightarrow> 'r rng \<Rightarrow> nat \<Rightarrow> 'r \<Rightarrow> bytes \<Rightarrow> data_record_codec \<Rightarrow> 'r seal_result" where
  "finish_record A R start r out dc =
     (case ensure_seal_budget 1 dc of
        Inl e \<Rightarrow> (Inl e, dc, r, take start out)
      | Inr _ \<Rightarrow>
          let plen = length out - (start + TLS_HEADER_LEN);
              (out, r) = apply_suffix_into R (dc_padding dc) plen r out
          in seal_framed A start r out dc)"

definition seal_into :: "aead \<Rightarrow> 'r rng \<Rightarrow> bytes \<Rightarrow> 'r \<Rightarrow> bytes \<Rightarrow> data_record_codec \<Rightarrow> 'r seal_result" where
  "seal_into A R payload r out dc =
     (let (start, out) = begin_record out in finish_record A R start r (out @ payload) dc)"

definition data_seal ::
  "aead \<Rightarrow> 'r rng \<Rightarrow> bytes \<Rightarrow> 'r \<Rightarrow> data_record_codec \<Rightarrow> (data_record_error + bytes) \<times> data_record_codec \<times> 'r" where
  "data_seal A R payload r dc =
     (case seal_into A R payload r [] dc of
        (Inl e, dc', r', _) \<Rightarrow> (Inl e, dc', r')
      | (Inr _, dc', r', out) \<Rightarrow> (Inr out, dc', r'))"

definition seal_record_with_suffix ::
  "aead \<Rightarrow> bytes \<Rightarrow> ('r \<Rightarrow> bytes \<Rightarrow> bytes \<times> 'r) \<Rightarrow> 'r \<Rightarrow> bytes \<Rightarrow> data_record_codec \<Rightarrow> 'r seal_result" where
  "seal_record_with_suffix A payload write_suffix r out dc =
     (case ensure_seal_budget 1 dc of
        Inl e \<Rightarrow> (Inl e, dc, r, out)
      | Inr _ \<Rightarrow>
          let start = length out;
              (out, r) = write_suffix r (out @ record_prefix @ payload)
          in seal_framed A start r out dc)"

definition seal_into_extra_padded ::
  "aead \<Rightarrow> 'r rng \<Rightarrow> bytes \<Rightarrow> nat \<Rightarrow> 'r \<Rightarrow> bytes \<Rightarrow> data_record_codec \<Rightarrow> 'r seal_result" where
  "seal_into_extra_padded A R payload extra_pad r out dc =
     seal_record_with_suffix A payload
       (write_extra_padded_suffix_into R (dc_padding dc) (length payload) extra_pad) r out dc"

definition seal_into_exact_padded ::
  "aead \<Rightarrow> 'r rng \<Rightarrow> bytes \<Rightarrow> nat \<Rightarrow> 'r \<Rightarrow> bytes \<Rightarrow> data_record_codec \<Rightarrow> 'r seal_result" where
  "seal_into_exact_padded A R payload total_pad r out dc =
     seal_record_with_suffix A payload (write_exact_padding_suffix R total_pad) r out dc"

section \<open>Sealing batches\<close>

text \<open>A loop that seals a list of items in order into one buffer and stops at the first failure.\<close>

fun seal_each ::
  "('x \<Rightarrow> 'r \<Rightarrow> bytes \<Rightarrow> data_record_codec \<Rightarrow> 'r seal_result) \<Rightarrow> 'x list \<Rightarrow> 'r \<Rightarrow> bytes \<Rightarrow> data_record_codec \<Rightarrow>
   (data_record_error + (nat \<times> nat) list) \<times> data_record_codec \<times> 'r \<times> bytes" where
  "seal_each f [] r out dc = (Inr [], dc, r, out)"
| "seal_each f (x # xs) r out dc =
     (case f x r out dc of
        (Inl e, dc', r', out') \<Rightarrow> (Inl e, dc', r', out')
      | (Inr rg, dc', r', out') \<Rightarrow>
          (case seal_each f xs r' out' dc' of (res, rest) \<Rightarrow> (and_then res (\<lambda>rgs. Inr (rg # rgs)), rest)))"

definition seal_chunks_into_reusing ::
  "aead \<Rightarrow> 'r rng \<Rightarrow> bytes \<Rightarrow> 'r \<Rightarrow> bytes \<Rightarrow> data_record_codec \<Rightarrow>
   (data_record_error + sealed_record list) \<times> data_record_codec \<times> 'r \<times> bytes" where
  "seal_chunks_into_reusing A R payload r out dc =
     (let max_chunk_len = codec_max_plaintext_len dc
      in if max_chunk_len = 0 then (Inl (DrTlsRecord (PayloadTooLarge (length payload))), dc, r, out)
         else
           (case ensure_seal_budget (chunk_count (length payload) max_chunk_len) dc of
              Inl e \<Rightarrow> (Inl e, dc, r, out)
            | Inr _ \<Rightarrow>
                let parts = (if length payload \<le> max_chunk_len then [payload] else chunks max_chunk_len payload)
                in (case seal_each (seal_into A R) parts r out dc of
                      (res, rest) \<Rightarrow>
                        (and_then res (\<lambda>rgs. Inr (map2 (\<lambda>rg part. \<lparr>sr_range = rg, sr_plaintext_len = length part\<rparr>) rgs parts)), rest))))"

definition seal_chunks_into ::
  "aead \<Rightarrow> 'r rng \<Rightarrow> bytes \<Rightarrow> 'r \<Rightarrow> bytes \<Rightarrow> data_record_codec \<Rightarrow>
   (data_record_error + sealed_record list) \<times> data_record_codec \<times> 'r \<times> bytes" where
  "seal_chunks_into A R payload r out dc = seal_chunks_into_reusing A R payload r out dc"

definition seal_chunks_into_untracked ::
  "aead \<Rightarrow> 'r rng \<Rightarrow> bytes \<Rightarrow> 'r \<Rightarrow> bytes \<Rightarrow> data_record_codec \<Rightarrow> (data_record_error + unit) \<times> data_record_codec \<times> 'r \<times> bytes" where
  "seal_chunks_into_untracked A R payload r out dc =
     (let max_chunk_len = codec_max_plaintext_len dc
      in if max_chunk_len = 0 then (Inl (DrTlsRecord (PayloadTooLarge (length payload))), dc, r, out)
         else
           (case ensure_seal_budget (chunk_count (length payload) max_chunk_len) dc of
              Inl e \<Rightarrow> (Inl e, dc, r, out)
            | Inr _ \<Rightarrow>
                let parts = (if length payload \<le> max_chunk_len then [payload] else chunks max_chunk_len payload)
                in (case seal_each (seal_into A R) parts r out dc of (res, rest) \<Rightarrow> (and_then res (\<lambda>_. Inr ()), rest))))"

text \<open>The variant with one buffer per record: each is sealed into an empty buffer.\<close>

fun seal_buffers ::
  "aead \<Rightarrow> 'r rng \<Rightarrow> bytes list \<Rightarrow> 'r \<Rightarrow> data_record_codec \<Rightarrow> (data_record_error + bytes list) \<times> data_record_codec \<times> 'r" where
  "seal_buffers A R [] r dc = (Inr [], dc, r)"
| "seal_buffers A R (p # ps) r dc =
     (case data_seal A R p r dc of
        (Inl e, dc', r') \<Rightarrow> (Inl e, dc', r')
      | (Inr rec, dc', r') \<Rightarrow>
          (case seal_buffers A R ps r' dc' of (res, rest) \<Rightarrow> (and_then res (\<lambda>recs. Inr (rec # recs)), rest)))"

definition seal_chunks ::
  "aead \<Rightarrow> 'r rng \<Rightarrow> bytes \<Rightarrow> 'r \<Rightarrow> data_record_codec \<Rightarrow> (data_record_error + bytes list) \<times> data_record_codec \<times> 'r" where
  "seal_chunks A R payload r dc =
     (let max_chunk_len = codec_max_plaintext_len dc
      in if max_chunk_len = 0 then (Inl (DrTlsRecord (PayloadTooLarge (length payload))), dc, r)
         else
           (case ensure_seal_budget (chunk_count (length payload) max_chunk_len) dc of
              Inl e \<Rightarrow> (Inl e, dc, r)
            | Inr _ \<Rightarrow> seal_buffers A R (if payload = [] then [payload] else chunks max_chunk_len payload) r dc))"

definition seal_flight_record ::
  "aead \<Rightarrow> 'r rng \<Rightarrow> nat \<Rightarrow> nat \<Rightarrow> nat \<times> bytes \<Rightarrow> 'r \<Rightarrow> bytes \<Rightarrow> data_record_codec \<Rightarrow> 'r seal_result" where
  "seal_flight_record A R pad lst = (\<lambda>(idx, chunk) r out dc.
     if idx = lst then seal_into_extra_padded A R chunk pad r out dc else seal_into A R chunk r out dc)"

definition seal_pq_flight ::
  "aead \<Rightarrow> 'r rng \<Rightarrow> bytes list \<Rightarrow> 'r \<Rightarrow> bytes \<Rightarrow> data_record_codec \<Rightarrow> (data_record_error + unit) \<times> data_record_codec \<times> 'r \<times> bytes" where
  "seal_pq_flight A R cks r out dc =
     (case ensure_seal_budget (length cks) dc of
        Inl e \<Rightarrow> (Inl e, dc, r, out)
      | Inr _ \<Rightarrow>
          let (pad, r) = aggregate_pad_len R r
          in (case seal_each (seal_flight_record A R pad (length cks - 1)) (List.enumerate 0 cks) r out dc of
                (res, rest) \<Rightarrow> (and_then res (\<lambda>_. Inr ()), rest)))"

text \<open>The slices \<open>plaintext[offset..offset + len]\<close> a list of lengths cuts out; the callers have checked that
  the lengths add up to the plaintext.\<close>

fun cut_lens :: "nat list \<Rightarrow> 'a list \<Rightarrow> 'a list list" where
  "cut_lens [] xs = []"
| "cut_lens (l # ls) xs = take l xs # cut_lens ls (drop l xs)"

definition seal_records_into ::
  "aead \<Rightarrow> 'r rng \<Rightarrow> bytes \<Rightarrow> nat list \<Rightarrow> 'r \<Rightarrow> bytes \<Rightarrow> data_record_codec \<Rightarrow>
   (data_record_error + unit) \<times> data_record_codec \<times> 'r \<times> bytes" where
  "seal_records_into A R plaintext record_lens r out dc =
     (case and_then (validate_record_lens record_lens (length plaintext)) (\<lambda>_. ensure_seal_budget (length record_lens) dc) of
        Inl e \<Rightarrow> (Inl e, dc, r, out)
      | Inr _ \<Rightarrow>
          (case seal_each (seal_into A R) (cut_lens record_lens plaintext) r out dc of (res, rest) \<Rightarrow> (and_then res (\<lambda>_. Inr ()), rest)))"

definition seal_exact_record ::
  "aead \<Rightarrow> 'r rng \<Rightarrow> bytes \<times> nat \<Rightarrow> 'r \<Rightarrow> bytes \<Rightarrow> data_record_codec \<Rightarrow> 'r seal_result" where
  "seal_exact_record A R = (\<lambda>(part, pad). seal_into_exact_padded A R part pad)"

definition seal_records_into_exact_padded ::
  "aead \<Rightarrow> 'r rng \<Rightarrow> bytes \<Rightarrow> nat list \<Rightarrow> nat list \<Rightarrow> 'r \<Rightarrow> bytes \<Rightarrow> data_record_codec \<Rightarrow>
   (data_record_error + unit) \<times> data_record_codec \<times> 'r \<times> bytes" where
  "seal_records_into_exact_padded A R plaintext record_lens pad_lens r out dc =
     (case and_then (validate_exact_padded_record_lens record_lens pad_lens (length plaintext)) (\<lambda>reserve.
             and_then (ensure_seal_budget (length record_lens) dc) (\<lambda>_.
             ok_or (checked_add_usize (length out) reserve) InvalidExactPadding)) of
        Inl e \<Rightarrow> (Inl e, dc, r, out)
      | Inr _ \<Rightarrow>
          (case seal_each (seal_exact_record A R) (zip (cut_lens record_lens plaintext) pad_lens) r out dc of
             (Inl e, dc', r', out') \<Rightarrow> (Inl e, dc'\<lparr>dc_aead := codec_poison (dc_aead dc')\<rparr>, r', take (length out) out')
           | (Inr _, dc', r', out') \<Rightarrow> (Inr (), dc', r', out')))"

text \<open>\<open>fill i out\<close> appends the plaintext of record \<open>i\<close>; the model has the appended bytes, and the check that
  compares their number with the announced length only exists in debug builds.\<close>

definition seal_records_into_inplace ::
  "aead \<Rightarrow> 'r rng \<Rightarrow> nat list \<Rightarrow> (nat \<Rightarrow> bytes) \<Rightarrow> 'r \<Rightarrow> bytes \<Rightarrow> data_record_codec \<Rightarrow>
   (data_record_error + unit) \<times> data_record_codec \<times> 'r \<times> bytes" where
  "seal_records_into_inplace A R record_lens fill r out dc =
     (case ensure_seal_budget (length record_lens) dc of
        Inl e \<Rightarrow> (Inl e, dc, r, out)
      | Inr _ \<Rightarrow>
          (case seal_each (\<lambda>i r out dc. let (start, out) = begin_record out in finish_record A R start r (out @ fill i) dc)
                  [0..<length record_lens] r out dc of (res, rest) \<Rightarrow> (and_then res (\<lambda>_. Inr ()), rest)))"

section \<open>Sealing in parallel\<close>

definition seal_worker_payload ::
  "aead \<Rightarrow> cipher_suite \<Rightarrow> bytes \<Rightarrow> bytes \<Rightarrow> u64 \<Rightarrow> bytes \<Rightarrow> bytes \<Rightarrow> data_record_error + (bytes \<times> bytes)" where
  "seal_worker_payload A suite key base sequence plaintext aad =
     and_then (check_padded_len (length plaintext)) (\<lambda>_.
       map_err DrAead (seal_in_place_detached_with A suite key base sequence plaintext aad))"

definition seal_one_record_into ::
  "aead \<Rightarrow> 'r rng \<Rightarrow> cipher_suite \<Rightarrow> bytes \<Rightarrow> bytes \<Rightarrow> u64 \<Rightarrow> padding_profile \<Rightarrow> bytes \<Rightarrow> bytes \<Rightarrow> 'r \<Rightarrow> bytes \<Rightarrow>
   (data_record_error + unit) \<times> 'r \<times> bytes" where
  "seal_one_record_into A R suite key base sequence p aad plaintext r out =
     (let start = length out;
          (out, r) = apply_suffix_into R p (length plaintext) r (out @ record_prefix @ plaintext);
          padded_len = length out - (start + TLS_HEADER_LEN)
      in if padded_len + AEAD_TAG_LEN > OUTER_TLS_RECORD_LIMIT
         then (Inl (DrTlsRecord (PayloadTooLarge (padded_len + AEAD_TAG_LEN))), r, take start out)
         else
           (case seal_worker_payload A suite key base sequence (drop (start + TLS_HEADER_LEN) out) aad of
              Inl e \<Rightarrow> (Inl e, r, take start out)
            | Inr (ct, tag) \<Rightarrow> (Inr (), r, patch_record start out ct tag)))"

fun seal_segment_loop ::
  "aead \<Rightarrow> 'r rng \<Rightarrow> cipher_suite \<Rightarrow> bytes \<Rightarrow> bytes \<Rightarrow> bytes \<Rightarrow> padding_profile \<Rightarrow> u64 \<Rightarrow> bytes \<Rightarrow> nat list \<Rightarrow> 'r \<Rightarrow> bytes \<Rightarrow>
   data_record_error + bytes" where
  "seal_segment_loop A R suite key base aad p sequence plaintext [] r out = Inr out"
| "seal_segment_loop A R suite key base aad p sequence plaintext (l # ls) r out =
     (case seal_one_record_into A R suite key base sequence p aad (take l plaintext) r out of
        (Inl e, _, _) \<Rightarrow> Inl e
      | (Inr _, r', out') \<Rightarrow> seal_segment_loop A R suite key base aad p (sequence + 1) (drop l plaintext) ls r' out')"

definition seal_records_segment ::
  "aead \<Rightarrow> 'r rng \<Rightarrow> cipher_suite \<Rightarrow> bytes \<Rightarrow> bytes \<Rightarrow> bytes \<Rightarrow> padding_profile \<Rightarrow> u64 \<Rightarrow> bytes \<Rightarrow> nat list \<Rightarrow> u64 \<Rightarrow>
   data_record_error + bytes" where
  "seal_records_segment A R suite key base aad p base_sequence plaintext record_lens seed =
     seal_segment_loop A R suite key base aad p base_sequence plaintext record_lens (r_seed R seed) []"

text \<open>The jobs: \<open>g\<close> groups are left, each takes its share of the records that are left, rounded up, the
  bytes of those records, the next sequence numbers and a fresh seed.\<close>

record seal_job =
  job_sequence :: u64
  job_plaintext :: bytes
  job_lens :: "nat list"
  job_seed :: u64

fun seal_jobs :: "'r rng \<Rightarrow> nat \<Rightarrow> nat list \<Rightarrow> bytes \<Rightarrow> u64 \<Rightarrow> 'r \<Rightarrow> seal_job list \<times> 'r" where
  "seal_jobs R 0 lens plaintext sequence r = ([], r)"
| "seal_jobs R (Suc g) lens plaintext sequence r =
     (let n = div_ceil (length lens) (Suc g);
          here = take n lens;
          span = sum_list here;
          (seed, r) = r_u64 R r;
          (jobs, r) = seal_jobs R g (drop n lens) (drop span plaintext) (sequence + of_nat n) r
      in (\<lparr>job_sequence = sequence, job_plaintext = take span plaintext, job_lens = here, job_seed = seed\<rparr> # jobs, r))"

definition run_seal_job :: "aead \<Rightarrow> 'r rng \<Rightarrow> data_record_codec \<Rightarrow> seal_job \<Rightarrow> data_record_error + bytes" where
  "run_seal_job A R dc j =
     seal_records_segment A R (ac_suite (dc_aead dc)) (ac_key (dc_aead dc)) (ac_nonce_base (dc_aead dc)) (dc_aad dc)
       (dc_padding dc) (job_sequence j) (job_plaintext j) (job_lens j) (job_seed j)"

text \<open>The segments in order, or the first error.\<close>

fun collect_segments :: "(data_record_error + bytes) list \<Rightarrow> data_record_error + bytes list" where
  "collect_segments [] = Inr []"
| "collect_segments (s # ss) = and_then s (\<lambda>x. and_then (collect_segments ss) (\<lambda>xs. Inr (x # xs)))"

definition seal_records_into_parallel ::
  "aead \<Rightarrow> 'r rng \<Rightarrow> nat \<Rightarrow> bytes \<Rightarrow> nat list \<Rightarrow> 'r \<Rightarrow> bytes \<Rightarrow> data_record_codec \<Rightarrow>
   (data_record_error + unit) \<times> data_record_codec \<times> 'r \<times> bytes" where
  "seal_records_into_parallel A R width plaintext record_lens r out dc =
     (case and_then (validate_record_lens record_lens (length plaintext)) (\<lambda>_. ensure_seal_budget (length record_lens) dc) of
        Inl e \<Rightarrow> (Inl e, dc, r, out)
      | Inr _ \<Rightarrow>
          if length record_lens = 0 then (Inr (), dc, r, out)
          else
            (case reserve_sequence (of_nat (length record_lens)) (dc_aead dc) of
               Inl e \<Rightarrow> (Inl (DrAead e), dc, r, out)
             | Inr (base_sequence, c') \<Rightarrow>
                 let dc' = dc\<lparr>dc_aead := c'\<rparr>;
                     group_count = min (max width 1) (length record_lens);
                     (jobs, r) = seal_jobs R group_count record_lens plaintext base_sequence r
                 in (case collect_segments (map (run_seal_job A R dc') jobs) of
                       Inl e \<Rightarrow> (Inl e, dc'\<lparr>dc_aead := codec_poison c'\<rparr>, r, out)
                     | Inr segments \<Rightarrow> (Inr (), dc', r, out @ concat segments))))"

function chunk_lens :: "nat \<Rightarrow> nat \<Rightarrow> nat list" where
  "chunk_lens max_chunk_len remaining =
     (if remaining > 0 \<and> max_chunk_len > 0
      then min remaining max_chunk_len # chunk_lens max_chunk_len (remaining - min remaining max_chunk_len) else [])"
  by pat_completeness auto
termination
  by (relation "measure snd") auto

declare chunk_lens.simps [simp del]

definition seal_chunks_into_parallel ::
  "aead \<Rightarrow> 'r rng \<Rightarrow> nat \<Rightarrow> bytes \<Rightarrow> 'r \<Rightarrow> bytes \<Rightarrow> data_record_codec \<Rightarrow>
   (data_record_error + unit) \<times> data_record_codec \<times> 'r \<times> bytes" where
  "seal_chunks_into_parallel A R width payload r out dc =
     (let max_chunk_len = codec_max_plaintext_len dc
      in if max_chunk_len = 0 then (Inl (DrTlsRecord (PayloadTooLarge (length payload))), dc, r, out)
         else seal_records_into_parallel A R width payload
           (if payload = [] then [0] else chunk_lens max_chunk_len (length payload)) r out dc)"

section \<open>Opening\<close>

definition data_open :: "aead \<Rightarrow> bytes \<Rightarrow> data_record_codec \<Rightarrow> (data_record_error + bytes) \<times> data_record_codec" where
  "data_open A rec dc =
     (case validate_record_header rec 0 of
        Inl e \<Rightarrow> (Inl e, dc)
      | Inr header \<Rightarrow>
          (case open_in_place_split A (drop TLS_HEADER_LEN (take (total_len header) rec)) (dc_aad dc) (dc_aead dc) of
             (Inl e, c') \<Rightarrow> (Inl (DrAead e), dc\<lparr>dc_aead := c'\<rparr>)
           | (Inr padded, c') \<Rightarrow>
               (case remove_in_place padded of
                  (Inl e, _) \<Rightarrow> (Inl (DrTraffic e), dc\<lparr>dc_aead := c'\<rparr>)
                | (Inr _, plaintext) \<Rightarrow> (Inr plaintext, dc\<lparr>dc_aead := c'\<rparr>))))"

text \<open>In place: the buffer is returned as the call leaves it, the payload zeroed after a failure.\<close>

definition open_in_place_payload_range ::
  "aead \<Rightarrow> bytes \<Rightarrow> data_record_codec \<Rightarrow> (data_record_error + (nat \<times> nat)) \<times> data_record_codec \<times> bytes" where
  "open_in_place_payload_range A rec dc =
     (case validate_record_header rec 0 of
        Inl e \<Rightarrow> (Inl e, dc, rec)
      | Inr header \<Rightarrow>
          let zeroed = take TLS_HEADER_LEN rec @ replicate (payload_len header) 0
          in (case open_in_place_split A (drop TLS_HEADER_LEN (take (total_len header) rec)) (dc_aad dc) (dc_aead dc) of
                (Inl e, c') \<Rightarrow> (Inl (DrAead e), dc\<lparr>dc_aead := c'\<rparr>, zeroed)
              | (Inr padded, c') \<Rightarrow>
                  (case unpadded_len padded of
                     Inl e \<Rightarrow> (Inl (DrTraffic e), dc\<lparr>dc_aead := c'\<rparr>, zeroed)
                   | Inr n \<Rightarrow>
                       (Inr (TLS_HEADER_LEN, TLS_HEADER_LEN + n), dc\<lparr>dc_aead := c'\<rparr>, take TLS_HEADER_LEN rec @ take n padded))))"

definition data_open_in_place :: "aead \<Rightarrow> bytes \<Rightarrow> data_record_codec \<Rightarrow> (data_record_error + unit) \<times> data_record_codec \<times> bytes" where
  "data_open_in_place A rec dc =
     (case open_in_place_payload_range A rec dc of
        (Inl e, dc', rec') \<Rightarrow> (Inl e, dc', rec')
      | (Inr (a, b), dc', rec') \<Rightarrow> (Inr (), dc', drop a (take b rec')))"

definition open_owned :: "aead \<Rightarrow> bytes \<Rightarrow> data_record_codec \<Rightarrow> (data_record_error + bytes) \<times> data_record_codec" where
  "open_owned A rec dc =
     (case data_open_in_place A rec dc of (Inl e, dc', _) \<Rightarrow> (Inl e, dc') | (Inr _, dc', rec') \<Rightarrow> (Inr rec', dc'))"

lemma validate_record_header_Inr:
  assumes "validate_record_header buf offset = Inr h"
  shows "parse_header (drop offset buf) = Inr h" "offset + total_len h \<le> length buf" "offset < length buf"
    "TLS_HEADER_LEN \<le> total_len h" "AEAD_TAG_LEN \<le> payload_len h" "total_len h = TLS_HEADER_LEN + payload_len h"
  using assms by (auto simp: validate_record_header_def and_then_eq_Inr TLS_HEADER_LEN_def split: if_splits dest!: parse_header_Inr)

function open_concat_loop ::
  "aead \<Rightarrow> bytes \<Rightarrow> nat \<Rightarrow> bytes \<Rightarrow> data_record_codec \<Rightarrow> (data_record_error + bytes) \<times> data_record_codec" where
  "open_concat_loop A records offset out dc =
     (if offset < length records then
        (case validate_record_header records offset of
           Inl e \<Rightarrow> (Inl e, dc)
         | Inr header \<Rightarrow>
             (case open_in_place_split A (drop (offset + TLS_HEADER_LEN) (take (offset + total_len header) records))
                     (dc_aad dc) (dc_aead dc) of
                (Inl e, c') \<Rightarrow> (Inl (DrAead e), dc\<lparr>dc_aead := c'\<rparr>)
              | (Inr padded, c') \<Rightarrow>
                  (case unpadded_len padded of
                     Inl e \<Rightarrow> (Inl (DrTraffic e), dc\<lparr>dc_aead := c'\<rparr>)
                   | Inr n \<Rightarrow> open_concat_loop A records (offset + total_len header) (out @ take n padded) (dc\<lparr>dc_aead := c'\<rparr>))))
      else (Inr out, dc))"
  by pat_completeness auto
termination
  by (relation "measure (\<lambda>(A, records, offset, out, dc). length records - offset)")
    (auto dest!: validate_record_header_Inr simp: TLS_HEADER_LEN_def)

declare open_concat_loop.simps [simp del]

definition open_concat_records ::
  "aead \<Rightarrow> bytes \<Rightarrow> bytes \<Rightarrow> data_record_codec \<Rightarrow> (data_record_error + unit) \<times> data_record_codec \<times> bytes" where
  "open_concat_records A records out dc =
     (case (case ensure_usable (dc_aead dc) of
              Inl e \<Rightarrow> (Inl (DrAead e), dc)
            | Inr _ \<Rightarrow> open_concat_loop A records 0 out dc) of
        (Inl e, dc') \<Rightarrow> (Inl e, dc'\<lparr>dc_aead := codec_poison (dc_aead dc')\<rparr>, out)
      | (Inr out', dc') \<Rightarrow> (Inr (), dc', out'))"

function record_bounds :: "bytes \<Rightarrow> nat \<Rightarrow> data_record_error + (nat \<times> nat) list" where
  "record_bounds records offset =
     (if offset < length records then
        (case validate_record_header records offset of
           Inl e \<Rightarrow> Inl e
         | Inr header \<Rightarrow> and_then (record_bounds records (offset + total_len header)) (\<lambda>bs. Inr ((offset, total_len header) # bs)))
      else Inr [])"
  by pat_completeness auto
termination
  by (relation "measure (\<lambda>(records, offset). length records - offset)")
    (auto dest!: validate_record_header_Inr simp: TLS_HEADER_LEN_def)

declare record_bounds.simps [simp del]

fun open_record_group ::
  "aead \<Rightarrow> cipher_suite \<Rightarrow> bytes \<Rightarrow> bytes \<Rightarrow> bytes \<Rightarrow> u64 \<Rightarrow> bytes \<Rightarrow> (nat \<times> nat) list \<Rightarrow> data_record_error + bytes" where
  "open_record_group A suite key base aad sequence bs [] = Inr []"
| "open_record_group A suite key base aad sequence bs ((off, tot) # bounds) =
     and_then (map_err DrAead (open_in_place_split_with A suite key base sequence
         (drop (off + TLS_HEADER_LEN) (take (off + tot) bs)) aad)) (\<lambda>padded.
     and_then (map_err DrTraffic (unpadded_len padded)) (\<lambda>n.
     and_then (open_record_group A suite key base aad (sequence + 1) bs bounds) (\<lambda>rest.
     Inr (take n padded @ rest))))"

fun split_groups :: "nat \<Rightarrow> 'a list \<Rightarrow> 'a list list" where
  "split_groups 0 xs = []"
| "split_groups (Suc g) xs =
     (let n = div_ceil (length xs) (Suc g) in take n xs # split_groups g (drop n xs))"

text \<open>One job: the bytes from the first to the last record of the group, with the bounds made relative.\<close>

definition run_open_job :: "aead \<Rightarrow> data_record_codec \<Rightarrow> bytes \<Rightarrow> u64 \<Rightarrow> (nat \<times> nat) list \<Rightarrow> data_record_error + bytes" where
  "run_open_job A dc records sequence grp =
     (let byte_start = fst (hd grp); byte_end = fst (last grp) + snd (last grp)
      in open_record_group A (ac_suite (dc_aead dc)) (ac_key (dc_aead dc)) (ac_nonce_base (dc_aead dc)) (dc_aad dc) sequence
           (drop byte_start (take byte_end records)) (map (\<lambda>(o', t). (o' - byte_start, t)) grp))"

fun open_jobs :: "aead \<Rightarrow> data_record_codec \<Rightarrow> bytes \<Rightarrow> u64 \<Rightarrow> (nat \<times> nat) list list \<Rightarrow> (data_record_error + bytes) list" where
  "open_jobs A dc records sequence [] = []"
| "open_jobs A dc records sequence (grp # gs) =
     run_open_job A dc records sequence grp # open_jobs A dc records (sequence + of_nat (length grp)) gs"

definition open_concat_records_parallel_inner ::
  "aead \<Rightarrow> nat \<Rightarrow> bytes \<Rightarrow> bytes \<Rightarrow> data_record_codec \<Rightarrow> data_record_error + (bytes \<times> data_record_codec)" where
  "open_concat_records_parallel_inner A width records out dc =
     and_then (record_bounds records 0) (\<lambda>bounds.
     if length bounds = 0 then Inr (out, dc)
     else
       let group_count = min (max width 1) (length bounds);
           base_sequence = codec_sequence (dc_aead dc)
       in if checked_add_u64 base_sequence (of_nat (length bounds)) = None then Inl (DrAead NonceExhausted)
          else
            and_then (collect_segments (open_jobs A dc records base_sequence (split_groups group_count bounds))) (\<lambda>plaintexts.
            Inr (out @ concat plaintexts, dc\<lparr>dc_aead := advance_sequence (of_nat (length bounds)) (dc_aead dc)\<rparr>)))"

definition open_concat_records_parallel ::
  "aead \<Rightarrow> nat \<Rightarrow> bytes \<Rightarrow> bytes \<Rightarrow> data_record_codec \<Rightarrow> (data_record_error + unit) \<times> data_record_codec \<times> bytes" where
  "open_concat_records_parallel A width records out dc =
     (case ensure_usable (dc_aead dc) of
        Inl e \<Rightarrow> (Inl (DrAead e), dc, out)
      | Inr _ \<Rightarrow>
          (case open_concat_records_parallel_inner A width records out dc of
             Inl e \<Rightarrow> (Inl e, dc\<lparr>dc_aead := codec_poison (dc_aead dc)\<rparr>, out)
           | Inr (out', dc') \<Rightarrow> (Inr (), dc', out')))"

section \<open>Lemmas: one record\<close>

definition frame :: "bytes \<Rightarrow> bytes" where
  "frame body = [0x17, 3, 3] @ be_bytes 2 (of_nat (length body) :: u16) @ body"

lemma length_frame [simp]: "length (frame body) = 5 + length body"
  by (simp add: frame_def)

lemma patch_record_frame: "patch_record (length out) (out @ record_prefix @ xs) ct tag = out @ frame (ct @ tag)"
proof -
  let ?n = "of_nat (length ct + length tag) :: u16"
  obtain x y where xy: "be_bytes 2 ?n = [x, y]" by (simp add: be_bytes_numeral)
  have "patch_record (length out) (out @ record_prefix @ xs) ct tag =
      (out @ record_prefix @ ct @ tag)[length out + 3 := be_bytes 2 ?n ! 0, length out + 4 := be_bytes 2 ?n ! 1]"
    by (simp add: patch_record_def Let_def record_prefix_def TLS_HEADER_LEN_def)
  also have "\<dots> = out @ [0x17, 3, 3, x, y] @ ct @ tag"
    unfolding xy by (simp add: list_update_append record_prefix_def TLS_CONTENT_APPLICATION_DATA_def TLS_LEGACY_VERSION_def)
  finally show ?thesis using xy by (simp add: frame_def)
qed

text \<open>The codec after \<open>n\<close> more records.\<close>

definition dc_next :: "nat \<Rightarrow> data_record_codec \<Rightarrow> data_record_codec" where
  "dc_next n dc = dc\<lparr>dc_aead := (dc_aead dc)\<lparr>ac_records := (ac_records (dc_aead dc))\<lparr>rs_next := codec_sequence (dc_aead dc) + of_nat n\<rparr>\<rparr>\<rparr>"

lemma dc_next_simps [simp]:
  "ac_key (dc_aead (dc_next n dc)) = ac_key (dc_aead dc)" "ac_nonce_base (dc_aead (dc_next n dc)) = ac_nonce_base (dc_aead dc)"
  "ac_suite (dc_aead (dc_next n dc)) = ac_suite (dc_aead dc)" "dc_padding (dc_next n dc) = dc_padding dc"
  "dc_aad (dc_next n dc) = dc_aad dc" "codec_sequence (dc_aead (dc_next n dc)) = codec_sequence (dc_aead dc) + of_nat n"
  "poisoned (ac_records (dc_aead (dc_next n dc))) = poisoned (ac_records (dc_aead dc))"
  "dc_next 0 dc = dc" "dc_next m (dc_next n dc) = dc_next (n + m) dc"
  by (simp_all add: dc_next_def codec_sequence_def add.assoc)

text \<open>A record that carries a payload under a sequence number.\<close>

definition wire_record :: "aead \<Rightarrow> aead_codec \<Rightarrow> bytes \<Rightarrow> u64 \<Rightarrow> bytes \<Rightarrow> bytes \<Rightarrow> bool" where
  "wire_record A c aad sq payload rec \<longleftrightarrow> sq \<noteq> - 1 \<and>
     (\<exists>pad ct tag. length pad < 2 ^ 16 \<and> length payload + length pad + 18 \<le> OUTER_TLS_RECORD_LIMIT \<and>
        a_seal A (ac_suite c) (ac_key c) (record_nonce_from (ac_nonce_base c) sq) aad
          (payload @ pad @ be_bytes 2 (of_nat (length pad) :: u16)) = Some (ct, tag) \<and>
        rec = frame (ct @ tag))"

fun wire :: "aead \<Rightarrow> aead_codec \<Rightarrow> bytes \<Rightarrow> u64 \<Rightarrow> bytes list \<Rightarrow> bytes list \<Rightarrow> bool" where
  "wire A c aad sq [] [] \<longleftrightarrow> True"
| "wire A c aad sq (p # ps) (rec # recs) \<longleftrightarrow> wire_record A c aad sq p rec \<and> wire A c aad (sq + 1) ps recs"
| "wire A c aad sq _ _ \<longleftrightarrow> False"

lemma wire_record_cong:
  "ac_suite c' = ac_suite c \<Longrightarrow> ac_key c' = ac_key c \<Longrightarrow> ac_nonce_base c' = ac_nonce_base c \<Longrightarrow>
   wire_record A c' aad sq p rec = wire_record A c aad sq p rec"
  by (simp add: wire_record_def)

lemma wire_cong:
  assumes "ac_suite c' = ac_suite c" "ac_key c' = ac_key c" "ac_nonce_base c' = ac_nonce_base c"
  shows "wire A c' aad sq ps recs = wire A c aad sq ps recs"
proof (induction ps arbitrary: sq recs)
  case Nil
  then show ?case by (cases recs) simp_all
next
  case (Cons p ps)
  then show ?case by (cases recs) (simp_all add: wire_record_cong [OF assms])
qed

lemma wire_dc_next [simp]: "wire A (dc_aead (dc_next n dc)) aad sq ps recs = wire A (dc_aead dc) aad sq ps recs"
  by (rule wire_cong) simp_all

lemma wire_length: "wire A c aad sq ps recs \<Longrightarrow> length recs = length ps"
  by (induction A c aad sq ps recs rule: wire.induct) simp_all

lemma wire_append:
  "wire A c aad sq ps recs \<Longrightarrow> wire A c aad (sq + of_nat (length ps)) qs recs' \<Longrightarrow> wire A c aad sq (ps @ qs) (recs @ recs')"
  by (induction A c aad sq ps recs rule: wire.induct) (simp_all add: add.assoc add.commute)

text \<open>The budget: what an accepted count says.\<close>

lemma ensure_seal_budget_Inr:
  assumes "ensure_seal_budget n dc = Inr u" "n < 2 ^ 64"
  shows "\<not> poisoned (ac_records (dc_aead dc))" "0 < n \<Longrightarrow> unat (codec_sequence (dc_aead dc)) + n < 2 ^ 64"
    "0 < n \<Longrightarrow> ac_suite (dc_aead dc) = Aes256Gcm \<Longrightarrow> unat (codec_sequence (dc_aead dc)) + n \<le> AES_GCM_RECORD_LIMIT"
proof -
  have u: "unat (of_nat n :: u64) = n" using assms(2) by (simp add: unsigned_of_nat take_bit_nat_eq_self)
  have z: "(of_nat n :: u64) = 0 \<longleftrightarrow> n = 0" using u by (metis unat_eq_zero)
  obtain e where e: "checked_seal_end (ensure_usable (dc_aead dc)) (ac_suite (dc_aead dc)) (codec_sequence (dc_aead dc))
      (of_nat n) (length (dc_aad dc)) = Inr e"
    using assms(1) by (auto simp: ensure_seal_budget_def and_then_eq_Inr)
  show "\<not> poisoned (ac_records (dc_aead dc))"
    using e by (auto simp: checked_seal_end_def and_then_eq_Inr ensure_usable_def seq_ensure_usable_def split: if_splits)
  show "0 < n \<Longrightarrow> unat (codec_sequence (dc_aead dc)) + n < 2 ^ 64"
    using e u z by (auto simp: checked_seal_end_def and_then_eq_Inr checked_add_u64_def split: if_splits)
  show "0 < n \<Longrightarrow> ac_suite (dc_aead dc) = Aes256Gcm \<Longrightarrow> unat (codec_sequence (dc_aead dc)) + n \<le> AES_GCM_RECORD_LIMIT"
    using e u z
    by (auto simp: checked_seal_end_def and_then_eq_Inr checked_add_u64_def word_add_unat_less not_less split: if_splits)
qed

text \<open>Sealing what was framed and padded: a failure leaves the buffer and the codec as before the record.\<close>

lemma seal_framed_cases:
  assumes "seal_framed A (length out) r (out @ record_prefix @ payload @ pad @ be_bytes 2 (of_nat (length pad) :: u16)) dc
      = (res, dc', r', out')" "length pad < 2 ^ 16"
  shows "r' = r \<and> (case res of
     Inl e \<Rightarrow> out' = out \<and> dc' = dc
   | Inr rg \<Rightarrow> \<exists>rec. out' = out @ rec \<and> rg = (length out, length out') \<and> dc' = dc_next 1 dc \<and>
       wire_record A (dc_aead dc) (dc_aad dc) (codec_sequence (dc_aead dc)) payload rec)"
proof -
  let ?P = "payload @ pad @ be_bytes 2 (of_nat (length pad) :: u16)"
  let ?out = "out @ record_prefix @ ?P"
  have l: "length record_prefix = 5" by (simp add: record_prefix_def)
  show ?thesis
  proof (cases "length ?P + AEAD_TAG_LEN > OUTER_TLS_RECORD_LIMIT")
    case True
    then show ?thesis using assms(1) l by (auto simp: seal_framed_def Let_def TLS_HEADER_LEN_def)
  next
    case False
    obtain q dc1 where q: "seal_padded_payload A ?P dc = (q, dc1)" by (cases "seal_padded_payload A ?P dc")
    have d: "drop (length out + TLS_HEADER_LEN) ?out = ?P" "length ?out - (length out + TLS_HEADER_LEN) = length ?P"
      using l by (simp_all add: TLS_HEADER_LEN_def)
    show ?thesis
    proof (cases q)
      case (Inl e)
      then have "dc1 = dc"
        using q by (auto simp: seal_padded_payload_def map_err_eq_Inl split: sum.splits prod.splits dest!: seal_in_place_detached_Inl)
      then show ?thesis
        using assms(1) q Inl False unfolding seal_framed_def d by (auto simp: Let_def)
    next
      case (Inr ctag)
      obtain ct tag where ctag: "ctag = (ct, tag)" by (cases ctag)
      obtain c' where s: "seal_in_place_detached A ?P (dc_aad dc) (dc_aead dc) = (Inr (ct, tag), c')" and c': "dc1 = dc\<lparr>dc_aead := c'\<rparr>"
        using q Inr ctag by (auto simp: seal_padded_payload_def split: sum.splits prod.splits)
      note D = seal_in_place_detached_Inr [OF s]
      have "wire_record A (dc_aead dc) (dc_aad dc) (codec_sequence (dc_aead dc)) payload (frame (ct @ tag))"
        unfolding wire_record_def using D(2,3) False assms(2)
        by (intro conjI exI [of _ pad] exI [of _ ct] exI [of _ tag]) (simp_all add: AEAD_TAG_LEN_def)
      moreover have "dc1 = dc_next 1 dc" using c' D(4) by (simp add: dc_next_def)
      ultimately show ?thesis
        using assms(1) q Inr ctag False unfolding seal_framed_def d
        by (auto simp: Let_def patch_record_frame)
    qed
  qed
qed

section \<open>The contract of a sealer\<close>

text \<open>What the batch operations rely on: a sealer either fails and changes neither buffer nor codec, or appends
  one record that carries its payload under the next sequence number. \<open>plain\<close> is the payload of an item.\<close>

locale record_sealer =
  fixes A :: aead and R :: "'r rng"
    and f :: "'x \<Rightarrow> 'r \<Rightarrow> bytes \<Rightarrow> data_record_codec \<Rightarrow> 'r seal_result" and plain :: "'x \<Rightarrow> bytes"
  assumes seals: "\<lbrakk>rng_correct R; profile_ok (dc_padding dc); f x r out dc = (res, dc', r', out')\<rbrakk> \<Longrightarrow>
    case res of
      Inl e \<Rightarrow> out' = out \<and> dc' = dc
    | Inr rg \<Rightarrow> \<exists>rec. out' = out @ rec \<and> rg = (length out, length out') \<and> dc' = dc_next 1 dc \<and>
        wire_record A (dc_aead dc) (dc_aad dc) (codec_sequence (dc_aead dc)) (plain x) rec"
begin

lemma seal_each_wire:
  assumes "rng_correct R" "profile_ok (dc_padding dc)" "seal_each f xs r out dc = (res, dc', r', out')"
  shows "\<exists>n recs. out' = out @ concat recs \<and> dc' = dc_next n dc \<and>
    wire A (dc_aead dc) (dc_aad dc) (codec_sequence (dc_aead dc)) (map plain (take n xs)) recs \<and>
    n \<le> length xs \<and> (is_ok res \<longleftrightarrow> n = length xs)"
  using assms(2,3)
proof (induction xs arbitrary: r out dc res)
  case Nil
  then show ?case by (intro exI [of _ 0] exI [of _ "[]"]) auto
next
  case (Cons x xs)
  obtain q dc1 r1 out1 where q: "f x r out dc = (q, dc1, r1, out1)" by (cases "f x r out dc") auto
  note S = seals [OF assms(1) Cons.prems(1) q]
  show ?case
  proof (cases q)
    case (Inl e)
    then show ?thesis using S q Cons.prems(2) by (intro exI [of _ 0] exI [of _ "[]"]) auto
  next
    case (Inr rg)
    then obtain rec where rec: "out1 = out @ rec" "dc1 = dc_next 1 dc"
      "wire_record A (dc_aead dc) (dc_aad dc) (codec_sequence (dc_aead dc)) (plain x) rec"
      using S by auto
    obtain res1 where e: "seal_each f xs r1 out1 dc1 = (res1, dc', r', out')" "is_ok res = is_ok res1"
      using Cons.prems(2) q Inr by (cases "seal_each f xs r1 out1 dc1") (auto simp: is_ok_iff and_then_eq_Inr)
    have pk: "profile_ok (dc_padding dc1)" using Cons.prems(1) rec(2) by simp
    obtain n recs where n: "out' = out1 @ concat recs" "dc' = dc_next n dc1"
      "wire A (dc_aead dc1) (dc_aad dc1) (codec_sequence (dc_aead dc1)) (map plain (take n xs)) recs"
      "n \<le> length xs" "is_ok res1 \<longleftrightarrow> n = length xs"
      using Cons.IH [OF pk e(1)] by blast
    show ?thesis
      using n rec e(2) by (intro exI [of _ "Suc n"] exI [of _ "rec # recs"]) auto
  qed
qed

end

lemma suffix_writers:
  assumes "rng_correct R" "profile_ok p"
  shows "apply_suffix_into R p n r out = (out', r') \<Longrightarrow> \<exists>pad. out' = out @ pad @ be_bytes 2 (of_nat (length pad) :: u16) \<and> length pad < 2 ^ 16"
    and "write_extra_padded_suffix_into R p n extra r out = (out', r') \<Longrightarrow> \<exists>pad. out' = out @ pad @ be_bytes 2 (of_nat (length pad) :: u16) \<and> length pad < 2 ^ 16"
    and "write_exact_padding_suffix R k r out = (out', r') \<Longrightarrow> \<exists>pad. out' = out @ pad @ be_bytes 2 (of_nat (length pad) :: u16) \<and> length pad < 2 ^ 16 \<and> length pad = min k (2 ^ 16 - 1)"
proof -
  obtain m r1 where m: "sample_padding_len R p n r = (m, r1)" by (cases "sample_padding_len R p n r")
  have b: "m < 2 ^ 16" using sample_padding_len_bounds [OF assms m] assms(2) by (auto simp: profile_ok_def)
  have W: "\<exists>pad. o' = o1 @ pad @ be_bytes 2 (of_nat (length pad) :: u16) \<and> length pad < 2 ^ 16 \<and> length pad = j"
    if "write_padding_suffix R j r2 o1 = (o', r3)" "j < 2 ^ 16" for j r2 o1 o' r3
    using write_padding_suffix_spec [OF assms(1) that(2,1)] that(2) by metis
  show "apply_suffix_into R p n r out = (out', r') \<Longrightarrow> \<exists>pad. out' = out @ pad @ be_bytes 2 (of_nat (length pad) :: u16) \<and> length pad < 2 ^ 16"
    unfolding apply_suffix_into_def m Let_def prod.case by (drule W [OF _ b]) blast
  show "write_extra_padded_suffix_into R p n extra r out = (out', r') \<Longrightarrow> \<exists>pad. out' = out @ pad @ be_bytes 2 (of_nat (length pad) :: u16) \<and> length pad < 2 ^ 16"
    unfolding write_extra_padded_suffix_into_def m Let_def prod.case by (drule W) auto
  show "write_exact_padding_suffix R k r out = (out', r') \<Longrightarrow> \<exists>pad. out' = out @ pad @ be_bytes 2 (of_nat (length pad) :: u16) \<and> length pad < 2 ^ 16 \<and> length pad = min k (2 ^ 16 - 1)"
    unfolding write_exact_padding_suffix_def by (drule W) auto
qed

lemma seal_into_seals:
  assumes "rng_correct R" "profile_ok (dc_padding dc)" "seal_into A R payload r out dc = (res, dc', r', out')"
  shows "case res of
      Inl e \<Rightarrow> out' = out \<and> dc' = dc
    | Inr rg \<Rightarrow> \<exists>rec. out' = out @ rec \<and> rg = (length out, length out') \<and> dc' = dc_next 1 dc \<and>
        wire_record A (dc_aead dc) (dc_aad dc) (codec_sequence (dc_aead dc)) payload rec"
proof (cases "ensure_seal_budget 1 dc")
  case (Inl e)
  then show ?thesis using assms(3) by (auto simp: seal_into_def begin_record_def finish_record_def)
next
  case (Inr u)
  let ?out = "out @ record_prefix @ payload"
  have "length ?out - (length out + TLS_HEADER_LEN) = length payload" by (simp add: record_prefix_def TLS_HEADER_LEN_def)
  obtain o1 r1 where o1: "apply_suffix_into R (dc_padding dc) (length payload) r ?out = (o1, r1)"
    by (cases "apply_suffix_into R (dc_padding dc) (length payload) r ?out")
  obtain pad where pad: "o1 = ?out @ pad @ be_bytes 2 (of_nat (length pad) :: u16)" "length pad < 2 ^ 16"
    using suffix_writers(1) [OF assms(1,2) o1] by blast
  have "seal_framed A (length out) r1 (out @ record_prefix @ payload @ pad @ be_bytes 2 (of_nat (length pad) :: u16)) dc = (res, dc', r', out')"
    using assms(3) Inr o1 pad(1) \<open>length ?out - _ = _\<close> by (simp add: seal_into_def begin_record_def finish_record_def)
  from seal_framed_cases [OF this pad(2)] show ?thesis by blast
qed

lemma seal_with_suffix_seals:
  assumes "\<And>o1 r1. ws r (out @ record_prefix @ payload) = (o1, r1) \<Longrightarrow>
      \<exists>pad. o1 = (out @ record_prefix @ payload) @ pad @ be_bytes 2 (of_nat (length pad) :: u16) \<and> length pad < 2 ^ 16"
    "seal_record_with_suffix A payload ws r out dc = (res, dc', r', out')"
  shows "case res of
      Inl e \<Rightarrow> out' = out \<and> dc' = dc
    | Inr rg \<Rightarrow> \<exists>rec. out' = out @ rec \<and> rg = (length out, length out') \<and> dc' = dc_next 1 dc \<and>
        wire_record A (dc_aead dc) (dc_aad dc) (codec_sequence (dc_aead dc)) payload rec"
proof (cases "ensure_seal_budget 1 dc")
  case (Inl e)
  then show ?thesis using assms(2) by (auto simp: seal_record_with_suffix_def)
next
  case (Inr u)
  obtain o1 r1 where o1: "ws r (out @ record_prefix @ payload) = (o1, r1)" by (cases "ws r (out @ record_prefix @ payload)")
  obtain pad where pad: "o1 = (out @ record_prefix @ payload) @ pad @ be_bytes 2 (of_nat (length pad) :: u16)" "length pad < 2 ^ 16"
    using assms(1) [OF o1] by blast
  have "seal_framed A (length out) r1 (out @ record_prefix @ payload @ pad @ be_bytes 2 (of_nat (length pad) :: u16)) dc = (res, dc', r', out')"
    using assms(2) Inr o1 pad(1) by (simp add: seal_record_with_suffix_def)
  from seal_framed_cases [OF this pad(2)] show ?thesis by blast
qed

interpretation si: record_sealer A R "seal_into A R" "\<lambda>p. p" for A and R :: "'r rng"
  by unfold_locales (rule seal_into_seals)

interpretation se: record_sealer A R "seal_exact_record A R" fst for A and R :: "'r rng"
proof unfold_locales
  fix dc x r out res dc' r' out'
  assume a: "rng_correct R" "profile_ok (dc_padding dc)" "seal_exact_record A R x r out dc = (res, dc', r', out')"
  obtain part pad where x: "x = (part, pad)" by (cases x)
  show "case res of Inl e \<Rightarrow> out' = out \<and> dc' = dc
    | Inr rg \<Rightarrow> \<exists>rec. out' = out @ rec \<and> rg = (length out, length out') \<and> dc' = dc_next 1 dc \<and>
        wire_record A (dc_aead dc) (dc_aad dc) (codec_sequence (dc_aead dc)) (fst x) rec"
    using a(3) suffix_writers(3) [OF a(1,2)] unfolding seal_exact_record_def x prod.case seal_into_exact_padded_def fst_conv
    by (intro seal_with_suffix_seals [where ws = "write_exact_padding_suffix R pad" and r = r and dc = dc and r' = r']) blast+
qed

interpretation sp: record_sealer A R "seal_flight_record A R pad lst" snd for A and R :: "'r rng" and pad lst
proof unfold_locales
  fix dc x r out res dc' r' out'
  assume a: "rng_correct R" "profile_ok (dc_padding dc)" "seal_flight_record A R pad lst x r out dc = (res, dc', r', out')"
  obtain idx part where x: "x = (idx, part)" by (cases x)
  show "case res of Inl e \<Rightarrow> out' = out \<and> dc' = dc
    | Inr rg \<Rightarrow> \<exists>rec. out' = out @ rec \<and> rg = (length out, length out') \<and> dc' = dc_next 1 dc \<and>
        wire_record A (dc_aead dc) (dc_aad dc) (codec_sequence (dc_aead dc)) (snd x) rec"
  proof (cases "idx = lst")
    case True
    then show ?thesis
      using a(3) suffix_writers(2) [OF a(1,2)] unfolding seal_flight_record_def x prod.case seal_into_extra_padded_def snd_conv
      by (intro seal_with_suffix_seals [where ws = "write_extra_padded_suffix_into R (dc_padding dc) (length part) pad"
            and r = r and dc = dc and r' = r']) (blast, simp)
  next
    case False
    show ?thesis
      using a(3) unfolding seal_flight_record_def x prod.case if_not_P [OF False] snd_conv by (rule seal_into_seals [OF a(1,2)])
  qed
qed

section \<open>Lemmas: opening\<close>

lemma frame_header:
  assumes "length body < 2 ^ 16" "length body \<le> MAX_TLS_RECORD_PAYLOAD + 256"
  shows "parse_header (frame body @ rest) = Inr \<lparr>content_type = 0x17, legacy_version = [3, 3],
    payload_len = length body, total_len = TLS_HEADER_LEN + length body\<rparr>"
proof -
  obtain x y where xy: "be_bytes 2 (of_nat (length body) :: u16) = [x, y]" by (simp add: be_bytes_numeral)
  have "from_be [x, y] = (of_nat (length body) :: u16)" unfolding xy [symmetric] by (rule from_be_be_bytes_full) simp
  moreover have "unat (of_nat (length body) :: u16) = length body"
    using assms(1) by (simp add: unsigned_of_nat take_bit_nat_eq_self)
  ultimately show ?thesis
    using assms(2) unfolding frame_def xy by (simp add: parse_header_def Let_def TLS_HEADER_LEN_def)
qed

text \<open>A record in front of the rest of a buffer: its header is accepted, and its body opens to the payload.\<close>

lemma wire_record_opens:
  assumes "aead_correct A" "wire_record A c aad sq payload rec"
  obtains h padded where "\<forall>pre rest. validate_record_header (pre @ rec @ rest) (length pre) = Inr h" "total_len h = length rec"
    "open_in_place_split_with A (ac_suite c) (ac_key c) (ac_nonce_base c) sq (drop TLS_HEADER_LEN rec) aad = Inr padded"
    "unpadded_len padded = Inr (length payload)" "take (length payload) padded = payload" "sq \<noteq> - 1"
    "length rec \<le> TLS_HEADER_LEN + OUTER_TLS_RECORD_LIMIT"
proof -
  obtain pad ct tag where w: "sq \<noteq> - 1" "length pad < 2 ^ 16" "length payload + length pad + 18 \<le> OUTER_TLS_RECORD_LIMIT"
    "a_seal A (ac_suite c) (ac_key c) (record_nonce_from (ac_nonce_base c) sq) aad
       (payload @ pad @ be_bytes 2 (of_nat (length pad) :: u16)) = Some (ct, tag)" "rec = frame (ct @ tag)"
    using assms(2) unfolding wire_record_def by blast
  let ?P = "payload @ pad @ be_bytes 2 (of_nat (length pad) :: u16)"
  have o: "length ct = length ?P" "length tag = AEAD_TAG_LEN"
    "a_open A (ac_suite c) (ac_key c) (record_nonce_from (ac_nonce_base c) sq) aad (ct @ tag) = Some ?P"
    using assms(1) w(4) unfolding aead_correct_def by blast+
  have len: "length (ct @ tag) < 2 ^ 16" "length (ct @ tag) \<le> MAX_TLS_RECORD_PAYLOAD + 256" "length (ct @ tag) \<le> OUTER_TLS_RECORD_LIMIT"
    using w(3) o by (simp_all add: record_consts)
  have dr: "drop TLS_HEADER_LEN rec = ct @ tag" using w(5) by (simp add: frame_def TLS_HEADER_LEN_def)
  show ?thesis
  proof (rule that)
    show "\<forall>pre rest. validate_record_header (pre @ rec @ rest) (length pre) = Inr \<lparr>content_type = 0x17, legacy_version = [3, 3],
        payload_len = length (ct @ tag), total_len = TLS_HEADER_LEN + length (ct @ tag)\<rparr>"
      using frame_header [OF len(1,2)] o(2) w(5)
      by (simp add: validate_record_header_def TLS_CONTENT_APPLICATION_DATA_def record_consts)
    show "open_in_place_split_with A (ac_suite c) (ac_key c) (ac_nonce_base c) sq (drop TLS_HEADER_LEN rec) aad = Inr ?P"
      unfolding dr using o w(1) by (simp add: open_in_place_split_with_def)
    show "unpadded_len ?P = Inr (length payload)" by (rule unpadded_len_suffix [OF w(2) refl])
    show "length rec \<le> TLS_HEADER_LEN + OUTER_TLS_RECORD_LIMIT" using len(3) w(5) by (simp add: TLS_HEADER_LEN_def)
  qed (simp_all add: w(1,5) TLS_HEADER_LEN_def)
qed

lemma open_split_next:
  assumes "\<not> poisoned (ac_records (dc_aead dc))"
    "open_in_place_split_with A (ac_suite (dc_aead dc)) (ac_key (dc_aead dc)) (ac_nonce_base (dc_aead dc)) (codec_sequence (dc_aead dc)) ct (dc_aad dc) = r"
    "codec_sequence (dc_aead dc) \<noteq> - 1 \<or> r = Inl e"
  shows "open_in_place_split A ct (dc_aad dc) (dc_aead dc) = (r, if is_ok r then dc_aead (dc_next 1 dc) else dc_aead dc)"
  using assms seq_advance_1 [of "ac_records (dc_aead dc)"]
  by (cases r) (auto simp: open_in_place_split_def ensure_usable_def seq_ensure_usable_def codec_sequence_def
      advance_sequence_def dc_next_def)

lemma dc_update_next [simp]: "dc\<lparr>dc_aead := dc_aead (dc_next n dc)\<rparr> = dc_next n dc"
  by (simp add: dc_next_def)

lemma dc_next_update: "(dc_next n dc)\<lparr>dc_aead := c\<rparr> = dc\<lparr>dc_aead := c\<rparr>"
  by (simp add: dc_next_def)

lemma open_concat_loop_wire:
  assumes "aead_correct A"
  shows "\<not> poisoned (ac_records (dc_aead dc)) \<Longrightarrow>
    wire A (dc_aead dc) (dc_aad dc) (codec_sequence (dc_aead dc)) ps recs \<Longrightarrow>
    open_concat_loop A (pre @ concat recs) (length pre) out dc = (Inr (out @ concat ps), dc_next (length ps) dc)"
proof (induction ps arbitrary: recs pre out dc)
  case Nil
  then show ?case by (cases recs) (auto simp: open_concat_loop.simps)
next
  case (Cons p ps)
  then obtain rec recs' where recs: "recs = rec # recs'" by (cases recs) auto
  have w: "wire_record A (dc_aead dc) (dc_aad dc) (codec_sequence (dc_aead dc)) p rec"
    "wire A (dc_aead dc) (dc_aad dc) (codec_sequence (dc_aead dc) + 1) ps recs'"
    using Cons.prems(2) recs by simp_all
  obtain h padded where h: "\<forall>pre rest. validate_record_header (pre @ rec @ rest) (length pre) = Inr h" "total_len h = length rec"
    "open_in_place_split_with A (ac_suite (dc_aead dc)) (ac_key (dc_aead dc)) (ac_nonce_base (dc_aead dc))
       (codec_sequence (dc_aead dc)) (drop TLS_HEADER_LEN rec) (dc_aad dc) = Inr padded"
    "unpadded_len padded = Inr (length p)" "take (length p) padded = p" "codec_sequence (dc_aead dc) \<noteq> - 1"
    "length rec \<le> TLS_HEADER_LEN + OUTER_TLS_RECORD_LIMIT"
    by (rule wire_record_opens [OF assms w(1)])
  note O = open_split_next [OF Cons.prems(1) h(3) disjI1, OF h(6), simplified]
  have sl: "drop (length pre + TLS_HEADER_LEN) (take (length pre + total_len h) (pre @ concat recs)) = drop TLS_HEADER_LEN rec"
    by (simp add: recs h(2) drop_drop [symmetric] add.commute [of "length pre"] del: drop_drop)
  have IH: "open_concat_loop A ((pre @ rec) @ concat recs') (length (pre @ rec)) (out @ p) (dc_next 1 dc) =
      (Inr ((out @ p) @ concat ps), dc_next (length ps) (dc_next 1 dc))"
    by (rule Cons.IH) (use Cons.prems(1) w(2) in simp_all)
  have lt: "length pre < length (pre @ concat recs)"
    using validate_record_header_Inr(3) [OF h(1) [rule_format, of pre "concat recs'"]] by (simp add: recs)
  show ?case
    using lt h(1) [rule_format, of pre "concat recs'"] O sl h(2,4,5) IH
    by (subst open_concat_loop.simps) (simp add: recs)
qed

lemma open_concat_records_wire:
  assumes "aead_correct A" "\<not> poisoned (ac_records (dc_aead dc))"
    "wire A (dc_aead dc) (dc_aad dc) (codec_sequence (dc_aead dc)) ps recs"
  shows "open_concat_records A (concat recs) out dc = (Inr (), dc_next (length ps) dc, out @ concat ps)"
  using open_concat_loop_wire [OF assms, of "[]" out] assms(2)
  by (simp add: open_concat_records_def ensure_usable_def seq_ensure_usable_def)

section \<open>Lemmas: success\<close>

lemma unat_of_nat_u64: "n < 2 ^ 64 \<Longrightarrow> unat (of_nat n :: u64) = n"
  by (simp add: unsigned_of_nat take_bit_nat_eq_self)

lemma ensure_seal_budget_iff:
  assumes "n < 2 ^ 64" "0 < n"
  shows "ensure_seal_budget n dc = Inr () \<longleftrightarrow> \<not> poisoned (ac_records (dc_aead dc)) \<and>
    unat (codec_sequence (dc_aead dc)) + n < 2 ^ 64 \<and>
    (ac_suite (dc_aead dc) = Aes256Gcm \<longrightarrow> unat (codec_sequence (dc_aead dc)) + n \<le> AES_GCM_RECORD_LIMIT \<and>
       (case checked_add_usize (div_ceil (OUTER_TLS_RECORD_LIMIT - AEAD_TAG_LEN) 16) (div_ceil (length (dc_aad dc)) 16) of
          None \<Rightarrow> False | Some blocks \<Rightarrow> blocks \<le> AES_GCM_MAX_AUTH_BLOCKS))"
proof -
  have u: "unat (of_nat n :: u64) = n" by (rule unat_of_nat_u64 [OF assms(1)])
  have z: "(of_nat n :: u64) \<noteq> 0" using u assms(2) by (metis unat_0 less_irrefl)
  have a: "unat (codec_sequence (dc_aead dc)) + n < 2 ^ 64 \<Longrightarrow>
      unat (codec_sequence (dc_aead dc) + of_nat n) = unat (codec_sequence (dc_aead dc)) + n"
    using word_add_unat_less [of "codec_sequence (dc_aead dc)" "of_nat n"] u by simp
  show ?thesis
    using z u a
    by (cases "poisoned (ac_records (dc_aead dc))")
      (auto simp: ensure_seal_budget_def checked_seal_end_def ensure_usable_def seq_ensure_usable_def checked_add_u64_def
        not_less split: option.splits)
qed

lemma ensure_seal_budget_step:
  assumes "ensure_seal_budget n dc = Inr ()" "n < 2 ^ 64" "k < n"
  shows "ensure_seal_budget 1 (dc_next k dc) = Inr ()"
proof -
  have n: "0 < n" using assms(3) by simp
  note B = assms(1) [unfolded ensure_seal_budget_iff [OF assms(2) n]]
  have "unat (of_nat k :: u64) = k" using assms(2,3) by (intro unat_of_nat_u64) simp
  then have "unat (codec_sequence (dc_aead dc) + of_nat k) = unat (codec_sequence (dc_aead dc)) + k"
    using B assms(3) word_add_unat_less [of "codec_sequence (dc_aead dc)" "of_nat k"] by simp
  then show ?thesis
    using B assms(3) by (subst ensure_seal_budget_iff) (auto split: option.splits)
qed

definition cipher_total :: "aead \<Rightarrow> bool" where
  "cipher_total A \<longleftrightarrow> (\<forall>suite key nonce aad pt. length pt \<le> OUTER_TLS_RECORD_LIMIT \<longrightarrow> a_seal A suite key nonce aad pt \<noteq> None)"

lemma suffix_length:
  assumes "rng_correct R" "profile_ok p" "apply_suffix_into R p n r out = (out', r')"
  shows "length out' \<le> length out + pp_max p + 2"
proof -
  obtain m r1 where m: "sample_padding_len R p n r = (m, r1)" by (cases "sample_padding_len R p n r")
  have b: "m < 2 ^ 16" "m \<le> pp_max p" using sample_padding_len_bounds [OF assms(1,2) m] assms(2) by (auto simp: profile_ok_def)
  obtain pad where "out' = out @ pad @ be_bytes 2 (of_nat m :: u16)" "length pad = m"
    using write_padding_suffix_spec [OF assms(1) b(1), of r1 out out' r'] assms(3) m by (metis apply_suffix_into_def case_prod_conv)
  then show ?thesis using b(2) by simp
qed

lemma seal_framed_ok:
  assumes "ensure_seal_budget 1 dc = Inr ()" "cipher_total A" "length padded + AEAD_TAG_LEN \<le> OUTER_TLS_RECORD_LIMIT"
  shows "is_ok (fst (seal_framed A (length out) r (out @ record_prefix @ padded) dc))"
proof -
  have l: "length record_prefix = 5" by (simp add: record_prefix_def)
  have B: "\<not> poisoned (ac_records (dc_aead dc))" "unat (codec_sequence (dc_aead dc)) + 1 < 2 ^ 64"
    using assms(1) ensure_seal_budget_iff [of 1 dc] by simp_all
  have nz: "rs_next (ac_records (dc_aead dc)) \<noteq> - 1"
  proof
    assume "rs_next (ac_records (dc_aead dc)) = - 1"
    then have "unat (codec_sequence (dc_aead dc)) = 2 ^ 64 - 1"
      by (simp add: codec_sequence_def unsigned_minus_1_eq_mask mask_eq_exp_minus_1)
    then show False using B by simp
  qed
  obtain ct tag where c: "a_seal A (ac_suite (dc_aead dc)) (ac_key (dc_aead dc))
      (record_nonce_from (ac_nonce_base (dc_aead dc)) (rs_next (ac_records (dc_aead dc)))) (dc_aad dc) padded = Some (ct, tag)"
    using assms(2,3) by (fastforce simp: cipher_total_def)
  have s: "fst (seal_in_place_detached A padded (dc_aad dc) (dc_aead dc)) = Inr (ct, tag)"
    using B nz c by (simp add: seal_in_place_detached_def ensure_usable_def seq_ensure_usable_def seal_in_place_detached_with_def)
  have k: "check_padded_len (length padded) = Inr ()" using assms(3) by (simp add: check_padded_len_def)
  have "fst (seal_padded_payload A padded dc) = Inr (ct, tag)"
    using s k assms(1) by (cases "seal_in_place_detached A padded (dc_aad dc) (dc_aead dc)") (simp add: seal_padded_payload_def)
  then show ?thesis
    using l assms(3) by (cases "seal_padded_payload A padded dc") (auto simp: seal_framed_def Let_def TLS_HEADER_LEN_def)
qed

lemma seal_into_ok:
  assumes "rng_correct R" "profile_ok (dc_padding dc)" "cipher_total A" "ensure_seal_budget 1 dc = Inr ()"
    "length payload \<le> codec_max_plaintext_len dc" "0 < codec_max_plaintext_len dc"
  shows "is_ok (fst (seal_into A R payload r out dc))"
proof -
  let ?out = "out @ record_prefix @ payload"
  have l: "length ?out - (length out + TLS_HEADER_LEN) = length payload" by (simp add: record_prefix_def TLS_HEADER_LEN_def)
  obtain o1 r1 where o1: "apply_suffix_into R (dc_padding dc) (length payload) r ?out = (o1, r1)"
    by (cases "apply_suffix_into R (dc_padding dc) (length payload) r ?out")
  obtain pad where pad: "o1 = ?out @ pad @ be_bytes 2 (of_nat (length pad) :: u16)"
    using suffix_writers(1) [OF assms(1,2) o1] by blast
  let ?P = "payload @ pad @ be_bytes 2 (of_nat (length pad) :: u16)"
  have "length ?P + AEAD_TAG_LEN \<le> OUTER_TLS_RECORD_LIMIT"
    using suffix_length [OF assms(1,2) o1] assms(5,6)
    by (simp add: pad codec_max_plaintext_len_def max_plaintext_len_def max_len_def PADDING_LEN_FIELD_def)
  from seal_framed_ok [OF assms(4,3) this, of out r1] show ?thesis
    using o1 l assms(4) pad by (simp add: seal_into_def begin_record_def finish_record_def)
qed

lemma seal_each_ok:
  assumes "rng_correct R" "cipher_total A" "0 < codec_max_plaintext_len dc0"
  shows "profile_ok (dc_padding dc) \<Longrightarrow> dc = dc_next k dc0 \<Longrightarrow> ensure_seal_budget n dc0 = Inr () \<Longrightarrow> n < 2 ^ 64 \<Longrightarrow>
    k + length xs \<le> n \<Longrightarrow> (\<And>x. x \<in> set xs \<Longrightarrow> length x \<le> codec_max_plaintext_len dc0) \<Longrightarrow>
    is_ok (fst (seal_each (seal_into A R) xs r out dc))"
proof (induction xs arbitrary: k r out dc)
  case (Cons x xs)
  have m: "codec_max_plaintext_len dc = codec_max_plaintext_len dc0"
    using Cons.prems(2) by (simp add: codec_max_plaintext_len_def)
  have "ensure_seal_budget 1 dc = Inr ()"
    using ensure_seal_budget_step [OF Cons.prems(3,4), of k] Cons.prems(2,5) by simp
  then have ok: "is_ok (fst (seal_into A R x r out dc))"
    using seal_into_ok [OF assms(1) Cons.prems(1) assms(2)] Cons.prems(6) [of x] m assms(3) by simp
  then obtain rg dc1 r1 out1 where s: "seal_into A R x r out dc = (Inr rg, dc1, r1, out1)"
    by (cases "seal_into A R x r out dc") (auto simp: is_ok_iff)
  have d: "dc1 = dc_next 1 dc" using seal_into_seals [OF assms(1) Cons.prems(1) s] by auto
  have "is_ok (fst (seal_each (seal_into A R) xs r1 out1 dc1))"
    by (rule Cons.IH [of dc1 "Suc k"]) (use Cons.prems d in auto)
  then show ?case using s by (auto simp: is_ok_iff split: prod.splits)
qed simp

section \<open>Chunks\<close>

lemma div_ceil_Suc: "0 < n \<Longrightarrow> div_ceil (Suc k) n = Suc (k div n)"
  using div_add_self2 [of n k] by (simp add: div_ceil_def)

lemma div_ceil_step: "0 < n \<Longrightarrow> n < m \<Longrightarrow> div_ceil m n = Suc (div_ceil (m - n) n)"
  by (cases m) (auto simp: div_ceil_Suc, simp add: div_ceil_def)

lemma div_ceil_one: "0 < m \<Longrightarrow> m \<le> n \<Longrightarrow> div_ceil m n = 1"
  by (cases m) (auto simp: div_ceil_Suc)

lemma div_ceil_le: "0 < n \<Longrightarrow> div_ceil m n \<le> m"
  by (cases m) (auto simp: div_ceil_Suc, simp add: div_ceil_def)

lemma div_ceil_pos: "0 < n \<Longrightarrow> 0 < m \<Longrightarrow> 0 < div_ceil m n"
  by (cases m) (auto simp: div_ceil_Suc)

lemma chunks_length: "0 < n \<Longrightarrow> xs \<noteq> [] \<Longrightarrow> length (chunks n xs) = div_ceil (length xs) n"
proof (induction n xs rule: chunks.induct)
  case (1 n xs)
  show ?case
  proof (cases "length xs \<le> n")
    case True
    then show ?thesis using 1 div_ceil_one [of "length xs" n] by (subst chunks.simps) (simp add: chunks.simps [of n "[]"])
  next
    case False
    then show ?thesis using 1 div_ceil_step [of n "length xs"] by (subst chunks.simps) simp
  qed
qed

definition parts_of :: "nat \<Rightarrow> bytes \<Rightarrow> bytes list" where
  "parts_of n payload = (if length payload \<le> n then [payload] else chunks n payload)"

lemma parts_of_props:
  assumes "0 < n"
  shows "concat (parts_of n payload) = payload" "x \<in> set (parts_of n payload) \<Longrightarrow> length x \<le> n"
    "length (parts_of n payload) = chunk_count (length payload) n"
proof -
  show "concat (parts_of n payload) = payload" using chunks_concat [OF assms, of payload] by (simp add: parts_of_def)
  show "x \<in> set (parts_of n payload) \<Longrightarrow> length x \<le> n" using chunks_le by (auto simp: parts_of_def split: if_splits)
  show "length (parts_of n payload) = chunk_count (length payload) n"
    using chunks_length [OF assms, of payload] div_ceil_one [of "length payload" n]
    by (auto simp: parts_of_def chunk_count_def)
qed

text \<open>C8. A payload sealed in chunks arrives: with room in the key's budget, sealing any payload in records of at
  most the codec's chunk length succeeds whatever padding the generator chooses, and a receiver whose codec is in
  the same state opens the bytes written to exactly the payload and ends in the sender's state.\<close>

theorem chunked_stream_roundtrip:
  assumes "aead_correct A" "cipher_total A" "rng_correct R" "profile_ok (dc_padding dc)"
    "0 < codec_max_plaintext_len dc" "length payload < 2 ^ 64 - 1"
    "ensure_seal_budget (chunk_count (length payload) (codec_max_plaintext_len dc)) dc = Inr ()"
  shows "\<exists>dc' r' sealed. seal_chunks_into_untracked A R payload r out dc = (Inr (), dc', r', out @ sealed) \<and>
    open_concat_records A sealed plain dc = (Inr (), dc', plain @ payload)"
proof -
  define m where "m = codec_max_plaintext_len dc"
  have m: "0 < m" using assms(5) by (simp add: m_def)
  note P = parts_of_props [OF m, where payload = payload]
  have n: "chunk_count (length payload) m < 2 ^ 64" "0 < chunk_count (length payload) m"
    using div_ceil_le [OF m, of "length payload"] div_ceil_pos [OF m, of "length payload"] assms(6)
    by (auto simp: chunk_count_def)
  have ok: "is_ok (fst (seal_each (seal_into A R) (parts_of m payload) r out dc))"
    by (rule seal_each_ok [OF assms(3,2,5), where k = 0 and n = "chunk_count (length payload) m"])
      (use assms(4,7) n P in \<open>simp_all add: m_def\<close>)
  obtain res dc' r' out' where s: "seal_each (seal_into A R) (parts_of m payload) r out dc = (res, dc', r', out')"
    by (cases "seal_each (seal_into A R) (parts_of m payload) r out dc")
  obtain recs where recs: "out' = out @ concat recs" "dc' = dc_next (length (parts_of m payload)) dc"
    "wire A (dc_aead dc) (dc_aad dc) (codec_sequence (dc_aead dc)) (parts_of m payload) recs"
    using si.seal_each_wire [OF assms(3,4) s] ok s by (auto simp: )
  have "seal_chunks_into_untracked A R payload r out dc = (Inr (), dc', r', out @ concat recs)"
    using ok s recs(1) m assms(7) unfolding seal_chunks_into_untracked_def m_def [symmetric] parts_of_def [symmetric]
    by (auto simp: Let_def is_ok_iff)
  moreover have "\<not> poisoned (ac_records (dc_aead dc))"
    using assms(7) ensure_seal_budget_iff [OF n] by (simp add: m_def)
  then have "open_concat_records A (concat recs) plain dc = (Inr (), dc', plain @ payload)"
    using open_concat_records_wire [OF assms(1) _ recs(3), of plain] recs(2) P(1) by simp
  ultimately show ?thesis by blast
qed

text \<open>A codec for the examples.\<close>

definition plain_codec :: data_record_codec where
  "plain_codec = data_codec_new (codec_new (replicate 32 1) (replicate 12 0)) \<lparr>pp_min = 0, pp_max = 9\<rparr> [1]"

lemma plain_codec_facts:
  "cipher_total plain_aead" "profile_ok (dc_padding plain_codec)" "codec_max_plaintext_len plain_codec = 16374"
  "0 < n \<Longrightarrow> n < 2 ^ 64 \<Longrightarrow> ensure_seal_budget n plain_codec = Inr ()"
proof -
  show "cipher_total plain_aead" by (simp add: cipher_total_def plain_aead_def)
  show "profile_ok (dc_padding plain_codec)" by (simp add: profile_ok_def plain_codec_def data_codec_new_def)
  show "codec_max_plaintext_len plain_codec = 16374"
    by (simp add: codec_max_plaintext_len_def max_plaintext_len_def plain_codec_def data_codec_new_def max_len_def record_consts)
  show "0 < n \<Longrightarrow> n < 2 ^ 64 \<Longrightarrow> ensure_seal_budget n plain_codec = Inr ()"
    by (subst ensure_seal_budget_iff)
      (simp_all add: plain_codec_def data_codec_new_def codec_new_def codec_new_with_suite_def seq_default_def codec_sequence_def)
qed

theorem chunked_stream_roundtrip_witness:
  "\<exists>dc' r' sealed. seal_chunks_into_untracked plain_aead low_rng [1, 2, 3] 0 [] plain_codec = (Inr (), dc', r', [] @ sealed) \<and>
    open_concat_records plain_aead sealed [] plain_codec = (Inr (), dc', [] @ [1, 2, 3])"
  by (rule chunked_stream_roundtrip [OF plain_aead_correct plain_codec_facts(1) low_rng_correct plain_codec_facts(2)])
    (simp_all add: plain_codec_facts chunk_count_def div_ceil_one)

section \<open>Lemmas: parallel sealing\<close>

lemma seal_one_record_into_cases:
  assumes "rng_correct R" "profile_ok p" "ac_suite c = suite" "ac_key c = key" "ac_nonce_base c = base"
    "seal_one_record_into A R suite key base sq p aad payload r out = (res, r', out')"
  shows "case res of
      Inl e \<Rightarrow> True
    | Inr _ \<Rightarrow> \<exists>rec. out' = out @ rec \<and> wire_record A c aad sq payload rec"
proof -
  obtain o1 r1 where o1: "apply_suffix_into R p (length payload) r (out @ record_prefix @ payload) = (o1, r1)"
    by (cases "apply_suffix_into R p (length payload) r (out @ record_prefix @ payload)")
  obtain pad where pad: "o1 = (out @ record_prefix @ payload) @ pad @ be_bytes 2 (of_nat (length pad) :: u16)" "length pad < 2 ^ 16"
    using suffix_writers(1) [OF assms(1,2) o1] by blast
  let ?P = "payload @ pad @ be_bytes 2 (of_nat (length pad) :: u16)"
  have l: "drop (length out + TLS_HEADER_LEN) o1 = ?P" "length o1 - (length out + TLS_HEADER_LEN) = length ?P"
    using pad(1) by (simp_all add: record_prefix_def TLS_HEADER_LEN_def)
  show ?thesis
  proof (cases res)
    case (Inl e)
    then show ?thesis by simp
  next
    case (Inr u)
    obtain ct tag where w: "length ?P + AEAD_TAG_LEN \<le> OUTER_TLS_RECORD_LIMIT"
      "seal_worker_payload A suite key base sq ?P aad = Inr (ct, tag)" "out' = patch_record (length out) o1 ct tag"
      using assms(6) Inr o1 l by (auto simp: seal_one_record_into_def Let_def split: if_splits sum.splits)
    have "wire_record A c aad sq payload (frame (ct @ tag))"
    proof -
      have "sq \<noteq> - 1" "a_seal A suite key (record_nonce_from base sq) aad ?P = Some (ct, tag)"
        using w(2) by (auto simp: seal_worker_payload_def and_then_eq_Inr seal_in_place_detached_with_def split: if_splits)
      then show ?thesis
        unfolding wire_record_def assms(3-5) using w(1) pad(2)
        by (intro conjI exI [of _ pad] exI [of _ ct] exI [of _ tag]) (simp_all add: AEAD_TAG_LEN_def)
    qed
    moreover have "out' = out @ frame (ct @ tag)" using w(3) patch_record_frame pad(1) by simp
    ultimately show ?thesis using Inr by auto
  qed
qed

lemma seal_segment_wire:
  assumes "rng_correct R" "profile_ok p" "ac_suite c = suite" "ac_key c = key" "ac_nonce_base c = base"
  shows "seal_segment_loop A R suite key base aad p sq pt ls r out = Inr out' \<Longrightarrow>
    \<exists>recs. out' = out @ concat recs \<and> wire A c aad sq (cut_lens ls pt) recs"
proof (induction ls arbitrary: sq pt r out)
  case Nil
  then show ?case by (intro exI [of _ "[]"]) simp
next
  case (Cons l ls)
  obtain res r1 out1 where s: "seal_one_record_into A R suite key base sq p aad (take l pt) r out = (res, r1, out1)"
    by (cases "seal_one_record_into A R suite key base sq p aad (take l pt) r out") auto
  then obtain u where res: "res = Inr u" using Cons.prems by (cases res) auto
  obtain rec where rec: "out1 = out @ rec" "wire_record A c aad sq (take l pt) rec"
    using seal_one_record_into_cases [OF assms s] res by auto
  obtain recs where "out' = out1 @ concat recs" "wire A c aad (sq + 1) (cut_lens ls (drop l pt)) recs"
    using Cons.IH [of "sq + 1" "drop l pt" r1 out1] Cons.prems s res by auto
  then show ?case using rec by (intro exI [of _ "rec # recs"]) simp
qed

lemma cut_append: "cut_lens (ls @ ms) xs = cut_lens ls xs @ cut_lens ms (drop (sum_list ls) xs)"
  by (induction ls arbitrary: xs) (simp_all add: add.commute)

lemma cut_take: "cut_lens ls (take (sum_list ls) xs) = cut_lens ls xs"
  by (induction ls arbitrary: xs) (simp_all add: drop_take)

lemma div_ceil_1 [simp]: "div_ceil n (Suc 0) = n"
  by (simp add: div_ceil_def)

lemma seal_jobs_wire:
  assumes "rng_correct R" "profile_ok (dc_padding dc)"
  shows "seal_jobs R g lens pt sq r = (jobs, r') \<Longrightarrow> 0 < g \<Longrightarrow>
    collect_segments (map (run_seal_job A R dc) jobs) = Inr segs \<Longrightarrow>
    \<exists>recs. concat segs = concat recs \<and> wire A (dc_aead dc) (dc_aad dc) sq (cut_lens lens pt) recs"
proof (induction g arbitrary: lens pt sq r jobs segs)
  case (Suc g)
  define n where "n = div_ceil (length lens) (Suc g)"
  define sp where "sp = sum_list (take n lens)"
  obtain seed r1 jobs1 where j: "r_u64 R r = (seed, r1)" "seal_jobs R g (drop n lens) (drop sp pt) (sq + of_nat n) r1 = (jobs1, r')"
    "jobs = \<lparr>job_sequence = sq, job_plaintext = take sp pt, job_lens = take n lens, job_seed = seed\<rparr> # jobs1"
    using Suc.prems(1) by (auto simp: Let_def n_def sp_def split: prod.splits)
  obtain seg segs1 where c: "run_seal_job A R dc (hd jobs) = Inr seg" "collect_segments (map (run_seal_job A R dc) jobs1) = Inr segs1"
    "segs = seg # segs1"
    using Suc.prems(3) j(3) by (auto simp: and_then_eq_Inr)
  have seg: "seal_segment_loop A R (ac_suite (dc_aead dc)) (ac_key (dc_aead dc)) (ac_nonce_base (dc_aead dc)) (dc_aad dc)
      (dc_padding dc) sq (take sp pt) (take n lens) (r_seed R seed) [] = Inr seg"
    using c(1) j(3) by (simp add: run_seal_job_def seal_records_segment_def)
  obtain recs where recs: "seg = concat recs" "wire A (dc_aead dc) (dc_aad dc) sq (cut_lens (take n lens) pt) recs"
    using seal_segment_wire [OF assms refl refl refl seg] by (auto simp: sp_def cut_take)
  show ?case
  proof (cases "g = 0")
    case True
    then have "take n lens = lens" "jobs1 = []" using j(2) by (simp_all add: n_def)
    then show ?thesis using recs c by auto
  next
    case False
    obtain recs1 where r1: "concat segs1 = concat recs1" "wire A (dc_aead dc) (dc_aad dc) (sq + of_nat n) (cut_lens (drop n lens) (drop sp pt)) recs1"
      using Suc.IH [OF j(2) _ c(2)] False by auto
    show ?thesis
    proof (cases "n \<le> length lens")
      case True
      have "length (cut_lens (take n lens) pt) = n" using True by (induction lens arbitrary: n pt) (auto simp: take_Cons')
      then have "wire A (dc_aead dc) (dc_aad dc) sq (cut_lens (take n lens) pt @ cut_lens (drop n lens) (drop sp pt)) (recs @ recs1)"
        using wire_append [OF recs(2)] r1(2) by simp
      moreover have "cut_lens (take n lens) pt @ cut_lens (drop n lens) (drop sp pt) = cut_lens lens pt"
        using cut_append [of "take n lens" "drop n lens" pt] by (simp add: sp_def)
      ultimately show ?thesis using recs(1) r1(1) c(3) by (intro exI [of _ "recs @ recs1"]) simp
    next
      case False
      then show ?thesis using div_ceil_le [of "Suc g" "length lens"] by (simp add: n_def)
    qed
  qed
qed simp

lemma sum_lens_Some: "sum_lens acc ls = Some t \<Longrightarrow> t = acc + sum_list ls"
  by (induction ls arbitrary: acc) (fastforce simp: checked_add_usize_def add.assoc split: option.splits if_splits)+

lemma validate_record_lens_Inr: "validate_record_lens ls n = Inr u \<Longrightarrow> sum_list ls = n"
  by (auto simp: validate_record_lens_def and_then_eq_Inr split: if_splits dest!: sum_lens_Some)

lemma concat_cut_lens: "sum_list ls = length xs \<Longrightarrow> concat (cut_lens ls xs) = xs"
proof (induction ls arbitrary: xs)
  case (Cons l ls)
  have "concat (cut_lens ls (drop l xs)) = drop l xs" using Cons.prems by (intro Cons.IH) simp
  then show ?case by simp
qed simp

lemma length_cut_lens [simp]: "length (cut_lens ls xs) = length ls"
  by (induction ls arbitrary: xs) simp_all

lemma seal_parallel_run:
  assumes "validate_record_lens record_lens (length plaintext) = Inr ()" "ensure_seal_budget (length record_lens) dc = Inr ()"
    "record_lens \<noteq> []" "length record_lens < 2 ^ 64"
    "seal_jobs R (min (max width 1) (length record_lens)) record_lens plaintext (codec_sequence (dc_aead dc)) r = (jobs, r1)"
  shows "seal_records_into_parallel A R width plaintext record_lens r out dc =
    (case collect_segments (map (run_seal_job A R (dc_next (length record_lens) dc)) jobs) of
       Inl e \<Rightarrow> (Inl e, (dc_next (length record_lens) dc)\<lparr>dc_aead := codec_poison (dc_aead (dc_next (length record_lens) dc))\<rparr>, r1, out)
     | Inr segments \<Rightarrow> (Inr (), dc_next (length record_lens) dc, r1, out @ concat segments))"
proof -
  let ?n = "length record_lens"
  have "unat (codec_sequence (dc_aead dc)) + ?n < 2 ^ 64" using ensure_seal_budget_Inr(2) [OF assms(2,4)] assms(3) by simp
  then have rv: "reserve_sequence (of_nat ?n) (dc_aead dc) = Inr (codec_sequence (dc_aead dc), dc_aead (dc_next ?n dc))"
    using ensure_seal_budget_Inr(1) [OF assms(2,4)] unat_of_nat_u64 [OF assms(4)]
    by (subst reserve_sequence_Inr) (simp add: dc_next_def)
  have n0: "length record_lens \<noteq> 0" using assms(3) by simp
  show ?thesis
    unfolding seal_records_into_parallel_def assms(1,2) and_then_simps sum.case if_not_P [OF n0] rv prod.case Let_def assms(5)
      dc_update_next dc_next_update by simp
qed

text \<open>C4. A batch sealed in parallel is as good as one sealed in order: whatever the number of workers and the
  padding each of them draws, the bytes written open, by the ordinary receiver, to exactly the plaintext, and
  sender and receiver agree on the next sequence number. If the batch fails, nothing is written, and the codec is
  unchanged or poisoned.\<close>

theorem parallel_seal_roundtrip:
  assumes "aead_correct A" "rng_correct R" "profile_ok (dc_padding dc)" "length record_lens < 2 ^ 64"
    "seal_records_into_parallel A R width plaintext record_lens r out dc = (res, dc', r', out')"
  shows "case res of
      Inl e \<Rightarrow> out' = out \<and> (dc' = dc \<or> poisoned (ac_records (dc_aead dc')))
    | Inr _ \<Rightarrow> \<exists>sealed. out' = out @ sealed \<and> dc' = dc_next (length record_lens) dc \<and>
        open_concat_records A sealed plain dc = (Inr (), dc', plain @ plaintext)"
proof (cases "and_then (validate_record_lens record_lens (length plaintext)) (\<lambda>_. ensure_seal_budget (length record_lens) dc)")
  case (Inl e)
  then have "(res, dc', r', out') = (Inl e, dc, r, out)" using assms(5) by (simp add: seal_records_into_parallel_def)
  then show ?thesis by simp
next
  case (Inr u)
  then obtain v where v: "validate_record_lens record_lens (length plaintext) = Inr v" "ensure_seal_budget (length record_lens) dc = Inr u"
    by (auto simp: and_then_eq_Inr)
  note up = ensure_seal_budget_Inr(1) [OF v(2) assms(4)]
  note sm = validate_record_lens_Inr [OF v(1)]
  show ?thesis
  proof (cases "record_lens = []")
    case True
    then have "plaintext = []" using sm by simp
    moreover have "(res, dc', r', out') = (Inr (), dc, r, out)"
      using assms(5) Inr True by (simp add: seal_records_into_parallel_def)
    ultimately show ?thesis
      using True open_concat_records_wire [OF assms(1) up, of "[]" "[]" plain] by simp
  next
    case False
    let ?n = "length record_lens"
    have g: "0 < min (max width 1) ?n" using False by simp
    obtain jobs r1 where j: "seal_jobs R (min (max width 1) ?n) record_lens plaintext (codec_sequence (dc_aead dc)) r = (jobs, r1)"
      by (cases "seal_jobs R (min (max width 1) ?n) record_lens plaintext (codec_sequence (dc_aead dc)) r")
    have eq: "seal_records_into_parallel A R width plaintext record_lens r out dc =
        (case collect_segments (map (run_seal_job A R (dc_next ?n dc)) jobs) of
           Inl e \<Rightarrow> (Inl e, (dc_next ?n dc)\<lparr>dc_aead := codec_poison (dc_aead (dc_next ?n dc))\<rparr>, r1, out)
         | Inr segments \<Rightarrow> (Inr (), dc_next ?n dc, r1, out @ concat segments))"
      by (rule seal_parallel_run [OF _ _ False assms(4) j]) (use v in simp_all)
    show ?thesis
    proof (cases "collect_segments (map (run_seal_job A R (dc_next ?n dc)) jobs)")
      case (Inl e)
      then show ?thesis using assms(5) eq by (auto simp: codec_poison_def seq_poison_def)
    next
      case (Inr segs)
      have pk: "profile_ok (dc_padding (dc_next ?n dc))" using assms(3) by simp
      obtain recs where recs: "concat segs = concat recs"
        "wire A (dc_aead dc) (dc_aad dc) (codec_sequence (dc_aead dc)) (cut_lens record_lens plaintext) recs"
        using seal_jobs_wire [OF assms(2) pk j g Inr] by auto
      show ?thesis
        using assms(5) eq Inr recs(1) open_concat_records_wire [OF assms(1) up recs(2), of plain] concat_cut_lens [OF sm]
        by auto
    qed
  qed
qed

theorem parallel_seal_roundtrip_witness:
  "\<exists>dc' r' sealed. seal_records_into_parallel plain_aead low_rng 4 [1, 2, 3] [3] 0 [] plain_codec = (Inr (), dc', r', sealed) \<and>
    open_concat_records plain_aead sealed [] plain_codec = (Inr (), dc', [] @ [1, 2, 3])"
proof -
  define job where "job = \<lparr>job_sequence = 0, job_plaintext = [1, 2, 3], job_lens = [3], job_seed = 0\<rparr>"
  have v: "validate_record_lens [3] (length ([1, 2, 3] :: bytes)) = Inr ()"
    by (simp add: validate_record_lens_def checked_add_usize_def usize_limit_def)
  have b: "ensure_seal_budget (length [3 :: nat]) plain_codec = Inr ()" using plain_codec_facts(4) [of 1] by simp
  have q: "codec_sequence (dc_aead plain_codec) = 0"
    by (simp add: plain_codec_def data_codec_new_def codec_new_def codec_new_with_suite_def seq_default_def codec_sequence_def)
  have j: "seal_jobs low_rng (min (max 4 1) (length [3 :: nat])) [3] [1, 2, 3] (codec_sequence (dc_aead plain_codec)) 0 = ([job], 1)"
    by (simp add: low_rng_def job_def q)
  obtain seg where "run_seal_job plain_aead low_rng (dc_next (length [3 :: nat]) plain_codec) job = Inr seg"
    by (simp add: run_seal_job_def seal_records_segment_def plain_codec_def data_codec_new_def job_def
        seal_one_record_into_def apply_suffix_into_def sample_padding_len_def low_rng_def OBSERVED_PACKET_TARGETS_def
        clamp_def write_padding_suffix_def record_prefix_def record_consts seal_worker_payload_def check_padded_len_def
        seal_in_place_detached_with_def plain_aead_def)
  then have s: "seal_records_into_parallel plain_aead low_rng 4 [1, 2, 3] [3] 0 [] plain_codec =
      (Inr (), dc_next (length [3 :: nat]) plain_codec, 1, [] @ concat [seg])"
    by (subst seal_parallel_run [OF v b _ _ j]) simp_all
  show ?thesis
    using parallel_seal_roundtrip [OF plain_aead_correct low_rng_correct plain_codec_facts(2) _ s, of "[]"] s by auto
qed

section \<open>Lemmas: parallel opening\<close>

lemma open_record_group_append:
  "open_record_group A suite key base aad sq bs (xs @ ys) =
     and_then (open_record_group A suite key base aad sq bs xs) (\<lambda>a.
     and_then (open_record_group A suite key base aad (sq + of_nat (length xs)) bs ys) (\<lambda>b. Inr (a @ b)))"
proof (induction xs arbitrary: sq)
  case Nil
  then show ?case by (cases "open_record_group A suite key base aad sq bs ys") simp_all
next
  case (Cons x xs)
  obtain off tot where x: "x = (off, tot)" by (cases x)
  have e: "sq + 1 + of_nat (length xs) = sq + of_nat (length (x # xs))" by simp
  show ?case
    using Cons [of "sq + 1"] unfolding e by (simp add: x and_then_assoc)
qed

lemma open_record_group_bound:
  "open_record_group A suite key base aad sq bs xs = Inr pt \<Longrightarrow> unat sq + length xs < 2 ^ 64"
proof (induction xs arbitrary: sq pt)
  case Nil
  then show ?case using unat_lt_exp [of sq] by simp
next
  case (Cons x xs)
  obtain off tot where x: "x = (off, tot)" by (cases x)
  obtain pt' where g: "open_record_group A suite key base aad (sq + 1) bs xs = Inr pt'" and n: "sq \<noteq> - 1"
    using Cons.prems by (auto simp: x and_then_eq_Inr open_in_place_split_with_def split: if_splits)
  have "unat (- 1 :: u64) = 2 ^ 64 - 1" by (simp add: unsigned_minus_1_eq_mask mask_eq_exp_minus_1)
  then have "unat sq \<noteq> 2 ^ 64 - 1" using n word_unat_eqI [of sq "- 1"] by argo
  then have "unat (sq + 1) = unat sq + 1"
    using unat_lt_exp [of sq] word_add_unat_less [of sq 1] by simp
  then show ?case using Cons.IH [OF g] by simp
qed

text \<open>The serial loop in terms of the whole list of bounds.\<close>

abbreviation group_of :: "aead \<Rightarrow> data_record_codec \<Rightarrow> bytes \<Rightarrow> u64 \<Rightarrow> (nat \<times> nat) list \<Rightarrow> data_record_error + bytes" where
  "group_of A dc records sq bounds \<equiv> open_record_group A (ac_suite (dc_aead dc)) (ac_key (dc_aead dc))
     (ac_nonce_base (dc_aead dc)) (dc_aad dc) sq records bounds"

lemma open_split_Inl:
  fixes dc :: data_record_codec
  assumes "\<not> poisoned (ac_records (dc_aead dc))"
    "open_in_place_split_with A (ac_suite (dc_aead dc)) (ac_key (dc_aead dc)) (ac_nonce_base (dc_aead dc)) (codec_sequence (dc_aead dc)) ct (dc_aad dc) = Inl e"
  shows "open_in_place_split A ct (dc_aad dc) (dc_aead dc) = (Inl e, dc_aead dc)"
  using open_split_next [OF assms, of e] by simp

lemma open_split_Inr:
  fixes dc :: data_record_codec
  assumes "\<not> poisoned (ac_records (dc_aead dc))"
    "open_in_place_split_with A (ac_suite (dc_aead dc)) (ac_key (dc_aead dc)) (ac_nonce_base (dc_aead dc)) (codec_sequence (dc_aead dc)) ct (dc_aad dc) = Inr padded"
  shows "open_in_place_split A ct (dc_aad dc) (dc_aead dc) = (Inr padded, dc_aead (dc_next 1 dc))"
proof -
  have "codec_sequence (dc_aead dc) \<noteq> - 1" using assms(2) by (auto simp: open_in_place_split_with_def split: if_splits)
  then show ?thesis using open_split_next [OF assms] by simp
qed

lemma open_concat_loop_group:
  "record_bounds records off = Inr bounds \<Longrightarrow> \<not> poisoned (ac_records (dc_aead dc)) \<Longrightarrow>
   case group_of A dc records (codec_sequence (dc_aead dc)) bounds of
     Inr pt \<Rightarrow> open_concat_loop A records off out dc = (Inr (out @ pt), dc_next (length bounds) dc)
   | Inl e \<Rightarrow> \<exists>e' dc'. open_concat_loop A records off out dc = (Inl e', dc')"
proof (induction records off arbitrary: bounds out dc rule: record_bounds.induct)
  case (1 records off)
  show ?case
  proof (cases "off < length records")
    case False
    then show ?thesis
      using 1(2) by (subst (asm) record_bounds.simps) (simp add: open_concat_loop.simps [of A records off])
  next
    case True
    obtain h bs where h: "validate_record_header records off = Inr h" "record_bounds records (off + total_len h) = Inr bs"
      "bounds = (off, total_len h) # bs"
      using 1(2) True by (subst (asm) record_bounds.simps) (auto simp: and_then_eq_Inr split: sum.splits)
    let ?ct = "drop (off + TLS_HEADER_LEN) (take (off + total_len h) records)"
    let ?o = "open_in_place_split_with A (ac_suite (dc_aead dc)) (ac_key (dc_aead dc)) (ac_nonce_base (dc_aead dc)) (codec_sequence (dc_aead dc)) ?ct (dc_aad dc)"
    note loop = open_concat_loop.simps [of A records off out dc]
    show ?thesis
    proof (cases ?o)
      case (Inl e)
      then show ?thesis using open_split_Inl [OF 1(3) Inl] True h by (simp add: loop)
    next
      case (Inr padded)
      note O = open_split_Inr [OF 1(3) Inr]
      show ?thesis
      proof (cases "unpadded_len padded")
        case (Inl e)
        then show ?thesis using O Inr True h by (simp add: loop)
      next
        case (Inr n)
        have IH: "case group_of A dc records (codec_sequence (dc_aead dc) + 1) bs of
            Inr pt \<Rightarrow> open_concat_loop A records (off + total_len h) (out @ take n padded) (dc_next 1 dc) =
              (Inr ((out @ take n padded) @ pt), dc_next (length bs) (dc_next 1 dc))
          | Inl e \<Rightarrow> \<exists>e' dc'. open_concat_loop A records (off + total_len h) (out @ take n padded) (dc_next 1 dc) = (Inl e', dc')"
          using 1(1) [OF True h(1) h(2), of "dc_next 1 dc" "out @ take n padded"] 1(3) by simp
        then show ?thesis
          using O \<open>?o = Inr padded\<close> Inr True h
          by (cases "group_of A dc records (codec_sequence (dc_aead dc) + 1) bs") (simp_all add: loop)
      qed
    qed
  qed
qed

lemma open_concat_loop_bounds_error:
  "record_bounds records off = Inl e \<Longrightarrow> \<exists>e' dc'. open_concat_loop A records off out dc = (Inl e', dc')"
proof (induction records off arbitrary: out dc rule: record_bounds.induct)
  case (1 records off)
  have lt: "off < length records" using 1(2) by (subst (asm) record_bounds.simps) (auto split: if_splits)
  show ?case
  proof (cases "validate_record_header records off")
    case (Inl e')
    then show ?thesis using lt by (subst open_concat_loop.simps) simp
  next
    case (Inr h)
    then have "record_bounds records (off + total_len h) = Inl e"
      using 1(2) lt by (subst (asm) record_bounds.simps) (auto simp: and_then_eq_Inl)
    from 1(1) [OF lt Inr this] Inr lt show ?thesis
      by (subst open_concat_loop.simps) (auto split: prod.splits sum.splits)
  qed
qed

text \<open>The bounds follow each other without gaps.\<close>

fun contig :: "nat \<Rightarrow> (nat \<times> nat) list \<Rightarrow> bool" where
  "contig a [] \<longleftrightarrow> True"
| "contig a ((off, tot) # bs) \<longleftrightarrow> off = a \<and> contig (a + tot) bs"

definition span_end :: "nat \<Rightarrow> (nat \<times> nat) list \<Rightarrow> nat" where
  "span_end a bs = a + sum_list (map snd bs)"

lemma contig_append: "contig a (xs @ ys) \<longleftrightarrow> contig a xs \<and> contig (span_end a xs) ys"
  by (induction a xs rule: contig.induct) (auto simp: span_end_def add.assoc)

lemma contig_in: "contig a bs \<Longrightarrow> (off, tot) \<in> set bs \<Longrightarrow> a \<le> off \<and> off + tot \<le> span_end a bs"
  by (induction a bs rule: contig.induct) (fastforce simp: span_end_def)+

lemma contig_last: "contig a bs \<Longrightarrow> bs \<noteq> [] \<Longrightarrow> fst (hd bs) = a \<and> fst (last bs) + snd (last bs) = span_end a bs"
  by (induction a bs rule: contig.induct) (auto simp: span_end_def)

lemma record_bounds_contig: "record_bounds records off = Inr bounds \<Longrightarrow> contig off bounds"
proof (induction records off arbitrary: bounds rule: record_bounds.induct)
  case (1 records off)
  show ?case
    using 1(2) 1(1) by (subst (asm) record_bounds.simps) (auto simp: and_then_eq_Inr split: if_splits sum.splits)
qed

text \<open>A group opened on its own bytes with relative bounds is the group opened on the whole buffer.\<close>

lemma open_record_group_slice:
  assumes "\<And>off tot. (off, tot) \<in> set bs \<Longrightarrow> s \<le> off \<and> off + tot \<le> e"
  shows "open_record_group A suite key base aad sq (drop s (take e records)) (map (\<lambda>(o', t). (o' - s, t)) bs) =
    open_record_group A suite key base aad sq records bs"
  using assms
proof (induction bs arbitrary: sq)
  case (Cons b bs)
  obtain off tot where b: "b = (off, tot)" by (cases b)
  have le: "s \<le> off" "off + tot \<le> e" using Cons.prems [of off tot] by (auto simp: b)
  have "take (off - s + tot) (drop s (take e records)) = drop s (take (off + tot) records)"
    using le by (simp add: take_drop min_def)
  then have "drop (off - s + TLS_HEADER_LEN) (take (off - s + tot) (drop s (take e records))) =
      drop (off + TLS_HEADER_LEN) (take (off + tot) records)"
    using le(1) by simp
  moreover have "open_record_group A suite key base aad (sq + 1) (drop s (take e records)) (map (\<lambda>(o', t). (o' - s, t)) bs) =
      open_record_group A suite key base aad (sq + 1) records bs"
    by (rule Cons.IH) (use Cons.prems in auto)
  ultimately show ?case by (simp add: b)
qed simp

lemma run_open_job_eq:
  assumes "contig a grp" "grp \<noteq> []"
  shows "run_open_job A dc records sq grp = group_of A dc records sq grp"
  using open_record_group_slice [of grp a "span_end a grp"] contig_in [OF assms(1)] contig_last [OF assms]
  by (simp add: run_open_job_def)

lemma open_jobs_group:
  "contig a (concat gs) \<Longrightarrow> [] \<notin> set gs \<Longrightarrow>
   map_sum id concat (collect_segments (open_jobs A dc records sq gs)) = group_of A dc records sq (concat gs)"
proof (induction gs arbitrary: a sq)
  case (Cons g gs)
  have g: "contig a g" "g \<noteq> []" and gs: "contig (span_end a g) (concat gs)" "[] \<notin> set gs"
    using Cons.prems by (auto simp: contig_append)
  have IH: "map_sum id concat (collect_segments (open_jobs A dc records (sq + of_nat (length g)) gs)) =
      group_of A dc records (sq + of_nat (length g)) (concat gs)"
    by (rule Cons.IH [OF gs])
  show ?case
    unfolding concat.simps open_record_group_append IH [symmetric] using run_open_job_eq [OF g]
    by (cases "group_of A dc records sq g"; cases "collect_segments (open_jobs A dc records (sq + of_nat (length g)) gs)") simp_all
qed simp

lemma split_groups_concat: "0 < g \<Longrightarrow> concat (split_groups g xs) = xs"
proof (induction g arbitrary: xs)
  case (Suc g)
  show ?case
  proof (cases "g = 0")
    case True
    then show ?thesis by simp
  next
    case False
    then show ?thesis using Suc.IH by (simp add: Let_def)
  qed
qed simp

lemma div_ceil_rest:
  assumes "0 < g" "g \<le> m"
  shows "g - 1 \<le> m - div_ceil m g"
proof -
  obtain k where m: "m = Suc k" using assms by (cases m) auto
  have "k div g * g \<le> k" by simp
  then have "k div g + (g - 1) \<le> k"
  proof (cases "k div g")
    case 0
    then show ?thesis using assms m by simp
  next
    case (Suc q)
    then have "Suc q * g \<le> k" using \<open>k div g * g \<le> k\<close> by simp
    moreover have "Suc q + (g - 1) \<le> Suc q * g" using assms(1) by (cases g) (auto simp: algebra_simps)
    ultimately show ?thesis using Suc by simp
  qed
  then show ?thesis using div_ceil_Suc [OF assms(1), of k] m by simp
qed

lemma split_groups_nonempty: "g \<le> length xs \<Longrightarrow> [] \<notin> set (split_groups g xs)"
proof (induction g arbitrary: xs)
  case (Suc g)
  have "0 < div_ceil (length xs) (Suc g)" using Suc.prems by (intro div_ceil_pos) auto
  moreover have "g \<le> length xs - div_ceil (length xs) (Suc g)" using div_ceil_rest [of "Suc g" "length xs"] Suc.prems by simp
  ultimately show ?case using Suc.IH [of "drop (div_ceil (length xs) (Suc g)) xs"] Suc.prems by (auto simp: Let_def)
qed simp

lemma record_bounds_length:
  "record_bounds records off = Inr bounds \<Longrightarrow> off \<le> length records \<Longrightarrow> off + length bounds \<le> length records"
proof (induction records off arbitrary: bounds rule: record_bounds.induct)
  case (1 records off)
  show ?case
  proof (cases "off < length records")
    case False
    then show ?thesis using 1(2,3) by (subst (asm) record_bounds.simps) simp
  next
    case True
    obtain h bs where h: "validate_record_header records off = Inr h" "record_bounds records (off + total_len h) = Inr bs"
      "bounds = (off, total_len h) # bs"
      using 1(2) True by (subst (asm) record_bounds.simps) (auto simp: and_then_eq_Inr split: sum.splits)
    then show ?thesis
      using 1(1) [OF True h(1) h(2)] validate_record_header_Inr(2,4) [OF h(1)] by (simp add: TLS_HEADER_LEN_def)
  qed
qed

lemma advance_sequence_next:
  assumes "\<not> poisoned (ac_records (dc_aead dc))" "unat (codec_sequence (dc_aead dc)) + n < 2 ^ 64"
  shows "dc\<lparr>dc_aead := advance_sequence (of_nat n) (dc_aead dc)\<rparr> = dc_next n dc"
proof -
  have "n < 2 ^ 64" using assms(2) by simp
  then have "seq_reserve (of_nat n) (ac_records (dc_aead dc)) =
      Inr (codec_sequence (dc_aead dc), (ac_records (dc_aead dc))\<lparr>rs_next := codec_sequence (dc_aead dc) + of_nat n\<rparr>)"
    using assms unat_of_nat_u64 [of n] by (subst seq_reserve_Inr) (simp add: codec_sequence_def)
  then show ?thesis by (simp add: advance_sequence_def seq_advance_def dc_next_def)
qed

text \<open>The inner parallel open in terms of the group of all records.\<close>

lemma parallel_inner_group:
  assumes "\<not> poisoned (ac_records (dc_aead dc))" "length records < 2 ^ 64" "record_bounds records 0 = Inr bounds"
  shows "case group_of A dc records (codec_sequence (dc_aead dc)) bounds of
      Inr pt \<Rightarrow> open_concat_records_parallel_inner A width records out dc = Inr (out @ pt, dc_next (length bounds) dc)
    | Inl e \<Rightarrow> \<exists>e'. open_concat_records_parallel_inner A width records out dc = Inl e'"
proof (cases "bounds = []")
  case True
  then show ?thesis using assms(3) by (simp add: open_concat_records_parallel_inner_def)
next
  case False
  let ?sq = "codec_sequence (dc_aead dc)"
  let ?gs = "split_groups (min (max width 1) (length bounds)) bounds"
  have n: "length bounds < 2 ^ 64" using record_bounds_length [OF assms(3)] assms(2) by simp
  have j: "map_sum id concat (collect_segments (open_jobs A dc records ?sq ?gs)) = group_of A dc records ?sq bounds"
    using open_jobs_group [of 0 ?gs A dc records ?sq] record_bounds_contig [OF assms(3)] False
      split_groups_concat [of "min (max width 1) (length bounds)" bounds] split_groups_nonempty [of "min (max width 1) (length bounds)" bounds]
    by simp
  have ck: "checked_add_u64 ?sq (of_nat (length bounds)) = None \<longleftrightarrow> \<not> unat ?sq + length bounds < 2 ^ 64"
    using unat_of_nat_u64 [OF n] by (simp add: checked_add_u64_def)
  show ?thesis
  proof (cases "group_of A dc records ?sq bounds")
    case (Inl e)
    then obtain e' where "collect_segments (open_jobs A dc records ?sq ?gs) = Inl e'"
      using j by (cases "collect_segments (open_jobs A dc records ?sq ?gs)") auto
    then show ?thesis
      using Inl assms(3) False by (simp add: open_concat_records_parallel_inner_def Let_def)
  next
    case (Inr pt)
    then obtain pts where p: "collect_segments (open_jobs A dc records ?sq ?gs) = Inr pts" "concat pts = pt"
      using j by (cases "collect_segments (open_jobs A dc records ?sq ?gs)") auto
    have b: "unat ?sq + length bounds < 2 ^ 64" by (rule open_record_group_bound [OF Inr])
    then have "checked_add_u64 ?sq (of_nat (length bounds)) \<noteq> None" using ck by blast
    then show ?thesis
      using Inr assms(3) False p advance_sequence_next [OF assms(1) b]
      by (simp add: open_concat_records_parallel_inner_def Let_def)
  qed
qed

text \<open>C30. Opening a buffer of records in parallel is opening it in order: whatever the bytes and the number of
  workers, both succeed together, with the same plaintext and the same codec, and both fail together, in which
  case the output is unchanged and the codec is poisoned.\<close>

theorem parallel_open_equals_serial:
  assumes "length records < 2 ^ 64"
  shows "case open_concat_records_parallel A width records out dc of
      (Inr u, dc', out') \<Rightarrow> open_concat_records A records out dc = (Inr u, dc', out')
    | (Inl e, dc', out') \<Rightarrow> out' = out \<and> poisoned (ac_records (dc_aead dc')) \<and>
        (\<exists>e' dc''. open_concat_records A records out dc = (Inl e', dc'', out) \<and> poisoned (ac_records (dc_aead dc'')))"
proof (cases "poisoned (ac_records (dc_aead dc))")
  case True
  then show ?thesis
    by (simp add: open_concat_records_parallel_def open_concat_records_def ensure_usable_def seq_ensure_usable_def
        codec_poison_def seq_poison_def)
next
  case False
  then have us: "ensure_usable (dc_aead dc) = Inr ()" by (simp add: ensure_usable_def seq_ensure_usable_def)
  note P = us open_concat_records_parallel_def open_concat_records_def codec_poison_def seq_poison_def
  show ?thesis
  proof (cases "record_bounds records 0")
    case (Inl e)
    then obtain e' dc' where "open_concat_loop A records 0 out dc = (Inl e', dc')"
      using open_concat_loop_bounds_error by blast
    then show ?thesis using Inl by (simp add: P open_concat_records_parallel_inner_def)
  next
    case (Inr bounds)
    note G = parallel_inner_group [OF False assms Inr, of A width out] open_concat_loop_group [OF Inr False, of A out]
    show ?thesis
    proof (cases "group_of A dc records (codec_sequence (dc_aead dc)) bounds")
      case (Inl e)
      then obtain e1 e2 dc2 where "open_concat_records_parallel_inner A width records out dc = Inl e1"
        "open_concat_loop A records 0 out dc = (Inl e2, dc2)"
        using G by auto
      then show ?thesis by (simp add: P)
    next
      case (Inr pt)
      then show ?thesis using G by (simp add: P)
    qed
  qed
qed

theorem parallel_open_equals_serial_witness:
  "\<exists>e. open_concat_records plain_aead [0x16, 3, 3, 0, 0] [7] plain_codec = (Inl e, plain_codec\<lparr>dc_aead := codec_poison (dc_aead plain_codec)\<rparr>, [7]) \<and>
    (case open_concat_records_parallel plain_aead 2 [0x16, 3, 3, 0, 0] [7] plain_codec of (r, dc', out') \<Rightarrow> out' = [7])"
proof -
  let ?rec = "[0x16, 3, 3, 0, 0] :: bytes"
  have "validate_record_header ?rec 0 = Inl NotApplicationData"
    by (simp add: validate_record_header_def parse_header_def Let_def TLS_HEADER_LEN_def MAX_TLS_RECORD_PAYLOAD_def from_be_def
        TLS_CONTENT_APPLICATION_DATA_def)
  then have "open_concat_records plain_aead ?rec [7] plain_codec =
      (Inl NotApplicationData, plain_codec\<lparr>dc_aead := codec_poison (dc_aead plain_codec)\<rparr>, [7])"
    by (simp add: open_concat_records_def open_concat_loop.simps ensure_usable_def seq_ensure_usable_def plain_codec_def
        data_codec_new_def codec_new_def codec_new_with_suite_def seq_default_def)
  then show ?thesis
    using parallel_open_equals_serial [where records = ?rec and A = plain_aead and width = 2 and out = "[7]" and dc = plain_codec] by (auto split: prod.splits sum.splits)
qed

section \<open>Lengths and the key budget\<close>

lemma seal_framed_length:
  assumes "aead_correct A" "seal_framed A (length out) r (out @ record_prefix @ padded) dc = (Inr rg, dc', r', out')"
  shows "length out' = length out + TLS_HEADER_LEN + length padded + AEAD_TAG_LEN" "length padded + AEAD_TAG_LEN \<le> OUTER_TLS_RECORD_LIMIT"
    "rg = (length out, length out')" "ensure_seal_budget 1 dc = Inr ()"
proof -
  have l: "length record_prefix = 5" by (simp add: record_prefix_def)
  have d: "drop (length out + TLS_HEADER_LEN) (out @ record_prefix @ padded) = padded"
    "length (out @ record_prefix @ padded) - (length out + TLS_HEADER_LEN) = length padded"
    using l by (simp_all add: TLS_HEADER_LEN_def)
  obtain ct tag where q: "fst (seal_padded_payload A padded dc) = Inr (ct, tag)" "length padded + AEAD_TAG_LEN \<le> OUTER_TLS_RECORD_LIMIT"
    "out' = patch_record (length out) (out @ record_prefix @ padded) ct tag" "rg = (length out, length out')"
    using assms(2) unfolding seal_framed_def d by (auto simp: Let_def split: if_splits prod.splits sum.splits)
  then obtain c' where s: "seal_in_place_detached A padded (dc_aad dc) (dc_aead dc) = (Inr (ct, tag), c')"
    and b: "ensure_seal_budget 1 dc = Inr ()"
    by (auto simp: seal_padded_payload_def split: sum.splits prod.splits)
  have "length ct = length padded" "length tag = AEAD_TAG_LEN"
    using assms(1) seal_in_place_detached_Inr(3) [OF s] unfolding aead_correct_def by blast+
  then show "length out' = length out + TLS_HEADER_LEN + length padded + AEAD_TAG_LEN"
    using q(3) by (simp add: patch_record_frame TLS_HEADER_LEN_def)
  show "length padded + AEAD_TAG_LEN \<le> OUTER_TLS_RECORD_LIMIT" "rg = (length out, length out')" "ensure_seal_budget 1 dc = Inr ()"
    using q(2,4) b by simp_all
qed

lemma budget_product:
  assumes "ensure_seal_budget n dc = Inr ()" "n < 2 ^ 64" "0 < n" "ac_suite (dc_aead dc) = Aes256Gcm"
  shows "(unat (codec_sequence (dc_aead dc)) + n) *
    (div_ceil (OUTER_TLS_RECORD_LIMIT - AEAD_TAG_LEN) 16 + div_ceil (length (dc_aad dc)) 16) \<le> 2 ^ 35"
proof -
  have a: "unat (codec_sequence (dc_aead dc)) + n \<le> 2 ^ 23"
    "div_ceil (OUTER_TLS_RECORD_LIMIT - AEAD_TAG_LEN) 16 + div_ceil (length (dc_aad dc)) 16 \<le> 2 ^ 12"
    using assms ensure_seal_budget_iff [OF assms(2,3), of dc]
    by (auto simp: AES_GCM_RECORD_LIMIT_def AES_GCM_MAX_AUTH_BLOCKS_def checked_add_usize_def split: option.splits if_splits)
  have "(2 :: nat) ^ 23 * 2 ^ 12 = 2 ^ 35" by simp
  then show ?thesis using mult_le_mono [OF a] by simp
qed

text \<open>Record sizes and key usage are bounded: a record sealed with exact padding has exactly the length its
  payload and padding give, no record is longer than the outer TLS limit, and under AES-GCM a record is only
  sealed while the number of records times the blocks each authenticates stays within \<open>2^35\<close>.\<close>

theorem record_size_and_budget:
  assumes "aead_correct A" "rng_correct R" "profile_ok (dc_padding dc)" "total_pad < 2 ^ 16"
    "seal_into_exact_padded A R payload total_pad r out dc = (Inr rg, dc', r', out')"
  shows "rg = (length out, length out') \<and>
    length out' = length out + TLS_HEADER_LEN + length payload + total_pad + PADDING_LEN_FIELD + AEAD_TAG_LEN \<and>
    length out' - length out \<le> TLS_HEADER_LEN + OUTER_TLS_RECORD_LIMIT \<and>
    map_sum id (\<lambda>n. length out + n) (exact_padded_record_capacity (length payload) total_pad) = Inr (length out') \<and>
    (ac_suite (dc_aead dc) = Aes256Gcm \<longrightarrow> (unat (codec_sequence (dc_aead dc)) + 1) *
       (div_ceil (OUTER_TLS_RECORD_LIMIT - AEAD_TAG_LEN) 16 + div_ceil (length (dc_aad dc)) 16) \<le> 2 ^ 35)"
proof -
  obtain u where b: "ensure_seal_budget 1 dc = Inr u"
    using assms(5) by (auto simp: seal_into_exact_padded_def seal_record_with_suffix_def split: sum.splits)
  obtain o1 r1 where o1: "write_exact_padding_suffix R total_pad r (out @ record_prefix @ payload) = (o1, r1)"
    by (cases "write_exact_padding_suffix R total_pad r (out @ record_prefix @ payload)")
  obtain pad where pad: "o1 = (out @ record_prefix @ payload) @ pad @ be_bytes 2 (of_nat (length pad) :: u16)" "length pad = total_pad"
    using suffix_writers(3) [OF assms(2,3) o1] assms(4) by auto
  have "seal_framed A (length out) r1 (out @ record_prefix @ (payload @ pad @ be_bytes 2 (of_nat (length pad) :: u16))) dc = (Inr rg, dc', r', out')"
    using assms(5) b o1 pad(1) by (simp add: seal_into_exact_padded_def seal_record_with_suffix_def)
  note F = seal_framed_length [OF assms(1) this]
  have c: "exact_padded_record_capacity (length payload) total_pad = Inr (TLS_HEADER_LEN + length payload + total_pad + PADDING_LEN_FIELD + AEAD_TAG_LEN)"
    using F(2) pad(2) assms(4)
    by (simp add: exact_padded_record_capacity_def checked_add_usize_def usize_limit_def record_consts)
  show ?thesis
    using F pad(2) c budget_product [of 1 dc] by (auto simp: record_consts)
qed

theorem record_size_and_budget_witness:
  "\<exists>rg dc' r' out'. seal_into_exact_padded plain_aead low_rng [1, 2] 4 0 [] plain_codec = (Inr rg, dc', r', out') \<and> length out' = 29"
proof -
  have e: "ensure_seal_budget 1 plain_codec = Inr ()" using plain_codec_facts(4) [of 1] by simp
  obtain res dc' r' out' where s: "seal_into_exact_padded plain_aead low_rng [1, 2] 4 0 [] plain_codec = (res, dc', r', out')"
    by (cases "seal_into_exact_padded plain_aead low_rng [1, 2] 4 0 [] plain_codec")
  have "is_ok (fst (seal_framed plain_aead (length ([] :: bytes)) (1 :: nat) ([] @ record_prefix @ ([1, 2] @ replicate 4 0 @ be_bytes 2 (4 :: u16))) plain_codec))"
    by (rule seal_framed_ok [OF e plain_codec_facts(1)]) (simp add: record_consts)
  then obtain rg where "res = Inr rg"
    using s e by (auto simp: seal_into_exact_padded_def seal_record_with_suffix_def write_exact_padding_suffix_def
        write_padding_suffix_def low_rng_def is_ok_iff)
  then show ?thesis
    using record_size_and_budget [OF plain_aead_correct low_rng_correct plain_codec_facts(2) _ s [unfolded \<open>res = Inr rg\<close>]] s
    by (auto simp: record_consts)
qed

end
