(* ===== verification/Record_Nonces.thy ===== *)
theory Record_Nonces
  imports Data_Record
begin

text \<open>
  What one direction of a session seals in its life. A run is any sequence of the sealing operations of
  \<open>DataRecordCodec\<close> (\<open>protocol/data.rs\<close>), the batches and the parallel ones included, and of rekeys. The bytes
  a run writes are frames of calls of the cipher, and no two of the calls share a key and a nonce.
\<close>

section \<open>Runs of the sealing operations\<close>

datatype record_op =
    DoSeal bytes
  | DoSealExtraPadded bytes nat
  | DoSealExactPadded bytes nat
  | DoSealChunks bytes
  | DoSealChunksInto bytes
  | DoSealChunksUntracked bytes
  | DoSealPqFlight "bytes list"
  | DoSealRecords bytes "nat list"
  | DoSealRecordsExactPadded bytes "nat list" "nat list"
  | DoSealRecordsInplace "nat list" "nat \<Rightarrow> bytes"
  | DoSealRecordsParallel nat bytes "nat list"
  | DoSealChunksParallel nat bytes
  | DoRekey bytes bytes
  | DoRekeyWithSuite cipher_suite bytes bytes

text \<open>The bytes an operation leaves in the output buffer, also when it fails, and the state after it. Where the
  operation returns buffers of its own, an error drops them.\<close>

definition written :: "'a \<times> data_record_codec \<times> 'r \<times> bytes \<Rightarrow> bytes \<times> data_record_codec \<times> 'r" where
  "written = (\<lambda>(res, dc, r, out). (out, dc, r))"

definition returned :: "(data_record_error + bytes list) \<times> data_record_codec \<times> 'r \<Rightarrow> bytes \<times> data_record_codec \<times> 'r" where
  "returned = (\<lambda>(res, dc, r). (case res of Inl _ \<Rightarrow> [] | Inr bufs \<Rightarrow> concat bufs, dc, r))"

fun record_step :: "aead \<Rightarrow> 'r rng \<Rightarrow> record_op \<Rightarrow> data_record_codec \<Rightarrow> 'r \<Rightarrow> bytes \<times> data_record_codec \<times> 'r" where
  "record_step A R (DoSeal p) dc r = written (seal_into A R p r [] dc)"
| "record_step A R (DoSealExtraPadded p n) dc r = written (seal_into_extra_padded A R p n r [] dc)"
| "record_step A R (DoSealExactPadded p n) dc r = written (seal_into_exact_padded A R p n r [] dc)"
| "record_step A R (DoSealChunks p) dc r = returned (seal_chunks A R p r dc)"
| "record_step A R (DoSealChunksInto p) dc r = written (seal_chunks_into A R p r [] dc)"
| "record_step A R (DoSealChunksUntracked p) dc r = written (seal_chunks_into_untracked A R p r [] dc)"
| "record_step A R (DoSealPqFlight ps) dc r = written (seal_pq_flight A R ps r [] dc)"
| "record_step A R (DoSealRecords p ls) dc r = written (seal_records_into A R p ls r [] dc)"
| "record_step A R (DoSealRecordsExactPadded p ls ns) dc r = written (seal_records_into_exact_padded A R p ls ns r [] dc)"
| "record_step A R (DoSealRecordsInplace ls fill) dc r = written (seal_records_into_inplace A R ls fill r [] dc)"
| "record_step A R (DoSealRecordsParallel w p ls) dc r = written (seal_records_into_parallel A R w p ls r [] dc)"
| "record_step A R (DoSealChunksParallel w p) dc r = written (seal_chunks_into_parallel A R w p r [] dc)"
| "record_step A R (DoRekey key base) dc r = ([], data_rekey key base dc, r)"
| "record_step A R (DoRekeyWithSuite suite key base) dc r = ([], data_rekey_with_suite suite key base dc, r)"

primrec record_run :: "aead \<Rightarrow> 'r rng \<Rightarrow> record_op list \<Rightarrow> data_record_codec \<Rightarrow> 'r \<Rightarrow> bytes" where
  "record_run A R [] dc r = []"
| "record_run A R (op # ops) dc r = (case record_step A R op dc r of (out, dc', r') \<Rightarrow> out @ record_run A R ops dc' r')"

text \<open>The keys the rekeys of a run bring, and what is asked of the arguments: bases of the nonce length, and
  payloads and lists whose length a \<open>usize\<close> can hold.\<close>

fun op_keys :: "record_op \<Rightarrow> bytes list" where
  "op_keys (DoRekey key base) = [key]"
| "op_keys (DoRekeyWithSuite suite key base) = [key]"
| "op_keys _ = []"

fun op_fits :: "record_op \<Rightarrow> bool" where
  "op_fits (DoRekey key base) = (length base = NONCE_LEN)"
| "op_fits (DoRekeyWithSuite suite key base) = (length base = NONCE_LEN)"
| "op_fits (DoSealRecordsParallel w p ls) = (length ls < 2 ^ 64)"
| "op_fits (DoSealChunksParallel w p) = (length p < 2 ^ 64)"
| "op_fits _ = True"

abbreviation run_keys :: "record_op list \<Rightarrow> bytes list" where
  "run_keys ops \<equiv> concat (map op_keys ops)"

text \<open>A call of the cipher's seal, and the record that carries its result.\<close>

type_synonym seal_call = "cipher_suite \<times> bytes \<times> bytes \<times> bytes \<times> bytes"

definition call_frame :: "aead \<Rightarrow> seal_call \<Rightarrow> bytes option" where
  "call_frame A = (\<lambda>(suite, key, nonce, aad, pt). map_option (\<lambda>(ct, tag). frame (ct @ tag)) (a_seal A suite key nonce aad pt))"

definition call_id :: "seal_call \<Rightarrow> bytes \<times> bytes" where
  "call_id = (\<lambda>(suite, key, nonce, aad, pt). (key, nonce))"

section \<open>One operation\<close>

text \<open>An operation that is no rekey leaves the codec with the counter \<open>n\<close> further, possibly poisoned, and what
  it writes are records under the numbers passed over.\<close>

definition moves :: "aead \<Rightarrow> data_record_codec \<Rightarrow> data_record_codec \<Rightarrow> bytes \<Rightarrow> bool" where
  "moves A dc dc' out \<longleftrightarrow> (\<exists>n ps recs.
     (dc' = dc_next n dc \<or> dc' = (dc_next n dc)\<lparr>dc_aead := codec_poison (dc_aead (dc_next n dc))\<rparr>) \<and>
     unat (codec_sequence (dc_aead dc)) + n < 2 ^ 64 \<and> length ps \<le> n \<and> out = concat recs \<and>
     wire A (dc_aead dc) (dc_aad dc) (codec_sequence (dc_aead dc)) ps recs)"

lemma wire_no_wrap: "wire A c aad sq ps recs \<Longrightarrow> unat sq + length ps < 2 ^ 64"
proof (induction A c aad sq ps recs rule: wire.induct)
  case (1 A c aad sq)
  then show ?case using unsigned_less [of sq] by simp
next
  case (2 A c aad sq p ps rec recs)
  have "sq \<noteq> - 1" using 2(2) by (simp add: wire_record_def)
  then have "unat (sq + 1) = Suc (unat sq)" by (metis Suc_eq_plus1_left add.commute unatSuc add_eq_0_iff)
  then show ?case using 2 by simp
qed simp_all

lemma moves_refl: "moves A dc dc []"
  unfolding moves_def using unsigned_less [of "codec_sequence (dc_aead dc)"]
  by (intro exI [of _ 0] exI [of _ "[]"]) simp

lemma moves_wire:
  assumes "wire A (dc_aead dc) (dc_aad dc) (codec_sequence (dc_aead dc)) ps recs" "dc' = dc_next (length ps) dc"
    "out = concat recs"
  shows "moves A dc dc' out"
  unfolding moves_def using assms wire_no_wrap [OF assms(1)]
  by (intro exI [of _ "length ps"] exI [of _ ps] exI [of _ recs]) simp

context record_sealer
begin

lemma seal_one_moves:
  assumes "rng_correct R" "profile_ok (dc_padding dc)" "f x r [] dc = (res, dc', r', out)"
  shows "moves A dc dc' out"
proof (cases res)
  case (Inl e)
  then show ?thesis using seals [OF assms] by (simp add: moves_refl)
next
  case (Inr rg)
  then show ?thesis
    using seals [OF assms] by (auto intro!: moves_wire [where ps = "[plain x]" and recs = "[out]"])
qed

lemma seal_each_moves:
  assumes "rng_correct R" "profile_ok (dc_padding dc)" "seal_each f xs r [] dc = (res, dc', r', out)"
  shows "moves A dc dc' out"
proof -
  obtain n recs where "out = concat recs" "dc' = dc_next n dc" "n \<le> length xs"
    "wire A (dc_aead dc) (dc_aad dc) (codec_sequence (dc_aead dc)) (map plain (take n xs)) recs"
    using seal_each_wire [OF assms] by auto
  then show ?thesis by (intro moves_wire [where ps = "map plain (take n xs)" and recs = recs]) simp_all
qed

end

text \<open>The loop whose callback appends the plaintext is a loop of \<open>seal_into\<close> over what it appends.\<close>

interpretation sf: record_sealer A R "\<lambda>i r out dc. let (start, out) = begin_record out in finish_record A R start r (out @ fill i) dc" fill
  for A and R :: "'r rng" and fill :: "nat \<Rightarrow> bytes"
  by unfold_locales (rule seal_into_seals, simp_all add: seal_into_def)

lemma seal_buffers_each:
  assumes "rng_correct R" "profile_ok (dc_padding dc)" "seal_buffers A R ps r dc = (res, dc', r')"
  shows "\<exists>n recs. dc' = dc_next n dc \<and> n \<le> length ps \<and>
    wire A (dc_aead dc) (dc_aad dc) (codec_sequence (dc_aead dc)) (take n ps) recs \<and> (\<forall>bufs. res = Inr bufs \<longrightarrow> bufs = recs)"
  using assms(2,3)
proof (induction ps arbitrary: r dc res)
  case Nil
  then show ?case by (intro exI [of _ 0] exI [of _ "[]"]) auto
next
  case (Cons p ps)
  obtain q dc1 r1 out1 where q: "seal_into A R p r [] dc = (q, dc1, r1, out1)" by (cases "seal_into A R p r [] dc") auto
  note S = seal_into_seals [OF assms(1) Cons.prems(1) q]
  show ?case
  proof (cases q)
    case (Inl e)
    then show ?thesis
      using S q Cons.prems(2) by (intro exI [of _ 0] exI [of _ "[]"]) (auto simp: data_seal_def)
  next
    case (Inr rg)
    then have rec: "dc1 = dc_next 1 dc" "wire_record A (dc_aead dc) (dc_aad dc) (codec_sequence (dc_aead dc)) p out1"
      using S by auto
    obtain res1 where e: "seal_buffers A R ps r1 dc1 = (res1, dc', r')" "res = and_then res1 (\<lambda>recs. Inr (out1 # recs))"
      using Cons.prems(2) q Inr by (cases "seal_buffers A R ps r1 dc1") (auto simp: data_seal_def)
    have pk: "profile_ok (dc_padding dc1)" using Cons.prems(1) rec(1) by simp
    obtain n recs where "dc' = dc_next n dc1" "n \<le> length ps"
      "wire A (dc_aead dc1) (dc_aad dc1) (codec_sequence (dc_aead dc1)) (take n ps) recs" "\<forall>bufs. res1 = Inr bufs \<longrightarrow> bufs = recs"
      using Cons.IH [OF pk e(1)] by blast
    then show ?thesis
      using rec e(2) by (intro exI [of _ "Suc n"] exI [of _ "out1 # recs"]) (auto simp: and_then_eq_Inr)
  qed
qed

lemma parallel_moves:
  assumes "rng_correct R" "profile_ok (dc_padding dc)" "length record_lens < 2 ^ 64"
    "seal_records_into_parallel A R width plaintext record_lens r [] dc = (res, dc', r', out)"
  shows "moves A dc dc' out"
proof (cases "and_then (validate_record_lens record_lens (length plaintext)) (\<lambda>_. ensure_seal_budget (length record_lens) dc)")
  case (Inl e)
  then show ?thesis using assms(4) by (auto simp: seal_records_into_parallel_def moves_refl)
next
  case (Inr u)
  then have v: "validate_record_lens record_lens (length plaintext) = Inr ()" "ensure_seal_budget (length record_lens) dc = Inr ()"
    by (auto simp: and_then_eq_Inr)
  let ?n = "length record_lens"
  show ?thesis
  proof (cases "record_lens = []")
    case True
    then show ?thesis using assms(4) Inr by (auto simp: seal_records_into_parallel_def moves_refl)
  next
    case False
    have g: "0 < min (max width 1) ?n" using False by simp
    have room: "unat (codec_sequence (dc_aead dc)) + ?n < 2 ^ 64" using ensure_seal_budget_Inr(2) [OF v(2) assms(3)] False by simp
    obtain jobs r1 where j: "seal_jobs R (min (max width 1) ?n) record_lens plaintext (codec_sequence (dc_aead dc)) r = (jobs, r1)"
      by (cases "seal_jobs R (min (max width 1) ?n) record_lens plaintext (codec_sequence (dc_aead dc)) r")
    note run = seal_parallel_run [OF v False assms(3) j, of A "[]"]
    show ?thesis
    proof (cases "collect_segments (map (run_seal_job A R (dc_next ?n dc)) jobs)")
      case (Inl e)
      then show ?thesis
        unfolding moves_def using assms(4) run room by (intro exI [of _ ?n] exI [of _ "[]"]) auto
    next
      case (Inr segs)
      have pk: "profile_ok (dc_padding (dc_next ?n dc))" using assms(2) by simp
      obtain recs where "concat segs = concat recs"
        "wire A (dc_aead dc) (dc_aad dc) (codec_sequence (dc_aead dc)) (cut_lens record_lens plaintext) recs"
        using seal_jobs_wire [OF assms(1) pk j g Inr] by auto
      then show ?thesis
        using assms(4) run Inr by (intro moves_wire [where ps = "cut_lens record_lens plaintext" and recs = recs]) simp_all
    qed
  qed
qed

lemma exact_padded_moves:
  assumes "rng_correct R" "profile_ok (dc_padding dc)"
    "seal_records_into_exact_padded A R plaintext record_lens pad_lens r [] dc = (res, dc', r', out)"
  shows "moves A dc dc' out"
proof (cases "and_then (validate_exact_padded_record_lens record_lens pad_lens (length plaintext)) (\<lambda>reserve.
             and_then (ensure_seal_budget (length record_lens) dc) (\<lambda>_.
             ok_or (checked_add_usize (length ([] :: bytes)) reserve) InvalidExactPadding))")
  case (Inl e)
  then show ?thesis using assms(3) by (auto simp: seal_records_into_exact_padded_def moves_refl)
next
  case (Inr u)
  let ?xs = "zip (cut_lens record_lens plaintext) pad_lens"
  obtain q dc1 r1 out1 where q: "seal_each (seal_exact_record A R) ?xs r [] dc = (q, dc1, r1, out1)"
    by (cases "seal_each (seal_exact_record A R) ?xs r [] dc") auto
  obtain n recs where n: "out1 = concat recs" "dc1 = dc_next n dc" "n \<le> length ?xs"
    "wire A (dc_aead dc) (dc_aad dc) (codec_sequence (dc_aead dc)) (map fst (take n ?xs)) recs"
    using se.seal_each_wire [OF assms(1,2) q] by auto
  show ?thesis
  proof (cases q)
    case (Inl e)
    have "unat (codec_sequence (dc_aead dc)) + n < 2 ^ 64" using wire_no_wrap [OF n(4)] n(3) by simp
    then show ?thesis
      unfolding moves_def using assms(3) Inr q Inl n(2)
      by (intro exI [of _ n] exI [of _ "[]"]) (auto simp: seal_records_into_exact_padded_def)
  next
    case (Inr rgs)
    then have "out = out1" "dc' = dc1"
      using assms(3) \<open>and_then _ _ = Inr u\<close> q by (auto simp: seal_records_into_exact_padded_def)
    then show ?thesis using se.seal_each_moves [OF assms(1,2) q] by simp
  qed
qed

lemma length_chunk_lens: "length (chunk_lens m n) \<le> n"
proof (induction m n rule: chunk_lens.induct)
  case (1 m n)
  then show ?case by (subst chunk_lens.simps) (auto simp: min_def split: if_splits)
qed

text \<open>What a run keeps: the profile, and the law above for every operation that is no rekey.\<close>

lemma moves_keeps: "moves A dc dc' out \<Longrightarrow> dc_padding dc' = dc_padding dc"
  by (auto simp: moves_def)

lemma seal_chunks_moves:
  assumes "rng_correct R" "profile_ok (dc_padding dc)" "returned (seal_chunks A R p r dc) = (out, dc', r')"
  shows "moves A dc dc' out"
proof -
  obtain res where s: "seal_chunks A R p r dc = (res, dc', r')" "out = (case res of Inl _ \<Rightarrow> [] | Inr bufs \<Rightarrow> concat bufs)"
    using assms(3) by (auto simp: returned_def split: prod.splits)
  consider "out = []" "dc' = dc" | ps where "seal_buffers A R ps r dc = (res, dc', r')"
    using s by (auto simp: seal_chunks_def Let_def simp del: seal_buffers.simps split: if_splits sum.splits)
  then show ?thesis
  proof cases
    case 1
    then show ?thesis by (simp add: moves_refl)
  next
    case 2
    obtain n recs where n: "dc' = dc_next n dc" "n \<le> length ps"
      "wire A (dc_aead dc) (dc_aad dc) (codec_sequence (dc_aead dc)) (take n ps) recs" "\<forall>bufs. res = Inr bufs \<longrightarrow> bufs = recs"
      using seal_buffers_each [OF assms(1,2) 2] by blast
    have room: "unat (codec_sequence (dc_aead dc)) + n < 2 ^ 64" using wire_no_wrap [OF n(3)] n(2) by simp
    show ?thesis
    proof (cases res)
      case (Inl e)
      then show ?thesis unfolding moves_def using n(1) room s(2) by (intro exI [of _ n] exI [of _ "[]"]) simp
    next
      case (Inr bufs)
      then show ?thesis using n s(2) by (intro moves_wire [OF n(3)]) simp_all
    qed
  qed
qed

lemma record_step_moves:
  assumes "rng_correct R" "profile_ok (dc_padding dc)" "op_fits op" "op_keys op = []"
    "record_step A R op dc r = (out, dc', r')"
  shows "moves A dc dc' out"
proof (cases op)
  case (DoSeal p)
  then show ?thesis using assms(5) si.seal_one_moves [OF assms(1,2)] by (auto simp: written_def split: prod.splits)
next
  case (DoSealExtraPadded p n)
  then obtain res where "seal_flight_record A R n 0 (0, p) r [] dc = (res, dc', r', out)"
    using assms(5) by (auto simp: written_def seal_flight_record_def split: prod.splits)
  then show ?thesis by (rule sp.seal_one_moves [OF assms(1,2)])
next
  case (DoSealExactPadded p n)
  then obtain res where "seal_exact_record A R (p, n) r [] dc = (res, dc', r', out)"
    using assms(5) by (auto simp: written_def seal_exact_record_def split: prod.splits)
  then show ?thesis by (rule se.seal_one_moves [OF assms(1,2)])
next
  case (DoSealChunks p)
  then show ?thesis using assms(5) by (auto intro: seal_chunks_moves [OF assms(1,2)])
next
  case (DoSealChunksInto p)
  then show ?thesis
    using assms(5) si.seal_each_moves [OF assms(1,2)]
    by (auto simp: written_def seal_chunks_into_def seal_chunks_into_reusing_def Let_def moves_refl
        simp del: seal_each.simps split: if_splits sum.splits prod.splits)
next
  case (DoSealChunksUntracked p)
  then show ?thesis
    using assms(5) si.seal_each_moves [OF assms(1,2)]
    by (auto simp: written_def seal_chunks_into_untracked_def Let_def moves_refl
        simp del: seal_each.simps split: if_splits sum.splits prod.splits)
next
  case (DoSealPqFlight ps)
  then show ?thesis
    using assms(5) sp.seal_each_moves [OF assms(1,2)]
    by (auto simp: written_def seal_pq_flight_def Let_def moves_refl split: sum.splits prod.splits)
next
  case (DoSealRecords p ls)
  then show ?thesis
    using assms(5) si.seal_each_moves [OF assms(1,2)]
    by (auto simp: written_def seal_records_into_def moves_refl split: sum.splits prod.splits)
next
  case (DoSealRecordsExactPadded p ls ns)
  then show ?thesis using assms(5) exact_padded_moves [OF assms(1,2)] by (auto simp: written_def split: prod.splits)
next
  case (DoSealRecordsInplace ls fill)
  then show ?thesis
    using assms(5) sf.seal_each_moves [OF assms(1,2)]
    by (auto simp: written_def seal_records_into_inplace_def moves_refl split: sum.splits prod.splits)
next
  case (DoSealRecordsParallel w p ls)
  then show ?thesis using assms(3,5) parallel_moves [OF assms(1,2)] by (auto simp: written_def split: prod.splits)
next
  case (DoSealChunksParallel w p)
  define ls where "ls = (if p = [] then [0] else chunk_lens (codec_max_plaintext_len dc) (length p))"
  have "length ls < 2 ^ 64"
    using assms(3) DoSealChunksParallel length_chunk_lens [of "codec_max_plaintext_len dc" "length p"] by (auto simp: ls_def)
  then show ?thesis
    using assms(5) DoSealChunksParallel parallel_moves [OF assms(1,2), of ls]
    by (auto simp: written_def seal_chunks_into_parallel_def Let_def moves_refl simp flip: ls_def split: if_splits prod.splits)
qed (use assms(4) in simp_all)

section \<open>The keys and nonces of a run\<close>

lemma wire_calls:
  "wire A c aad sq ps recs \<Longrightarrow>
   \<exists>calls. map (call_frame A) calls = map Some recs \<and>
     map call_id calls = map (\<lambda>i. (ac_key c, record_nonce_from (ac_nonce_base c) (sq + of_nat i))) [0..<length ps]"
proof (induction A c aad sq ps recs rule: wire.induct)
  case (2 A c aad sq p ps rec recs)
  obtain pt where h: "call_frame A (ac_suite c, ac_key c, record_nonce_from (ac_nonce_base c) sq, aad, pt) = Some rec"
    using 2(2) by (auto simp: wire_record_def call_frame_def)
  obtain calls where t: "map (call_frame A) calls = map Some recs"
    "map call_id calls = map (\<lambda>i. (ac_key c, record_nonce_from (ac_nonce_base c) (sq + 1 + of_nat i))) [0..<length ps]"
    using 2 by auto
  have u: "[0..<length (p # ps)] = 0 # map Suc [0..<length ps]"
    by (simp add: map_Suc_upt upt_conv_Cons del: upt_Suc)
  show ?case
    unfolding u by (intro exI [of _ "(ac_suite c, ac_key c, record_nonce_from (ac_nonce_base c) sq, aad, pt) # calls"])
      (simp add: h t o_def add.assoc, simp add: call_id_def)
qed simp_all

text \<open>The calls of a run from a codec on: distinct, with the codec's key and a number from its counter on, or
  with the key of a later rekey.\<close>

definition fresh_from :: "aead_codec \<Rightarrow> bytes list \<Rightarrow> (bytes \<times> bytes) list \<Rightarrow> bool" where
  "fresh_from c keys used \<longleftrightarrow> distinct used \<and>
     (\<forall>(k, n)\<in>set used. k = ac_key c \<and> (\<exists>s \<ge> codec_sequence c. n = record_nonce_from (ac_nonce_base c) s) \<or>
        k \<in> set keys)"

lemma fresh_fromD:
  assumes "fresh_from c keys used" "(k, n) \<in> set used"
  shows "k = ac_key c \<and> (\<exists>s \<ge> codec_sequence c. n = record_nonce_from (ac_nonce_base c) s) \<or> k \<in> set keys"
  using assms unfolding fresh_from_def by (auto dest!: bspec [of _ _ "(k, n)"])

lemma fresh_from_step:
  assumes "length (ac_nonce_base c) = NONCE_LEN" "ac_key c \<notin> set keys"
    "ac_key c' = ac_key c" "ac_nonce_base c' = ac_nonce_base c"
    "used = map (\<lambda>s. (ac_key c, record_nonce_from (ac_nonce_base c) s)) ss" "distinct ss"
    "\<And>s. s \<in> set ss \<Longrightarrow> codec_sequence c \<le> s \<and> s < codec_sequence c'" "codec_sequence c \<le> codec_sequence c'"
    "fresh_from c' keys used'"
  shows "fresh_from c keys (used @ used')"
proof -
  note e = assms(3,4) and ss = assms(5-7)
  have d: "distinct used" using ss(1,2) record_nonce_inject [OF assms(1)] by (auto simp: distinct_map intro!: inj_onI)
  have disj: "x \<notin> set used'" if "x \<in> set used" for x
  proof
    assume "x \<in> set used'"
    obtain s where s: "s \<in> set ss" "x = (ac_key c, record_nonce_from (ac_nonce_base c) s)"
      using \<open>x \<in> set used\<close> ss(1) by auto
    have "\<exists>t \<ge> codec_sequence c'. record_nonce_from (ac_nonce_base c) s = record_nonce_from (ac_nonce_base c) t"
      using fresh_fromD [OF assms(9), of "ac_key c" "record_nonce_from (ac_nonce_base c) s"]
        \<open>x \<in> set used'\<close> s(2) e assms(2) by simp
    then obtain t where "codec_sequence c' \<le> t" "s = t" using record_nonce_inject [OF assms(1)] by blast
    then show False using ss(3) [OF s(1)] leD by blast
  qed
  have "distinct (used @ used')" using d disj assms(9) by (auto simp: fresh_from_def)
  moreover have "k = ac_key c \<and> (\<exists>s \<ge> codec_sequence c. n = record_nonce_from (ac_nonce_base c) s) \<or> k \<in> set keys"
    if "(k, n) \<in> set (used @ used')" for k n
  proof (cases "(k, n) \<in> set used")
    case True
    then show ?thesis using ss by auto
  next
    case False
    then have "(k, n) \<in> set used'" using that by simp
    then show ?thesis using fresh_fromD [OF assms(9), of k n] assms(8) e by (auto intro: order_trans)
  qed
  ultimately show ?thesis unfolding fresh_from_def by blast
qed

lemma moves_fresh:
  assumes "length (ac_nonce_base (dc_aead dc)) = NONCE_LEN" "ac_key (dc_aead dc) \<notin> set keys" "moves A dc dc' out"
  shows "ac_key (dc_aead dc') = ac_key (dc_aead dc)" "ac_nonce_base (dc_aead dc') = ac_nonce_base (dc_aead dc)"
    "\<exists>calls recs. out = concat recs \<and> map (call_frame A) calls = map Some recs \<and>
       (\<forall>used. fresh_from (dc_aead dc') keys used \<longrightarrow> fresh_from (dc_aead dc) keys (map call_id calls @ used))"
proof -
  let ?c = "dc_aead dc" and ?c' = "dc_aead dc'"
  obtain n ps recs where m: "dc' = dc_next n dc \<or> dc' = (dc_next n dc)\<lparr>dc_aead := codec_poison (dc_aead (dc_next n dc))\<rparr>"
    "unat (codec_sequence ?c) + n < 2 ^ 64" "length ps \<le> n" "out = concat recs"
    "wire A ?c (dc_aad dc) (codec_sequence ?c) ps recs"
    using assms(3) by (auto simp: moves_def)
  show k: "ac_key ?c' = ac_key ?c" "ac_nonce_base ?c' = ac_nonce_base ?c"
    using m(1) by (auto simp: codec_poison_def)
  have sq: "codec_sequence ?c' = codec_sequence ?c + of_nat n"
    using m(1) dc_next_simps(6) [of n dc] by (auto simp: codec_poison_def seq_poison_def codec_sequence_def)
  have u: "unat (codec_sequence ?c + of_nat i) = unat (codec_sequence ?c) + i" if "i \<le> n" for i
    using m(2) that unat_of_nat_u64 [of i] word_add_unat_less [of "codec_sequence ?c" "of_nat i"] by simp
  obtain calls where c: "map (call_frame A) calls = map Some recs"
    "map call_id calls = map (\<lambda>i. (ac_key ?c, record_nonce_from (ac_nonce_base ?c) (codec_sequence ?c + of_nat i))) [0..<length ps]"
    using wire_calls [OF m(5)] by blast
  define ss where "ss = map (\<lambda>i. codec_sequence ?c + of_nat i) [0..<length ps]"
  have ids: "map call_id calls = map (\<lambda>s. (ac_key ?c, record_nonce_from (ac_nonce_base ?c) s)) ss"
    by (simp add: c(2) ss_def)
  have "distinct ss"
    unfolding ss_def distinct_map using u m(3) by (intro conjI inj_onI) (simp, metis add_left_cancel atLeastLessThan_iff less_imp_le order.trans set_upt)
  moreover have "codec_sequence ?c \<le> s \<and> s < codec_sequence ?c'" if "s \<in> set ss" for s
    using that u m(3) unfolding ss_def sq by (auto simp: word_le_nat_alt word_less_nat_alt)
  moreover have "codec_sequence ?c \<le> codec_sequence ?c'" using u [of n] by (simp add: sq word_le_nat_alt)
  ultimately show "\<exists>calls recs. out = concat recs \<and> map (call_frame A) calls = map Some recs \<and>
       (\<forall>used. fresh_from ?c' keys used \<longrightarrow> fresh_from ?c keys (map call_id calls @ used))"
    using fresh_from_step [OF assms(1,2) k ids] m(4) c(1) by blast
qed

lemma record_run_fresh:
  assumes "rng_correct R" "profile_ok (dc_padding dc)" "length (ac_nonce_base (dc_aead dc)) = NONCE_LEN"
    "\<forall>op\<in>set ops. op_fits op" "distinct (ac_key (dc_aead dc) # run_keys ops)"
  shows "\<exists>calls recs. record_run A R ops dc r = concat recs \<and> map (call_frame A) calls = map Some recs \<and>
    fresh_from (dc_aead dc) (run_keys ops) (map call_id calls)"
  using assms(2-5)
proof (induction ops arbitrary: dc r)
  case Nil
  then show ?case by (intro exI [of _ "[]"]) (simp add: fresh_from_def)
next
  case (Cons op ops)
  obtain out dc' r' where st: "record_step A R op dc r = (out, dc', r')" by (cases "record_step A R op dc r") auto
  have r: "record_run A R (op # ops) dc r = out @ record_run A R ops dc' r'" using st by simp
  show ?case
  proof (cases "op_keys op = []")
    case True
    have mv: "moves A dc dc' out" by (rule record_step_moves [OF assms(1) Cons.prems(1) _ True st]) (use Cons.prems(3) in simp)
    have nk: "ac_key (dc_aead dc) \<notin> set (run_keys ops)" using Cons.prems(4) True by simp
    note F = moves_fresh [OF Cons.prems(2) nk mv]
    obtain calls recs where c: "out = concat recs" "map (call_frame A) calls = map Some recs"
      "\<And>used. fresh_from (dc_aead dc') (run_keys ops) used \<Longrightarrow> fresh_from (dc_aead dc) (run_keys ops) (map call_id calls @ used)"
      using F(3) by blast
    obtain calls' recs' where "record_run A R ops dc' r' = concat recs'" "map (call_frame A) calls' = map Some recs'"
      "fresh_from (dc_aead dc') (run_keys ops) (map call_id calls')"
      using Cons.IH [of dc' r'] Cons.prems F(1,2) moves_keeps [OF mv] True by auto
    then show ?thesis
      using r c True by (intro exI [of _ "calls @ calls'"] exI [of _ "recs @ recs'"]) simp
  next
    case False
    then have d: "out = []" "op_keys op = [ac_key (dc_aead dc')]" "length (ac_nonce_base (dc_aead dc')) = NONCE_LEN"
      "dc_padding dc' = dc_padding dc"
      using st Cons.prems(3)
      by (cases op; auto simp: data_rekey_def data_rekey_with_suite_def codec_rekey_def rekey_with_suite_def)+
    obtain calls recs where c: "record_run A R ops dc' r' = concat recs" "map (call_frame A) calls = map Some recs"
      "fresh_from (dc_aead dc') (run_keys ops) (map call_id calls)"
      using Cons.IH [of dc' r'] Cons.prems d by auto
    have "fresh_from (dc_aead dc) (run_keys (op # ops)) (map call_id calls)"
      using c(3) fresh_fromD [OF c(3)] d(2) unfolding fresh_from_def by auto
    then show ?thesis using r d(1) c(1,2) by auto
  qed
qed

lemma poisoned_budget: "poisoned (ac_records (dc_aead dc)) \<Longrightarrow> \<exists>e. ensure_seal_budget n dc = Inl e"
  by (simp add: ensure_seal_budget_def checked_seal_end_def ensure_usable_def seq_ensure_usable_def)

lemma record_step_poisoned:
  assumes "poisoned (ac_records (dc_aead dc))" "record_step A R op dc r = (out, dc', r')"
  shows "out = [] \<and> poisoned (ac_records (dc_aead dc'))"
proof -
  obtain e where e: "\<And>n. ensure_seal_budget n dc = Inl (e n)" using poisoned_budget [OF assms(1)] by metis
  note defs = written_def returned_def seal_into_def begin_record_def finish_record_def seal_into_extra_padded_def
    seal_into_exact_padded_def seal_record_with_suffix_def seal_chunks_def seal_chunks_into_def seal_chunks_into_reusing_def
    seal_chunks_into_untracked_def seal_pq_flight_def seal_records_into_def seal_records_into_exact_padded_def
    seal_records_into_inplace_def seal_records_into_parallel_def seal_chunks_into_parallel_def
    data_rekey_def data_rekey_with_suite_def codec_rekey_def rekey_with_suite_def reset_for_rekey_def
  show ?thesis
    using assms(2,1) by (cases op) (auto simp: e defs Let_def and_then_def split: if_splits sum.splits)
qed

lemma record_run_poisoned: "poisoned (ac_records (dc_aead dc)) \<Longrightarrow> record_run A R ops dc r = []"
proof (induction ops arbitrary: dc r)
  case (Cons op ops)
  obtain out dc' r' where st: "record_step A R op dc r = (out, dc', r')" by (cases "record_step A R op dc r") auto
  show ?case using record_step_poisoned [OF Cons.prems st] Cons.IH [of dc' r'] st by simp
qed simp

text \<open>C1. No two records a direction ever writes are sealed under the same key and nonce. Whatever sequence of
  the record layer's sealing operations and rekeys is run, failing ones included, the bytes written are the frames
  of calls of the cipher, in order, and the pairs of key and nonce of these calls are all distinct, provided every
  rekey brings a key not used before. A poisoned codec writes nothing more, whatever is run, rekeys included.\<close>

theorem nonces_never_reused:
  assumes "rng_correct R" "profile_ok (dc_padding dc)" "length (ac_nonce_base (dc_aead dc)) = NONCE_LEN"
    "\<forall>op\<in>set ops. op_fits op" "distinct (ac_key (dc_aead dc) # run_keys ops)"
  shows "(\<exists>calls recs. record_run A R ops dc r = concat recs \<and> map (call_frame A) calls = map Some recs \<and>
      distinct (map call_id calls)) \<and>
    (poisoned (ac_records (dc_aead dc)) \<longrightarrow> record_run A R ops dc r = [])"
  using record_run_fresh [OF assms, of A r] record_run_poisoned [of dc A R ops r] by (auto simp: fresh_from_def)

theorem nonces_never_reused_witness:
  "let ops = [DoSeal [1, 2, 3], DoSealExactPadded [4] 2, DoRekey (replicate 32 2) (replicate 12 0), DoSeal [5]];
       dc = plain_codec; dead = dc\<lparr>dc_aead := codec_poison (dc_aead dc)\<rparr>
   in (\<exists>calls recs. record_run plain_aead low_rng ops dc 0 = concat recs \<and>
         map (call_frame plain_aead) calls = map Some recs \<and> distinct (map call_id calls)) \<and>
      record_run plain_aead low_rng ops dc 0 \<noteq> [] \<and> record_run plain_aead low_rng ops dead 0 = []"
proof -
  define ops where "ops = [DoSeal [1, 2, 3], DoSealExactPadded [4] 2, DoRekey (replicate 32 2) (replicate 12 0), DoSeal [5]]"
  let ?dead = "plain_codec\<lparr>dc_aead := codec_poison (dc_aead plain_codec)\<rparr>"
  have o: "\<forall>op\<in>set ops. op_fits op" "distinct (ac_key (dc_aead plain_codec) # run_keys ops)"
    "length (ac_nonce_base (dc_aead plain_codec)) = NONCE_LEN"
    by (simp_all add: ops_def NONCE_LEN_def plain_codec_def data_codec_new_def codec_new_def codec_new_with_suite_def replicate_eq_replicate)
  have d: "profile_ok (dc_padding ?dead)" "distinct (ac_key (dc_aead ?dead) # run_keys ops)"
    "length (ac_nonce_base (dc_aead ?dead)) = NONCE_LEN" "poisoned (ac_records (dc_aead ?dead))"
    using o(2,3) plain_codec_facts(2) by (simp_all add: codec_poison_def seq_poison_def)
  obtain q dc1 r1 out1 where s: "seal_into plain_aead low_rng [1, 2, 3] 0 [] plain_codec = (q, dc1, r1, out1)"
    by (cases "seal_into plain_aead low_rng [1, 2, 3] 0 [] plain_codec") auto
  have "is_ok q"
    using seal_into_ok [OF low_rng_correct plain_codec_facts(2,1) plain_codec_facts(4), of "[1, 2, 3]" 0 "[]"] s
    by (simp add: plain_codec_facts(3))
  then have "out1 \<noteq> []"
    using seal_into_seals [OF low_rng_correct plain_codec_facts(2) s] by (auto simp: is_ok_iff wire_record_def frame_def)
  then have "record_run plain_aead low_rng ops plain_codec 0 \<noteq> []"
    using s by (simp add: ops_def written_def split: prod.splits)
  then show ?thesis
    using nonces_never_reused [OF low_rng_correct plain_codec_facts(2) o(3,1,2), of plain_aead 0]
      nonces_never_reused [OF low_rng_correct d(1,3) o(1) d(2), of plain_aead 0] d(4)
    by (simp add: Let_def flip: ops_def)
qed

end
