(* ===== verification/Rust_Text.thy ===== *)
theory Rust_Text
  imports Utf8
begin

text \<open>
  The part of Rust's text library that the replay journal is written and read with, on UTF-8 byte strings:
  \<open>split_whitespace\<close>, \<open>trim\<close>, \<open>lines\<close>, \<open>split_once\<close>, \<open>strip_prefix\<close>, \<open>strip_suffix\<close>, \<open>str::get\<close> with its
  character boundaries, \<open>u64::from_str_radix\<close>, \<open>to_string\<close> and \<open>{:016x}\<close>; and the hexadecimal helpers of
  \<open>util/hex.rs\<close> and \<open>crypto/replay.rs\<close>. White space is the Unicode property, read off its UTF-8 encodings.
\<close>

named_theorems text_simps \<open>how the text functions read what the program writes\<close>

section \<open>White space and lines\<close>

text \<open>The length of the white-space character at the front of a string, 0 if there is none.\<close>

definition ws_len :: "bytes \<Rightarrow> nat" where
  "ws_len s =
     (case s of
        [] \<Rightarrow> 0
      | b # r \<Rightarrow>
          if 0x09 \<le> b \<and> b \<le> 0x0D \<or> b = 0x20 then 1
          else if b = 0xC2 \<and> (take 1 r = [0x85] \<or> take 1 r = [0xA0]) then 2
          else if b = 0xE1 \<and> take 2 r = [0x9A, 0x80] then 3
          else if b = 0xE2 \<and>
            (case r of
               c # d # _ \<Rightarrow> c = 0x80 \<and> (0x80 \<le> d \<and> d \<le> 0x8A \<or> d = 0xA8 \<or> d = 0xA9 \<or> d = 0xAF) \<or> c = 0x81 \<and> d = 0x9F
             | _ \<Rightarrow> False) then 3
          else if b = 0xE3 \<and> take 2 r = [0x80, 0x80] then 3
          else 0)"

definition word_done :: "bytes \<Rightarrow> bytes list" where
  "word_done cur = (if cur = [] then [] else [rev cur])"

function words_acc :: "bytes \<Rightarrow> bytes \<Rightarrow> bytes list" where
  "words_acc cur [] = word_done cur"
| "words_acc cur (b # r) =
     (if ws_len (b # r) = 0 then words_acc (b # cur) r
      else word_done cur @ words_acc [] (drop (ws_len (b # r) - 1) r))"
  by pat_completeness auto
termination
  by (relation "measure (\<lambda>(cur, s). length s)") auto

definition split_whitespace :: "bytes \<Rightarrow> bytes list" where
  "split_whitespace s = words_acc [] s"

text \<open>\<open>s.trim().is_empty()\<close>\<close>

definition blank :: "bytes \<Rightarrow> bool" where
  "blank s \<longleftrightarrow> split_whitespace s = []"

text \<open>A line that ends in \<open>\n\<close> loses it and a carriage return before it; an unterminated last line is kept as it is.\<close>

fun strip_cr :: "bytes \<Rightarrow> bytes" where
  "strip_cr cur = (case cur of [] \<Rightarrow> [] | b # r \<Rightarrow> if b = 0x0D then rev r else rev cur)"

fun lines_acc :: "bytes \<Rightarrow> bytes \<Rightarrow> bytes list" where
  "lines_acc cur [] = word_done cur"
| "lines_acc cur (b # r) = (if b = 0x0A then strip_cr cur # lines_acc [] r else lines_acc (b # cur) r)"

definition str_lines :: "bytes \<Rightarrow> bytes list" where
  "str_lines s = lines_acc [] s"

definition split_once :: "byte \<Rightarrow> bytes \<Rightarrow> (bytes \<times> bytes) option" where
  "split_once b s = (if b \<in> set s then Some (takeWhile (\<lambda>x. x \<noteq> b) s, tl (dropWhile (\<lambda>x. x \<noteq> b) s)) else None)"

definition strip_prefix :: "bytes \<Rightarrow> bytes \<Rightarrow> bytes option" where
  "strip_prefix p s = (if take (length p) s = p then Some (drop (length p) s) else None)"

definition strip_suffix_byte :: "byte \<Rightarrow> bytes \<Rightarrow> bytes option" where
  "strip_suffix_byte b s = (if s \<noteq> [] \<and> last s = b then Some (butlast s) else None)"

definition char_boundary :: "bytes \<Rightarrow> nat \<Rightarrow> bool" where
  "char_boundary s i \<longleftrightarrow> i = 0 \<or> i = length s \<or> (i < length s \<and> \<not> cont (s ! i))"

definition str_get_range :: "bytes \<Rightarrow> nat \<Rightarrow> nat \<Rightarrow> bytes option" where
  "str_get_range s i j = (if char_boundary s i \<and> char_boundary s j then get_range s i j else None)"

definition str_get_from :: "bytes \<Rightarrow> nat \<Rightarrow> bytes option" where
  "str_get_from s i = (if char_boundary s i then get_from s i else None)"

section \<open>Numbers\<close>

definition to_digit :: "nat \<Rightarrow> byte \<Rightarrow> nat option" where
  "to_digit radix b =
     (let d = (if 0x30 \<le> b \<and> b \<le> 0x39 then Some (unat b - 0x30)
               else if 0x61 \<le> b \<and> b \<le> 0x7A then Some (unat b - 0x61 + 10)
               else if 0x41 \<le> b \<and> b \<le> 0x5A then Some (unat b - 0x41 + 10) else None)
      in case d of Some v \<Rightarrow> if v < radix then Some v else None | None \<Rightarrow> None)"

fun digits_acc :: "nat \<Rightarrow> nat \<Rightarrow> bytes \<Rightarrow> nat option" where
  "digits_acc radix acc [] = Some acc"
| "digits_acc radix acc (b # bs) =
     (case to_digit radix b of
        None \<Rightarrow> None
      | Some d \<Rightarrow> if acc * radix + d < 2 ^ 64 then digits_acc radix (acc * radix + d) bs else None)"

text \<open>\<open>u64::from_str_radix\<close>; \<open>str::parse::<u64>\<close> is radix ten.\<close>

definition from_str_radix :: "nat \<Rightarrow> bytes \<Rightarrow> u64 option" where
  "from_str_radix radix s =
     (if s = [] \<or> s = [0x2B] \<or> s = [0x2D] then None
      else map_option of_nat (digits_acc radix 0 (if hd s = 0x2B then tl s else s)))"

fun dec_digits :: "nat \<Rightarrow> bytes" where
  "dec_digits n = (if n < 10 then [of_nat (0x30 + n)] else dec_digits (n div 10) @ [of_nat (0x30 + n mod 10)])"

definition u64_to_string :: "u64 \<Rightarrow> bytes" where
  "u64_to_string w = dec_digits (unat w)"

section \<open>Hexadecimal\<close>

definition HEX_DIGITS :: bytes where
  "HEX_DIGITS = [0x30, 0x31, 0x32, 0x33, 0x34, 0x35, 0x36, 0x37, 0x38, 0x39, 0x61, 0x62, 0x63, 0x64, 0x65, 0x66]"

fun push_hex :: "bytes \<Rightarrow> bytes \<Rightarrow> bytes" where
  "push_hex out [] = out"
| "push_hex out (b # bs) = push_hex (out @ [HEX_DIGITS ! unat (drop_bit 4 b), HEX_DIGITS ! unat (b AND 0x0F)]) bs"

definition hex_lower :: "bytes \<Rightarrow> bytes" where
  "hex_lower bs = push_hex [] bs"

text \<open>\<open>format!("{w:016x}")\<close>\<close>

definition fmt_016x :: "u64 \<Rightarrow> bytes" where
  "fmt_016x w = hex_lower (be_bytes 8 w)"

definition hex_value :: "byte \<Rightarrow> byte option" where
  "hex_value b =
     (if 0x30 \<le> b \<and> b \<le> 0x39 then Some (b - 0x30)
      else if 0x61 \<le> b \<and> b \<le> 0x66 then Some (b - 0x61 + 10)
      else if 0x41 \<le> b \<and> b \<le> 0x46 then Some (b - 0x41 + 10) else None)"

fun hex_pairs :: "bytes \<Rightarrow> bytes option" where
  "hex_pairs (a # b # r) =
     (case hex_value a of None \<Rightarrow> None | Some x \<Rightarrow>
        case hex_value b of None \<Rightarrow> None | Some y \<Rightarrow> map_option (\<lambda>t. (push_bit 4 x OR y) # t) (hex_pairs r))"
| "hex_pairs _ = Some []"

definition decode_hex_exact :: "bytes \<Rightarrow> nat \<Rightarrow> bytes option" where
  "decode_hex_exact input out_len = (if length input \<noteq> out_len * 2 then None else hex_pairs input)"

section \<open>Reading what was written\<close>

declare dec_digits.simps [simp del]

definition graphic :: "byte \<Rightarrow> bool" where
  "graphic b \<longleftrightarrow> 0x21 \<le> b \<and> b \<le> 0x7E"

definition printable :: "byte \<Rightarrow> bool" where
  "printable b \<longleftrightarrow> 0x20 \<le> b \<and> b \<le> 0x7E"

lemma byte_range_cases:
  fixes b :: byte
  shows "a \<le> b \<longleftrightarrow> unat a \<le> unat b" "b < a \<longleftrightarrow> unat b < unat a"
  by (simp_all add: word_le_nat_alt word_less_nat_alt)

lemma graphic_printable: "graphic b \<Longrightarrow> printable b"
  unfolding graphic_def printable_def by (auto simp: byte_range_cases)

lemma graphic_facts:
  assumes "graphic b"
  shows "ws_len (b # r) = 0" "b \<noteq> 0x0A" "b \<noteq> 0x0D" "b \<noteq> 0x20" "b < 0x80"
proof -
  have "unat b \<ge> 0x21" "unat b \<le> 0x7E" using assms by (simp_all add: graphic_def byte_range_cases)
  moreover have "b = 0xC2 \<Longrightarrow> unat b = 0xC2" "b = 0xE1 \<Longrightarrow> unat b = 0xE1" "b = 0xE2 \<Longrightarrow> unat b = 0xE2"
    "b = 0xE3 \<Longrightarrow> unat b = 0xE3" "b = 0x0A \<Longrightarrow> unat b = 0x0A" "b = 0x0D \<Longrightarrow> unat b = 0x0D" "b = 0x20 \<Longrightarrow> unat b = 0x20"
    by simp_all
  ultimately show "ws_len (b # r) = 0" "b \<noteq> 0x0A" "b \<noteq> 0x0D" "b \<noteq> 0x20" "b < 0x80"
    unfolding ws_len_def by (auto simp: byte_range_cases)
qed

lemma printable_facts:
  assumes "printable b"
  shows "b \<noteq> 0x0A" "b \<noteq> 0x0D" "b < 0x80"
proof -
  have "unat b \<ge> 0x20" "unat b \<le> 0x7E" using assms by (simp_all add: printable_def byte_range_cases)
  then show "b \<noteq> 0x0A" "b \<noteq> 0x0D" "b < 0x80" by (auto simp: byte_range_cases)
qed

lemma words_acc_token: "list_all graphic t \<Longrightarrow> words_acc cur (t @ r) = words_acc (rev t @ cur) r"
  by (induction t arbitrary: cur) (simp_all add: graphic_facts)

lemma words_space [simp]: "words_acc cur (0x20 # r) = word_done cur @ words_acc [] r"
  by (simp add: ws_len_def)

lemma split_whitespace_token [text_simps]:
  "list_all graphic t \<Longrightarrow> t \<noteq> [] \<Longrightarrow> split_whitespace (t @ 0x20 # r) = t # split_whitespace r"
  by (simp add: split_whitespace_def words_acc_token word_done_def del: words_acc.simps)

lemma split_whitespace_last [text_simps]:
  "list_all graphic t \<Longrightarrow> t \<noteq> [] \<Longrightarrow> split_whitespace t = [t]"
  using words_acc_token [of t "[]" "[]"] by (simp add: split_whitespace_def word_done_def)

lemma not_blank_token: "graphic b \<Longrightarrow> \<not> blank (b # r)"
proof -
  have aux: "words_acc cur s \<noteq> []" if "cur \<noteq> []" for cur s
    using that by (induction cur s rule: words_acc.induct) (auto simp: word_done_def)
  assume "graphic b"
  then show ?thesis
    by (simp add: blank_def split_whitespace_def graphic_facts aux)
qed

lemma lines_acc_line:
  "list_all printable t \<Longrightarrow> lines_acc cur (t @ r) = lines_acc (rev t @ cur) r"
  by (induction t arbitrary: cur) (simp_all add: printable_facts)

lemma str_lines_line [text_simps]:
  "list_all printable t \<Longrightarrow> str_lines (t @ 0x0A # r) = t # str_lines r"
  by (auto simp: str_lines_def lines_acc_line list_all_iff printable_facts split: list.splits)

lemma str_lines_empty [simp]: "str_lines [] = []"
  by (simp add: str_lines_def word_done_def)

lemma strip_prefix_append [text_simps]: "strip_prefix p (p @ r) = Some r"
  by (simp add: strip_prefix_def)

lemma strip_suffix_snoc [text_simps]: "strip_suffix_byte b (s @ [b]) = Some s"
  by (simp add: strip_suffix_byte_def)

lemma ascii_boundary: "is_ascii s \<Longrightarrow> i \<le> length s \<Longrightarrow> char_boundary s i"
proof -
  assume a: "is_ascii s" "i \<le> length s"
  have "\<not> cont (s ! i)" if "i < length s"
  proof -
    have "s ! i < 0x80" using a that by (simp add: is_ascii_def list_all_length)
    then show ?thesis by (auto simp: cont_def)
  qed
  then show ?thesis using a by (auto simp: char_boundary_def)
qed

lemma str_get_ascii [text_simps]:
  "is_ascii s \<Longrightarrow> str_get_range s i j = get_range s i j"
  "is_ascii s \<Longrightarrow> str_get_from s i = get_from s i"
  by (auto simp: str_get_range_def str_get_from_def get_range_def get_from_def ascii_boundary)

lemma is_ascii_append [simp]: "is_ascii (a @ b) \<longleftrightarrow> is_ascii a \<and> is_ascii b"
  by (simp add: is_ascii_def)

lemma is_ascii_Cons [simp]: "is_ascii (b # a) \<longleftrightarrow> b < 0x80 \<and> is_ascii a" "is_ascii []"
  by (simp_all add: is_ascii_def)

lemma printable_ascii: "list_all printable t \<Longrightarrow> is_ascii t"
  by (auto simp: is_ascii_def list_all_iff printable_facts)

subsection \<open>Decimal numbers\<close>

lemma digits_acc_append:
  "digits_acc radix acc (xs @ ys) = Option.bind (digits_acc radix acc xs) (\<lambda>v. digits_acc radix v ys)"
  by (induction xs arbitrary: acc) (simp_all split: option.splits)

lemma unat_dec_digit: "m < 10 \<Longrightarrow> unat (of_nat (0x30 + m) :: byte) = 0x30 + m"
  by (simp add: unsigned_of_nat take_bit_nat_eq_self del: of_nat_add)

lemma to_digit_dec: "n < 10 \<Longrightarrow> to_digit 10 (of_nat (0x30 + n)) = Some n"
proof -
  assume n: "n < 10"
  then have "unat (of_nat (0x30 + n) :: byte) = 0x30 + n"
    by (rule unat_dec_digit)
  then show ?thesis
    using n by (simp add: to_digit_def byte_range_cases del: of_nat_add)
qed

lemma digits_dec: "n < 2 ^ 64 \<Longrightarrow> digits_acc 10 0 (dec_digits n) = Some n"
proof (induction n rule: dec_digits.induct)
  case (1 n)
  show ?case
  proof (cases "n < 10")
    case True
    then show ?thesis by (subst dec_digits.simps) (simp add: to_digit_dec del: of_nat_add)
  next
    case False
    then have "digits_acc 10 0 (dec_digits (n div 10)) = Some (n div 10)"
      using 1 by simp
    then show ?thesis
      using False 1(2) by (subst dec_digits.simps) (simp add: digits_acc_append to_digit_dec del: of_nat_add)
  qed
qed

lemma dec_digits_graphic: "list_all graphic (dec_digits n)"
proof (induction n rule: dec_digits.induct)
  case (1 n)
  have "graphic (of_nat (0x30 + m))" if "m < 10" for m
  proof -
    have "unat (of_nat (0x30 + m) :: byte) = 0x30 + m" using that by (rule unat_dec_digit)
    then show ?thesis using that by (simp add: graphic_def byte_range_cases del: of_nat_add)
  qed
  then show ?case
    using 1 by (subst dec_digits.simps) (simp del: of_nat_add)
qed

lemma dec_digits_head: "\<exists>d r. dec_digits n = of_nat (0x30 + d) # r \<and> d < 10"
proof (induction n rule: dec_digits.induct)
  case (1 n)
  show ?case
  proof (cases "n < 10")
    case True
    then show ?thesis by (subst dec_digits.simps) (auto simp del: of_nat_add)
  next
    case False
    with 1 obtain d r where "dec_digits (n div 10) = of_nat (0x30 + d) # r" "d < 10" by blast
    then show ?thesis using False by (subst dec_digits.simps) (auto simp del: of_nat_add)
  qed
qed

lemma u64_to_string_graphic [text_simps]: "list_all graphic (u64_to_string w)" "u64_to_string w \<noteq> []"
  using dec_digits_head [of "unat w"] by (auto simp: u64_to_string_def dec_digits_graphic)

lemma parse_u64_to_string [text_simps]: "from_str_radix 10 (u64_to_string w) = Some w"
proof -
  obtain d r where dr: "dec_digits (unat w) = of_nat (0x30 + d) # r" "d < 10"
    using dec_digits_head by blast
  have "unat (of_nat (0x30 + d) :: byte) = 0x30 + d" using dr(2) by (rule unat_dec_digit)
  then have "of_nat (0x30 + d) \<noteq> (0x2B :: byte)" "of_nat (0x30 + d) \<noteq> (0x2D :: byte)"
    by (auto simp del: of_nat_add)
  then show ?thesis
    using digits_dec [of "unat w"] unat_lt_exp [of w] dr
    by (simp add: from_str_radix_def u64_to_string_def del: of_nat_add)
qed

subsection \<open>Hexadecimal numbers\<close>

lemma hex_digits_all:
  "list_all (\<lambda>n. hex_value (HEX_DIGITS ! n) = Some (of_nat n) \<and> to_digit 16 (HEX_DIGITS ! n) = Some n \<and>
     graphic (HEX_DIGITS ! n) \<and> HEX_DIGITS ! n \<noteq> 0x2B \<and> HEX_DIGITS ! n \<noteq> 0x2D) [0..<16]"
  by code_simp

lemma hex_digit:
  assumes "n < 16"
  shows "hex_value (HEX_DIGITS ! n) = Some (of_nat n)" "to_digit 16 (HEX_DIGITS ! n) = Some n"
    "graphic (HEX_DIGITS ! n)" "HEX_DIGITS ! n \<noteq> 0x2B" "HEX_DIGITS ! n \<noteq> 0x2D"
  using hex_digits_all assms unfolding list_all_iff by (simp_all del: upt.simps)

lemma push_hex_append: "push_hex out bs = out @ hex_lower bs"
proof -
  have "push_hex (a @ out) bs = a @ push_hex out bs" for a out
    by (induction bs arbitrary: out) (simp_all)
  from this [of out "[]"] show ?thesis by (simp add: hex_lower_def)
qed

lemma hex_lower_Nil [simp]: "hex_lower [] = []"
  by (simp add: hex_lower_def)

lemma hex_lower_Cons [simp]:
  "hex_lower (b # bs) = HEX_DIGITS ! unat (drop_bit 4 b) # HEX_DIGITS ! unat (b AND 0x0F) # hex_lower bs"
proof -
  have "hex_lower (b # bs) = push_hex [HEX_DIGITS ! unat (drop_bit 4 b), HEX_DIGITS ! unat (b AND 0x0F)] bs"
    by (simp add: hex_lower_def)
  then show ?thesis by (simp only: push_hex_append append.simps)
qed

lemma nibbles:
  fixes b :: byte
  shows "unat (drop_bit 4 b) = unat b div 16" "unat (b AND 0x0F) = unat b mod 16"
    "unat b div 16 < 16" "unat b mod 16 < 16"
    "push_bit 4 (of_nat (unat b div 16)) OR of_nat (unat b mod 16) = b"
proof -
  show d: "unat (drop_bit 4 b) = unat b div 16"
    by (simp add: unat_drop_bit_eq drop_bit_eq_div [of _ "unat b"])
  have m: "b AND 0x0F = take_bit 4 b"
    using take_bit_eq_mask [of 4 b] by (simp add: mask_eq_exp_minus_1)
  show m': "unat (b AND 0x0F) = unat b mod 16"
    by (simp add: m unsigned_take_bit_eq take_bit_eq_mod [of _ "unat b"])
  show "unat b div 16 < 16" "unat b mod 16 < 16"
    using unat_lt_exp [of b] by simp_all
  have "of_nat (unat b div 16) = drop_bit 4 b" "of_nat (unat b mod 16) = take_bit 4 b"
    unfolding d [symmetric] m' [symmetric] by (simp_all add: m)
  then show "push_bit 4 (of_nat (unat b div 16)) OR of_nat (unat b mod 16) = b"
    by (simp, intro bit_word_eqI) (auto simp: bit_simps not_less)
qed

lemma hex_pairs_hex_lower [text_simps]: "hex_pairs (hex_lower bs) = Some bs"
  by (induction bs) (simp_all add: hex_digit nibbles)

lemma length_hex_lower [simp]: "length (hex_lower bs) = 2 * length bs"
  by (induction bs) simp_all

lemma hex_lower_graphic [text_simps]: "list_all graphic (hex_lower bs)"
  by (induction bs) (simp_all add: hex_digit nibbles)

lemma hex_lower_eq_Nil [simp]: "hex_lower bs = [] \<longleftrightarrow> bs = []"
  by (cases bs) simp_all

lemma decode_hex_lower [text_simps]: "length bs = n \<Longrightarrow> decode_hex_exact (hex_lower bs) n = Some bs"
  by (simp add: decode_hex_exact_def text_simps)

lemma digits_hex_lower:
  assumes "(acc + 1) * 256 ^ length bs \<le> 2 ^ 64"
  shows "digits_acc 16 acc (hex_lower bs) = Some (foldl (\<lambda>a b. a * 256 + unat b) acc bs)"
  using assms
proof (induction bs arbitrary: acc)
  case (Cons b bs)
  have b: "unat b < 256" using unat_lt_exp [of b] by simp
  have le: "(acc * 256 + unat b + 1) * 256 ^ length bs \<le> (acc + 1) * 256 ^ length (b # bs)"
    using b by (simp add: algebra_simps flip: mult.assoc) 
  have pos: "(1::nat) \<le> 256 ^ length bs" by simp
  have "acc * 256 + unat b + 1 \<le> (acc * 256 + unat b + 1) * 256 ^ length bs"
    using mult_le_mono2 [OF pos, of "acc * 256 + unat b + 1"] by simp
  with le Cons.prems have lt: "acc * 256 + unat b < 2 ^ 64" by linarith
  have split: "(acc * 16 + unat b div 16) * 16 + unat b mod 16 = acc * 256 + unat b"
    by simp
  have lt1: "acc * 16 + unat b div 16 < 2 ^ 64" using lt by simp
  have "digits_acc 16 (acc * 256 + unat b) (hex_lower bs) = Some (foldl (\<lambda>a b. a * 256 + unat b) (acc * 256 + unat b) bs)"
    using le Cons.prems by (intro Cons.IH) linarith
  then show ?case
    using lt lt1 split by (simp add: hex_digit nibbles algebra_simps)
qed simp

lemma foldl_be_bytes:
  fixes w :: "'a::len word"
  shows "foldl (\<lambda>a b. a * 256 + unat b) a (be_bytes n w) = a * 256 ^ n + unat w mod 256 ^ n"
proof (induction n arbitrary: a)
  case (Suc n)
  have "unat (ucast (drop_bit (8 * n) w) :: byte) = unat w div 256 ^ n mod 256"
    by (simp add: unsigned_ucast_eq unat_drop_bit_eq drop_bit_eq_div [of _ "unat w"] take_bit_eq_mod [of _ "_ :: nat"] power_mult)
  moreover have "unat w mod 256 ^ Suc n = (unat w div 256 ^ n mod 256) * 256 ^ n + unat w mod 256 ^ n"
    by (simp add: mod_mult2_eq mult.commute [of 256])
  ultimately show ?case
    using Suc.IH [of "a * 256 + unat w div 256 ^ n mod 256"] by (simp add: add_mult_distrib mult.assoc)
qed simp

lemma length_fmt_016x [simp]: "length (fmt_016x w) = 16"
  by (simp add: fmt_016x_def)

lemma fmt_016x_graphic [text_simps]: "list_all graphic (fmt_016x w)" "fmt_016x w \<noteq> []"
  by (simp_all add: fmt_016x_def hex_lower_graphic)

lemma parse_fmt_016x [text_simps]: "from_str_radix 16 (fmt_016x w) = Some w"
proof -
  have d: "digits_acc 16 0 (fmt_016x w) = Some (unat w)"
    using unat_lt_exp [of w] by (simp add: fmt_016x_def digits_hex_lower foldl_be_bytes)
  obtain b r where br: "be_bytes 8 w = b # r" by (cases "be_bytes 8 w") (auto dest: arg_cong [where f = length])
  then have "fmt_016x w = HEX_DIGITS ! (unat b div 16) # HEX_DIGITS ! (unat b mod 16) # hex_lower r"
    by (simp add: fmt_016x_def nibbles)
  then show ?thesis
    using d by (simp add: from_str_radix_def hex_digit nibbles)
qed

end
