(* ===== verification/Replay_Journal.thy ===== *)
theory Replay_Journal
  imports Rust_Text
begin

text \<open>
  The on-disk format of the replay cache: \<open>crypto/replay.rs\<close>, from \<open>parse_entry\<close> on. A journal is two
  fixed-length header slots and a chain of entry lines; every header and every line carries a MAC, a line's MAC
  covers the one before it, and the header with the highest generation that verifies is the committed one.

  HMAC-SHA-256 is the parameter \<open>hm\<close>. A file is a byte string; \<open>read_to_string\<close> refuses one that is not UTF-8.
\<close>

definition AUTH_JOURNAL_VERSION :: bytes where "AUTH_JOURNAL_VERSION = ascii ''parallax-replay-cache-v4''"
definition LEGACY_AUTH_JOURNAL_VERSION_V3 :: bytes where
  "LEGACY_AUTH_JOURNAL_VERSION_V3 = ascii ''parallax-replay-cache-v3''"
definition CACHE_KEY_LABEL :: bytes where "CACHE_KEY_LABEL = ascii ''ParallaX v1 replay cache MAC key''"
definition CACHE_JOURNAL_HEADER_MAC_LABEL :: bytes where
  "CACHE_JOURNAL_HEADER_MAC_LABEL = ascii ''ParallaX v1 replay cache journal header MAC''"
definition CACHE_JOURNAL_ENTRY_MAC_LABEL :: bytes where
  "CACHE_JOURNAL_ENTRY_MAC_LABEL = ascii ''ParallaX v1 replay cache journal entry MAC''"
definition AUTH_JOURNAL_HEADER_LEN :: nat where "AUTH_JOURNAL_HEADER_LEN = 208"
definition AUTH_JOURNAL_HEADER_SLOTS :: nat where "AUTH_JOURNAL_HEADER_SLOTS = 2"
definition AUTH_JOURNAL_HEADER_REGION_LEN :: nat where
  "AUTH_JOURNAL_HEADER_REGION_LEN = AUTH_JOURNAL_HEADER_LEN * AUTH_JOURNAL_HEADER_SLOTS"

record replay_entry =
  re_timestamp :: u64
  re_nonce :: bytes
  re_transcript :: bytes

datatype replay_cache_error = RcIo | RcMalformedLine bytes | RcMalformedHex | RcMacMismatch | RcClock

record auth_journal_state =
  aj_generation :: u64
  aj_count :: u64
  aj_tail_mac :: bytes
  aj_active_slot :: nat

record header_slot =
  hs_generation :: u64
  hs_count :: u64
  hs_tail_mac :: bytes

section \<open>MACs\<close>

definition cache_mac_key :: "hmac \<Rightarrow> bytes \<Rightarrow> bytes" where
  "cache_mac_key hm key_material = hm key_material CACHE_KEY_LABEL"

definition cache_journal_header_mac :: "hmac \<Rightarrow> bytes \<Rightarrow> u64 \<Rightarrow> u64 \<Rightarrow> bytes \<Rightarrow> bytes" where
  "cache_journal_header_mac hm mac_key generation count tail_mac =
     hm mac_key (CACHE_JOURNAL_HEADER_MAC_LABEL @ be_bytes 8 generation @ be_bytes 8 count @ tail_mac)"

definition legacy_cache_journal_header_mac_v3 :: "hmac \<Rightarrow> bytes \<Rightarrow> u64 \<Rightarrow> bytes \<Rightarrow> bytes" where
  "legacy_cache_journal_header_mac_v3 hm mac_key count tail_mac =
     hm mac_key (CACHE_JOURNAL_HEADER_MAC_LABEL @ be_bytes 8 count @ tail_mac)"

definition cache_journal_entry_mac :: "hmac \<Rightarrow> bytes \<Rightarrow> u64 \<Rightarrow> u64 \<Rightarrow> bytes \<Rightarrow> bytes \<Rightarrow> bytes \<Rightarrow> bytes" where
  "cache_journal_entry_mac hm mac_key index timestamp nonce transcript previous_mac =
     hm mac_key (CACHE_JOURNAL_ENTRY_MAC_LABEL @ be_bytes 8 index @ be_bytes 8 timestamp @ nonce @ transcript @ previous_mac)"

section \<open>Writing\<close>

definition encode_plain_entry :: "replay_entry \<Rightarrow> bytes" where
  "encode_plain_entry e =
     push_hex (push_hex (u64_to_string (re_timestamp e) @ [0x20]) (re_nonce e) @ [0x20]) (re_transcript e) @ [0x0A]"

definition serialize_cached_entries :: "bytes list \<Rightarrow> bytes" where
  "serialize_cached_entries entries = concat entries"

definition encode_authenticated_journal_entry ::
  "hmac \<Rightarrow> bytes \<Rightarrow> u64 \<Rightarrow> replay_entry \<Rightarrow> bytes \<Rightarrow> bytes \<times> bytes" where
  "encode_authenticated_journal_entry hm mac_key index e previous_mac =
     (let entry_mac = cache_journal_entry_mac hm mac_key index (re_timestamp e) (re_nonce e) (re_transcript e) previous_mac;
          line = u64_to_string (re_timestamp e) @ [0x20];
          line = push_hex line (re_nonce e) @ [0x20];
          line = push_hex line (re_transcript e) @ [0x20];
          line = push_hex line previous_mac @ [0x20];
          line = push_hex line entry_mac @ [0x0A]
      in (line, entry_mac))"

definition authenticated_journal_header :: "hmac \<Rightarrow> bytes \<Rightarrow> u64 \<Rightarrow> u64 \<Rightarrow> bytes \<Rightarrow> bytes" where
  "authenticated_journal_header hm mac_key generation count tail_mac =
     (let header_mac = cache_journal_header_mac hm mac_key generation count tail_mac;
          raw = AUTH_JOURNAL_VERSION @ ascii '' gen='' @ fmt_016x generation @ ascii '' count='' @ fmt_016x count @ ascii '' tail='';
          raw = push_hex raw tail_mac @ ascii '' mac=''
      in push_hex raw header_mac @ [0x0A])"

fun serialize_entries :: "hmac \<Rightarrow> bytes \<Rightarrow> u64 \<Rightarrow> bytes \<Rightarrow> bytes \<Rightarrow> replay_entry list \<Rightarrow> bytes \<times> bytes \<times> u64" where
  "serialize_entries hm mac_key count previous_mac body [] = (body, previous_mac, count)"
| "serialize_entries hm mac_key count previous_mac body (e # es) =
     (let (line, entry_mac) = encode_authenticated_journal_entry hm mac_key (count + 1) e previous_mac
      in serialize_entries hm mac_key (count + 1) entry_mac (body @ line) es)"

definition serialize_authenticated_journal :: "hmac \<Rightarrow> bytes \<Rightarrow> replay_entry list \<Rightarrow> bytes \<times> auth_journal_state" where
  "serialize_authenticated_journal hm mac_key entries =
     (let (body, previous_mac, count) = serialize_entries hm mac_key 0 (replicate 32 0) [] entries;
          header = authenticated_journal_header hm mac_key 1 count previous_mac
      in (concat (replicate AUTH_JOURNAL_HEADER_SLOTS header) @ body,
          \<lparr>aj_generation = 1, aj_count = count, aj_tail_mac = previous_mac, aj_active_slot = 0\<rparr>))"

section \<open>Reading\<close>

definition hex_field :: "bytes \<Rightarrow> nat \<Rightarrow> replay_cache_error + bytes" where
  "hex_field h n = ok_or (decode_hex_exact h n) RcMalformedHex"

definition parse_entry :: "bytes \<Rightarrow> replay_cache_error + replay_entry" where
  "parse_entry line =
     (case split_whitespace line of
        [ts, nonce_hex, transcript_hex] \<Rightarrow>
          and_then (ok_or (from_str_radix 10 ts) (RcMalformedLine line)) (\<lambda>timestamp.
          and_then (hex_field nonce_hex 8) (\<lambda>nonce.
          and_then (hex_field transcript_hex 32) (\<lambda>transcript.
          Inr \<lparr>re_timestamp = timestamp, re_nonce = nonce, re_transcript = transcript\<rparr>)))
      | _ \<Rightarrow> Inl (RcMalformedLine line))"

definition parse_authenticated_journal_entry ::
  "hmac \<Rightarrow> bytes \<Rightarrow> u64 \<Rightarrow> bytes \<Rightarrow> bytes \<Rightarrow> replay_cache_error + replay_entry \<times> bytes" where
  "parse_authenticated_journal_entry hm mac_key index expected_previous_mac line =
     (case split_whitespace line of
        [ts, nonce_hex, transcript_hex, previous_mac_hex, entry_mac_hex] \<Rightarrow>
          and_then (ok_or (from_str_radix 10 ts) (RcMalformedLine line)) (\<lambda>timestamp.
          and_then (hex_field nonce_hex 8) (\<lambda>nonce.
          and_then (hex_field transcript_hex 32) (\<lambda>transcript.
          and_then (hex_field previous_mac_hex 32) (\<lambda>previous_mac.
          if previous_mac \<noteq> expected_previous_mac then Inl RcMacMismatch
          else
            and_then (hex_field entry_mac_hex 32) (\<lambda>expected_entry_mac.
            let actual_entry_mac =
                  cache_journal_entry_mac hm mac_key index timestamp nonce transcript expected_previous_mac
            in if actual_entry_mac \<noteq> expected_entry_mac then Inl RcMacMismatch
               else Inr (\<lparr>re_timestamp = timestamp, re_nonce = nonce, re_transcript = transcript\<rparr>, actual_entry_mac))))))
      | _ \<Rightarrow> Inl (RcMalformedLine line))"

text \<open>The fields of a header line, before its MAC is checked.\<close>

definition header_slot_fields :: "bytes \<Rightarrow> replay_cache_error + header_slot \<times> bytes" where
  "header_slot_fields raw_slot =
     and_then (ok_or (strip_suffix_byte 0x0A raw_slot) (RcMalformedLine (ascii ''unterminated header slot''))) (\<lambda>header.
     let bad = RcMalformedLine header in
     case split_whitespace header of
       [version, g, c, t, m] \<Rightarrow>
         if version \<noteq> AUTH_JOURNAL_VERSION then Inl bad
         else
           and_then (ok_or (strip_prefix (ascii ''gen='') g) bad) (\<lambda>generation_hex.
           and_then (ok_or (strip_prefix (ascii ''count='') c) bad) (\<lambda>count_hex.
           and_then (ok_or (strip_prefix (ascii ''tail='') t) bad) (\<lambda>tail_hex.
           and_then (ok_or (strip_prefix (ascii ''mac='') m) bad) (\<lambda>header_mac_hex.
           and_then (ok_or (from_str_radix 16 generation_hex) bad) (\<lambda>generation.
           and_then (ok_or (from_str_radix 16 count_hex) bad) (\<lambda>count.
           and_then (hex_field tail_hex 32) (\<lambda>tail_mac.
           and_then (hex_field header_mac_hex 32) (\<lambda>expected.
           Inr (\<lparr>hs_generation = generation, hs_count = count, hs_tail_mac = tail_mac\<rparr>, expected)))))))))
     | _ \<Rightarrow> Inl bad)"

definition parse_authenticated_journal_header_slot :: "hmac \<Rightarrow> bytes \<Rightarrow> bytes \<Rightarrow> replay_cache_error + header_slot" where
  "parse_authenticated_journal_header_slot hm mac_key raw_slot =
     and_then (header_slot_fields raw_slot) (\<lambda>(slot, expected).
     if cache_journal_header_mac hm mac_key (hs_generation slot) (hs_count slot) (hs_tail_mac slot) \<noteq> expected
     then Inl RcMacMismatch else Inr slot)"

definition parse_legacy_v3_journal_header :: "hmac \<Rightarrow> bytes \<Rightarrow> bytes \<Rightarrow> replay_cache_error + u64 \<times> bytes" where
  "parse_legacy_v3_journal_header hm mac_key header =
     (let bad = RcMalformedLine header in
      case split_whitespace header of
        [version, c, t, m] \<Rightarrow>
          if version \<noteq> LEGACY_AUTH_JOURNAL_VERSION_V3 then Inl bad
          else
            and_then (ok_or (strip_prefix (ascii ''count='') c) bad) (\<lambda>count_hex.
            and_then (ok_or (strip_prefix (ascii ''tail='') t) bad) (\<lambda>tail_hex.
            and_then (ok_or (strip_prefix (ascii ''mac='') m) bad) (\<lambda>header_mac_hex.
            and_then (ok_or (from_str_radix 16 count_hex) bad) (\<lambda>count.
            and_then (hex_field tail_hex 32) (\<lambda>tail_mac.
            and_then (hex_field header_mac_hex 32) (\<lambda>expected.
            if legacy_cache_journal_header_mac_v3 hm mac_key count tail_mac \<noteq> expected then Inl RcMacMismatch
            else Inr (count, tail_mac)))))))
      | _ \<Rightarrow> Inl bad)"

text \<open>The loop \<open>for index in 1..=count\<close> over the lines; it returns the entries, the last MAC and the lines left.\<close>

fun journal_lines ::
  "hmac \<Rightarrow> bytes \<Rightarrow> nat \<Rightarrow> nat \<Rightarrow> bytes \<Rightarrow> bytes list \<Rightarrow> replay_cache_error + replay_entry list \<times> bytes \<times> bytes list" where
  "journal_lines hm mac_key count index previous_mac [] =
     (if count < index then Inr ([], previous_mac, []) else Inl (RcMalformedLine (ascii ''truncated replay journal'')))"
| "journal_lines hm mac_key count index previous_mac (l # ls) =
     (if count < index then Inr ([], previous_mac, l # ls)
      else
        and_then (parse_authenticated_journal_entry hm mac_key (of_nat index) previous_mac l) (\<lambda>(e, entry_mac).
        and_then (journal_lines hm mac_key count (index + 1) entry_mac ls) (\<lambda>(es, last_mac, rest).
        Inr (e # es, last_mac, rest))))"

definition parse_authenticated_journal_body ::
  "hmac \<Rightarrow> bytes \<Rightarrow> u64 \<Rightarrow> bytes \<Rightarrow> bytes \<Rightarrow> replay_cache_error + replay_entry list \<times> bool" where
  "parse_authenticated_journal_body hm mac_key count tail_mac body =
     and_then (journal_lines hm mac_key (unat count) 1 (replicate 32 0) (filter (\<lambda>l. \<not> blank l) (str_lines body)))
       (\<lambda>(entries, previous_mac, rest).
     if previous_mac \<noteq> tail_mac then Inl RcMacMismatch else Inr (entries, rest \<noteq> []))"

record slot_scan =
  ss_best :: "(nat \<times> header_slot) option"
  ss_any_invalid :: bool
  ss_mac_mismatch :: bool

definition scan_slot :: "hmac \<Rightarrow> bytes \<Rightarrow> bytes \<Rightarrow> nat \<Rightarrow> slot_scan \<Rightarrow> slot_scan" where
  "scan_slot hm mac_key raw slot_index s =
     (let start = slot_index * AUTH_JOURNAL_HEADER_LEN in
      case str_get_range raw start (start + AUTH_JOURNAL_HEADER_LEN) of
        None \<Rightarrow> s\<lparr>ss_any_invalid := True\<rparr>
      | Some raw_slot \<Rightarrow>
          (case parse_authenticated_journal_header_slot hm mac_key raw_slot of
             Inl err \<Rightarrow> s\<lparr>ss_any_invalid := True, ss_mac_mismatch := ss_mac_mismatch s \<or> err = RcMacMismatch\<rparr>
           | Inr slot \<Rightarrow>
               if (case ss_best s of Some (_, current) \<Rightarrow> hs_generation slot > hs_generation current | None \<Rightarrow> True)
               then s\<lparr>ss_best := Some (slot_index, slot)\<rparr> else s))"

definition scan_slots :: "hmac \<Rightarrow> bytes \<Rightarrow> bytes \<Rightarrow> slot_scan" where
  "scan_slots hm mac_key raw =
     fold (scan_slot hm mac_key raw) [0..<AUTH_JOURNAL_HEADER_SLOTS]
       \<lparr>ss_best = None, ss_any_invalid = False, ss_mac_mismatch = False\<rparr>"

definition parse_authenticated_journal_entries ::
  "hmac \<Rightarrow> bytes \<Rightarrow> bytes \<Rightarrow> replay_cache_error + replay_entry list \<times> auth_journal_state \<times> bool" where
  "parse_authenticated_journal_entries hm mac_key raw =
     (if strip_prefix LEGACY_AUTH_JOURNAL_VERSION_V3 raw \<noteq> None
      then
        and_then (ok_or (split_once 0x0A raw) (RcMalformedLine (ascii ''missing replay cache header''))) (\<lambda>(header, body).
        and_then (parse_legacy_v3_journal_header hm mac_key header) (\<lambda>(count, tail_mac).
        and_then (parse_authenticated_journal_body hm mac_key count tail_mac body) (\<lambda>(entries, _).
        Inr (entries, \<lparr>aj_generation = 0, aj_count = count, aj_tail_mac = tail_mac, aj_active_slot = 0\<rparr>, True))))
      else
        (let s = scan_slots hm mac_key raw in
         case ss_best s of
           None \<Rightarrow> Inl (if ss_mac_mismatch s then RcMacMismatch
                       else RcMalformedLine (ascii ''no valid replay cache header slot''))
         | Some (active_slot, header) \<Rightarrow>
             and_then (ok_or (str_get_from raw AUTH_JOURNAL_HEADER_REGION_LEN)
               (RcMalformedLine (ascii ''truncated replay cache header region''))) (\<lambda>body.
             and_then (parse_authenticated_journal_body hm mac_key (hs_count header) (hs_tail_mac header) body)
               (\<lambda>(entries, has_uncommitted_tail).
             Inr (entries,
                  \<lparr>aj_generation = hs_generation header, aj_count = hs_count header, aj_tail_mac = hs_tail_mac header,
                   aj_active_slot = active_slot\<rparr>,
                  has_uncommitted_tail \<or> ss_any_invalid s)))))"

section \<open>Entry lines\<close>

definition entry_wf :: "replay_entry \<Rightarrow> bool" where
  "entry_wf e \<longleftrightarrow> length (re_nonce e) = 8 \<and> length (re_transcript e) = 32"

text \<open>A line without its newline, and the chain of lines of a list of entries with its last MAC.\<close>

definition entry_text :: "hmac \<Rightarrow> bytes \<Rightarrow> u64 \<Rightarrow> replay_entry \<Rightarrow> bytes \<Rightarrow> bytes" where
  "entry_text hm k i e prev =
     u64_to_string (re_timestamp e) @ 0x20 # hex_lower (re_nonce e) @ 0x20 # hex_lower (re_transcript e) @
     0x20 # hex_lower prev @
     0x20 # hex_lower (cache_journal_entry_mac hm k i (re_timestamp e) (re_nonce e) (re_transcript e) prev)"

definition entry_mac :: "hmac \<Rightarrow> bytes \<Rightarrow> u64 \<Rightarrow> replay_entry \<Rightarrow> bytes \<Rightarrow> bytes" where
  "entry_mac hm k i e prev = cache_journal_entry_mac hm k i (re_timestamp e) (re_nonce e) (re_transcript e) prev"

fun chain :: "hmac \<Rightarrow> bytes \<Rightarrow> nat \<Rightarrow> bytes \<Rightarrow> replay_entry list \<Rightarrow> bytes list \<times> bytes" where
  "chain hm k i prev [] = ([], prev)"
| "chain hm k i prev (e # es) =
     (let (ls, m) = chain hm k (Suc i) (entry_mac hm k (of_nat i) e prev) es in (entry_text hm k (of_nat i) e prev # ls, m))"

definition unlines :: "bytes list \<Rightarrow> bytes" where
  "unlines ls = concat (map (\<lambda>l. l @ [0x0A]) ls)"

lemma unlines_simps [simp]: "unlines [] = []" "unlines (l # ls) = l @ 0x0A # unlines ls" "unlines (a @ b) = unlines a @ unlines b"
  by (simp_all add: unlines_def)

lemma encode_entry_text:
  "encode_authenticated_journal_entry hm k i e prev = (entry_text hm k i e prev @ [0x0A], entry_mac hm k i e prev)"
  by (simp add: encode_authenticated_journal_entry_def entry_text_def entry_mac_def push_hex_append Let_def)

lemma length_entry_mac [simp]: "hmac_correct hm \<Longrightarrow> length (entry_mac hm k i e prev) = 32"
  by (simp add: entry_mac_def cache_journal_entry_mac_def hmac_correct_def)

lemma parse_entry_text:
  assumes "hmac_correct hm" "entry_wf e" "length prev = 32"
  shows "parse_authenticated_journal_entry hm k i prev (entry_text hm k i e prev) = Inr (e, entry_mac hm k i e prev)"
proof -
  have n: "re_nonce e \<noteq> []" "re_transcript e \<noteq> []" "prev \<noteq> []"
    using assms by (auto simp: entry_wf_def)
  have m: "length (cache_journal_entry_mac hm k i (re_timestamp e) (re_nonce e) (re_transcript e) prev) = 32"
    using assms(1) by (simp add: cache_journal_entry_mac_def hmac_correct_def)
  then have m': "cache_journal_entry_mac hm k i (re_timestamp e) (re_nonce e) (re_transcript e) prev \<noteq> []"
    by auto
  show ?thesis
    using assms(2,3) n m m'
    by (simp add: parse_authenticated_journal_entry_def entry_text_def entry_mac_def text_simps hex_field_def entry_wf_def)
qed

lemma plain_entry_roundtrip:
  assumes "entry_wf e"
  shows "encode_plain_entry e = butlast (encode_plain_entry e) @ [0x0A]" "parse_entry (butlast (encode_plain_entry e)) = Inr e"
    "list_all printable (butlast (encode_plain_entry e))"
proof -
  have n: "re_nonce e \<noteq> []" "re_transcript e \<noteq> []"
    using assms by (auto simp: entry_wf_def)
  have b: "encode_plain_entry e = (u64_to_string (re_timestamp e) @ 0x20 # hex_lower (re_nonce e) @ 0x20 # hex_lower (re_transcript e)) @ [0x0A]"
    by (simp add: encode_plain_entry_def push_hex_append)
  show "encode_plain_entry e = butlast (encode_plain_entry e) @ [0x0A]" "parse_entry (butlast (encode_plain_entry e)) = Inr e"
    unfolding b butlast_snoc using assms n by (simp_all add: parse_entry_def text_simps hex_field_def entry_wf_def)
  have g: "list_all graphic t \<Longrightarrow> list_all printable t" for t
    by (auto simp: list_all_iff graphic_printable)
  have "printable 0x20" by (simp add: printable_def)
  then show "list_all printable (butlast (encode_plain_entry e))"
    unfolding b butlast_snoc by (simp add: g text_simps)
qed

lemma entry_text_printable: "list_all printable (entry_text hm k i e prev)"
proof -
  have g: "list_all graphic t \<Longrightarrow> list_all printable t" for t
    by (auto simp: list_all_iff graphic_printable)
  have "printable 0x20" by (simp add: printable_def)
  then show ?thesis by (simp add: entry_text_def g text_simps)
qed

lemma entry_text_not_blank: "\<not> blank (entry_text hm k i e prev)"
proof -
  obtain b r where "u64_to_string (re_timestamp e) = b # r" "graphic b"
    using u64_to_string_graphic [of "re_timestamp e"] by (cases "u64_to_string (re_timestamp e)") auto
  then show ?thesis by (simp add: entry_text_def not_blank_token)
qed

section \<open>Chains\<close>

lemma chain_lines:
  "list_all printable l \<and> \<not> blank l" if "l \<in> set (fst (chain hm k i prev es))"
  using that
  by (induction es arbitrary: i prev) (auto simp: Let_def split_def entry_text_printable entry_text_not_blank)

lemma length_chain [simp]: "length (fst (chain hm k i prev es)) = length es"
  by (induction es arbitrary: i prev) (simp_all add: Let_def split_def)

lemma length_chain_mac [simp]:
  "hmac_correct hm \<Longrightarrow> length prev = 32 \<Longrightarrow> length (snd (chain hm k i prev es)) = 32"
  by (induction es arbitrary: i prev) (simp_all add: Let_def split_def)

lemma chain_snoc:
  "chain hm k i prev (es @ [e]) =
     (fst (chain hm k i prev es) @ [entry_text hm k (of_nat (i + length es)) e (snd (chain hm k i prev es))],
      entry_mac hm k (of_nat (i + length es)) e (snd (chain hm k i prev es)))"
  by (induction es arbitrary: i prev) (simp_all add: Let_def split_def ac_simps)

lemma serialize_entries_chain:
  "serialize_entries hm k (of_nat i) prev body es =
     (body @ unlines (fst (chain hm k (Suc i) prev es)), snd (chain hm k (Suc i) prev es), of_nat (i + length es))"
proof (induction es arbitrary: i prev body)
  case (Cons e es)
  have c: "of_nat i + (1::u64) = of_nat (Suc i)" by simp
  show ?case
    unfolding serialize_entries.simps encode_entry_text Let_def prod.case c Cons.IH
    by (simp add: Let_def split_def)
qed simp

lemma journal_lines_chain:
  assumes "hmac_correct hm" "list_all entry_wf es" "length prev = 32" "n + 1 = i + length es" "0 < i"
  shows "journal_lines hm k n i prev (fst (chain hm k i prev es) @ rest) = Inr (es, snd (chain hm k i prev es), rest)"
  using assms
proof (induction es arbitrary: i prev)
  case Nil
  then show ?case by (cases rest) simp_all
next
  case (Cons e es)
  have "journal_lines hm k n (Suc i) (entry_mac hm k (of_nat i) e prev)
      (fst (chain hm k (Suc i) (entry_mac hm k (of_nat i) e prev) es) @ rest) =
    Inr (es, snd (chain hm k (Suc i) (entry_mac hm k (of_nat i) e prev) es), rest)"
    using Cons.prems by (intro Cons.IH) simp_all
  then show ?case
    using Cons.prems by (simp add: Let_def split_def parse_entry_text)
qed

lemma str_lines_unlines:
  "(\<And>l. l \<in> set ls \<Longrightarrow> list_all printable l) \<Longrightarrow> str_lines (unlines ls @ r) = ls @ str_lines r"
  by (induction ls) (simp_all add: text_simps)

definition zero_mac :: bytes where "zero_mac = replicate 32 0"

lemma parse_body_chain:
  assumes "hmac_correct hm" "list_all entry_wf es" "length es < 2 ^ 64"
  shows "parse_authenticated_journal_body hm k (of_nat (length es)) (snd (chain hm k 1 zero_mac es))
      (unlines (fst (chain hm k 1 zero_mac es)) @ junk) =
    Inr (es, filter (\<lambda>l. \<not> blank l) (str_lines junk) \<noteq> [])"
proof -
  have "filter (\<lambda>l. \<not> blank l) (fst (chain hm k 1 zero_mac es)) = fst (chain hm k 1 zero_mac es)"
    using chain_lines by (auto simp: filter_id_conv)
  moreover have "unat (of_nat (length es) :: u64) = length es"
    using assms(3) by (simp add: unsigned_of_nat take_bit_nat_eq_self)
  ultimately show ?thesis
    using assms chain_lines journal_lines_chain [of hm es zero_mac "length es" 1]
    by (simp add: parse_authenticated_journal_body_def str_lines_unlines zero_mac_def)
qed

section \<open>Header slots\<close>

text \<open>The text of a slot with the given fields, the header of a slot record, and a slot torn by a write that
  stopped after \<open>n\<close> bytes.\<close>

definition slot_text :: "bytes \<Rightarrow> bytes \<Rightarrow> bytes \<Rightarrow> bytes \<Rightarrow> bytes" where
  "slot_text g c t m =
     AUTH_JOURNAL_VERSION @ ascii '' gen='' @ g @ ascii '' count='' @ c @ ascii '' tail='' @ t @ ascii '' mac='' @ m @ [0x0A]"

definition slot_header :: "hmac \<Rightarrow> bytes \<Rightarrow> header_slot \<Rightarrow> bytes" where
  "slot_header hm k s = authenticated_journal_header hm k (hs_generation s) (hs_count s) (hs_tail_mac s)"

definition slot_mac :: "hmac \<Rightarrow> bytes \<Rightarrow> header_slot \<Rightarrow> bytes" where
  "slot_mac hm k s = cache_journal_header_mac hm k (hs_generation s) (hs_count s) (hs_tail_mac s)"

definition torn :: "nat \<Rightarrow> bytes \<Rightarrow> bytes \<Rightarrow> bytes" where
  "torn n new old = take n new @ drop n old"

lemma slot_header_text:
  "slot_header hm k s =
     slot_text (fmt_016x (hs_generation s)) (fmt_016x (hs_count s)) (hex_lower (hs_tail_mac s)) (hex_lower (slot_mac hm k s))"
  by (simp add: slot_header_def slot_text_def slot_mac_def authenticated_journal_header_def push_hex_append Let_def)

lemma length_slot_mac [simp]: "hmac_correct hm \<Longrightarrow> length (slot_mac hm k s) = 32"
  by (simp add: slot_mac_def cache_journal_header_mac_def hmac_correct_def)

lemma length_version [simp]: "length AUTH_JOURNAL_VERSION = 24" "length LEGACY_AUTH_JOURNAL_VERSION_V3 = 24"
  by (simp_all add: AUTH_JOURNAL_VERSION_def LEGACY_AUTH_JOURNAL_VERSION_V3_def ascii_def)

lemma slot_labels:
  "list_all graphic AUTH_JOURNAL_VERSION" "AUTH_JOURNAL_VERSION \<noteq> []" "AUTH_JOURNAL_VERSION \<noteq> LEGACY_AUTH_JOURNAL_VERSION_V3"
  "ascii '' gen='' = 0x20 # ascii ''gen=''" "ascii '' count='' = 0x20 # ascii ''count=''"
  "ascii '' tail='' = 0x20 # ascii ''tail=''" "ascii '' mac='' = 0x20 # ascii ''mac=''"
  "list_all graphic (ascii ''gen='')" "list_all graphic (ascii ''count='')"
  "list_all graphic (ascii ''tail='')" "list_all graphic (ascii ''mac='')"
  "ascii ''gen='' \<noteq> []" "ascii ''count='' \<noteq> []" "ascii ''tail='' \<noteq> []" "ascii ''mac='' \<noteq> []"
  "length (ascii '' gen='') = 5" "length (ascii '' count='') = 7" "length (ascii '' tail='') = 6" "length (ascii '' mac='') = 5"
  by (simp_all add: AUTH_JOURNAL_VERSION_def LEGACY_AUTH_JOURNAL_VERSION_V3_def ascii_def graphic_def)

lemma length_slot_text:
  "length g = 16 \<Longrightarrow> length c = 16 \<Longrightarrow> length t = 64 \<Longrightarrow> length m = 64 \<Longrightarrow> length (slot_text g c t m) = 208"
  by (simp add: slot_text_def slot_labels(16-19))

lemma slot_text_fields:
  assumes "length t = 32" "length m = 32"
  shows "header_slot_fields (slot_text (fmt_016x g) (fmt_016x c) (hex_lower t) (hex_lower m)) =
    Inr (\<lparr>hs_generation = g, hs_count = c, hs_tail_mac = t\<rparr>, m)"
proof -
  let ?G = "ascii ''gen='' @ fmt_016x g" and ?C = "ascii ''count='' @ fmt_016x c"
  let ?T = "ascii ''tail='' @ hex_lower t" and ?M = "ascii ''mac='' @ hex_lower m"
  have e: "slot_text (fmt_016x g) (fmt_016x c) (hex_lower t) (hex_lower m) =
      (AUTH_JOURNAL_VERSION @ 0x20 # ?G @ 0x20 # ?C @ 0x20 # ?T @ 0x20 # ?M) @ [0x0A]"
    by (simp add: slot_text_def slot_labels)
  have w: "split_whitespace (AUTH_JOURNAL_VERSION @ 0x20 # ?G @ 0x20 # ?C @ 0x20 # ?T @ 0x20 # ?M) =
      [AUTH_JOURNAL_VERSION, ?G, ?C, ?T, ?M]"
    using slot_labels split_whitespace_token [of AUTH_JOURNAL_VERSION] split_whitespace_token [of ?G]
      split_whitespace_token [of ?C] split_whitespace_token [of ?T] split_whitespace_last [of ?M]
    by (simp add: text_simps)
  show ?thesis
    unfolding header_slot_fields_def e strip_suffix_snoc ok_or_simps and_then_simps Let_def w list.case
    using assms by (simp add: text_simps hex_field_def)
qed

lemma parse_slot_header:
  assumes "hmac_correct hm" "length (hs_tail_mac s) = 32"
  shows "parse_authenticated_journal_header_slot hm k (slot_header hm k s) = Inr s"
  using assms
  by (simp add: parse_authenticated_journal_header_slot_def slot_header_text slot_text_fields slot_mac_def [symmetric])
    (simp add: slot_mac_def)

lemma length_slot_header:
  "hmac_correct hm \<Longrightarrow> length (hs_tail_mac s) = 32 \<Longrightarrow> length (slot_header hm k s) = 208"
  by (simp add: slot_header_text length_slot_text)

lemma graphic_ascii: "list_all graphic t \<Longrightarrow> is_ascii t"
  by (auto simp: is_ascii_def list_all_iff graphic_facts)

lemma slot_text_ascii:
  "list_all graphic g \<Longrightarrow> list_all graphic c \<Longrightarrow> list_all graphic t \<Longrightarrow> list_all graphic m \<Longrightarrow> is_ascii (slot_text g c t m)"
  using slot_labels by (simp add: slot_text_def graphic_ascii)

subsection \<open>Torn slots\<close>

lemma torn_append:
  "length a = length b \<Longrightarrow> torn n (a @ a') (b @ b') = torn n a b @ torn (n - length b) a' b'"
  by (cases "n \<le> length b") (simp_all add: torn_def)

lemma torn_same [simp]: "torn n a a = a"
  by (simp add: torn_def)

lemma torn_0: "torn 0 a b = b"
  by (simp add: torn_def)

lemma torn_all: "length b \<le> n \<Longrightarrow> length a = length b \<Longrightarrow> torn n a b = a"
  by (simp add: torn_def)

lemma length_torn [simp]: "length a = length b \<Longrightarrow> length (torn n a b) = length b"
  by (simp add: torn_def)

definition hex_text :: "bytes \<Rightarrow> bool" where
  "hex_text s \<longleftrightarrow> set s \<subseteq> set HEX_DIGITS"

lemma hex_text_torn: "hex_text a \<Longrightarrow> hex_text b \<Longrightarrow> hex_text (torn n a b)"
  by (auto simp: hex_text_def torn_def dest!: in_set_takeD in_set_dropD)

lemma hex_text_hex_lower: "hex_text (hex_lower bs)"
proof (induction bs)
  case (Cons b bs)
  have "length HEX_DIGITS = 16" by (simp add: HEX_DIGITS_def)
  then have "HEX_DIGITS ! (unat b div 16) \<in> set HEX_DIGITS" "HEX_DIGITS ! (unat b mod 16) \<in> set HEX_DIGITS"
    using nibbles(3,4) [of b] by (auto intro!: nth_mem)
  then show ?case using Cons by (simp add: hex_text_def nibbles)
qed (simp add: hex_text_def)

lemma hex_pair:
  assumes "x \<in> set HEX_DIGITS" "y \<in> set HEX_DIGITS"
  shows "\<exists>b. [x, y] = hex_lower [b]"
proof -
  have "length HEX_DIGITS = 16" by (simp add: HEX_DIGITS_def)
  then obtain i j where ij: "i < 16" "j < 16" "x = HEX_DIGITS ! i" "y = HEX_DIGITS ! j"
    using assms by (metis in_set_conv_nth)
  have "unat (of_nat (16 * i + j) :: byte) = 16 * i + j"
    using ij by (simp add: unsigned_of_nat take_bit_nat_eq_self del: of_nat_add of_nat_mult)
  then have "hex_lower [of_nat (16 * i + j)] = [x, y]"
    using ij by (simp add: nibbles del: of_nat_add of_nat_mult)
  then show ?thesis by metis
qed

lemma hex_text_ex:
  assumes "hex_text s" "length s = 2 * n"
  shows "\<exists>bs. s = hex_lower bs \<and> length bs = n"
  using assms
proof (induction n arbitrary: s)
  case (Suc n)
  then obtain x y r where s: "s = x # y # r"
    by (cases s; cases "tl s") auto
  with Suc obtain bs where "r = hex_lower bs" "length bs = n"
    by (auto simp: hex_text_def)
  moreover obtain b where "[x, y] = hex_lower [b]"
    using hex_pair [of x y] Suc.prems s by (auto simp: hex_text_def)
  ultimately show ?case
    unfolding s by (intro exI [of _ "b # bs"]) simp
qed simp

lemma hex_text_fmt:
  assumes "hex_text s" "length s = 16"
  shows "\<exists>w. s = fmt_016x w"
proof -
  obtain bs where bs: "s = hex_lower bs" "length bs = 8"
    using hex_text_ex [of s 8] assms by auto
  have "be_bytes (length bs) (from_be bs :: u64) = bs"
    using bs(2) by (intro be_bytes_from_be) simp
  then have "s = fmt_016x (from_be bs)"
    using bs by (simp add: fmt_016x_def)
  then show ?thesis ..
qed

lemma torn_slot_text:
  assumes "length g = length g'" "length c = length c'" "length t = length t'" "length m = length m'"
  shows "torn n (slot_text g c t m) (slot_text g' c' t' m') =
    slot_text (torn (n - 29) g g') (torn (n - (36 + length g')) c c') (torn (n - (42 + length g' + length c')) t t')
      (torn (n - (47 + length g' + length c' + length t')) m m')"
  using assms slot_labels(16-19)
  by (simp add: slot_text_def torn_append [of _ "[_]"] torn_append add.commute add.left_commute)

text \<open>What is assumed of the MAC: among the slots a torn write of \<open>new\<close> over \<open>old\<close> can leave, none with other
  fields has the MAC of \<open>old\<close>.\<close>

definition mac_separates :: "hmac \<Rightarrow> bytes \<Rightarrow> bytes \<Rightarrow> bytes \<Rightarrow> bool" where
  "mac_separates hm k new old \<longleftrightarrow>
     (\<forall>n s m s0 m0. header_slot_fields (torn n new old) = Inr (s, m) \<longrightarrow> header_slot_fields old = Inr (s0, m0) \<longrightarrow>
        slot_mac hm k s = m0 \<longrightarrow> s = s0)"

lemma hex_lower_inject [simp]: "hex_lower a = hex_lower b \<longleftrightarrow> a = b"
  by (metis hex_pairs_hex_lower option.inject)

lemma torn_slot_shape:
  assumes "hmac_correct hm" "length (hs_tail_mac new) = 32" "length (hs_tail_mac old) = 32"
  obtains g c t m where
    "torn n (slot_header hm k new) (slot_header hm k old) = slot_text (fmt_016x g) (fmt_016x c) (hex_lower t) (hex_lower m)"
    "length t = 32" "length m = 32"
    "n \<le> 143 \<Longrightarrow> m = slot_mac hm k old"
    "\<not> n \<le> 143 \<Longrightarrow> g = hs_generation new \<and> c = hs_count new \<and> t = hs_tail_mac new"
proof -
  let ?G = "torn (n - 29) (fmt_016x (hs_generation new)) (fmt_016x (hs_generation old))"
  let ?C = "torn (n - 52) (fmt_016x (hs_count new)) (fmt_016x (hs_count old))"
  let ?T = "torn (n - 74) (hex_lower (hs_tail_mac new)) (hex_lower (hs_tail_mac old))"
  let ?M = "torn (n - 143) (hex_lower (slot_mac hm k new)) (hex_lower (slot_mac hm k old))"
  have hx: "hex_text ?G" "hex_text ?C" "hex_text ?T" "hex_text ?M"
    by (simp_all add: hex_text_torn hex_text_hex_lower fmt_016x_def)
  obtain g c where gc: "?G = fmt_016x g" "?C = fmt_016x c"
    using hex_text_fmt [OF hx(1)] hex_text_fmt [OF hx(2)] by auto
  obtain t m where tm: "?T = hex_lower t" "length t = 32" "?M = hex_lower m" "length m = 32"
    using hex_text_ex [OF hx(3), of 32] hex_text_ex [OF hx(4), of 32] assms by auto
  have eq: "torn n (slot_header hm k new) (slot_header hm k old) = slot_text ?G ?C ?T ?M"
    using assms unfolding slot_header_text by (subst torn_slot_text) (simp_all add: fmt_016x_def)
  have f: "fmt_016x a = fmt_016x b \<longleftrightarrow> a = b" for a b
    by (metis parse_fmt_016x option.inject)
  have "m = slot_mac hm k old" if "n \<le> 143"
    using tm(3) that by (simp add: torn_0)
  moreover have "g = hs_generation new \<and> c = hs_count new \<and> t = hs_tail_mac new" if "\<not> n \<le> 143"
  proof -
    have "?G = fmt_016x (hs_generation new)" "?C = fmt_016x (hs_count new)" "?T = hex_lower (hs_tail_mac new)"
      using that assms by (simp_all add: torn_all)
    then show ?thesis using gc tm(1) by (simp add: f)
  qed
  ultimately show ?thesis
    using that eq gc tm by metis
qed

lemma torn_slot_verifies:
  assumes "hmac_correct hm" "length (hs_tail_mac new) = 32" "length (hs_tail_mac old) = 32"
    and "mac_separates hm k (slot_header hm k new) (slot_header hm k old)"
    and "parse_authenticated_journal_header_slot hm k (torn n (slot_header hm k new) (slot_header hm k old)) = Inr s"
  shows "torn n (slot_header hm k new) (slot_header hm k old) \<in> {slot_header hm k new, slot_header hm k old}"
proof -
  obtain g c t m where sh:
    "torn n (slot_header hm k new) (slot_header hm k old) = slot_text (fmt_016x g) (fmt_016x c) (hex_lower t) (hex_lower m)"
    "length t = 32" "length m = 32" "n \<le> 143 \<Longrightarrow> m = slot_mac hm k old"
    "\<not> n \<le> 143 \<Longrightarrow> g = hs_generation new \<and> c = hs_count new \<and> t = hs_tail_mac new"
    using torn_slot_shape [OF assms(1-3)] by metis
  define f where "f = \<lparr>hs_generation = g, hs_count = c, hs_tail_mac = t\<rparr>"
  have fields: "header_slot_fields (torn n (slot_header hm k new) (slot_header hm k old)) = Inr (f, m)"
    using slot_text_fields [OF sh(2,3)] by (simp add: sh(1) f_def)
  then have mac: "slot_mac hm k f = m"
    using assms(5) by (auto simp: parse_authenticated_journal_header_slot_def slot_mac_def split: if_splits)
  have t: "torn n (slot_header hm k new) (slot_header hm k old) = slot_header hm k f"
    unfolding sh(1) slot_header_text [of hm k f] mac by (simp add: f_def)
  have old: "header_slot_fields (slot_header hm k old) = Inr (old, slot_mac hm k old)"
    using assms(1,3) by (simp add: slot_header_text slot_text_fields)
  show ?thesis
  proof (cases "n \<le> 143")
    case True
    then have "f = old"
      using assms(4) fields old mac sh(4) unfolding mac_separates_def by metis
    then show ?thesis using t by simp
  next
    case False
    then have "f = new" using sh(5) by (simp add: f_def)
    then show ?thesis using t by simp
  qed
qed

lemma torn_slot_safe:
  assumes "hmac_correct hm" "length (hs_tail_mac new) = 32" "length (hs_tail_mac old) = 32"
  shows "length (torn n (slot_header hm k new) (slot_header hm k old)) = 208"
    "is_ascii (torn n (slot_header hm k new) (slot_header hm k old))"
    "take 24 (torn n (slot_header hm k new) (slot_header hm k old)) = AUTH_JOURNAL_VERSION"
proof -
  obtain g c t m where sh:
    "torn n (slot_header hm k new) (slot_header hm k old) = slot_text (fmt_016x g) (fmt_016x c) (hex_lower t) (hex_lower m)"
    "length t = 32" "length m = 32"
    using torn_slot_shape [OF assms] by metis
  show "length (torn n (slot_header hm k new) (slot_header hm k old)) = 208"
    using sh by (simp add: length_slot_text)
  show "is_ascii (torn n (slot_header hm k new) (slot_header hm k old))"
    unfolding sh(1) by (intro slot_text_ascii) (simp_all add: text_simps)
  show "take 24 (torn n (slot_header hm k new) (slot_header hm k old)) = AUTH_JOURNAL_VERSION"
    unfolding sh(1) by (simp add: slot_text_def)
qed

lemma slot_header_safe:
  assumes "hmac_correct hm" "length (hs_tail_mac s) = 32"
  shows "length (slot_header hm k s) = 208" "is_ascii (slot_header hm k s)" "take 24 (slot_header hm k s) = AUTH_JOURNAL_VERSION"
  using torn_slot_safe [OF assms(1) assms(2) assms(2), of 0] by simp_all

section \<open>Whole files\<close>

definition pick_slot ::
  "replay_cache_error + header_slot \<Rightarrow> replay_cache_error + header_slot \<Rightarrow> (nat \<times> header_slot) option" where
  "pick_slot r0 r1 =
     (case r0 of
        Inl _ \<Rightarrow> (case r1 of Inl _ \<Rightarrow> None | Inr b \<Rightarrow> Some (1, b))
      | Inr a \<Rightarrow> (case r1 of Inl _ \<Rightarrow> Some (0, a) | Inr b \<Rightarrow> if hs_generation b > hs_generation a then Some (1, b) else Some (0, a)))"

lemma parse_two_slots:
  assumes "length s0 = 208" "length s1 = 208" "is_ascii (s0 @ s1 @ body)" "take 24 s0 = AUTH_JOURNAL_VERSION"
    and "pick_slot (parse_authenticated_journal_header_slot hm k s0) (parse_authenticated_journal_header_slot hm k s1) = Some (i, h)"
    and "parse_authenticated_journal_body hm k (hs_count h) (hs_tail_mac h) body = Inr (es, tailed)"
  shows "parse_authenticated_journal_entries hm k (s0 @ s1 @ body) =
    Inr (es, \<lparr>aj_generation = hs_generation h, aj_count = hs_count h, aj_tail_mac = hs_tail_mac h, aj_active_slot = i\<rparr>,
      tailed \<or> \<not> is_ok (parse_authenticated_journal_header_slot hm k s0) \<or> \<not> is_ok (parse_authenticated_journal_header_slot hm k s1))"
proof -
  have v: "strip_prefix LEGACY_AUTH_JOURNAL_VERSION_V3 (s0 @ s1 @ body) = None"
    using assms(1,4) slot_labels(3) by (simp add: strip_prefix_def)
  have g0: "str_get_range (s0 @ s1 @ body) 0 208 = Some s0" and g1: "str_get_range (s0 @ s1 @ body) 208 416 = Some s1"
    using assms(1,2) by (simp_all add: str_get_ascii(1) [OF assms(3)] get_range_def)
  have b: "str_get_from (s0 @ s1 @ body) 416 = Some body"
    using assms(1,2) by (simp add: str_get_ascii(2) [OF assms(3)] get_from_def)
  have two: "[0..<2] = [0, Suc 0]" by (simp add: upt_rec)
  let ?s = "scan_slots hm k (s0 @ s1 @ body)"
  have best: "ss_best ?s = Some (i, h)"
    using assms(5) g0 g1
    by (auto simp: scan_slots_def scan_slot_def AUTH_JOURNAL_HEADER_SLOTS_def AUTH_JOURNAL_HEADER_LEN_def two pick_slot_def
        split: sum.splits if_splits)
  have inv: "ss_any_invalid ?s \<longleftrightarrow> \<not> is_ok (parse_authenticated_journal_header_slot hm k s0) \<or>
      \<not> is_ok (parse_authenticated_journal_header_slot hm k s1)"
    using g0 g1
    by (auto simp: scan_slots_def scan_slot_def AUTH_JOURNAL_HEADER_SLOTS_def AUTH_JOURNAL_HEADER_LEN_def two
        split: sum.splits if_splits)
  have r: "AUTH_JOURNAL_HEADER_REGION_LEN = 416"
    by (simp add: AUTH_JOURNAL_HEADER_REGION_LEN_def AUTH_JOURNAL_HEADER_LEN_def AUTH_JOURNAL_HEADER_SLOTS_def)
  show ?thesis
    unfolding parse_authenticated_journal_entries_def Let_def best r b v inv using assms(6) by simp
qed

text \<open>\<open>journal_file\<close>: the file holds exactly the entries \<open>es\<close>, committed by the header in the active slot, and the
  other slot holds a header that loses the selection.\<close>

definition cur_slot :: "auth_journal_state \<Rightarrow> header_slot" where
  "cur_slot j = \<lparr>hs_generation = aj_generation j, hs_count = aj_count j, hs_tail_mac = aj_tail_mac j\<rparr>"

definition two_slots :: "nat \<Rightarrow> bytes \<Rightarrow> bytes \<Rightarrow> bytes" where
  "two_slots i act other = (if i = 0 then act @ other else other @ act)"

definition chain_body :: "hmac \<Rightarrow> bytes \<Rightarrow> replay_entry list \<Rightarrow> bytes" where
  "chain_body hm k es = unlines (fst (chain hm k 1 zero_mac es))"

definition stale_slot :: "auth_journal_state \<Rightarrow> header_slot \<Rightarrow> bool" where
  "stale_slot j old \<longleftrightarrow> length (hs_tail_mac old) = 32 \<and>
     (hs_generation old < aj_generation j \<or> hs_generation old = aj_generation j \<and> aj_active_slot j = 0)"

definition journal_wf :: "hmac \<Rightarrow> bytes \<Rightarrow> replay_entry list \<Rightarrow> auth_journal_state \<Rightarrow> bool" where
  "journal_wf hm k es j \<longleftrightarrow> list_all entry_wf es \<and> length es < 2 ^ 64 \<and> aj_count j = of_nat (length es) \<and>
     aj_tail_mac j = snd (chain hm k 1 zero_mac es) \<and> aj_active_slot j < 2"

definition journal_file :: "hmac \<Rightarrow> bytes \<Rightarrow> replay_entry list \<Rightarrow> auth_journal_state \<Rightarrow> bytes \<Rightarrow> bool" where
  "journal_file hm k es j file \<longleftrightarrow> journal_wf hm k es j \<and>
     (\<exists>old. stale_slot j old \<and>
        file = two_slots (aj_active_slot j) (slot_header hm k (cur_slot j)) (slot_header hm k old) @ chain_body hm k es)"

lemma length_zero_mac [simp]: "length zero_mac = 32"
  by (simp add: zero_mac_def)

lemma cur_slot_tail: "hmac_correct hm \<Longrightarrow> journal_wf hm k es j \<Longrightarrow> length (hs_tail_mac (cur_slot j)) = 32"
  by (simp add: journal_wf_def cur_slot_def)

lemma unlines_ascii: "(\<And>l. l \<in> set ls \<Longrightarrow> is_ascii l) \<Longrightarrow> is_ascii (unlines ls)"
  by (induction ls) simp_all

lemma chain_body_ascii: "is_ascii (chain_body hm k es)"
  unfolding chain_body_def using chain_lines printable_ascii by (intro unlines_ascii) blast

lemma parse_slots_journal:
  assumes "hmac_correct hm" "journal_wf hm k es j" "is_ascii junk"
    and "length other = 208" "is_ascii other" "take 24 other = AUTH_JOURNAL_VERSION"
    and "\<And>s. parse_authenticated_journal_header_slot hm k other = Inr s \<Longrightarrow> stale_slot j s"
  shows "\<exists>rw. parse_authenticated_journal_entries hm k
      (two_slots (aj_active_slot j) (slot_header hm k (cur_slot j)) other @ chain_body hm k es @ junk) = Inr (es, j, rw) \<and>
    (rw \<longleftrightarrow> filter (\<lambda>l. \<not> blank l) (str_lines junk) \<noteq> [] \<or> \<not> is_ok (parse_authenticated_journal_header_slot hm k other))"
proof -
  note t = cur_slot_tail [OF assms(1,2)]
  note h = slot_header_safe [OF assms(1) t, of k]
  let ?body = "chain_body hm k es @ junk"
  have p: "parse_authenticated_journal_header_slot hm k (slot_header hm k (cur_slot j)) = Inr (cur_slot j)"
    using assms(1) t by (rule parse_slot_header)
  have b: "parse_authenticated_journal_body hm k (hs_count (cur_slot j)) (hs_tail_mac (cur_slot j)) ?body =
      Inr (es, filter (\<lambda>l. \<not> blank l) (str_lines junk) \<noteq> [])"
    using parse_body_chain [OF assms(1), of es k junk] assms(2) by (simp add: chain_body_def cur_slot_def journal_wf_def)
  have a: "is_ascii (slot_header hm k (cur_slot j) @ other @ ?body)" "is_ascii (other @ slot_header hm k (cur_slot j) @ ?body)"
    using h assms(3,5) by (simp_all add: chain_body_ascii)
  show ?thesis
  proof (cases "aj_active_slot j = 0")
    case True
    then have "pick_slot (Inr (cur_slot j)) (parse_authenticated_journal_header_slot hm k other) = Some (0, cur_slot j)"
      using assms(7) by (auto simp: pick_slot_def stale_slot_def cur_slot_def split: sum.splits)
    then show ?thesis
      using parse_two_slots [OF h(1) assms(4) a(1) h(3) _ b, unfolded p] True by (simp add: two_slots_def cur_slot_def)
  next
    case False
    then have one: "aj_active_slot j = 1" using assms(2) by (simp add: journal_wf_def)
    have "pick_slot (parse_authenticated_journal_header_slot hm k other) (Inr (cur_slot j)) = Some (1, cur_slot j)"
      using assms(7) False by (auto simp: pick_slot_def stale_slot_def cur_slot_def split: sum.splits)
    then show ?thesis
      using parse_two_slots [OF assms(4) h(1) a(2) assms(6) _ b, unfolded p] one
      by (cases j) (simp add: two_slots_def cur_slot_def)
  qed
qed

lemma journal_file_parse:
  assumes "hmac_correct hm" "journal_file hm k es j file" "is_ascii junk"
  shows "\<exists>rw. parse_authenticated_journal_entries hm k (file @ junk) = Inr (es, j, rw) \<and>
    (rw \<longleftrightarrow> filter (\<lambda>l. \<not> blank l) (str_lines junk) \<noteq> [])"
proof -
  obtain old where old: "stale_slot j old"
      "file = two_slots (aj_active_slot j) (slot_header hm k (cur_slot j)) (slot_header hm k old) @ chain_body hm k es"
    using assms(2) by (auto simp: journal_file_def)
  have t: "length (hs_tail_mac old) = 32" using old(1) by (simp add: stale_slot_def)
  note h = slot_header_safe [OF assms(1) t, of k]
  have p: "parse_authenticated_journal_header_slot hm k (slot_header hm k old) = Inr old"
    using assms(1) t by (rule parse_slot_header)
  have wf: "journal_wf hm k es j" using assms(2) by (simp add: journal_file_def)
  have st: "stale_slot j s" if "parse_authenticated_journal_header_slot hm k (slot_header hm k old) = Inr s" for s
    using that old(1) p by simp
  show ?thesis
    using parse_slots_journal [OF assms(1) wf assms(3) h st] old(2) p by simp
qed

lemma serialize_journal_file:
  assumes "hmac_correct hm" "list_all entry_wf es" "length es < 2 ^ 64"
    and "serialize_authenticated_journal hm k es = (raw, j)"
  shows "journal_file hm k es j raw" "aj_count j = of_nat (length es)" "aj_generation j = 1"
proof -
  have s: "serialize_entries hm k 0 (replicate 32 0) [] es =
      (chain_body hm k es, snd (chain hm k 1 zero_mac es), of_nat (length es))"
    using serialize_entries_chain [of hm k 0 zero_mac "[]" es] by (simp add: chain_body_def zero_mac_def)
  have j: "j = \<lparr>aj_generation = 1, aj_count = of_nat (length es), aj_tail_mac = snd (chain hm k 1 zero_mac es), aj_active_slot = 0\<rparr>"
    and raw: "raw = two_slots 0 (slot_header hm k (cur_slot j)) (slot_header hm k (cur_slot j)) @ chain_body hm k es"
    using assms(4) unfolding serialize_authenticated_journal_def s Let_def prod.case AUTH_JOURNAL_HEADER_SLOTS_def
    by (auto simp: two_slots_def slot_header_def cur_slot_def numeral_2_eq_2)
  have wf: "journal_wf hm k es j" using assms(2,3) by (simp add: journal_wf_def j)
  moreover have "stale_slot j (cur_slot j)"
    using cur_slot_tail [OF assms(1) wf] by (simp add: stale_slot_def cur_slot_def j)
  ultimately show "journal_file hm k es j raw" "aj_count j = of_nat (length es)" "aj_generation j = 1"
    using raw by (auto simp: journal_file_def j)
qed

subsection \<open>Committing an entry\<close>

text \<open>Writing at an offset; a seek beyond the end leaves zeros.\<close>

definition write_at :: "bytes \<Rightarrow> nat \<Rightarrow> bytes \<Rightarrow> bytes" where
  "write_at file off bs = take off file @ replicate (off - length file) 0 @ bs @ drop (off + length bs) file"

definition other_slot :: "auth_journal_state \<Rightarrow> nat" where
  "other_slot j = (aj_active_slot j + 1) mod AUTH_JOURNAL_HEADER_SLOTS"

definition next_slot :: "hmac \<Rightarrow> bytes \<Rightarrow> auth_journal_state \<Rightarrow> replay_entry \<Rightarrow> header_slot" where
  "next_slot hm k j e =
     \<lparr>hs_generation = saturating_add_u64 (aj_generation j) 1, hs_count = saturating_add_u64 (aj_count j) 1,
      hs_tail_mac = entry_mac hm k (saturating_add_u64 (aj_count j) 1) e (aj_tail_mac j)\<rparr>"

definition next_journal :: "hmac \<Rightarrow> bytes \<Rightarrow> auth_journal_state \<Rightarrow> replay_entry \<Rightarrow> auth_journal_state" where
  "next_journal hm k j e =
     (let s = next_slot hm k j e in
      \<lparr>aj_generation = hs_generation s, aj_count = hs_count s, aj_tail_mac = hs_tail_mac s, aj_active_slot = other_slot j\<rparr>)"

definition next_line :: "hmac \<Rightarrow> bytes \<Rightarrow> auth_journal_state \<Rightarrow> replay_entry \<Rightarrow> bytes" where
  "next_line hm k j e = fst (encode_authenticated_journal_entry hm k (saturating_add_u64 (aj_count j) 1) e (aj_tail_mac j))"

lemma saturating_Suc:
  "Suc n < 2 ^ 64 \<Longrightarrow> saturating_add_u64 (of_nat n) 1 = of_nat (Suc n)"
  by (simp add: saturating_add_u64_def unsigned_of_nat take_bit_nat_eq_self)

lemma saturating_add_1_less: "g \<noteq> - 1 \<Longrightarrow> g < saturating_add_u64 g 1"
proof -
  assume g: "g \<noteq> - 1"
  have m: "unat (- 1 :: u64) = 2 ^ 64 - 1"
    by (simp add: unsigned_minus_1_eq_mask mask_eq_exp_minus_1)
  have "unat g \<noteq> 2 ^ 64 - 1"
    using g word_unat_eqI [of g "- 1"] unfolding m by blast
  then have "unat g + 1 < 2 ^ 64"
    using unat_lt_exp [of g] by simp
  then show ?thesis
    by (simp add: saturating_add_u64_def word_less_nat_alt unat_word_ariths)
qed

lemma commit_chain:
  assumes "journal_wf hm k es j" "Suc (length es) < 2 ^ 64"
  shows "chain_body hm k es @ next_line hm k j e = chain_body hm k (es @ [e])"
    "hs_count (next_slot hm k j e) = of_nat (length (es @ [e]))"
    "hs_tail_mac (next_slot hm k j e) = snd (chain hm k 1 zero_mac (es @ [e]))"
proof -
  have c: "saturating_add_u64 (aj_count j) 1 = of_nat (Suc (length es))"
    using assms saturating_Suc by (simp add: journal_wf_def)
  show "chain_body hm k es @ next_line hm k j e = chain_body hm k (es @ [e])"
    using assms(1) unfolding next_line_def c encode_entry_text chain_body_def chain_snoc
    by (simp add: journal_wf_def)
  show "hs_count (next_slot hm k j e) = of_nat (length (es @ [e]))"
    by (simp add: next_slot_def c)
  show "hs_tail_mac (next_slot hm k j e) = snd (chain hm k 1 zero_mac (es @ [e]))"
    using assms(1) unfolding chain_snoc next_slot_def c by (simp add: journal_wf_def)
qed

lemma next_journal_wf:
  assumes "journal_wf hm k es j" "Suc (length es) < 2 ^ 64" "entry_wf e"
  shows "journal_wf hm k (es @ [e]) (next_journal hm k j e)"
  using assms commit_chain [OF assms(1,2), of e]
  by (simp add: journal_wf_def next_journal_def Let_def other_slot_def AUTH_JOURNAL_HEADER_SLOTS_def)

lemma write_other_slot:
  assumes "i < 2" "length act = 208" "length old = 208" "length new \<le> 208"
  shows "write_at (two_slots i act old @ body) ((i + 1) mod 2 * 208) new =
    two_slots i act (new @ drop (length new) old) @ body"
proof -
  have "i = 0 \<or> i = 1" using assms(1) by auto
  then show ?thesis
    using assms(2-4) by (auto simp: write_at_def two_slots_def)
qed

lemma commit_file:
  assumes "hmac_correct hm" "journal_wf hm k es j" "stale_slot j old"
    and "file = two_slots (aj_active_slot j) (slot_header hm k (cur_slot j)) (slot_header hm k old) @ chain_body hm k es"
    and "Suc (length es) < 2 ^ 64"
  shows "write_at (file @ next_line hm k j e) (other_slot j * AUTH_JOURNAL_HEADER_LEN)
      (take n (slot_header hm k (next_slot hm k j e))) =
    two_slots (aj_active_slot j) (slot_header hm k (cur_slot j)) (torn n (slot_header hm k (next_slot hm k j e)) (slot_header hm k old))
      @ chain_body hm k (es @ [e])"
proof -
  have t: "length (hs_tail_mac (cur_slot j)) = 32" "length (hs_tail_mac old) = 32" "length (hs_tail_mac (next_slot hm k j e)) = 32"
    using assms(1-3) cur_slot_tail by (simp_all add: stale_slot_def next_slot_def)
  note l = slot_header_safe(1) [OF assms(1) t(1)] slot_header_safe(1) [OF assms(1) t(2)] slot_header_safe(1) [OF assms(1) t(3)]
  have a: "aj_active_slot j < 2" using assms(2) by (simp add: journal_wf_def)
  have tn: "take n (slot_header hm k (next_slot hm k j e)) @ drop (length (take n (slot_header hm k (next_slot hm k j e)))) (slot_header hm k old) =
      torn n (slot_header hm k (next_slot hm k j e)) (slot_header hm k old)"
    using l(2,3) [of k] by (simp add: torn_def min_def)
  show ?thesis
    unfolding assms(4) append_assoc commit_chain(1) [OF assms(2,5)] other_slot_def AUTH_JOURNAL_HEADER_SLOTS_def AUTH_JOURNAL_HEADER_LEN_def
    using write_other_slot [OF a l(1) [of k] l(2) [of k], of "take n (slot_header hm k (next_slot hm k j e))"] l(3) [of k] tn by simp
qed

lemma cur_slot_next: "cur_slot (next_journal hm k j e) = next_slot hm k j e"
  by (simp add: cur_slot_def next_journal_def Let_def)

lemma two_slots_swap:
  "aj_active_slot j < 2 \<Longrightarrow> two_slots (aj_active_slot j) a b = two_slots (aj_active_slot (next_journal hm k j e)) b a"
  by (auto simp: two_slots_def next_journal_def Let_def other_slot_def AUTH_JOURNAL_HEADER_SLOTS_def less_2_cases_iff)

lemma stale_after_commit:
  assumes "hmac_correct hm" "journal_wf hm k es j" "aj_generation j \<noteq> - 1"
  shows "stale_slot (next_journal hm k j e) (cur_slot j)"
  using cur_slot_tail [OF assms(1,2)] saturating_add_1_less [OF assms(3)]
  by (simp add: stale_slot_def next_journal_def next_slot_def Let_def cur_slot_def)

lemma commit_complete:
  assumes "hmac_correct hm" "journal_file hm k es j file" "aj_generation j \<noteq> - 1" "Suc (length es) < 2 ^ 64" "entry_wf e"
  shows "journal_file hm k (es @ [e]) (next_journal hm k j e)
    (write_at (file @ next_line hm k j e) (other_slot j * AUTH_JOURNAL_HEADER_LEN) (slot_header hm k (next_slot hm k j e)))"
proof -
  obtain old where old: "stale_slot j old"
      "file = two_slots (aj_active_slot j) (slot_header hm k (cur_slot j)) (slot_header hm k old) @ chain_body hm k es"
    and wf: "journal_wf hm k es j"
    using assms(2) by (auto simp: journal_file_def)
  let ?new = "slot_header hm k (next_slot hm k j e)"
  have "length (hs_tail_mac old) = 32" "length (hs_tail_mac (next_slot hm k j e)) = 32"
    using old(1) assms(1) by (simp_all add: stale_slot_def next_slot_def)
  then have l: "length (slot_header hm k old) = 208" "length ?new = 208"
    using assms(1) slot_header_safe(1) by blast+
  have "write_at (file @ next_line hm k j e) (other_slot j * AUTH_JOURNAL_HEADER_LEN) (take 208 ?new) =
      two_slots (aj_active_slot j) (slot_header hm k (cur_slot j)) ?new @ chain_body hm k (es @ [e])"
    using commit_file [OF assms(1) wf old assms(4), of e 208] l by (simp add: torn_all)
  then show ?thesis
    using next_journal_wf [OF wf assms(4,5)] stale_after_commit [OF assms(1) wf assms(3), of e] l wf
    by (auto simp: journal_file_def cur_slot_next two_slots_swap [where hm = hm and k = k and e = e] journal_wf_def)
qed

text \<open>\<open>recoverable\<close>: loading the file yields the entries \<open>es\<close>, and the file is in committed state unless the load says
  that it must be rewritten.\<close>

definition recoverable :: "hmac \<Rightarrow> bytes \<Rightarrow> bytes \<Rightarrow> replay_entry list \<Rightarrow> bool" where
  "recoverable hm k raw es \<longleftrightarrow> is_ascii raw \<and> \<not> blank raw \<and> list_all entry_wf es \<and> length es < 2 ^ 64 \<and>
     (\<exists>j rw. parse_authenticated_journal_entries hm k raw = Inr (es, j, rw) \<and> (\<not> rw \<longrightarrow> journal_file hm k es j raw))"

lemma two_slots_text:
  assumes "take 24 a = AUTH_JOURNAL_VERSION" "take 24 b = AUTH_JOURNAL_VERSION"
  shows "\<not> blank (two_slots i a b @ r)"
proof -
  obtain h t where v: "AUTH_JOURNAL_VERSION = h # t" "graphic h"
    using slot_labels(1,2) by (metis list.exhaust list.pred_inject(2))
  have hd: "\<exists>t'. x = h # t'" if "take 24 x = AUTH_JOURNAL_VERSION" for x
    using that unfolding v(1) by (cases x) auto
  have "\<exists>t'. a = h # t'" "\<exists>t'. b = h # t'"
    using assms by (simp_all add: hd)
  then show ?thesis
    using v(2) by (auto simp: two_slots_def not_blank_token)
qed

lemma slots_recoverable:
  assumes "hmac_correct hm" "journal_wf hm k es j" "is_ascii junk"
    and "length other = 208" "is_ascii other" "take 24 other = AUTH_JOURNAL_VERSION"
    and "\<And>s. parse_authenticated_journal_header_slot hm k other = Inr s \<Longrightarrow> stale_slot j s"
    and "junk = [] \<Longrightarrow> \<exists>old. stale_slot j old \<and> other = slot_header hm k old"
    and "junk \<noteq> [] \<Longrightarrow> filter (\<lambda>l. \<not> blank l) (str_lines junk) \<noteq> []"
  shows "recoverable hm k (two_slots (aj_active_slot j) (slot_header hm k (cur_slot j)) other @ chain_body hm k es @ junk) es"
proof -
  note h = slot_header_safe [OF assms(1) cur_slot_tail [OF assms(1,2)], of k]
  have "is_ascii (two_slots (aj_active_slot j) (slot_header hm k (cur_slot j)) other @ chain_body hm k es @ junk)"
    using h assms(3,5) by (simp add: two_slots_def chain_body_ascii)
  moreover have "\<not> blank (two_slots (aj_active_slot j) (slot_header hm k (cur_slot j)) other @ chain_body hm k es @ junk)"
    using h(3) assms(6) by (rule two_slots_text)
  moreover have "junk = [] \<Longrightarrow>
      journal_file hm k es j (two_slots (aj_active_slot j) (slot_header hm k (cur_slot j)) other @ chain_body hm k es @ junk)"
    using assms(2,8) by (auto simp: journal_file_def)
  ultimately show ?thesis
    using parse_slots_journal [OF assms(1-7)] assms(2,9) unfolding recoverable_def journal_wf_def by metis
qed

lemma journal_file_recoverable:
  assumes "hmac_correct hm" "journal_file hm k es j file"
    and "is_ascii junk" "junk \<noteq> [] \<Longrightarrow> filter (\<lambda>l. \<not> blank l) (str_lines junk) \<noteq> []"
  shows "recoverable hm k (file @ junk) es"
proof -
  obtain old where old: "stale_slot j old"
      "file = two_slots (aj_active_slot j) (slot_header hm k (cur_slot j)) (slot_header hm k old) @ chain_body hm k es"
    using assms(2) by (auto simp: journal_file_def)
  have t: "length (hs_tail_mac old) = 32" using old(1) by (simp add: stale_slot_def)
  have wf: "journal_wf hm k es j" using assms(2) by (simp add: journal_file_def)
  have st: "stale_slot j s" if "parse_authenticated_journal_header_slot hm k (slot_header hm k old) = Inr s" for s
    using that old(1) parse_slot_header [OF assms(1) t, of k] by simp
  show ?thesis
    using slots_recoverable [OF assms(1) wf assms(3) slot_header_safe [OF assms(1) t] st _ assms(4)] old by auto
qed

lemma str_lines_head: "graphic b \<Longrightarrow> filter (\<lambda>l. \<not> blank l) (str_lines (b # r)) \<noteq> []"
proof -
  assume b: "graphic b"
  have "\<exists>l ls. lines_acc cur s = l # ls \<and> (\<exists>t. l = b # t)" if "\<exists>t. rev cur = b # t" for cur s
    using that
  proof (induction s arbitrary: cur)
    case Nil
    then show ?case by (auto simp: word_done_def)
  next
    case (Cons x s)
    obtain t where t: "rev cur = b # t" using Cons.prems by blast
    show ?case
    proof (cases "x = 0x0A")
      case True
      have "\<exists>t'. strip_cr cur = b # t'"
      proof (cases cur)
        case Nil
        then show ?thesis using t by simp
      next
        case (Cons y ys)
        then show ?thesis
          using t graphic_facts(3) [OF b] by (cases "rev ys") auto
      qed
      then show ?thesis using True by (simp del: strip_cr.simps)
    next
      case False
      have "\<exists>t. rev (x # cur) = b # t" using t by simp
      then show ?thesis using Cons.IH [of "x # cur"] False by simp
    qed
  qed
  from this [of "[b]" r] show ?thesis
    using b graphic_facts(2) [OF b] not_blank_token by (auto simp: str_lines_def)
qed

lemma take_line_junk:
  assumes "take n (next_line hm k j e) \<noteq> []"
  shows "filter (\<lambda>l. \<not> blank l) (str_lines (take n (next_line hm k j e))) \<noteq> []"
proof -
  obtain b r where "u64_to_string (re_timestamp e) = b # r" "graphic b"
    using u64_to_string_graphic [of "re_timestamp e"] by (cases "u64_to_string (re_timestamp e)") auto
  then have "\<exists>r'. take n (next_line hm k j e) = b # r'"
    using assms by (cases n) (simp_all add: next_line_def encode_entry_text entry_text_def)
  then show ?thesis using \<open>graphic b\<close> str_lines_head by auto
qed

lemma next_line_ascii: "is_ascii (next_line hm k j e)"
  using entry_text_printable printable_ascii by (simp add: next_line_def encode_entry_text)

lemma is_ascii_take: "is_ascii s \<Longrightarrow> is_ascii (take n s)"
  by (auto simp: is_ascii_def list_all_iff dest: in_set_takeD)

lemma append_recoverable:
  assumes "hmac_correct hm" "journal_file hm k es j file"
  shows "recoverable hm k (file @ take n (next_line hm k j e)) es"
  using assms by (rule journal_file_recoverable) (simp_all add: is_ascii_take next_line_ascii take_line_junk)

lemma torn_recoverable:
  assumes "hmac_correct hm" "journal_file hm k es j file" "aj_generation j \<noteq> - 1" "Suc (length es) < 2 ^ 64" "entry_wf e"
    and "mac_separates hm k (slot_header hm k (next_slot hm k j e))
      (take AUTH_JOURNAL_HEADER_LEN (drop (other_slot j * AUTH_JOURNAL_HEADER_LEN) file))"
  shows "\<exists>es' \<in> {es, es @ [e]}. recoverable hm k
      (write_at (file @ next_line hm k j e) (other_slot j * AUTH_JOURNAL_HEADER_LEN) (take n (slot_header hm k (next_slot hm k j e)))) es'"
proof -
  obtain old where old: "stale_slot j old"
      "file = two_slots (aj_active_slot j) (slot_header hm k (cur_slot j)) (slot_header hm k old) @ chain_body hm k es"
    and wf: "journal_wf hm k es j"
    using assms(2) by (auto simp: journal_file_def)
  let ?new = "slot_header hm k (next_slot hm k j e)" and ?old = "slot_header hm k old"
  have t: "length (hs_tail_mac (next_slot hm k j e)) = 32" "length (hs_tail_mac old) = 32" "length (hs_tail_mac (cur_slot j)) = 32"
    using old(1) assms(1) cur_slot_tail [OF assms(1) wf] by (simp_all add: stale_slot_def next_slot_def)
  note l = slot_header_safe(1) [OF assms(1) t(1), of k] slot_header_safe(1) [OF assms(1) t(2), of k] slot_header_safe(1) [OF assms(1) t(3), of k]
  have "take 208 (drop (other_slot j * 208) file) = ?old"
    using old(2) l wf by (auto simp: two_slots_def other_slot_def AUTH_JOURNAL_HEADER_SLOTS_def journal_wf_def less_2_cases_iff)
  then have sep: "mac_separates hm k ?new ?old"
    using assms(6) by (simp add: AUTH_JOURNAL_HEADER_LEN_def)
  have f: "write_at (file @ next_line hm k j e) (other_slot j * AUTH_JOURNAL_HEADER_LEN) (take n ?new) =
      two_slots (aj_active_slot j) (slot_header hm k (cur_slot j)) (torn n ?new ?old) @ chain_body hm k (es @ [e])"
    by (rule commit_file [OF assms(1) wf old assms(4)])
  have line: "chain_body hm k (es @ [e]) = chain_body hm k es @ next_line hm k j e"
    using commit_chain(1) [OF wf assms(4), of e] by simp
  note asc = next_line_ascii [of hm k j e]
  note ts = torn_slot_safe [OF assms(1) t(1,2), of n k]
  show ?thesis
  proof (cases "torn n ?new ?old = ?new")
    case True
    have "journal_file hm k (es @ [e]) (next_journal hm k j e) (write_at (file @ next_line hm k j e) (other_slot j * AUTH_JOURNAL_HEADER_LEN) ?new)"
      by (rule commit_complete [OF assms(1-5)])
    moreover have "write_at (file @ next_line hm k j e) (other_slot j * AUTH_JOURNAL_HEADER_LEN) ?new =
        write_at (file @ next_line hm k j e) (other_slot j * AUTH_JOURNAL_HEADER_LEN) (take n ?new)"
      using f commit_file [OF assms(1) wf old assms(4), of e 208] l True by (simp add: torn_all)
    ultimately show ?thesis
      using journal_file_recoverable [OF assms(1), of k "es @ [e]" _ _ "[]"] by fastforce
  next
    case False
    have "stale_slot j s" if s: "parse_authenticated_journal_header_slot hm k (torn n ?new ?old) = Inr s" for s
    proof -
      have "torn n ?new ?old = ?old"
        using torn_slot_verifies [OF assms(1) t(1,2) sep s] False by blast
      then show ?thesis
        using s parse_slot_header [OF assms(1) t(2), of k] old(1) by simp
    qed
    moreover have "next_line hm k j e \<noteq> []"
      by (simp add: next_line_def encode_entry_text)
    ultimately show ?thesis
      using slots_recoverable [OF assms(1) wf asc ts] take_line_junk [of "length (next_line hm k j e)" hm k j e]
      unfolding f line by simp
  qed
qed

end
