(* ===== verification/Replay_Cache.thy ===== *)
theory Replay_Cache
  imports Replay_Journal
begin

text \<open>
  The replay cache: \<open>ReplayCache\<close> of \<open>crypto/replay.rs\<close>. The entries in memory, the freshness window, the queue of
  deferred writes, and the journal on disk with every way an I/O call can fail.

  A file system maps paths to contents. What a failing call leaves behind is chosen by a record \<open>io_faults\<close>: how many
  bytes of an append, of a header write or of the temporary file landed, whether a failed rename replaced the file.
  A crash leaves the file system of some fault and loses the cache; the next start is \<open>load_authenticated_with_window\<close>.
  The clock is an argument of the operations that read it.
\<close>

definition DEFAULT_REPLAY_WINDOW_SECS :: u64 where "DEFAULT_REPLAY_WINDOW_SECS = 2 * 60"
definition MAX_FUTURE_SKEW_SECS :: u64 where "MAX_FUTURE_SKEW_SECS = 5"

datatype replay_insert_outcome = Inserted | Replayed | Stale | CacheFull

record replay_cache =
  rc_capacity :: nat
  rc_window_secs :: u64
  rc_path :: "bytes option"
  rc_mac_key :: "bytes option"
  rc_auth_journal :: "auth_journal_state option"
  rc_order :: "replay_entry list"
  rc_oldest_timestamp :: "u64 option"
  rc_encoded_entries :: "bytes list"
  rc_nonces :: "bytes set"
  rc_transcripts :: "bytes set"
  rc_pending_persist :: "replay_entry list"

type_synonym file_system = "bytes \<rightharpoonup> bytes"

record io_faults =
  f_open :: bool
  f_metadata :: bool
  f_append :: "nat option"
  f_set_len :: bool
  f_header :: "nat option"
  f_tmp :: "nat option"
  f_rename :: "bool option"
  f_dir_sync :: bool

definition no_faults :: io_faults where
  "no_faults = \<lparr>f_open = False, f_metadata = False, f_append = None, f_set_len = False, f_header = None, f_tmp = None,
     f_rename = None, f_dir_sync = False\<rparr>"

section \<open>Construction\<close>

definition replay_cache_new :: "nat \<Rightarrow> replay_cache" where
  "replay_cache_new capacity =
     \<lparr>rc_capacity = capacity, rc_window_secs = DEFAULT_REPLAY_WINDOW_SECS, rc_path = None, rc_mac_key = None,
      rc_auth_journal = None, rc_order = [], rc_oldest_timestamp = None, rc_encoded_entries = [], rc_nonces = {},
      rc_transcripts = {}, rc_pending_persist = []\<rparr>"

definition with_window_secs :: "u64 \<Rightarrow> replay_cache \<Rightarrow> replay_cache" where
  "with_window_secs window c = c\<lparr>rc_window_secs := window\<rparr>"

section \<open>Entries in memory\<close>

definition plain_on_disk :: "replay_cache \<Rightarrow> bool" where
  "plain_on_disk c \<longleftrightarrow> rc_path c \<noteq> None \<and> rc_mac_key c = None"

definition min_timestamp :: "u64 option \<Rightarrow> u64 \<Rightarrow> u64 option" where
  "min_timestamp oldest ts = Some (case oldest of None \<Rightarrow> ts | Some o' \<Rightarrow> min o' ts)"

definition oldest_of :: "replay_entry list \<Rightarrow> u64 option" where
  "oldest_of es = foldl (\<lambda>o' e. min_timestamp o' (re_timestamp e)) None es"

definition is_fresh :: "u64 \<Rightarrow> u64 \<Rightarrow> replay_cache \<Rightarrow> bool" where
  "is_fresh ts now c \<longleftrightarrow>
     ts \<le> saturating_add_u64 now MAX_FUTURE_SKEW_SECS \<and> saturating_add_u64 ts (rc_window_secs c) \<ge> now"

definition push_loaded_entry :: "replay_entry \<Rightarrow> replay_cache \<Rightarrow> replay_cache" where
  "push_loaded_entry e c =
     c\<lparr>rc_oldest_timestamp := min_timestamp (rc_oldest_timestamp c) (re_timestamp e), rc_order := rc_order c @ [e],
       rc_encoded_entries := (if plain_on_disk c then rc_encoded_entries c @ [encode_plain_entry e] else rc_encoded_entries c)\<rparr>"

definition insert_loaded :: "replay_entry \<Rightarrow> replay_cache \<Rightarrow> replay_cache" where
  "insert_loaded e c =
     push_loaded_entry e (c\<lparr>rc_nonces := insert (re_nonce e) (rc_nonces c),
       rc_transcripts := insert (re_transcript e) (rc_transcripts c)\<rparr>)"

definition pop_pushed_entry :: "replay_cache \<Rightarrow> (replay_entry \<times> replay_cache) option" where
  "pop_pushed_entry c =
     (if rc_order c = [] then None
      else
        let e = last (rc_order c); rest = butlast (rc_order c) in
        Some (e, c\<lparr>rc_order := rest,
          rc_oldest_timestamp := (if rc_oldest_timestamp c = Some (re_timestamp e) then oldest_of rest else rc_oldest_timestamp c),
          rc_encoded_entries := (if plain_on_disk c then butlast (rc_encoded_entries c) else rc_encoded_entries c)\<rparr>))"

definition unexpired :: "u64 \<Rightarrow> u64 \<Rightarrow> replay_entry \<Rightarrow> bool" where
  "unexpired window now e \<longleftrightarrow> saturating_add_u64 (re_timestamp e) window \<ge> now"

definition prune_expired :: "u64 \<Rightarrow> replay_cache \<Rightarrow> replay_cache" where
  "prune_expired now c =
     (case rc_oldest_timestamp c of
        None \<Rightarrow> c
      | Some oldest \<Rightarrow>
          if saturating_add_u64 oldest (rc_window_secs c) \<ge> now then c
          else
            let kept = filter (unexpired (rc_window_secs c) now) (rc_order c) in
            if length kept = length (rc_order c) then c\<lparr>rc_order := kept\<rparr>
            else
              c\<lparr>rc_order := kept, rc_nonces := set (map re_nonce kept), rc_transcripts := set (map re_transcript kept),
                rc_oldest_timestamp := oldest_of kept,
                rc_encoded_entries := (if plain_on_disk c then map encode_plain_entry kept else rc_encoded_entries c),
                rc_pending_persist := filter (unexpired (rc_window_secs c) now) (rc_pending_persist c)\<rparr>)"

definition stage_insert :: "replay_entry \<Rightarrow> u64 \<Rightarrow> replay_cache \<Rightarrow> replay_insert_outcome \<times> replay_cache" where
  "stage_insert e now c0 =
     (let c = prune_expired now c0 in
      if \<not> is_fresh (re_timestamp e) now c then (Stale, c)
      else if re_nonce e \<in> rc_nonces c then (Replayed, c)
      else
        let c1 = c\<lparr>rc_nonces := insert (re_nonce e) (rc_nonces c)\<rparr> in
        if re_transcript e \<in> rc_transcripts c1
        then (Replayed, c1\<lparr>rc_nonces := rc_nonces c1 - {re_nonce e}\<rparr>)
        else
          let c2 = c1\<lparr>rc_transcripts := insert (re_transcript e) (rc_transcripts c1)\<rparr> in
          if length (rc_order c2) \<ge> rc_capacity c2
          then (CacheFull, c2\<lparr>rc_nonces := rc_nonces c2 - {re_nonce e}, rc_transcripts := rc_transcripts c2 - {re_transcript e}\<rparr>)
          else (Inserted, push_loaded_entry e c2))"

section \<open>The journal on disk\<close>

definition cache_tmp_path :: "bytes \<Rightarrow> bytes" where
  "cache_tmp_path path = path @ ascii ''.tmp''"

text \<open>\<open>write_cache_file\<close> of the temporary file and \<open>fs::rename\<close>: a failed write leaves a prefix in the temporary
  file, a failed rename may have replaced the target.\<close>

definition write_cache_file :: "io_faults \<Rightarrow> bytes \<Rightarrow> bytes \<Rightarrow> file_system \<Rightarrow> (replay_cache_error + unit) \<times> file_system" where
  "write_cache_file f path contents fs =
     (case f_tmp f of Some n \<Rightarrow> (Inl RcIo, fs(path \<mapsto> take n contents)) | None \<Rightarrow> (Inr (), fs(path \<mapsto> contents)))"

definition fs_rename :: "io_faults \<Rightarrow> bytes \<Rightarrow> bytes \<Rightarrow> file_system \<Rightarrow> (replay_cache_error + unit) \<times> file_system" where
  "fs_rename f src dst fs =
     (let fs' = (fs(dst := fs src))(src := None) in
      case f_rename f of None \<Rightarrow> (Inr (), fs') | Some replaced \<Rightarrow> (Inl RcIo, if replaced then fs' else fs))"

definition fsync_parent_dir :: "io_faults \<Rightarrow> replay_cache_error + unit" where
  "fsync_parent_dir f = (if f_dir_sync f then Inl RcIo else Inr ())"

definition persist_plain :: "io_faults \<Rightarrow> bytes \<Rightarrow> replay_cache \<Rightarrow> file_system \<Rightarrow> (replay_cache_error + unit) \<times> file_system" where
  "persist_plain f path c fs =
     (let body = serialize_cached_entries (rc_encoded_entries c); tmp = cache_tmp_path path in
      case write_cache_file f tmp body fs of
        (Inl e, fs1) \<Rightarrow> (Inl e, fs1)
      | (Inr _, fs1) \<Rightarrow> fs_rename f tmp path fs1)"

definition compact_authenticated_journal ::
  "hmac \<Rightarrow> io_faults \<Rightarrow> bytes \<Rightarrow> bytes \<Rightarrow> replay_cache \<Rightarrow> file_system \<Rightarrow> (replay_cache_error + unit) \<times> replay_cache \<times> file_system" where
  "compact_authenticated_journal hm f path mac_key c0 fs =
     (let (raw, journal) = serialize_authenticated_journal hm mac_key (rc_order c0);
          c = c0\<lparr>rc_auth_journal := None\<rparr>; tmp = cache_tmp_path path in
      case write_cache_file f tmp raw fs of
        (Inl e, fs1) \<Rightarrow> (Inl e, c, fs1)
      | (Inr _, fs1) \<Rightarrow>
          (case fs_rename f tmp path fs1 of
             (Inl e, fs2) \<Rightarrow> (Inl e, c, fs2)
           | (Inr _, fs2) \<Rightarrow>
               (case fsync_parent_dir f of
                  Inl e \<Rightarrow> (Inl e, c, fs2)
                | Inr _ \<Rightarrow> (Inr (), c\<lparr>rc_auth_journal := Some journal\<rparr>, fs2))))"

definition should_compact_authenticated_journal :: "replay_cache \<Rightarrow> auth_journal_state \<Rightarrow> bool" where
  "should_compact_authenticated_journal c journal \<longleftrightarrow>
     saturating_sub_u64 (aj_count journal) (of_nat (length (rc_order c))) > of_nat (max (rc_capacity c) 1024)"

definition compacted ::
  "(replay_cache_error + unit) \<times> replay_cache \<times> file_system \<Rightarrow> (replay_cache_error + bool) \<times> replay_cache \<times> file_system" where
  "compacted r = (case r of (Inl e, s) \<Rightarrow> (Inl e, s) | (Inr _, s) \<Rightarrow> (Inr True, s))"

definition persist_authenticated_entry ::
  "hmac \<Rightarrow> io_faults \<Rightarrow> bytes \<Rightarrow> bytes \<Rightarrow> replay_entry option \<Rightarrow> replay_cache \<Rightarrow> file_system \<Rightarrow>
   (replay_cache_error + bool) \<times> replay_cache \<times> file_system" where
  "persist_authenticated_entry hm f path mac_key entry c fs =
     (case rc_auth_journal c of
        None \<Rightarrow> compacted (compact_authenticated_journal hm f path mac_key c fs)
      | Some journal \<Rightarrow>
          if aj_count journal = 0 then compacted (compact_authenticated_journal hm f path mac_key c fs)
          else if should_compact_authenticated_journal c journal
          then compacted (compact_authenticated_journal hm f path mac_key c fs)
          else
            (case entry of
               None \<Rightarrow> compacted (compact_authenticated_journal hm f path mac_key c fs)
             | Some e \<Rightarrow>
                 let next_generation = saturating_add_u64 (aj_generation journal) 1;
                     next_count = saturating_add_u64 (aj_count journal) 1;
                     (line, next_tail_mac) = encode_authenticated_journal_entry hm mac_key next_count e (aj_tail_mac journal);
                     next_header = authenticated_journal_header hm mac_key next_generation next_count next_tail_mac;
                     target_slot = (aj_active_slot journal + 1) mod AUTH_JOURNAL_HEADER_SLOTS;
                     header_offset = target_slot * AUTH_JOURNAL_HEADER_LEN
                 in
                 if f_open f then (Inl RcIo, c, fs)
                 else
                   let file = (case fs path of None \<Rightarrow> [] | Some contents \<Rightarrow> contents); fs1 = fs(path \<mapsto> file) in
                   if f_metadata f then (Inl RcIo, c, fs1)
                   else if file = [] then compacted (compact_authenticated_journal hm f path mac_key c fs1)
                   else
                     (case f_append f of
                        Some n \<Rightarrow>
                          if f_set_len f
                          then (Inl RcIo, c\<lparr>rc_auth_journal := None\<rparr>, fs1(path \<mapsto> file @ take n line))
                          else (Inl RcIo, c, fs1(path \<mapsto> file))
                      | None \<Rightarrow>
                          (case f_header f of
                             Some n \<Rightarrow>
                               (Inl RcIo, c\<lparr>rc_auth_journal := None\<rparr>,
                                fs1(path \<mapsto> write_at (file @ line) header_offset (take n next_header)))
                           | None \<Rightarrow>
                               (Inr False,
                                c\<lparr>rc_auth_journal := Some \<lparr>aj_generation = next_generation, aj_count = next_count,
                                    aj_tail_mac = next_tail_mac, aj_active_slot = target_slot\<rparr>\<rparr>,
                                fs1(path \<mapsto> write_at (file @ line) header_offset next_header))))))"

definition persist_authenticated ::
  "hmac \<Rightarrow> io_faults \<Rightarrow> bytes \<Rightarrow> bytes \<Rightarrow> replay_cache \<Rightarrow> file_system \<Rightarrow> (replay_cache_error + unit) \<times> replay_cache \<times> file_system" where
  "persist_authenticated hm f path mac_key c fs =
     (let entry = (if rc_order c = [] then None else Some (last (rc_order c))) in
      case persist_authenticated_entry hm f path mac_key entry c fs of
        (Inl e, s) \<Rightarrow> (Inl e, s)
      | (Inr _, s) \<Rightarrow> (Inr (), s))"

definition persist :: "hmac \<Rightarrow> io_faults \<Rightarrow> replay_cache \<Rightarrow> file_system \<Rightarrow> (replay_cache_error + unit) \<times> replay_cache \<times> file_system" where
  "persist hm f c fs =
     (case rc_path c of
        None \<Rightarrow> (Inr (), c, fs)
      | Some path \<Rightarrow>
          (case rc_mac_key c of
             None \<Rightarrow> (case persist_plain f path c fs of (r, fs1) \<Rightarrow> (r, c, fs1))
           | Some mac_key \<Rightarrow> persist_authenticated hm f path mac_key c fs))"

section \<open>Inserting\<close>

definition next_fault :: "io_faults list \<Rightarrow> io_faults" where
  "next_fault fl = (case fl of [] \<Rightarrow> no_faults | f # _ \<Rightarrow> f)"

text \<open>The loop of \<open>persist_pending\<close> over the queue, with the faults of its writes.\<close>

fun persist_queue ::
  "hmac \<Rightarrow> io_faults list \<Rightarrow> replay_entry list \<Rightarrow> replay_cache \<Rightarrow> file_system \<Rightarrow> (replay_cache_error + unit) \<times> replay_cache \<times> file_system" where
  "persist_queue hm fl [] c fs = (Inr (), c, fs)"
| "persist_queue hm fl (e # q) c fs =
     (if re_nonce e \<notin> rc_nonces c then persist_queue hm fl q (c\<lparr>rc_pending_persist := q\<rparr>) fs
      else
        (case rc_path c of
           None \<Rightarrow> (Inr (), c\<lparr>rc_pending_persist := []\<rparr>, fs)
         | Some path \<Rightarrow>
             (case rc_mac_key c of
                Some mac_key \<Rightarrow>
                  (case persist_authenticated_entry hm (next_fault fl) path mac_key (Some e) c fs of
                     (Inl err, s) \<Rightarrow> (Inl err, s)
                   | (Inr done, c1, fs1) \<Rightarrow>
                       if done then (Inr (), c1\<lparr>rc_pending_persist := []\<rparr>, fs1)
                       else persist_queue hm (drop 1 fl) q (c1\<lparr>rc_pending_persist := q\<rparr>) fs1)
              | None \<Rightarrow>
                  (case persist_plain (next_fault fl) path c fs of
                     (Inl err, fs1) \<Rightarrow> (Inl err, c, fs1)
                   | (Inr _, fs1) \<Rightarrow> (Inr (), c\<lparr>rc_pending_persist := []\<rparr>, fs1)))))"

definition persist_pending ::
  "hmac \<Rightarrow> io_faults list \<Rightarrow> replay_cache \<Rightarrow> file_system \<Rightarrow> (replay_cache_error + unit) \<times> replay_cache \<times> file_system" where
  "persist_pending hm fl c fs = persist_queue hm fl (rc_pending_persist c) c fs"

definition insert_new_outcome ::
  "hmac \<Rightarrow> io_faults list \<Rightarrow> io_faults \<Rightarrow> replay_entry \<Rightarrow> u64 \<Rightarrow> replay_cache \<Rightarrow> file_system \<Rightarrow>
   (replay_cache_error + replay_insert_outcome) \<times> replay_cache \<times> file_system" where
  "insert_new_outcome hm fl f e now c0 fs0 =
     (if rc_capacity c0 = 0 then (Inr Inserted, c0, fs0)
      else
        (case (if rc_pending_persist c0 \<noteq> [] then persist_pending hm fl c0 fs0 else (Inr (), c0, fs0)) of
           (Inl err, s) \<Rightarrow> (Inl err, s)
         | (Inr _, c1, fs1) \<Rightarrow>
             (case stage_insert e now c1 of (outcome, c2) \<Rightarrow>
                if outcome \<noteq> Inserted then (Inr outcome, c2, fs1)
                else
                  (case persist hm f c2 fs1 of
                     (Inr _, s) \<Rightarrow> (Inr Inserted, s)
                   | (Inl err, c3, fs3) \<Rightarrow>
                       (Inl err,
                        (case pop_pushed_entry c3 of
                           None \<Rightarrow> c3
                         | Some (_, c4) \<Rightarrow> c4\<lparr>rc_nonces := rc_nonces c4 - {re_nonce e},
                             rc_transcripts := rc_transcripts c4 - {re_transcript e}\<rparr>), fs3)))))"

definition insert_new ::
  "hmac \<Rightarrow> io_faults list \<Rightarrow> io_faults \<Rightarrow> replay_entry \<Rightarrow> u64 \<Rightarrow> replay_cache \<Rightarrow> file_system \<Rightarrow>
   (replay_cache_error + bool) \<times> replay_cache \<times> file_system" where
  "insert_new hm fl f e now c fs =
     (case insert_new_outcome hm fl f e now c fs of
        (Inl err, s) \<Rightarrow> (Inl err, s)
      | (Inr outcome, s) \<Rightarrow> (Inr (outcome = Inserted), s))"

definition insert_new_outcome_deferred :: "replay_entry \<Rightarrow> u64 \<Rightarrow> replay_cache \<Rightarrow> replay_insert_outcome \<times> replay_cache" where
  "insert_new_outcome_deferred e now c0 =
     (if rc_capacity c0 = 0 then (Inserted, c0)
      else
        (case stage_insert e now c0 of (outcome, c) \<Rightarrow>
           if outcome = Inserted then (outcome, c\<lparr>rc_pending_persist := rc_pending_persist c @ [e]\<rparr>) else (outcome, c)))"

section \<open>Loading\<close>

definition read_cache_file :: "bool \<Rightarrow> bytes \<Rightarrow> file_system \<Rightarrow> replay_cache_error + bytes" where
  "read_cache_file fails path fs =
     (if fails then Inl RcIo
      else case fs path of None \<Rightarrow> Inl RcIo | Some raw \<Rightarrow> if utf8_valid raw then Inr raw else Inl RcIo)"

fun load_lines :: "bytes list \<Rightarrow> replay_cache \<Rightarrow> replay_cache_error + replay_cache" where
  "load_lines [] c = Inr c"
| "load_lines (l # ls) c = and_then (parse_entry l) (\<lambda>e. load_lines ls (insert_loaded e c))"

definition load_or_create :: "bool \<Rightarrow> u64 option \<Rightarrow> bytes \<Rightarrow> nat \<Rightarrow> file_system \<Rightarrow> replay_cache_error + replay_cache" where
  "load_or_create fails now path capacity fs =
     (let c = (replay_cache_new capacity)\<lparr>rc_path := Some path\<rparr> in
      if fs path = None then Inr c
      else
        and_then (read_cache_file fails path fs) (\<lambda>raw.
        and_then (load_lines (filter (\<lambda>l. \<not> blank l) (str_lines raw)) c) (\<lambda>c.
        and_then (ok_or now RcClock) (\<lambda>now. Inr (prune_expired now c)))))"

definition empty_journal :: auth_journal_state where
  "empty_journal = \<lparr>aj_generation = 0, aj_count = 0, aj_tail_mac = replicate 32 0, aj_active_slot = 0\<rparr>"

definition load_authenticated_with_window ::
  "hmac \<Rightarrow> bool \<Rightarrow> io_faults \<Rightarrow> u64 option \<Rightarrow> bytes \<Rightarrow> nat \<Rightarrow> bytes \<Rightarrow> u64 \<Rightarrow> file_system \<Rightarrow>
   (replay_cache_error + replay_cache) \<times> file_system" where
  "load_authenticated_with_window hm fails f now path capacity key_material window fs =
     (let mac_key = cache_mac_key hm key_material;
          c = with_window_secs window ((replay_cache_new capacity)
                \<lparr>rc_path := Some path, rc_mac_key := Some mac_key, rc_auth_journal := Some empty_journal\<rparr>)
      in
      if fs path = None then (Inr c, fs)
      else
        (case read_cache_file fails path fs of
           Inl err \<Rightarrow> (Inl err, fs)
         | Inr raw \<Rightarrow>
             if blank raw then (Inr c, fs)
             else
               (case parse_authenticated_journal_entries hm mac_key raw of
                  Inl err \<Rightarrow> (Inl err, fs)
                | Inr (entries, journal, needs_rewrite) \<Rightarrow>
                    let c1 = fold insert_loaded entries (c\<lparr>rc_auth_journal := Some journal\<rparr>) in
                    (case now of
                       None \<Rightarrow> (Inl RcClock, fs)
                     | Some t \<Rightarrow>
                         let c2 = prune_expired t c1 in
                         if needs_rewrite
                         then (case compact_authenticated_journal hm f path mac_key c2 fs of
                                 (Inl err, _, fs1) \<Rightarrow> (Inl err, fs1)
                               | (Inr _, c3, fs1) \<Rightarrow> (Inr c3, fs1))
                         else (Inr c2, fs)))))"

definition load_or_create_authenticated_with_window ::
  "hmac \<Rightarrow> bool \<Rightarrow> io_faults \<Rightarrow> u64 option \<Rightarrow> bytes \<Rightarrow> nat \<Rightarrow> bytes \<Rightarrow> u64 \<Rightarrow> file_system \<Rightarrow>
   (replay_cache_error + replay_cache) \<times> file_system" where
  "load_or_create_authenticated_with_window hm fails f now path capacity key_material window fs =
     load_authenticated_with_window hm fails f now path capacity key_material window fs"

definition load_or_create_authenticated ::
  "hmac \<Rightarrow> bool \<Rightarrow> io_faults \<Rightarrow> u64 option \<Rightarrow> bytes \<Rightarrow> nat \<Rightarrow> bytes \<Rightarrow> file_system \<Rightarrow>
   (replay_cache_error + replay_cache) \<times> file_system" where
  "load_or_create_authenticated hm fails f now path capacity key_material fs =
     load_or_create_authenticated_with_window hm fails f now path capacity key_material DEFAULT_REPLAY_WINDOW_SECS fs"

end
