(* ===== verification/Replay_Safety.thy ===== *)
theory Replay_Safety
  imports Replay_Cache
begin

text \<open>
  What the replay cache guarantees. The first part is about the entries in memory, the second about the journal under
  every fault, the third about whole runs with crashes and restarts: an entry that was accepted stays protected for as
  long as its timestamp is acceptable, and the journal a crash leaves behind always loads.
\<close>

section \<open>Memory\<close>

definition mem_inv :: "replay_cache \<Rightarrow> bool" where
  "mem_inv c \<longleftrightarrow> rc_nonces c = re_nonce ` set (rc_order c) \<and> rc_transcripts c = re_transcript ` set (rc_order c) \<and>
     rc_oldest_timestamp c = oldest_of (rc_order c) \<and> list_all entry_wf (rc_order c) \<and>
     list_all entry_wf (rc_pending_persist c) \<and> (plain_on_disk c \<longrightarrow> rc_encoded_entries c = map encode_plain_entry (rc_order c))"

lemma oldest_of_snoc: "oldest_of (es @ [e]) = min_timestamp (oldest_of es) (re_timestamp e)"
  by (simp add: oldest_of_def)

lemma oldest_of_Nil [simp]: "oldest_of [] = None"
  by (simp add: oldest_of_def)

lemma oldest_of_None: "oldest_of es = None \<longleftrightarrow> es = []"
  by (cases es rule: rev_cases) (simp_all add: oldest_of_snoc min_timestamp_def)

lemma oldest_of_le: "oldest_of es = Some m \<Longrightarrow> e \<in> set es \<Longrightarrow> m \<le> re_timestamp e"
  by (induction es arbitrary: m rule: rev_induct)
    (auto simp: oldest_of_snoc min_timestamp_def oldest_of_None min_le_iff_disj split: option.splits)

lemma saturating_add_mono: "a \<le> b \<Longrightarrow> saturating_add_u64 a w \<le> saturating_add_u64 b w"
proof (cases "unat b + unat w < 2 ^ 64")
  case True
  assume "a \<le> b"
  then have "unat a \<le> unat b" by (simp add: word_le_nat_alt)
  then show ?thesis using True by (simp add: saturating_add_u64_def word_le_nat_alt unat_word_ariths)
next
  case False
  then have "saturating_add_u64 b w = - 1" by (simp add: saturating_add_u64_def)
  then show ?thesis by (simp only: word_order.extremum)
qed

lemma unexpired_antimono: "unexpired w now e \<Longrightarrow> now' \<le> now \<Longrightarrow> unexpired w now' e"
  by (simp add: unexpired_def)

lemma prune_order: "mem_inv c \<Longrightarrow> rc_order (prune_expired now c) = filter (unexpired (rc_window_secs c) now) (rc_order c)"
proof -
  assume inv: "mem_inv c"
  have "filter (unexpired (rc_window_secs c) now) (rc_order c) = rc_order c"
    if "rc_oldest_timestamp c = Some m" "saturating_add_u64 m (rc_window_secs c) \<ge> now" for m
  proof -
    have "m \<le> re_timestamp e" if "e \<in> set (rc_order c)" for e
      using oldest_of_le [OF _ that] inv \<open>rc_oldest_timestamp c = Some m\<close> by (simp add: mem_inv_def)
    then show ?thesis
      using that(2) saturating_add_mono unfolding filter_id_conv unexpired_def by (metis order.trans)
  qed
  then show ?thesis
    using inv by (auto simp: prune_expired_def Let_def mem_inv_def oldest_of_None split: option.splits)
qed

lemma prune_fields [simp]:
  "rc_capacity (prune_expired now c) = rc_capacity c" "rc_window_secs (prune_expired now c) = rc_window_secs c"
  "rc_path (prune_expired now c) = rc_path c" "rc_mac_key (prune_expired now c) = rc_mac_key c"
  "rc_auth_journal (prune_expired now c) = rc_auth_journal c"
  by (auto simp: prune_expired_def Let_def split: option.splits)

lemma prune_pending:
  "set (rc_pending_persist (prune_expired now c)) \<subseteq> set (rc_pending_persist c)"
  "length (rc_pending_persist (prune_expired now c)) \<le> length (rc_pending_persist c)"
  "e \<in> set (rc_pending_persist c) \<Longrightarrow> unexpired (rc_window_secs c) now e \<Longrightarrow> e \<in> set (rc_pending_persist (prune_expired now c))"
  by (auto simp: prune_expired_def Let_def split: option.splits)

definition pruned :: "u64 \<Rightarrow> replay_cache \<Rightarrow> replay_cache" where
  "pruned now c =
     (let kept = filter (unexpired (rc_window_secs c) now) (rc_order c) in
      c\<lparr>rc_order := kept, rc_nonces := set (map re_nonce kept), rc_transcripts := set (map re_transcript kept),
        rc_oldest_timestamp := oldest_of kept,
        rc_encoded_entries := (if plain_on_disk c then map encode_plain_entry kept else rc_encoded_entries c),
        rc_pending_persist := filter (unexpired (rc_window_secs c) now) (rc_pending_persist c)\<rparr>)"

lemma prune_cases: "prune_expired now c = c \<or> prune_expired now c = pruned now c"
proof -
  have "filter P xs = xs" if "length (filter P xs) = length xs" for P and xs :: "replay_entry list"
    using that by (metis filter_id_conv length_filter_less less_irrefl)
  then show ?thesis
    by (simp add: prune_expired_def pruned_def Let_def split: option.splits)
qed

lemma prune_inv: "mem_inv c \<Longrightarrow> mem_inv (prune_expired now c)"
proof -
  assume "mem_inv c"
  then have "mem_inv (pruned now c)"
    by (simp add: pruned_def Let_def mem_inv_def plain_on_disk_def list_all_iff)
  with \<open>mem_inv c\<close> show ?thesis using prune_cases [of now c] by metis
qed

text \<open>What \<open>stage_insert\<close> does: it prunes, and then either leaves the cache alone or appends a fresh, unseen entry.\<close>

lemma stage_insert_cases:
  assumes "mem_inv c" "stage_insert e now c = (r, c')"
  obtains (refused) "r \<noteq> Inserted" "c' = prune_expired now c"
  | (inserted) "r = Inserted" "is_fresh (re_timestamp e) now c"
      "re_nonce e \<notin> re_nonce ` set (rc_order (prune_expired now c))"
      "re_transcript e \<notin> re_transcript ` set (rc_order (prune_expired now c))"
      "length (rc_order (prune_expired now c)) < rc_capacity c"
      "c' = insert_loaded e (prune_expired now c)"
proof -
  define p where "p = prune_expired now c"
  have inv: "mem_inv p" unfolding p_def using assms(1) by (rule prune_inv)
  have n: "x \<notin> A \<Longrightarrow> insert x A - {x} = A" for x and A :: "bytes set"
    by simp
  have fr: "is_fresh (re_timestamp e) now p = is_fresh (re_timestamp e) now c" and cap: "rc_capacity p = rc_capacity c"
    by (simp_all add: is_fresh_def p_def)
  have nt: "rc_nonces p = re_nonce ` set (rc_order p)" "rc_transcripts p = re_transcript ` set (rc_order p)"
    using inv by (simp_all add: mem_inv_def)
  note st = assms(2) [unfolded stage_insert_def p_def [symmetric] Let_def fr]
  show ?thesis
  proof (cases "\<not> is_fresh (re_timestamp e) now c \<or> re_nonce e \<in> rc_nonces p \<or> re_transcript e \<in> rc_transcripts p \<or>
      length (rc_order p) \<ge> rc_capacity p")
    case True
    then have "r \<noteq> Inserted" "c' = p"
      using st by (auto split: if_splits)
    then show ?thesis using refused by (simp add: p_def)
  next
    case False
    then have "r = Inserted" "c' = insert_loaded e p"
      using st by (simp_all add: insert_loaded_def)
    then show ?thesis
      using False inserted unfolding nt cap p_def [symmetric] by (simp add: not_le)
  qed
qed

lemma insert_loaded_fields [simp]:
  "rc_order (insert_loaded e c) = rc_order c @ [e]" "rc_capacity (insert_loaded e c) = rc_capacity c"
  "rc_window_secs (insert_loaded e c) = rc_window_secs c" "rc_path (insert_loaded e c) = rc_path c"
  "rc_mac_key (insert_loaded e c) = rc_mac_key c" "rc_auth_journal (insert_loaded e c) = rc_auth_journal c"
  "rc_pending_persist (insert_loaded e c) = rc_pending_persist c"
  by (simp_all add: insert_loaded_def push_loaded_entry_def)

lemma insert_loaded_inv: "mem_inv c \<Longrightarrow> entry_wf e \<Longrightarrow> mem_inv (insert_loaded e c)"
  by (auto simp: mem_inv_def insert_loaded_def push_loaded_entry_def oldest_of_snoc plain_on_disk_def)

lemma fold_insert_loaded:
  "mem_inv c \<Longrightarrow> list_all entry_wf es \<Longrightarrow> mem_inv (fold insert_loaded es c)"
  "rc_order (fold insert_loaded es c) = rc_order c @ es"
  "rc_capacity (fold insert_loaded es c) = rc_capacity c" "rc_window_secs (fold insert_loaded es c) = rc_window_secs c"
  "rc_path (fold insert_loaded es c) = rc_path c" "rc_mac_key (fold insert_loaded es c) = rc_mac_key c"
  "rc_auth_journal (fold insert_loaded es c) = rc_auth_journal c"
  "rc_pending_persist (fold insert_loaded es c) = rc_pending_persist c"
  by (induction es arbitrary: c) (simp_all add: insert_loaded_inv)

text \<open>Rolling back an insertion restores the pruned cache.\<close>

definition rolled_back :: "replay_entry \<Rightarrow> replay_cache \<Rightarrow> replay_cache" where
  "rolled_back e c =
     (case pop_pushed_entry c of
        None \<Rightarrow> c
      | Some (_, c4) \<Rightarrow> c4\<lparr>rc_nonces := rc_nonces c4 - {re_nonce e}, rc_transcripts := rc_transcripts c4 - {re_transcript e}\<rparr>)"

lemma rollback_oldest: "min_timestamp o' ts \<noteq> Some ts \<Longrightarrow> min_timestamp o' ts = o'"
  by (auto simp: min_timestamp_def min_def split: option.splits if_splits)

lemma rollback_insert:
  assumes "mem_inv c" "re_nonce e \<notin> re_nonce ` set (rc_order c)" "re_transcript e \<notin> re_transcript ` set (rc_order c)"
  shows "rolled_back e ((insert_loaded e c)\<lparr>rc_auth_journal := j\<rparr>) = c\<lparr>rc_auth_journal := j\<rparr>"
proof -
  have n: "insert (re_nonce e) (rc_nonces c) - {re_nonce e} = rc_nonces c"
    "insert (re_transcript e) (rc_transcripts c) - {re_transcript e} = rc_transcripts c"
    using assms by (simp_all add: mem_inv_def)
  have o': "rc_oldest_timestamp c = oldest_of (rc_order c)"
    using assms(1) by (simp add: mem_inv_def)
  show ?thesis
    using rollback_oldest [of "oldest_of (rc_order c)" "re_timestamp e"]
    by (intro replay_cache.equality) (simp_all add: rolled_back_def pop_pushed_entry_def Let_def insert_loaded_def push_loaded_entry_def plain_on_disk_def o' n)
qed

section \<open>The journal under faults\<close>

text \<open>\<open>fs_entries\<close>: a start now would find the entries \<open>es\<close>. \<open>disk_inv\<close>: moreover, a cache that believes to know the
  committed header of a non-empty journal is right.\<close>

definition fs_entries :: "hmac \<Rightarrow> bytes \<Rightarrow> bytes \<Rightarrow> file_system \<Rightarrow> replay_entry list \<Rightarrow> bool" where
  "fs_entries hm k p fs es \<longleftrightarrow>
     (case fs p of None \<Rightarrow> es = [] | Some raw \<Rightarrow> raw = [] \<and> es = [] \<or> recoverable hm k raw es)"

definition disk_inv :: "hmac \<Rightarrow> bytes \<Rightarrow> bytes \<Rightarrow> replay_cache \<Rightarrow> file_system \<Rightarrow> replay_entry list \<Rightarrow> bool" where
  "disk_inv hm k p c fs es \<longleftrightarrow> fs_entries hm k p fs es \<and>
     (\<forall>j. rc_auth_journal c = Some j \<longrightarrow> aj_count j \<noteq> 0 \<longrightarrow> (\<exists>raw. fs p = Some raw \<and> journal_file hm k es j raw))"

lemma tmp_path_neq [simp]: "cache_tmp_path p \<noteq> p" "p \<noteq> cache_tmp_path p"
  by (simp_all add: cache_tmp_path_def ascii_def)

lemma journal_file_entries: "hmac_correct hm \<Longrightarrow> journal_file hm k es j raw \<Longrightarrow> recoverable hm k raw es"
  using journal_file_recoverable [of hm k es j raw "[]"] by simp

lemma compact_spec:
  assumes "hmac_correct hm" "list_all entry_wf (rc_order c)" "length (rc_order c) < 2 ^ 64" "fs_entries hm k p fs es"
    and "compact_authenticated_journal hm f p k c fs = (r, c', fs')"
  obtains es' j' where "c' = c\<lparr>rc_auth_journal := j'\<rparr>" "disk_inv hm k p c' fs' es'" "es' \<in> {es, rc_order c}"
    "r = Inr () \<Longrightarrow> es' = rc_order c \<and> (\<exists>j. j' = Some j \<and> aj_generation j = 1 \<and> aj_count j = of_nat (length (rc_order c)))"
proof -
  obtain raw j where sj: "serialize_authenticated_journal hm k (rc_order c) = (raw, j)" by fastforce
  note jf = serialize_journal_file [OF assms(1-3) sj]
  have new: "fs_entries hm k p fs2 (rc_order c)" if "fs2 p = Some raw" for fs2
    using journal_file_entries [OF assms(1) jf(1)] that by (simp add: fs_entries_def)
  have old: "fs_entries hm k p fs2 es" if "fs2 p = fs p" for fs2
    using assms(4) that by (simp add: fs_entries_def)
  let ?tmp = "cache_tmp_path p"
  note e = assms(5) [unfolded compact_authenticated_journal_def sj Let_def prod.case write_cache_file_def fs_rename_def
      fsync_parent_dir_def]
  show ?thesis
  proof (cases "f_tmp f = None \<and> f_rename f \<noteq> Some False")
    case False
    then have "c' = c\<lparr>rc_auth_journal := None\<rparr>" "fs' p = fs p" "r = Inl RcIo"
      using e by (auto split: option.splits)
    then show ?thesis using that [of None es] old by (simp add: disk_inv_def)
  next
    case True
    then have fs': "fs' p = Some raw"
      using e by (auto split: option.splits if_splits)
    consider "r = Inl RcIo" "c' = c\<lparr>rc_auth_journal := None\<rparr>" | "r = Inr ()" "c' = c\<lparr>rc_auth_journal := Some j\<rparr>"
      using e True by (auto split: option.splits if_splits)
    then show ?thesis
    proof cases
      case 1
      then show ?thesis using that [of None "rc_order c"] new [of fs', OF fs'] by (simp add: disk_inv_def)
    next
      case 2
      then show ?thesis using that [of "Some j" "rc_order c"] new [of fs', OF fs'] jf fs' by (simp add: disk_inv_def)
    qed
  qed
qed

text \<open>The MAC is only relied on when a header write was torn.\<close>

definition commit_separates :: "hmac \<Rightarrow> io_faults \<Rightarrow> bytes \<Rightarrow> bytes \<Rightarrow> replay_entry \<Rightarrow> replay_cache \<Rightarrow> file_system \<Rightarrow> bool" where
  "commit_separates hm f p k e c fs \<longleftrightarrow>
     (\<forall>j file. f_header f \<noteq> None \<longrightarrow> rc_auth_journal c = Some j \<longrightarrow> fs p = Some file \<longrightarrow>
        mac_separates hm k (slot_header hm k (next_slot hm k j e))
          (take AUTH_JOURNAL_HEADER_LEN (drop (other_slot j * AUTH_JOURNAL_HEADER_LEN) file)))"

definition room :: "nat \<Rightarrow> replay_cache \<Rightarrow> bool" where
  "room n c \<longleftrightarrow> length (rc_order c) + n < 2 ^ 64 - 1 \<and>
     (\<forall>j. rc_auth_journal c = Some j \<longrightarrow> unat (aj_generation j) + n < 2 ^ 64 - 1 \<and> unat (aj_count j) + n < 2 ^ 64 - 1)"

lemma append_spec:
  assumes hm: "hmac_correct hm" and inv: "disk_inv hm k p c fs es" and j: "rc_auth_journal c = Some j" "aj_count j \<noteq> 0"
    and rm: "room 1 c" and e: "entry_wf e" and sep: "commit_separates hm f p k e c fs"
    and cmp: "\<not> should_compact_authenticated_journal c j"
    and st: "persist_authenticated_entry hm f p k (Some e) c fs = (r, c', fs')"
  obtains es' j' where "c' = c\<lparr>rc_auth_journal := j'\<rparr>" "disk_inv hm k p c' fs' es'" "es' \<in> {es, es @ [e]}" "r \<noteq> Inr True"
    "r = Inr False \<Longrightarrow> es' = es @ [e] \<and> j' = Some (next_journal hm k j e)"
proof -
  obtain "file" where jfile: "fs p = Some file" "journal_file hm k es j file"
    using inv j by (auto simp: disk_inv_def)
  have cur: "fs_entries hm k p fs es" using inv by (simp add: disk_inv_def)
  have rec: "recoverable hm k file es" using journal_file_entries [OF hm jfile(2)] .
  then have ne: "file \<noteq> []" by (auto simp: recoverable_def blank_def split_whitespace_def word_done_def)
  have cnt: "unat (aj_count j) = length es"
    using jfile(2) by (simp add: journal_file_def journal_wf_def unsigned_of_nat take_bit_nat_eq_self)
  have g: "aj_generation j \<noteq> - 1" and len: "Suc (length es) < 2 ^ 64"
    using rm j cnt by (auto simp: room_def unsigned_minus_1_eq_mask mask_eq_exp_minus_1)
  have enc: "encode_authenticated_journal_entry hm k (saturating_add_u64 (aj_count j) 1) e (aj_tail_mac j) =
      (next_line hm k j e, hs_tail_mac (next_slot hm k j e))"
    by (simp add: next_line_def next_slot_def encode_entry_text)
  have hdr: "authenticated_journal_header hm k (saturating_add_u64 (aj_generation j) 1) (saturating_add_u64 (aj_count j) 1)
      (hs_tail_mac (next_slot hm k j e)) = slot_header hm k (next_slot hm k j e)"
    by (simp add: slot_header_def next_slot_def)
  have nj: "\<lparr>aj_generation = saturating_add_u64 (aj_generation j) 1, aj_count = saturating_add_u64 (aj_count j) 1,
      aj_tail_mac = hs_tail_mac (next_slot hm k j e), aj_active_slot = other_slot j\<rparr> = next_journal hm k j e"
    by (simp add: next_journal_def next_slot_def Let_def)
  note d = st [unfolded persist_authenticated_entry_def j(1) option.case Let_def enc prod.case hdr other_slot_def [symmetric] nj jfile(1)]
  have d': "(if f_open f then (Inl RcIo, c, fs)
      else if f_metadata f then (Inl RcIo, c, fs(p \<mapsto> file))
      else (case f_append f of
          Some n \<Rightarrow> if f_set_len f then (Inl RcIo, c\<lparr>rc_auth_journal := None\<rparr>, fs(p \<mapsto> file @ take n (next_line hm k j e)))
            else (Inl RcIo, c, fs(p \<mapsto> file))
        | None \<Rightarrow> (case f_header f of
            Some n \<Rightarrow> (Inl RcIo, c\<lparr>rc_auth_journal := None\<rparr>, fs(p \<mapsto> write_at (file @ next_line hm k j e)
              (other_slot j * AUTH_JOURNAL_HEADER_LEN) (take n (slot_header hm k (next_slot hm k j e)))))
          | None \<Rightarrow> (Inr False, c\<lparr>rc_auth_journal := Some (next_journal hm k j e)\<rparr>, fs(p \<mapsto> write_at (file @ next_line hm k j e)
              (other_slot j * AUTH_JOURNAL_HEADER_LEN) (slot_header hm k (next_slot hm k j e))))))) = (r, c', fs')"
    using d unfolding if_not_P [OF j(2)] if_not_P [OF cmp] if_not_P [OF ne] fun_upd_upd by assumption
  have same: "disk_inv hm k p c (fs(p \<mapsto> file)) es"
    using inv jfile(1) by (simp add: disk_inv_def fs_entries_def)
  have c_id: "c = c\<lparr>rc_auth_journal := Some j\<rparr>" using j(1) by (cases c) simp
  consider (fopen) "f_open f" | (meta) "\<not> f_open f" "f_metadata f"
    | (append) n where "\<not> f_open f" "\<not> f_metadata f" "f_append f = Some n"
    | (header) n where "\<not> f_open f" "\<not> f_metadata f" "f_append f = None" "f_header f = Some n"
    | (ok) "\<not> f_open f" "\<not> f_metadata f" "f_append f = None" "f_header f = None"
    by (cases "f_open f"; cases "f_metadata f"; cases "f_append f"; cases "f_header f") auto
  then show ?thesis
  proof cases
    case fopen
    then show ?thesis using d' inv c_id by (intro that [of "Some j" es]) auto
  next
    case meta
    then show ?thesis using d' same c_id by (intro that [of "Some j" es]) auto
  next
    case append
    show ?thesis
    proof (cases "f_set_len f")
      case True
      then have "fs' p = Some (file @ take n (next_line hm k j e))" "c' = c\<lparr>rc_auth_journal := None\<rparr>" "r = Inl RcIo"
        using d' append by auto
      then show ?thesis
        using append_recoverable [OF hm jfile(2)] by (intro that [of None es]) (auto simp: disk_inv_def fs_entries_def)
    next
      case False
      then show ?thesis using d' append same c_id by (intro that [of "Some j" es]) auto
    qed
  next
    case header
    have "mac_separates hm k (slot_header hm k (next_slot hm k j e))
        (take AUTH_JOURNAL_HEADER_LEN (drop (other_slot j * AUTH_JOURNAL_HEADER_LEN) file))"
      using sep header j(1) jfile(1) by (simp add: commit_separates_def)
    then obtain es' where es': "es' \<in> {es, es @ [e]}" "recoverable hm k (write_at (file @ next_line hm k j e)
        (other_slot j * AUTH_JOURNAL_HEADER_LEN) (take n (slot_header hm k (next_slot hm k j e)))) es'"
      using torn_recoverable [OF hm jfile(2) g len e] by blast
    then show ?thesis
      using d' header by (intro that [of None es']) (auto simp: disk_inv_def fs_entries_def)
  next
    case ok
    note jf = commit_complete [OF hm jfile(2) g len e]
    show ?thesis
      using d' ok jf journal_file_entries [OF hm jf]
      by (intro that [of "Some (next_journal hm k j e)" "es @ [e]"]) (auto simp: disk_inv_def fs_entries_def)
  qed
qed

lemma persist_entry_spec:
  assumes "hmac_correct hm" "list_all entry_wf (rc_order c)" "disk_inv hm k p c fs es" "room (n + 1) c" "entry_wf e"
    and "commit_separates hm f p k e c fs"
    and "persist_authenticated_entry hm f p k (Some e) c fs = (r, c', fs')"
  obtains es' j' where "c' = c\<lparr>rc_auth_journal := j'\<rparr>" "disk_inv hm k p c' fs' es'" "es' \<in> {es, es @ [e], rc_order c}"
    "r = Inr True \<Longrightarrow> es' = rc_order c \<and> room n c'" "r = Inr False \<Longrightarrow> es' = es @ [e] \<and> room n c'"
proof (cases "\<exists>j. rc_auth_journal c = Some j \<and> aj_count j \<noteq> 0 \<and> \<not> should_compact_authenticated_journal c j")
  case True
  then obtain j where j: "rc_auth_journal c = Some j" "aj_count j \<noteq> 0" "\<not> should_compact_authenticated_journal c j"
    by blast
  have r1: "room 1 c" using assms(4) by (auto simp: room_def)
  obtain es' j' where s: "c' = c\<lparr>rc_auth_journal := j'\<rparr>" "disk_inv hm k p c' fs' es'" "es' \<in> {es, es @ [e]}" "r \<noteq> Inr True"
      "r = Inr False \<Longrightarrow> es' = es @ [e] \<and> j' = Some (next_journal hm k j e)"
    using append_spec [OF assms(1,3) j(1,2) r1 assms(5,6) j(3) assms(7)] by metis
  have "room n (c\<lparr>rc_auth_journal := Some (next_journal hm k j e)\<rparr>)"
    using assms(4) j(1)
    by (auto simp: room_def next_journal_def next_slot_def Let_def saturating_add_u64_def unat_word_ariths)
  then show ?thesis using that [of j' es'] s by blast
next
  case False
  have st: "compacted (compact_authenticated_journal hm f p k c fs) = (r, c', fs')"
  proof (cases "rc_auth_journal c")
    case None
    then show ?thesis using assms(7) by (simp add: persist_authenticated_entry_def)
  next
    case (Some j)
    with False have "aj_count j = 0 \<or> aj_count j \<noteq> 0 \<and> should_compact_authenticated_journal c j" by blast
    then show ?thesis
      using assms(7) unfolding persist_authenticated_entry_def Some option.case by (elim disjE) simp_all
  qed
  obtain r0 where r0: "compact_authenticated_journal hm f p k c fs = (r0, c', fs')" "r = Inr True \<Longrightarrow> r0 = Inr ()" "r \<noteq> Inr False"
    using st by (auto simp: compacted_def split: prod.splits sum.splits)
  have "length (rc_order c) < 2 ^ 64" "fs_entries hm k p fs es" using assms(3,4) by (auto simp: room_def disk_inv_def)
  then obtain es' j' where s: "c' = c\<lparr>rc_auth_journal := j'\<rparr>" "disk_inv hm k p c' fs' es'" "es' \<in> {es, rc_order c}"
      "r0 = Inr () \<Longrightarrow> es' = rc_order c \<and> (\<exists>j. j' = Some j \<and> aj_generation j = 1 \<and> aj_count j = of_nat (length (rc_order c)))"
    using compact_spec [OF assms(1,2) _ _ r0(1)] by metis
  have "room n c'" if "r0 = Inr ()"
    using s(1) s(4) [OF that] assms(4) by (auto simp: room_def unsigned_of_nat take_bit_nat_eq_self)
  then show ?thesis using that [of j' es'] s r0(2,3) by blast
qed

fun queue_separates :: "hmac \<Rightarrow> io_faults list \<Rightarrow> replay_entry list \<Rightarrow> replay_cache \<Rightarrow> file_system \<Rightarrow> bool" where
  "queue_separates hm fl [] c fs \<longleftrightarrow> True"
| "queue_separates hm fl (e # q) c fs \<longleftrightarrow>
     (if re_nonce e \<notin> rc_nonces c then queue_separates hm fl q (c\<lparr>rc_pending_persist := q\<rparr>) fs
      else
        (case (rc_path c, rc_mac_key c) of
           (Some p, Some k) \<Rightarrow>
             commit_separates hm (next_fault fl) p k e c fs \<and>
             (case persist_authenticated_entry hm (next_fault fl) p k (Some e) c fs of
                (Inr False, c1, fs1) \<Rightarrow> queue_separates hm (drop 1 fl) q (c1\<lparr>rc_pending_persist := q\<rparr>) fs1
              | _ \<Rightarrow> True)
         | _ \<Rightarrow> True))"

text \<open>\<open>covered\<close>: every entry in memory is on disk or still queued.\<close>

definition covered :: "replay_cache \<Rightarrow> replay_entry list \<Rightarrow> bool" where
  "covered c es \<longleftrightarrow> set (rc_order c) \<subseteq> set es \<union> set (rc_pending_persist c)"

lemma queue_spec:
  assumes "hmac_correct hm" "rc_path c = Some p" "rc_mac_key c = Some k" "mem_inv c" "rc_pending_persist c = q"
    and "disk_inv hm k p c fs es" "covered c es" "room (length q + m) c" "queue_separates hm fl q c fs"
    and "persist_queue hm fl q c fs = (r, c', fs')"
  shows "\<exists>es' j' q'. c' = c\<lparr>rc_auth_journal := j', rc_pending_persist := q'\<rparr> \<and> disk_inv hm k p c' fs' es' \<and> covered c' es' \<and>
    set q' \<subseteq> set q \<and> (r = Inr () \<longrightarrow> q' = [] \<and> room m c')"
  using assms(2-)
proof (induction q arbitrary: fl c fs es)
  case Nil
  then show ?case
    by (intro exI [of _ es] exI [of _ "rc_auth_journal c"] exI [of _ "[]"]) auto
next
  case (Cons e q)
  have wf: "list_all entry_wf (rc_order c)" "entry_wf e" "list_all entry_wf q"
    using Cons.prems(3,4) by (simp_all add: mem_inv_def)
  show ?case
  proof (cases "re_nonce e \<in> rc_nonces c")
    case False
    let ?c = "c\<lparr>rc_pending_persist := q\<rparr>"
    have "e \<notin> set (rc_order c)" using False Cons.prems(3) by (auto simp: mem_inv_def)
    then have "covered ?c es" using Cons.prems(4,6) by (auto simp: covered_def)
    moreover have "mem_inv ?c" using Cons.prems(3) wf(3) by (simp add: mem_inv_def plain_on_disk_def)
    moreover have "room (length q + m) ?c" using Cons.prems(7) by (auto simp: room_def)
    ultimately obtain es' j' q' where ih: "c' = ?c\<lparr>rc_auth_journal := j', rc_pending_persist := q'\<rparr>" "disk_inv hm k p c' fs' es'"
        "covered c' es'" "set q' \<subseteq> set q" "r = Inr () \<longrightarrow> q' = [] \<and> room m c'"
      using Cons.IH [of ?c fs es fl] Cons.prems(1,2,5,8,9) False by (auto simp: disk_inv_def)
    then have "c' = c\<lparr>rc_auth_journal := j', rc_pending_persist := q'\<rparr>" by simp
    then show ?thesis using ih(2-5) by (intro exI [of _ es'] exI [of _ j'] exI [of _ q']) auto
  next
    case True
    obtain r1 c1 fs1 where p1: "persist_authenticated_entry hm (next_fault fl) p k (Some e) c fs = (r1, c1, fs1)"
      by (metis prod.exhaust)
    have sep: "commit_separates hm (next_fault fl) p k e c fs"
      using Cons.prems(1,2,8) True by simp
    have rm: "room (length q + m + 1) c" using Cons.prems(7) by simp
    obtain es1 j1 where s: "c1 = c\<lparr>rc_auth_journal := j1\<rparr>" "disk_inv hm k p c1 fs1 es1" "es1 \<in> {es, es @ [e], rc_order c}"
        "r1 = Inr True \<Longrightarrow> es1 = rc_order c \<and> room (length q + m) c1" "r1 = Inr False \<Longrightarrow> es1 = es @ [e] \<and> room (length q + m) c1"
      using persist_entry_spec [OF assms(1) wf(1) Cons.prems(5) rm wf(2) sep p1] by metis
    have cov: "covered c1 es1" using s(1,3) Cons.prems(6) by (auto simp: covered_def)
    consider (err) x where "r1 = Inl x" | (all) "r1 = Inr True" | (one) "r1 = Inr False"
      by (metis (full_types) sumE)
    then show ?thesis
    proof cases
      case err
      then have "r = Inl x" "c' = c1" "fs' = fs1"
        using Cons.prems(1,2,9) True p1 by auto
      then show ?thesis
        using s cov Cons.prems(4)
        by (intro exI [of _ es1] exI [of _ j1] exI [of _ "e # q"]) (auto simp: covered_def)
    next
      case all
      then have "r = Inr ()" "c' = c1\<lparr>rc_pending_persist := []\<rparr>" "fs' = fs1"
        using Cons.prems(1,2,9) True p1 by auto
      then show ?thesis
        using s(1,2) s(4) [OF all]
        by (intro exI [of _ es1] exI [of _ j1] exI [of _ "[]"]) (auto simp: covered_def disk_inv_def room_def)
    next
      case one
      let ?c = "c1\<lparr>rc_pending_persist := q\<rparr>"
      have "covered ?c es1" using s(1) s(5) [OF one] Cons.prems(4,6) by (auto simp: covered_def)
      moreover have "mem_inv ?c" using s(1) Cons.prems(3) wf(3) by (simp add: mem_inv_def plain_on_disk_def)
      moreover have "room (length q + m) ?c" using s(5) [OF one] by (auto simp: room_def)
      moreover have "queue_separates hm (drop 1 fl) q ?c fs1" "persist_queue hm (drop 1 fl) q ?c fs1 = (r, c', fs')"
        using Cons.prems(1,2,8,9) True p1 one by auto
      ultimately obtain es' j' q' where ih: "c' = ?c\<lparr>rc_auth_journal := j', rc_pending_persist := q'\<rparr>" "disk_inv hm k p c' fs' es'"
          "covered c' es'" "set q' \<subseteq> set q" "r = Inr () \<longrightarrow> q' = [] \<and> room m c'"
        using Cons.IH [of ?c fs1 es1 "drop 1 fl"] Cons.prems(1,2) s(1,2) by (auto simp: disk_inv_def)
      then have "c' = c\<lparr>rc_auth_journal := j', rc_pending_persist := q'\<rparr>" using s(1) by simp
      then show ?thesis using ih(2-5) by (intro exI [of _ es'] exI [of _ j'] exI [of _ q']) auto
    qed
  qed
qed

section \<open>Runs with crashes\<close>

definition guarded :: "u64 \<Rightarrow> u64 \<Rightarrow> replay_entry set \<Rightarrow> replay_entry set \<Rightarrow> bool" where
  "guarded w t held G \<longleftrightarrow> (\<forall>g \<in> G. unexpired w t g \<longrightarrow> g \<in> held)"

definition conflict :: "replay_entry \<Rightarrow> replay_entry \<Rightarrow> bool" where
  "conflict g e \<longleftrightarrow> re_nonce g = re_nonce e \<or> re_transcript g = re_transcript e"

lemma guarded_prune:
  assumes "mem_inv c" "rc_window_secs c = w" "guarded w t (set (rc_order c)) G" "t \<le> now"
  shows "guarded w now (set (rc_order (prune_expired now c))) G"
  using assms unexpired_antimono by (auto simp: guarded_def prune_order)

lemma stage_protects:
  assumes "mem_inv c" "rc_window_secs c = w" "guarded w t (set (rc_order c)) G" "t \<le> now" "stage_insert e now c = (Inserted, c')"
    and "g \<in> G" "conflict g e"
  shows "re_timestamp g < re_timestamp e"
proof (rule ccontr)
  assume "\<not> re_timestamp g < re_timestamp e"
  then have ts: "re_timestamp e \<le> re_timestamp g" by simp
  from assms(1,5) show False
  proof (cases rule: stage_insert_cases)
    case inserted
    then have "now \<le> saturating_add_u64 (re_timestamp e) w"
      using assms(2) by (simp add: is_fresh_def)
    then have "unexpired w now g"
      using saturating_add_mono [OF ts, of w] by (simp add: unexpired_def)
    then have "g \<in> set (rc_order (prune_expired now c))"
      using guarded_prune [OF assms(1-4)] assms(6) by (simp add: guarded_def)
    then show False
      using inserted(3,4) assms(7) unfolding conflict_def by (metis image_eqI)
  qed simp
qed

lemma stage_covered:
  assumes "mem_inv c" "covered c es" "disk_inv hm k p c fs es"
  shows "covered (prune_expired now c) es" "disk_inv hm k p (prune_expired now c) fs es"
  using assms prune_pending(3) [of _ c now] by (auto simp: covered_def prune_order disk_inv_def)

definition run_inv ::
  "hmac \<Rightarrow> bytes \<Rightarrow> bytes \<Rightarrow> nat \<Rightarrow> u64 \<Rightarrow> file_system \<times> replay_cache option \<times> u64 \<times> replay_entry set \<Rightarrow> bool" where
  "run_inv hm k p cap w s =
     (case s of
        (fs, None, t, G) \<Rightarrow> \<exists>es. fs_entries hm k p fs es \<and> guarded w t (set es) G
      | (fs, Some c, t, G) \<Rightarrow>
          mem_inv c \<and> rc_path c = Some p \<and> rc_mac_key c = Some k \<and> rc_capacity c = cap \<and> rc_window_secs c = w \<and>
          (\<exists>es. disk_inv hm k p c fs es \<and> covered c es) \<and> guarded w t (set (rc_order c)) G)"

definition insert_separates ::
  "hmac \<Rightarrow> io_faults list \<Rightarrow> io_faults \<Rightarrow> bytes \<Rightarrow> bytes \<Rightarrow> replay_entry \<Rightarrow> u64 \<Rightarrow> replay_cache \<Rightarrow> file_system \<Rightarrow> bool" where
  "insert_separates hm fl f p k e now c fs \<longleftrightarrow>
     queue_separates hm fl (rc_pending_persist c) c fs \<and>
     (case persist_pending hm fl c fs of
        (Inr _, c1, fs1) \<Rightarrow> commit_separates hm f p k e (snd (stage_insert e now c1)) fs1
      | _ \<Rightarrow> True)"

lemma persist_spec:
  assumes "hmac_correct hm" "run_inv hm k p cap w (fs, Some c, t, G)" "room (length (rc_pending_persist c) + m) c"
    and "queue_separates hm fl (rc_pending_persist c) c fs" "persist_pending hm fl c fs = (r, c', fs')"
  shows "run_inv hm k p cap w (fs', Some c', t, G)" "rc_order c' = rc_order c"
    "r = Inr () \<Longrightarrow> rc_pending_persist c' = [] \<and> room m c'"
proof -
  obtain es where inv: "mem_inv c" "rc_path c = Some p" "rc_mac_key c = Some k" "rc_capacity c = cap" "rc_window_secs c = w"
      "disk_inv hm k p c fs es" "covered c es" "guarded w t (set (rc_order c)) G"
    using assms(2) by (auto simp: run_inv_def)
  obtain es' j' q' where q: "c' = c\<lparr>rc_auth_journal := j', rc_pending_persist := q'\<rparr>" "disk_inv hm k p c' fs' es'" "covered c' es'"
      "set q' \<subseteq> set (rc_pending_persist c)" "r = Inr () \<longrightarrow> q' = [] \<and> room m c'"
    using queue_spec [OF assms(1) inv(2,3,1) refl inv(6,7) assms(3,4)] assms(5) unfolding persist_pending_def by metis
  have "mem_inv c'" using inv(1) q(1,4) by (auto simp: mem_inv_def plain_on_disk_def list_all_iff)
  then show "run_inv hm k p cap w (fs', Some c', t, G)"
    using inv q(1-3) by (auto simp: run_inv_def)
  show "rc_order c' = rc_order c" using q(1) by simp
  show "r = Inr () \<Longrightarrow> rc_pending_persist c' = [] \<and> room m c'" using q(1,5) by simp
qed

lemma insert_loaded_guarded:
  assumes "guarded w t (set (rc_order c)) G"
  shows "guarded w t (set (rc_order (insert_loaded e c))) (insert e G)"
  using assms by (auto simp: guarded_def)

lemma persist_one_spec:
  assumes "hmac_correct hm" "mem_inv c" "rc_path c = Some p" "rc_mac_key c = Some k"
    and "disk_inv hm k p c fs es" "set (rc_order c) \<subseteq> set es" "room 2 c" "entry_wf e"
    and "commit_separates hm f p k e (insert_loaded e c) fs"
    and "persist hm f (insert_loaded e c) fs = (r, c', fs')"
  shows "\<exists>es' j'. c' = (insert_loaded e c)\<lparr>rc_auth_journal := j'\<rparr> \<and> disk_inv hm k p c' fs' es' \<and> set (rc_order c) \<subseteq> set es' \<and>
    (r = Inr () \<longrightarrow> e \<in> set es')"
proof -
  let ?c = "insert_loaded e c"
  obtain r1 where r1: "persist_authenticated_entry hm f p k (Some e) ?c fs = (r1, c', fs')" "r = Inr () \<Longrightarrow> \<exists>b. r1 = Inr b"
    using assms(3,4,10) by (auto simp: persist_def persist_authenticated_def split: prod.splits sum.splits)
  have wf: "list_all entry_wf (rc_order ?c)" using assms(2,8) by (simp add: mem_inv_def)
  have di: "disk_inv hm k p ?c fs es" using assms(5) by (simp add: disk_inv_def)
  have rm: "room (0 + 1) ?c" using assms(7) by (auto simp: room_def)
  obtain es' j' where s: "c' = ?c\<lparr>rc_auth_journal := j'\<rparr>" "disk_inv hm k p c' fs' es'" "es' \<in> {es, es @ [e], rc_order ?c}"
      "r1 = Inr True \<Longrightarrow> es' = rc_order ?c \<and> room 0 c'" "r1 = Inr False \<Longrightarrow> es' = es @ [e] \<and> room 0 c'"
    using persist_entry_spec [OF assms(1) wf di rm assms(8,9) r1(1)] by metis
  have "e \<in> set es'" if ok: "r = Inr ()"
  proof -
    obtain b where "r1 = Inr b" using r1(2) [OF ok] by blast
    then show ?thesis using s(4,5) by (cases b) auto
  qed
  moreover have "set (rc_order c) \<subseteq> set es'" using s(3) assms(6) by auto
  ultimately show ?thesis using s(1,2) by blast
qed

lemma insert_spec:
  assumes "hmac_correct hm" "run_inv hm k p cap w (fs, Some c, t, G)" "0 < cap" "t \<le> now" "entry_wf e"
    and "room (length (rc_pending_persist c) + 2) c" "insert_separates hm fl f p k e now c fs"
    and "insert_new_outcome hm fl f e now c fs = (r, c', fs')"
  shows "run_inv hm k p cap w (fs', Some c', now, if r = Inr Inserted then insert e G else G)"
    "r = Inr Inserted \<Longrightarrow> g \<in> G \<Longrightarrow> conflict g e \<Longrightarrow> re_timestamp g < re_timestamp e"
proof -
  obtain r1 c1 fs1 where p1: "persist_pending hm fl c fs = (r1, c1, fs1)" by (metis prod.exhaust)
  have sep: "queue_separates hm fl (rc_pending_persist c) c fs" using assms(7) by (simp add: insert_separates_def)
  note pp = persist_spec [OF assms(1,2,6) sep p1]
  have cap: "rc_capacity c \<noteq> 0" using assms(2,3) by (auto simp: run_inv_def)
  have flush: "(if rc_pending_persist c \<noteq> [] then persist_pending hm fl c fs else (Inr (), c, fs)) = (r1, c1, fs1)"
    using p1 by (auto simp: persist_pending_def)
  note st = assms(8) [unfolded insert_new_outcome_def flush if_not_P [OF cap] prod.case]
  have mono: "guarded w now A G" if "guarded w t A G" for A
    using that assms(4) unexpired_antimono by (auto simp: guarded_def)
  have "run_inv hm k p cap w (fs', Some c', now, if r = Inr Inserted then insert e G else G) \<and>
    (r = Inr Inserted \<longrightarrow> g \<in> G \<longrightarrow> conflict g e \<longrightarrow> re_timestamp g < re_timestamp e)"
  proof (cases r1)
    case (Inl x)
    then have "r = Inl x" "c' = c1" "fs' = fs1" using st by auto
    then show ?thesis using pp(1) mono by (auto simp: run_inv_def)
  next
    case (Inr u)
    obtain es where inv: "mem_inv c1" "rc_path c1 = Some p" "rc_mac_key c1 = Some k" "rc_capacity c1 = cap" "rc_window_secs c1 = w"
        "disk_inv hm k p c1 fs1 es" "covered c1 es" "guarded w t (set (rc_order c1)) G"
      using pp(1) by (auto simp: run_inv_def)
    have q: "rc_pending_persist c1 = []" "room 2 c1" using pp(3) Inr by auto
    obtain out c2 where s2: "stage_insert e now c1 = (out, c2)" by fastforce
    let ?p = "prune_expired now c1"
    have pi: "mem_inv ?p" "covered ?p es" "disk_inv hm k p ?p fs1 es" "guarded w now (set (rc_order ?p)) G"
      using prune_inv [OF inv(1)] stage_covered [OF inv(1,7,6)] guarded_prune [OF inv(1,5,8) assms(4)] by auto
    have pq: "rc_pending_persist ?p = []" using prune_pending(1) [of now c1] q(1) by simp
    from inv(1) s2 show ?thesis
    proof (cases rule: stage_insert_cases)
      case refused
      then have "r = Inr out" "c' = ?p" "fs' = fs1" using st Inr s2 by auto
      then show ?thesis using refused(1) pi inv(2-5) by (auto simp: run_inv_def)
    next
      case inserted
      have sub: "set (rc_order ?p) \<subseteq> set es" using pi(2) pq by (simp add: covered_def)
      have rm: "room 2 ?p"
        using q(2) by (auto simp: room_def prune_order [OF inv(1)] intro: le_less_trans [OF length_filter_le])
      have cs: "commit_separates hm f p k e c2 fs1"
        using assms(7) p1 Inr s2 by (simp add: insert_separates_def)
      obtain r3 c3 fs3 where p3: "persist hm f c2 fs1 = (r3, c3, fs3)" by (metis prod.exhaust)
      obtain es' j' where s3: "c3 = (insert_loaded e ?p)\<lparr>rc_auth_journal := j'\<rparr>" "disk_inv hm k p c3 fs3 es'"
          "set (rc_order ?p) \<subseteq> set es'" "r3 = Inr () \<longrightarrow> e \<in> set es'"
        using persist_one_spec [OF assms(1) pi(1) _ _ pi(3) sub rm assms(5)] inv(2,3) cs p3 inserted(6) by auto blast
      show ?thesis
      proof (cases r3)
        case Inr
        then have r': "r = Inr Inserted" "c' = c3" "fs' = fs3"
          using st \<open>r1 = Inr u\<close> s2 inserted(1) p3 by auto
        have "mem_inv c3" using insert_loaded_inv [OF pi(1) assms(5)] s3(1) by (simp add: mem_inv_def plain_on_disk_def)
        moreover have "covered c3 es'" using s3 Inr by (auto simp: covered_def)
        moreover have "guarded w now (set (rc_order c3)) (insert e G)"
          using insert_loaded_guarded [OF pi(4)] s3(1) by simp
        ultimately show ?thesis
          using r' s3(1,2) inv(2-5) stage_protects [OF inv(1,5,8) assms(4)] s2 inserted(1) by (auto simp: run_inv_def)
      next
        case (Inl x)
        then have r': "r = Inl x" "c' = rolled_back e c3" "fs' = fs3"
          using st \<open>r1 = Inr u\<close> s2 inserted(1) p3 by (auto simp: rolled_back_def)
        have rb: "c' = ?p\<lparr>rc_auth_journal := j'\<rparr>"
          using r'(2) rollback_insert [OF pi(1) inserted(3,4)] s3(1) by simp
        have "mem_inv c'" using pi(1) rb by (simp add: mem_inv_def plain_on_disk_def)
        moreover have "covered c' es'" "disk_inv hm k p c' fs' es'"
          using rb s3(1-3) r'(3) by (auto simp: covered_def disk_inv_def)
        ultimately show ?thesis
          using r'(1,3) rb pi(4) inv(2-5) by (auto simp: run_inv_def)
      qed
    qed
  qed
  then show "run_inv hm k p cap w (fs', Some c', now, if r = Inr Inserted then insert e G else G)"
    "r = Inr Inserted \<Longrightarrow> g \<in> G \<Longrightarrow> conflict g e \<Longrightarrow> re_timestamp g < re_timestamp e"
    by blast+
qed

lemma deferred_spec:
  assumes "run_inv hm k p cap w (fs, Some c, t, G)" "0 < cap" "t \<le> now" "entry_wf e"
    and "insert_new_outcome_deferred e now c = (r, c')"
  shows "run_inv hm k p cap w (fs, Some c', now, if r = Inserted then insert e G else G)"
    "r = Inserted \<Longrightarrow> g \<in> G \<Longrightarrow> conflict g e \<Longrightarrow> re_timestamp g < re_timestamp e"
proof -
  obtain es where inv: "mem_inv c" "rc_path c = Some p" "rc_mac_key c = Some k" "rc_capacity c = cap" "rc_window_secs c = w"
      "disk_inv hm k p c fs es" "covered c es" "guarded w t (set (rc_order c)) G"
    using assms(1) by (auto simp: run_inv_def)
  obtain out c2 where s2: "stage_insert e now c = (out, c2)" by fastforce
  have d: "(if out = Inserted then (out, c2\<lparr>rc_pending_persist := rc_pending_persist c2 @ [e]\<rparr>) else (out, c2)) = (r, c')"
    using assms(2,5) inv(4) s2 by (simp add: insert_new_outcome_deferred_def)
  let ?p = "prune_expired now c"
  have pi: "mem_inv ?p" "covered ?p es" "disk_inv hm k p ?p fs es" "guarded w now (set (rc_order ?p)) G"
    using prune_inv [OF inv(1)] stage_covered [OF inv(1,7,6)] guarded_prune [OF inv(1,5,8) assms(3)] by auto
  have "run_inv hm k p cap w (fs, Some c', now, if r = Inserted then insert e G else G)"
    using inv(1) s2
  proof (cases rule: stage_insert_cases)
    case refused
    then show ?thesis using d pi inv(2-5) by (auto simp: run_inv_def)
  next
    case inserted
    then have c': "r = Inserted" "c' = (insert_loaded e ?p)\<lparr>rc_pending_persist := rc_pending_persist ?p @ [e]\<rparr>"
      using d by auto
    have "mem_inv c'" using insert_loaded_inv [OF pi(1) assms(4)] pi(1) assms(4) c'(2) by (simp add: mem_inv_def plain_on_disk_def)
    moreover have "covered c' es" "disk_inv hm k p c' fs es"
      using pi(2,3) c'(2) by (auto simp: covered_def disk_inv_def)
    ultimately show ?thesis
      using c' insert_loaded_guarded [OF pi(4), of e] inv(2-5) by (auto simp: run_inv_def)
  qed
  moreover have "re_timestamp g < re_timestamp e" if "r = Inserted" "g \<in> G" "conflict g e"
    using stage_protects [OF inv(1,5,8) assms(3) _ that(2,3)] s2 d that(1) by (auto split: if_splits)
  ultimately show "run_inv hm k p cap w (fs, Some c', now, if r = Inserted then insert e G else G)"
    "r = Inserted \<Longrightarrow> g \<in> G \<Longrightarrow> conflict g e \<Longrightarrow> re_timestamp g < re_timestamp e"
    by blast+
qed

definition fresh_cache :: "bytes \<Rightarrow> bytes \<Rightarrow> nat \<Rightarrow> u64 \<Rightarrow> replay_cache" where
  "fresh_cache k p cap w = with_window_secs w ((replay_cache_new cap)
     \<lparr>rc_path := Some p, rc_mac_key := Some k, rc_auth_journal := Some empty_journal\<rparr>)"

lemma fresh_cache_inv:
  "mem_inv (fresh_cache k p cap w)" "rc_path (fresh_cache k p cap w) = Some p" "rc_mac_key (fresh_cache k p cap w) = Some k"
  "rc_capacity (fresh_cache k p cap w) = cap" "rc_window_secs (fresh_cache k p cap w) = w" "rc_order (fresh_cache k p cap w) = []"
  "rc_pending_persist (fresh_cache k p cap w) = []" "rc_auth_journal (fresh_cache k p cap w) = Some empty_journal"
  by (simp_all add: fresh_cache_def with_window_secs_def replay_cache_new_def mem_inv_def plain_on_disk_def)

lemma load_spec:
  assumes "hmac_correct hm" "k = cache_mac_key hm km" "run_inv hm k p cap w (fs, None, t, G)" "t \<le> now"
    and "load_or_create_authenticated_with_window hm fails f (Some now) p cap km w fs = (res, fs')"
  shows "run_inv hm k p cap w (fs', (case res of Inl _ \<Rightarrow> None | Inr c \<Rightarrow> Some c), now, G)"
    "\<not> fails \<Longrightarrow> f = no_faults \<Longrightarrow> is_ok res"
proof -
  obtain es where es: "fs_entries hm k p fs es" "guarded w t (set es) G"
    using assms(3) by (auto simp: run_inv_def)
  have g: "guarded w now (set es) G"
    using es(2) assms(4) unexpired_antimono by (auto simp: guarded_def)
  let ?c = "fresh_cache k p cap w"
  note st = assms(5) [unfolded load_or_create_authenticated_with_window_def load_authenticated_with_window_def Let_def
      assms(2) [symmetric] fresh_cache_def [symmetric]]
  have start: "run_inv hm k p cap w (fs, Some ?c, now, G)" if "es = []"
    using that g es(1) by (auto simp: run_inv_def fresh_cache_inv disk_inv_def covered_def empty_journal_def)
  have down: "run_inv hm k p cap w (fs, None, now, G)"
    using es(1) g by (auto simp: run_inv_def)
  have blank_nil: "blank []" "utf8_valid []"
    by (simp_all add: blank_def split_whitespace_def word_done_def)
  have "run_inv hm k p cap w (fs', (case res of Inl _ \<Rightarrow> None | Inr c \<Rightarrow> Some c), now, G) \<and>
    (\<not> fails \<longrightarrow> f = no_faults \<longrightarrow> is_ok res)"
  proof (cases "fs p")
    case None
    then show ?thesis using st start es(1) by (auto simp: fs_entries_def)
  next
    case (Some raw)
    consider (err) "fails" | (empty) "\<not> fails" "raw = []" "es = []" | (rec) "\<not> fails" "recoverable hm k raw es"
      using es(1) Some by (auto simp: fs_entries_def)
    then show ?thesis
    proof cases
      case err
      then show ?thesis using st down Some by (auto simp: read_cache_file_def)
    next
      case empty
      then show ?thesis using st start Some blank_nil by (auto simp: read_cache_file_def)
    next
      case rec
      obtain j rw where pj: "parse_authenticated_journal_entries hm k raw = Inr (es, j, rw)" "\<not> rw \<longrightarrow> journal_file hm k es j raw"
        and wf: "list_all entry_wf es" "length es < 2 ^ 64" and nb: "\<not> blank raw" "utf8_valid raw"
        using rec(2) ascii_utf8_valid by (auto simp: recoverable_def)
      define c1 where "c1 = fold insert_loaded es (?c\<lparr>rc_auth_journal := Some j\<rparr>)"
      define c2 where "c2 = prune_expired now c1"
      have "mem_inv (?c\<lparr>rc_auth_journal := Some j\<rparr>)"
        using fresh_cache_inv(1) [of k p cap w] by (simp add: mem_inv_def plain_on_disk_def)
      then have m1: "mem_inv c1" "rc_order c1 = es"
        using wf(1) by (simp_all add: c1_def fold_insert_loaded fresh_cache_inv)
      have m2: "mem_inv c2" "rc_order c2 = filter (unexpired w now) es"
        using prune_inv [OF m1(1)] prune_order [OF m1(1)] m1(2) by (simp_all add: c2_def c1_def fold_insert_loaded fresh_cache_inv)
      have f2: "rc_path c2 = Some p" "rc_mac_key c2 = Some k" "rc_capacity c2 = cap" "rc_window_secs c2 = w"
          "rc_auth_journal c2 = Some j"
        by (simp_all add: c2_def c1_def fold_insert_loaded fresh_cache_inv)
      have g2: "guarded w now (set (rc_order c2)) G" using g m2(2) by (auto simp: guarded_def)
      have st': "(if rw then (case compact_authenticated_journal hm f p k c2 fs of (Inl err, _, fs1) \<Rightarrow> (Inl err, fs1)
          | (Inr _, c3, fs1) \<Rightarrow> (Inr c3, fs1)) else (Inr c2, fs)) = (res, fs')"
        using st Some rec(1) nb pj(1) by (cases rw) (simp_all add: read_cache_file_def c2_def c1_def)
      show ?thesis
      proof (cases rw)
        case False
        then have "disk_inv hm k p c2 fs es" using es(1) pj(2) Some f2(5) by (simp add: disk_inv_def)
        moreover have "covered c2 es" using m2(2) by (auto simp: covered_def)
        ultimately show ?thesis using st' False m2(1) f2 g2 by (auto simp: run_inv_def)
      next
        case True
        obtain r c3 fs1 where cp: "compact_authenticated_journal hm f p k c2 fs = (r, c3, fs1)" by (metis prod.exhaust)
        have wf2: "list_all entry_wf (rc_order c2)" "length (rc_order c2) < 2 ^ 64"
          using m2(1) wf(2) m2(2) le_less_trans [OF length_filter_le wf(2)] by (simp_all add: mem_inv_def)
        obtain es' j' where s: "c3 = c2\<lparr>rc_auth_journal := j'\<rparr>" "disk_inv hm k p c3 fs1 es'" "es' \<in> {es, rc_order c2}"
          using compact_spec [OF assms(1) wf2 es(1) cp] by metis
        have "guarded w now (set es') G" using s(3) g g2 by auto
        moreover have "fs_entries hm k p fs1 es'" using s(2) by (simp add: disk_inv_def)
        moreover have "mem_inv c3" "covered c3 es'" using m2 s(1,3) by (auto simp: mem_inv_def plain_on_disk_def covered_def)
        moreover have "f = no_faults \<Longrightarrow> is_ok r"
          using cp by (auto simp: compact_authenticated_journal_def write_cache_file_def fs_rename_def fsync_parent_dir_def
              no_faults_def Let_def split: prod.splits)
        ultimately show ?thesis
          using st' True cp s(1,2) f2 g2 by (cases r) (auto simp: run_inv_def)
      qed
    qed
  qed
  then show "run_inv hm k p cap w (fs', (case res of Inl _ \<Rightarrow> None | Inr c \<Rightarrow> Some c), now, G)"
    "\<not> fails \<Longrightarrow> f = no_faults \<Longrightarrow> is_ok res"
    by blast+
qed

text \<open>
  The runs of a server that keeps its replay cache at one path: starts, insertions of both kinds, writes of the queue,
  each with arbitrary I/O faults, crashes, and anything else that happens to other files. The clock does not go back.
  The last component collects the entries reported as \<open>Inserted\<close>; a crash forgets those that were only queued.
\<close>

inductive rc_reach ::
  "hmac \<Rightarrow> bytes \<Rightarrow> nat \<Rightarrow> bytes \<Rightarrow> u64 \<Rightarrow> file_system \<times> replay_cache option \<times> u64 \<times> replay_entry set \<Rightarrow> bool"
  for hm p cap km w where
  rc_init: "fs p = None \<Longrightarrow> rc_reach hm p cap km w (fs, None, t, {})"
| rc_load: "rc_reach hm p cap km w (fs, None, t, G) \<Longrightarrow> t \<le> now \<Longrightarrow>
    load_or_create_authenticated_with_window hm fails f (Some now) p cap km w fs = (res, fs') \<Longrightarrow>
    rc_reach hm p cap km w (fs', (case res of Inl _ \<Rightarrow> None | Inr c \<Rightarrow> Some c), now, G)"
| rc_insert: "rc_reach hm p cap km w (fs, Some c, t, G) \<Longrightarrow> t \<le> now \<Longrightarrow> entry_wf e \<Longrightarrow>
    room (length (rc_pending_persist c) + 2) c \<Longrightarrow> insert_separates hm fl f p (cache_mac_key hm km) e now c fs \<Longrightarrow>
    insert_new_outcome hm fl f e now c fs = (r, c', fs') \<Longrightarrow>
    rc_reach hm p cap km w (fs', Some c', now, if r = Inr Inserted then insert e G else G)"
| rc_deferred: "rc_reach hm p cap km w (fs, Some c, t, G) \<Longrightarrow> t \<le> now \<Longrightarrow> entry_wf e \<Longrightarrow>
    insert_new_outcome_deferred e now c = (out, c') \<Longrightarrow>
    rc_reach hm p cap km w (fs, Some c', now, if out = Inserted then insert e G else G)"
| rc_persist: "rc_reach hm p cap km w (fs, Some c, t, G) \<Longrightarrow> room (length (rc_pending_persist c) + 2) c \<Longrightarrow>
    queue_separates hm fl (rc_pending_persist c) c fs \<Longrightarrow> persist_pending hm fl c fs = (r0, c', fs') \<Longrightarrow>
    rc_reach hm p cap km w (fs', Some c', t, G)"
| rc_crash: "rc_reach hm p cap km w (fs, Some c, t, G) \<Longrightarrow> rc_reach hm p cap km w (fs, None, t, G - set (rc_pending_persist c))"
| rc_other: "rc_reach hm p cap km w (fs, co, t, G) \<Longrightarrow> fs' p = fs p \<Longrightarrow> rc_reach hm p cap km w (fs', co, t, G)"

lemma run_inv_other: "run_inv hm k p cap w (fs, co, t, G) \<Longrightarrow> fs' p = fs p \<Longrightarrow> run_inv hm k p cap w (fs', co, t, G)"
  by (cases co) (simp_all add: run_inv_def fs_entries_def disk_inv_def)

lemma reach_inv:
  assumes "rc_reach hm p cap km w s" "hmac_correct hm" "0 < cap"
  shows "run_inv hm (cache_mac_key hm km) p cap w s"
  using assms(1)
proof induction
  case (rc_init fs t)
  then show ?case by (auto simp: run_inv_def fs_entries_def guarded_def)
next
  case (rc_load fs t G now fails f res fs')
  show ?case by (rule load_spec(1) [OF assms(2) refl rc_load.IH rc_load.hyps(2,3)])
next
  case (rc_insert fs c t G now e fl f r c' fs')
  show ?case by (rule insert_spec(1) [OF assms(2) rc_insert.IH assms(3) rc_insert.hyps(2-6)])
next
  case (rc_deferred fs c t G now e out c')
  show ?case by (rule deferred_spec(1) [OF rc_deferred.IH assms(3) rc_deferred.hyps(2-4)])
next
  case (rc_persist fs c t G fl r0 c' fs')
  show ?case by (rule persist_spec(1) [OF assms(2) rc_persist.IH rc_persist.hyps(2-4)])
next
  case (rc_crash fs c t G)
  then show ?case by (auto simp: run_inv_def disk_inv_def covered_def guarded_def)
next
  case (rc_other fs co t G fs')
  then show ?case using run_inv_other by blast
qed

text \<open>C3. Replay protection survives crashes. In every run of the cache, with any I/O faults, torn writes, crashes and
  restarts, whenever an entry is accepted, immediately or deferred, no entry accepted before and still protected that
  shares its nonce or its transcript is as recent: the same handshake is never accepted twice.\<close>

theorem replay_protection_survives_crashes:
  assumes "hmac_correct hm" "0 < cap" "rc_reach hm p cap km w (fs, Some c, t, G)" "t \<le> now" "entry_wf e"
    and "room (length (rc_pending_persist c) + 2) c" "insert_separates hm fl f p (cache_mac_key hm km) e now c fs"
    and "fst (insert_new_outcome hm fl f e now c fs) = Inr Inserted \<or> fst (insert_new_outcome_deferred e now c) = Inserted"
    and "g \<in> G" "re_nonce g = re_nonce e \<or> re_transcript g = re_transcript e"
  shows "re_timestamp g < re_timestamp e"
proof -
  note inv = reach_inv [OF assms(3,1,2)]
  have cf: "conflict g e" using assms(10) by (simp add: conflict_def)
  from assms(8) show ?thesis
  proof
    assume "fst (insert_new_outcome hm fl f e now c fs) = Inr Inserted"
    then show ?thesis
      using insert_spec(2) [OF assms(1) inv assms(2,4-7)] assms(9) cf by (metis prod.collapse)
  next
    assume "fst (insert_new_outcome_deferred e now c) = Inserted"
    then show ?thesis
      using deferred_spec(2) [OF inv assms(2,4,5)] assms(9) cf by (metis prod.collapse)
  qed
qed

text \<open>C9. The journal always loads. Whatever faults and crashes happened before, a start whose own I/O works succeeds, and
  every protected entry that is not expired is in the cache it returns.\<close>

theorem journal_always_loads:
  assumes "hmac_correct hm" "0 < cap" "rc_reach hm p cap km w (fs, None, t, G)" "t \<le> now"
  shows "\<exists>c fs'. load_or_create_authenticated_with_window hm False no_faults (Some now) p cap km w fs = (Inr c, fs') \<and>
    (\<forall>g \<in> G. unexpired w now g \<longrightarrow> g \<in> set (rc_order c))"
proof -
  obtain res fs' where l: "load_or_create_authenticated_with_window hm False no_faults (Some now) p cap km w fs = (res, fs')"
    by fastforce
  note s = load_spec [OF assms(1) refl reach_inv [OF assms(3,1,2)] assms(4) l]
  then obtain c where "res = Inr c" by (auto simp: is_ok_iff)
  then show ?thesis using l s(1) by (auto simp: run_inv_def guarded_def)
qed

section \<open>A concrete run\<close>

definition first_entry :: replay_entry where
  "first_entry = \<lparr>re_timestamp = 10, re_nonce = replicate 8 1, re_transcript = replicate 32 2\<rparr>"

definition later_entry :: replay_entry where
  "later_entry = \<lparr>re_timestamp = 200, re_nonce = replicate 8 1, re_transcript = replicate 32 3\<rparr>"

definition first_cache :: replay_cache where
  "first_cache = fresh_cache (cache_mac_key const_hmac [1]) [0x70] 4 120"

lemma const_hmac_correct: "hmac_correct const_hmac"
  by (simp add: hmac_correct_def const_hmac_def)

lemma first_load:
  "load_or_create_authenticated_with_window const_hmac False no_faults (Some 5) [0x70] 4 [1] 120 Map.empty = (Inr first_cache, Map.empty)"
  by (simp add: load_or_create_authenticated_with_window_def load_authenticated_with_window_def first_cache_def fresh_cache_def)

lemma first_insert:
  "\<exists>j fs. insert_new_outcome const_hmac [] no_faults first_entry 10 first_cache Map.empty =
      (Inr Inserted, (insert_loaded first_entry first_cache)\<lparr>rc_auth_journal := Some j\<rparr>, fs) \<and> aj_generation j = 1 \<and> aj_count j = 1"
proof -
  let ?k = "cache_mac_key const_hmac [1]" and ?c = "insert_loaded first_entry first_cache"
  have f: "rc_path first_cache = Some [0x70]" "rc_mac_key first_cache = Some ?k" "rc_capacity first_cache = 4"
      "rc_pending_persist first_cache = []" "rc_auth_journal first_cache = Some empty_journal" "rc_order first_cache = []"
      "rc_oldest_timestamp first_cache = None" "rc_nonces first_cache = {}" "rc_transcripts first_cache = {}"
      "rc_window_secs first_cache = 120"
    by (simp_all add: first_cache_def fresh_cache_def with_window_secs_def replay_cache_new_def)
  have st: "stage_insert first_entry 10 first_cache = (Inserted, ?c)"
    by (simp add: stage_insert_def prune_expired_def f is_fresh_def first_entry_def MAX_FUTURE_SKEW_SECS_def
        saturating_add_u64_def insert_loaded_def)
  obtain raw j where sj: "serialize_authenticated_journal const_hmac ?k [first_entry] = (raw, j)" by fastforce
  then have j: "aj_generation j = 1" "aj_count j = 1"
    by (auto simp: serialize_authenticated_journal_def Let_def split: prod.splits)
  show ?thesis
    using j
    by (intro exI [of _ j]) (simp add: insert_new_outcome_def f st persist_def persist_authenticated_def persist_authenticated_entry_def empty_journal_def
        compacted_def compact_authenticated_journal_def sj write_cache_file_def fs_rename_def fsync_parent_dir_def no_faults_def Let_def)
qed

lemma first_run:
  "\<exists>j fs. rc_reach const_hmac [0x70] 4 [1] 120 (fs, Some ((insert_loaded first_entry first_cache)\<lparr>rc_auth_journal := Some j\<rparr>), 10, {first_entry})
     \<and> aj_generation j = 1 \<and> aj_count j = 1"
proof -
  have "rc_reach const_hmac [0x70] 4 [1] 120 (Map.empty, None, 5, {})" by (rule rc_init) simp
  from rc_load [OF this _ first_load]
  have start: "rc_reach const_hmac [0x70] 4 [1] 120 (Map.empty, Some first_cache, 5, {})" by simp
  obtain j fs where ins: "insert_new_outcome const_hmac [] no_faults first_entry 10 first_cache Map.empty =
      (Inr Inserted, (insert_loaded first_entry first_cache)\<lparr>rc_auth_journal := Some j\<rparr>, fs)"
    and j: "aj_generation j = 1" "aj_count j = 1"
    using first_insert by blast
  have e: "entry_wf first_entry" by (simp add: entry_wf_def first_entry_def)
  have q: "rc_pending_persist first_cache = []" by (simp add: first_cache_def fresh_cache_inv)
  have rm: "room (length (rc_pending_persist first_cache) + 2) first_cache"
    by (simp add: room_def first_cache_def fresh_cache_inv empty_journal_def)
  have sep: "insert_separates const_hmac [] no_faults [0x70] (cache_mac_key const_hmac [1]) first_entry 10 first_cache Map.empty"
    by (simp add: insert_separates_def persist_pending_def q commit_separates_def no_faults_def)
  have "rc_reach const_hmac [0x70] 4 [1] 120
      (fs, Some ((insert_loaded first_entry first_cache)\<lparr>rc_auth_journal := Some j\<rparr>), 10, {first_entry})"
    using rc_insert [OF start _ e rm sep ins] by simp
  with j show ?thesis by blast
qed

theorem replay_protection_survives_crashes_witness:
  "\<exists>c fs. rc_reach const_hmac [0x70] 4 [1] 120 (fs, Some c, 10, {first_entry}) \<and>
     fst (insert_new_outcome_deferred later_entry 200 c) = Inserted \<and> re_nonce first_entry = re_nonce later_entry \<and>
     re_timestamp first_entry < re_timestamp later_entry"
proof -
  obtain j fs where run: "rc_reach const_hmac [0x70] 4 [1] 120
      (fs, Some ((insert_loaded first_entry first_cache)\<lparr>rc_auth_journal := Some j\<rparr>), 10, {first_entry})"
    and j: "aj_generation j = 1" "aj_count j = 1"
    using first_run by blast
  let ?c = "(insert_loaded first_entry first_cache)\<lparr>rc_auth_journal := Some j\<rparr>"
  have q: "rc_pending_persist ?c = []" by (simp add: first_cache_def fresh_cache_inv)
  have rm: "room (length (rc_pending_persist ?c) + 2) ?c"
    unfolding q using j by (simp add: room_def first_cache_def fresh_cache_inv)
  have sep: "insert_separates const_hmac [] no_faults [0x70] (cache_mac_key const_hmac [1]) later_entry 200 ?c fs"
    by (simp add: insert_separates_def persist_pending_def q commit_separates_def no_faults_def first_cache_def fresh_cache_inv)
  have acc: "fst (insert_new_outcome_deferred later_entry 200 ?c) = Inserted"
    by (simp add: insert_new_outcome_deferred_def stage_insert_def prune_expired_def insert_loaded_def push_loaded_entry_def
        first_cache_def fresh_cache_def with_window_secs_def replay_cache_new_def min_timestamp_def is_fresh_def first_entry_def
        later_entry_def unexpired_def saturating_add_u64_def MAX_FUTURE_SKEW_SECS_def Let_def)
  have e: "entry_wf later_entry" by (simp add: entry_wf_def later_entry_def)
  have nn: "re_nonce first_entry = re_nonce later_entry" by (simp add: first_entry_def later_entry_def)
  have "re_timestamp first_entry < re_timestamp later_entry"
    by (rule replay_protection_survives_crashes [OF const_hmac_correct _ run _ e rm sep]) (use acc nn in simp_all)
  then show ?thesis using run acc nn by blast
qed

theorem journal_always_loads_witness:
  "\<exists>fs c fs'. rc_reach const_hmac [0x70] 4 [1] 120 (fs, None, 10, {first_entry}) \<and>
     load_or_create_authenticated_with_window const_hmac False no_faults (Some 20) [0x70] 4 [1] 120 fs = (Inr c, fs') \<and>
     first_entry \<in> set (rc_order c)"
proof -
  obtain j fs where run: "rc_reach const_hmac [0x70] 4 [1] 120
      (fs, Some ((insert_loaded first_entry first_cache)\<lparr>rc_auth_journal := Some j\<rparr>), 10, {first_entry})"
    using first_run by blast
  have down: "rc_reach const_hmac [0x70] 4 [1] 120 (fs, None, 10, {first_entry})"
    using rc_crash [OF run] by (simp add: first_cache_def fresh_cache_inv)
  have "unexpired 120 20 first_entry"
    by (simp add: unexpired_def first_entry_def saturating_add_u64_def)
  then show ?thesis
    using journal_always_loads [OF const_hmac_correct _ down, of 20] down by auto
qed

end
