(* ===== verification/Replay_Guards.thy ===== *)
theory Replay_Guards
  imports Session Replay_Safety
begin

text \<open>
  The users of the replay cache on the QUIC path: the marker hidden in \<open>ClientHello.random\<close>
  (\<open>crypto/quic_marker.rs\<close>), and the two guards that let a marker or a 0-RTT ticket through once
  (\<open>transport/udp/marker_replay.rs\<close>, \<open>transport/udp/zero_rtt.rs\<close>).

  A guard keeps its cache in a slot behind a mutex. A background task takes the cache out, persists the queue with the
  mutex released, and puts it back; until then every presentation is refused. The steps of the tasks are explicit and
  interleave freely with presentations. SHA-256 is the parameter \<open>sha\<close>.
\<close>

section \<open>Markers\<close>

definition MARKER_TAG_LEN :: nat where "MARKER_TAG_LEN = 12"
definition MARKER_NONCE_LEN :: nat where "MARKER_NONCE_LEN = 12"
definition MARKER_TS_LEN :: nat where "MARKER_TS_LEN = 8"
definition MARKER_LEN :: nat where "MARKER_LEN = MARKER_TAG_LEN + MARKER_NONCE_LEN + MARKER_TS_LEN"
definition FUTURE_SKEW_SECS :: u64 where "FUTURE_SKEW_SECS = 5"
definition KEYSTREAM_INFO :: bytes where "KEYSTREAM_INFO = ascii ''ParallaX v1 QUIC marker keystream''"
definition AUTH_INFO :: bytes where "AUTH_INFO = ascii ''ParallaX v1 QUIC marker auth key''"
definition TAG_DOMAIN :: bytes where "TAG_DOMAIN = ascii ''ParallaX v1 QUIC marker tag''"

record marker =
  mk_nonce :: bytes
  mk_timestamp :: u64

text \<open>\<open>None\<close> is the panic of the two \<open>expect\<close>s.\<close>

definition marker_derive :: "hkdf \<Rightarrow> bytes \<Rightarrow> bytes \<Rightarrow> (bytes \<times> bytes) option" where
  "marker_derive H psk ecdh_ss =
     (let hk = h_extract H psk ecdh_ss in
      Option.bind (h_expand H hk KEYSTREAM_INFO 32) (\<lambda>keystream.
      map_option (\<lambda>auth_key. (keystream, auth_key)) (h_expand H hk AUTH_INFO 32)))"

definition compute_tag :: "hmac \<Rightarrow> bytes \<Rightarrow> bytes \<Rightarrow> bytes \<Rightarrow> bytes \<Rightarrow> u64 \<Rightarrow> bytes" where
  "compute_tag hm auth_key sni dcid nonce timestamp =
     take MARKER_TAG_LEN (hm auth_key (TAG_DOMAIN @ u16_len sni @ sni @ u16_len dcid @ dcid @ nonce @ be_bytes 8 timestamp))"

definition marker_seal :: "hkdf \<Rightarrow> hmac \<Rightarrow> bytes \<Rightarrow> bytes \<Rightarrow> bytes \<Rightarrow> bytes \<Rightarrow> u64 \<Rightarrow> bytes \<Rightarrow> bytes option" where
  "marker_seal H hm psk ecdh_ss sni dcid now_unix nonce =
     map_option (\<lambda>(keystream, auth_key).
       xor_bytes (compute_tag hm auth_key sni dcid nonce now_unix @ nonce @ be_bytes 8 now_unix) keystream)
     (marker_derive H psk ecdh_ss)"

definition marker_open ::
  "hkdf \<Rightarrow> hmac \<Rightarrow> bytes \<Rightarrow> bytes \<Rightarrow> bytes \<Rightarrow> bytes \<Rightarrow> bytes \<Rightarrow> u64 \<Rightarrow> u64 \<Rightarrow> marker option option" where
  "marker_open H hm psk ecdh_ss sni dcid client_random now_unix window_secs =
     map_option (\<lambda>(keystream, auth_key).
       let plain = xor_bytes client_random keystream;
           tag = take MARKER_TAG_LEN plain;
           nonce = take MARKER_NONCE_LEN (drop MARKER_TAG_LEN plain);
           timestamp = from_be (drop (MARKER_TAG_LEN + MARKER_NONCE_LEN) plain);
           tag_ok = (tag = compute_tag hm auth_key sni dcid nonce timestamp);
           fresh = (timestamp \<le> saturating_add_u64 now_unix FUTURE_SKEW_SECS \<and> now_unix \<le> saturating_add_u64 timestamp window_secs)
       in if tag_ok \<and> fresh then Some \<lparr>mk_nonce = nonce, mk_timestamp = timestamp\<rparr> else None)
     (marker_derive H psk ecdh_ss)"

section \<open>The guards\<close>

text \<open>The mutex-protected slot, the cache that a background task has checked out, and the number of tasks spawned and
  not yet started.\<close>

record replay_guard =
  g_slot :: "replay_cache option"
  g_out :: "replay_cache option"
  g_tasks :: nat

definition guard_new :: "replay_cache \<Rightarrow> replay_guard" where
  "guard_new cache = \<lparr>g_slot = Some cache, g_out = None, g_tasks = 0\<rparr>"

definition persist_in_background :: "replay_guard \<Rightarrow> replay_guard" where
  "persist_in_background g = g\<lparr>g_tasks := g_tasks g + 1\<rparr>"

text \<open>\<open>locked\<close>: \<open>try_lock\<close> failed, because the mutex is contended or poisoned.\<close>

definition guard_insert :: "bool \<Rightarrow> replay_entry \<Rightarrow> u64 \<Rightarrow> replay_guard \<Rightarrow> bool \<times> replay_guard" where
  "guard_insert locked e now g =
     (if locked then (False, g)
      else
        (case g_slot g of
           None \<Rightarrow> (False, g)
         | Some cache \<Rightarrow>
             (case insert_new_outcome_deferred e now cache of (out, cache') \<Rightarrow>
                (out = Inserted, g\<lparr>g_slot := Some cache'\<rparr>))))"

definition marker_entry :: "(bytes \<Rightarrow> bytes) \<Rightarrow> marker \<Rightarrow> replay_entry" where
  "marker_entry sha m =
     (let digest = sha (mk_nonce m @ be_bytes 8 (mk_timestamp m)) in
      \<lparr>re_timestamp = mk_timestamp m, re_nonce = take 8 digest, re_transcript = digest\<rparr>)"

definition first_sighting :: "(bytes \<Rightarrow> bytes) \<Rightarrow> bool \<Rightarrow> marker \<Rightarrow> u64 \<Rightarrow> replay_guard \<Rightarrow> bool \<times> replay_guard" where
  "first_sighting sha locked m now g =
     (case guard_insert locked (marker_entry sha m) now g of (inserted, g1) \<Rightarrow>
        (inserted, if inserted then persist_in_background g1 else g1))"

definition ticket_entry :: "(bytes \<Rightarrow> bytes) \<Rightarrow> bytes \<Rightarrow> u64 \<Rightarrow> replay_entry" where
  "ticket_entry sha ticket_identity now =
     (let digest = sha ticket_identity in
      \<lparr>re_timestamp = now, re_nonce = take 8 digest, re_transcript = digest\<rparr>)"

definition accept_ticket :: "(bytes \<Rightarrow> bytes) \<Rightarrow> bool \<Rightarrow> bytes \<Rightarrow> u64 \<Rightarrow> replay_guard \<Rightarrow> bool \<times> replay_guard" where
  "accept_ticket sha locked ticket_identity now g =
     (case guard_insert locked (ticket_entry sha ticket_identity now) now g of (accepted, g1) \<Rightarrow>
        (accepted, if accepted then persist_in_background g1 else g1))"

text \<open>The two halves of \<open>persist_checked_out\<close>: taking the cache, and persisting and putting it back.\<close>

definition persist_take :: "replay_guard \<Rightarrow> replay_guard" where
  "persist_take g =
     (if g_tasks g = 0 then g
      else
        let g = g\<lparr>g_tasks := g_tasks g - 1\<rparr> in
        case g_slot g of None \<Rightarrow> g | Some cache \<Rightarrow> g\<lparr>g_slot := None, g_out := Some cache\<rparr>)"

definition persist_put_back :: "hmac \<Rightarrow> io_faults list \<Rightarrow> replay_guard \<Rightarrow> file_system \<Rightarrow> replay_guard \<times> file_system" where
  "persist_put_back hm fl g fs =
     (case g_out g of
        None \<Rightarrow> (g, fs)
      | Some cache \<Rightarrow>
          (case persist_pending hm fl cache fs of (_, cache', fs') \<Rightarrow> (g\<lparr>g_slot := Some cache', g_out := None\<rparr>, fs')))"

section \<open>Markers open\<close>

lemma marker_open_seal:
  assumes "hkdf_correct H" "hmac_correct hm" "length nonce = 12"
    and "ts \<le> saturating_add_u64 now FUTURE_SKEW_SECS" "now \<le> saturating_add_u64 ts window"
  shows "\<exists>cr. marker_seal H hm psk ss sni dcid ts nonce = Some cr \<and> length cr = MARKER_LEN \<and>
    marker_open H hm psk ss sni dcid cr now window = Some (Some \<lparr>mk_nonce = nonce, mk_timestamp = ts\<rparr>)"
proof -
  obtain ks where ks: "h_expand H (h_extract H psk ss) KEYSTREAM_INFO 32 = Some ks" "length ks = 32"
    using h_expand_ok [OF assms(1), of 32] by (metis order.refl)
  obtain ak where ak: "h_expand H (h_extract H psk ss) AUTH_INFO 32 = Some ak"
    using h_expand_ok [OF assms(1), of 32] by (metis order.refl)
  have d: "marker_derive H psk ss = Some (ks, ak)"
    using ks(1) ak by (simp add: marker_derive_def)
  define plain where "plain = compute_tag hm ak sni dcid nonce ts @ nonce @ be_bytes 8 ts"
  have tag: "length (compute_tag hm ak sni dcid nonce ts) = 12"
    using assms(2) by (simp add: compute_tag_def hmac_correct_def MARKER_TAG_LEN_def)
  then have l: "length plain = 32" using assms(3) by (simp add: plain_def)
  have x: "xor_bytes (xor_bytes plain ks) ks = plain"
    using l ks(2) by (intro xor_bytes_involutive) simp
  have parts: "take 12 plain = compute_tag hm ak sni dcid nonce ts" "take 12 (drop 12 plain) = nonce" "drop 24 plain = be_bytes 8 ts"
    using tag assms(3) by (simp_all add: plain_def)
  have "marker_open H hm psk ss sni dcid (xor_bytes plain ks) now window = Some (Some \<lparr>mk_nonce = nonce, mk_timestamp = ts\<rparr>)"
    using assms(4,5) by (simp add: marker_open_def d x Let_def MARKER_TAG_LEN_def MARKER_NONCE_LEN_def parts from_be_be_bytes_full)
  moreover have "marker_seal H hm psk ss sni dcid ts nonce = Some (xor_bytes plain ks)"
    by (simp add: marker_seal_def d plain_def)
  ultimately show ?thesis
    using l ks(2) by (simp add: MARKER_LEN_def MARKER_TAG_LEN_def MARKER_NONCE_LEN_def MARKER_TS_LEN_def)
qed

section \<open>Single use\<close>

lemma persist_entry_mem:
  "persist_authenticated_entry hm f p k e c fs = (r, c', fs') \<Longrightarrow> \<exists>j. c' = c\<lparr>rc_auth_journal := j\<rparr>"
proof -
  have cp: "\<exists>j. c' = c\<lparr>rc_auth_journal := j\<rparr>" if "compacted (compact_authenticated_journal hm f p k c fs1) = (r, c', fs')" for fs1
    using that
    by (auto simp: compacted_def compact_authenticated_journal_def Let_def split: prod.splits sum.splits)
  have id: "\<exists>j. x = x\<lparr>rc_auth_journal := j\<rparr>" for x :: replay_cache
    by (intro exI [of _ "rc_auth_journal x"]) simp
  assume "persist_authenticated_entry hm f p k e c fs = (r, c', fs')"
  then show ?thesis
    unfolding persist_authenticated_entry_def Let_def
    by (auto split: option.splits if_splits prod.splits dest: cp intro: id)
qed

lemma persist_queue_mem:
  "persist_queue hm fl q c fs = (r, c', fs') \<Longrightarrow>
   \<exists>j q'. c' = c\<lparr>rc_auth_journal := j, rc_pending_persist := q'\<rparr> \<and> (set q' \<subseteq> set q \<or> q' = rc_pending_persist c)"
proof (induction q arbitrary: fl c fs)
  case Nil
  then have "c' = c\<lparr>rc_auth_journal := rc_auth_journal c, rc_pending_persist := rc_pending_persist c\<rparr>" by simp
  then show ?case by blast
next
  case (Cons e q)
  have id: "c = c\<lparr>rc_auth_journal := rc_auth_journal c, rc_pending_persist := rc_pending_persist c\<rparr>" by simp
  have step: ?case if rec: "persist_queue hm fl' q (c\<lparr>rc_auth_journal := j, rc_pending_persist := q\<rparr>) fs1 = (r, c', fs')" for fl' j fs1
  proof -
    obtain j' q' where "c' = c\<lparr>rc_auth_journal := j', rc_pending_persist := q'\<rparr>" "set q' \<subseteq> set q"
      using Cons.IH [OF rec] by auto
    then show ?thesis by (intro exI [of _ j'] exI [of _ q']) auto
  qed
  show ?case
  proof (cases "re_nonce e \<in> rc_nonces c")
    case False
    then show ?thesis using Cons.prems step [of fl "rc_auth_journal c" fs] by simp
  next
    case True
    show ?thesis
    proof (cases "rc_path c")
      case None
      then have "c' = c\<lparr>rc_auth_journal := rc_auth_journal c, rc_pending_persist := []\<rparr>" using Cons.prems True by simp
      then show ?thesis by (metis empty_set empty_subsetI)
    next
      case (Some path)
      show ?thesis
      proof (cases "rc_mac_key c")
        case None
        then have "c' = c \<or> c' = c\<lparr>rc_auth_journal := rc_auth_journal c, rc_pending_persist := []\<rparr>"
          using Cons.prems True Some by (auto split: prod.splits sum.splits)
        then show ?thesis using id by (metis empty_set empty_subsetI)
      next
        case k: (Some k)
        obtain r1 c1 fs1 where p1: "persist_authenticated_entry hm (next_fault fl) path k (Some e) c fs = (r1, c1, fs1)"
          by (metis prod.exhaust)
        obtain j where j: "c1 = c\<lparr>rc_auth_journal := j\<rparr>" using persist_entry_mem [OF p1] by blast
        consider (err) x where "r1 = Inl x" | (all) "r1 = Inr True" | (one) "r1 = Inr False"
          by (metis (full_types) sumE)
        then show ?thesis
        proof cases
          case err
          then have "c' = c1" using Cons.prems True Some k p1 by simp
          then have "c' = c\<lparr>rc_auth_journal := j, rc_pending_persist := rc_pending_persist c\<rparr>"
            unfolding j by simp
          then show ?thesis by blast
        next
          case all
          then have "c' = c\<lparr>rc_auth_journal := j, rc_pending_persist := []\<rparr>"
            using Cons.prems True Some k p1 j by simp
          then show ?thesis by (metis empty_set empty_subsetI)
        next
          case one
          then show ?thesis using Cons.prems True Some k p1 j step [of "drop 1 fl" j fs1] by simp
        qed
      qed
    qed
  qed
qed

text \<open>What is presented to a guard, and its runs: presentations at non-decreasing times and steps of background tasks.\<close>

datatype presented = PMarker marker | PTicket bytes

datatype guard_op = Present bool presented u64 | TaskTake | TaskPutBack "io_faults list"

fun entry_of :: "(bytes \<Rightarrow> bytes) \<Rightarrow> presented \<Rightarrow> u64 \<Rightarrow> replay_entry" where
  "entry_of sha (PMarker m) now = marker_entry sha m"
| "entry_of sha (PTicket tk) now = ticket_entry sha tk now"

fun present :: "(bytes \<Rightarrow> bytes) \<Rightarrow> bool \<Rightarrow> presented \<Rightarrow> u64 \<Rightarrow> replay_guard \<Rightarrow> bool \<times> replay_guard" where
  "present sha locked (PMarker m) now g = first_sighting sha locked m now g"
| "present sha locked (PTicket tk) now g = accept_ticket sha locked tk now g"

fun guard_run :: "(bytes \<Rightarrow> bytes) \<Rightarrow> hmac \<Rightarrow> guard_op list \<Rightarrow> replay_guard \<Rightarrow> file_system \<Rightarrow> (presented \<times> u64) list" where
  "guard_run sha hm [] g fs = []"
| "guard_run sha hm (Present locked x now # ops) g fs =
     (case present sha locked x now g of (ok, g') \<Rightarrow> (if ok then [(x, now)] else []) @ guard_run sha hm ops g' fs)"
| "guard_run sha hm (TaskTake # ops) g fs = guard_run sha hm ops (persist_take g) fs"
| "guard_run sha hm (TaskPutBack fl # ops) g fs =
     (case persist_put_back hm fl g fs of (g', fs') \<Rightarrow> guard_run sha hm ops g' fs')"

fun clock_ok :: "u64 \<Rightarrow> guard_op list \<Rightarrow> bool" where
  "clock_ok t [] = True"
| "clock_ok t (Present _ _ now # ops) = (t \<le> now \<and> clock_ok now ops)"
| "clock_ok t (_ # ops) = clock_ok t ops"

text \<open>The cache of a guard, wherever it is; one place only.\<close>

definition guard_inv :: "u64 \<Rightarrow> u64 \<Rightarrow> replay_entry set \<Rightarrow> replay_guard \<Rightarrow> bool" where
  "guard_inv w t G g \<longleftrightarrow>
     (\<exists>c. (g_slot g = Some c \<and> g_out g = None \<or> g_slot g = None \<and> g_out g = Some c) \<and>
        mem_inv c \<and> rc_capacity c \<noteq> 0 \<and> rc_window_secs c = w \<and> guarded w t (set (rc_order c)) G)"

lemma guarded_mono: "guarded w t A G \<Longrightarrow> t \<le> now \<Longrightarrow> guarded w now A G"
  using unexpired_antimono by (auto simp: guarded_def)

lemma stage_expired:
  assumes "mem_inv c" "rc_window_secs c = w" "guarded w t (set (rc_order c)) G" "t \<le> now" "stage_insert e now c = (Inserted, c')"
    and "g \<in> G" "conflict g e"
  shows "\<not> unexpired w now g"
  using assms(1,5)
proof (cases rule: stage_insert_cases)
  case inserted
  show ?thesis
  proof
    assume "unexpired w now g"
    then have "g \<in> set (rc_order (prune_expired now c))"
      using guarded_prune [OF assms(1-4)] assms(6) by (simp add: guarded_def)
    then show False
      using inserted(3,4) assms(7) unfolding conflict_def by (metis image_eqI)
  qed
qed simp

lemma guard_insert_spec:
  assumes "guard_inv w t G g" "t \<le> now" "entry_wf e" "guard_insert locked e now g = (ok, g')"
  shows "guard_inv w now (if ok then insert e G else G) g'" "ok \<Longrightarrow> x \<in> G \<Longrightarrow> conflict x e \<Longrightarrow> \<not> unexpired w now x"
    "ok \<Longrightarrow> unexpired w now e"
proof -
  obtain c where c: "g_slot g = Some c \<and> g_out g = None \<or> g_slot g = None \<and> g_out g = Some c"
      "mem_inv c" "rc_capacity c \<noteq> 0" "rc_window_secs c = w" "guarded w t (set (rc_order c)) G"
    using assms(1) by (auto simp: guard_inv_def)
  have stay: "guard_inv w now G g" using c guarded_mono [OF c(5) assms(2)] unfolding guard_inv_def by blast
  have "guard_inv w now (if ok then insert e G else G) g' \<and> (ok \<longrightarrow> x \<in> G \<longrightarrow> conflict x e \<longrightarrow> \<not> unexpired w now x) \<and>
    (ok \<longrightarrow> unexpired w now e)"
  proof (cases "locked \<or> g_slot g = None")
    case True
    then have "ok = False" "g' = g" using assms(4) by (cases locked; simp add: guard_insert_def)+
    then show ?thesis using stay by simp
  next
    case False
    then have sl: "g_slot g = Some c" "g_out g = None" using c(1) by auto
    obtain out c2 where st: "stage_insert e now c = (out, c2)" by fastforce
    have g': "ok = (out = Inserted)"
        "g' = g\<lparr>g_slot := Some (if out = Inserted then c2\<lparr>rc_pending_persist := rc_pending_persist c2 @ [e]\<rparr> else c2)\<rparr>"
      using assms(4) False sl st c(3) by (cases "out = Inserted"; simp add: guard_insert_def insert_new_outcome_deferred_def)+
    note pi = prune_inv [OF c(2), of now] guarded_prune [OF c(2,4,5) assms(2)]
    from c(2) st show ?thesis
    proof (cases rule: stage_insert_cases)
      case refused
      then show ?thesis using g' pi c(3,4) sl by (simp add: guard_inv_def)
    next
      case inserted
      have "unexpired w now e" using inserted(2) c(4) by (simp add: is_fresh_def unexpired_def)
      moreover have "\<not> unexpired w now x" if "x \<in> G" "conflict x e"
        using stage_expired [OF c(2,4,5) assms(2) _ that] st inserted(1) by simp
      moreover have "mem_inv (c2\<lparr>rc_pending_persist := rc_pending_persist c2 @ [e]\<rparr>)"
        using insert_loaded_inv [OF pi(1) assms(3)] inserted(6) assms(3) by (simp add: mem_inv_def plain_on_disk_def)
      moreover have "guarded w now (set (rc_order c2)) (insert e G)"
        using insert_loaded_guarded [OF pi(2)] inserted(6) by simp
      ultimately show ?thesis
        using g' inserted(1,6) c(3,4) sl by (simp add: guard_inv_def)
    qed
  qed
  then show "guard_inv w now (if ok then insert e G else G) g'" "ok \<Longrightarrow> x \<in> G \<Longrightarrow> conflict x e \<Longrightarrow> \<not> unexpired w now x"
    "ok \<Longrightarrow> unexpired w now e"
    by blast+
qed

lemma task_inv:
  "guard_inv w t G g \<Longrightarrow> guard_inv w t G (persist_take g)"
  "guard_inv w t G g \<Longrightarrow> guard_inv w t G (fst (persist_put_back hm fl g fs))"
proof -
  assume inv: "guard_inv w t G g"
  then obtain c where c: "g_slot g = Some c \<and> g_out g = None \<or> g_slot g = None \<and> g_out g = Some c"
      "mem_inv c" "rc_capacity c \<noteq> 0" "rc_window_secs c = w" "guarded w t (set (rc_order c)) G"
    by (auto simp: guard_inv_def)
  then show "guard_inv w t G (persist_take g)"
    unfolding guard_inv_def by (intro exI [of _ c]) (auto simp: persist_take_def Let_def)
  show "guard_inv w t G (fst (persist_put_back hm fl g fs))"
  proof (cases "g_out g")
    case None
    then show ?thesis using inv by (simp add: persist_put_back_def)
  next
    case (Some c0)
    then have o': "g_out g = Some c" "g_slot g = None" using c(1) by auto
    obtain r c' fs' where p: "persist_pending hm fl c fs = (r, c', fs')" by (metis prod.exhaust)
    obtain j q' where q: "c' = c\<lparr>rc_auth_journal := j, rc_pending_persist := q'\<rparr>"
        "set q' \<subseteq> set (rc_pending_persist c) \<or> q' = rc_pending_persist c"
      using persist_queue_mem p unfolding persist_pending_def by blast
    have "mem_inv c'" using c(2) q by (auto simp: mem_inv_def plain_on_disk_def list_all_iff)
    then show ?thesis
      using o' p q(1) c(3-5) by (simp add: persist_put_back_def guard_inv_def)
  qed
qed

lemma present_entry:
  "present sha locked x now g =
     (case guard_insert locked (entry_of sha x now) now g of (ok, g1) \<Rightarrow> (ok, if ok then persist_in_background g1 else g1))"
  by (cases x) (simp_all add: first_sighting_def accept_ticket_def)

lemma entry_of_wf: "(\<And>x. length (sha x) = 32) \<Longrightarrow> entry_wf (entry_of sha x now)"
  by (cases x) (simp_all add: marker_entry_def ticket_entry_def Let_def entry_wf_def)

lemma background_inv: "guard_inv w t G (if ok then persist_in_background g else g) \<longleftrightarrow> guard_inv w t G g"
  by (simp add: guard_inv_def persist_in_background_def)

text \<open>Two acceptances in a log do not collide: the second one of the same marker is impossible, the second one of the
  same ticket comes after the window of the first.\<close>

definition no_reuse :: "u64 \<Rightarrow> presented \<times> u64 \<Rightarrow> presented \<times> u64 \<Rightarrow> bool" where
  "no_reuse w a b \<longleftrightarrow> fst a = fst b \<longrightarrow> (\<exists>tk. fst a = PTicket tk) \<and> saturating_add_u64 (snd a) w < snd b"

lemma guard_run_spec:
  assumes "\<And>x. length (sha x) = 32" "guard_inv w t G g" "clock_ok t ops" "L = guard_run sha hm ops g fs"
  shows "sorted_wrt (no_reuse w) L \<and>
    (\<forall>(x, now) \<in> set L. unexpired w now (entry_of sha x now) \<and> (\<forall>y \<in> G. conflict y (entry_of sha x now) \<longrightarrow> \<not> unexpired w now y))"
  using assms(2-)
proof (induction ops arbitrary: t G g fs L)
  case (Cons op ops)
  show ?case
  proof (cases op)
    case (Present locked x now)
    let ?e = "entry_of sha x now"
    obtain ok g1 where gi: "guard_insert locked ?e now g = (ok, g1)" by fastforce
    have t: "t \<le> now" and ck: "clock_ok now ops" using Cons.prems(2) Present by simp_all
    note sp = guard_insert_spec [OF Cons.prems(1) t entry_of_wf [OF assms(1)] gi]
    let ?G = "if ok then insert ?e G else G"
    define L' where "L' = guard_run sha hm ops (if ok then persist_in_background g1 else g1) fs"
    have L: "L = (if ok then [(x, now)] else []) @ L'"
      using Cons.prems(3) Present gi by (simp add: present_entry L'_def)
    have "guard_inv w now ?G (if ok then persist_in_background g1 else g1)"
      using sp(1) unfolding background_inv .
    note IH = Cons.IH [OF this ck L'_def]
    have ih: "sorted_wrt (no_reuse w) L'"
        "\<And>y t'. (y, t') \<in> set L' \<Longrightarrow> unexpired w t' (entry_of sha y t') \<and> (\<forall>z \<in> ?G. conflict z (entry_of sha y t') \<longrightarrow> \<not> unexpired w t' z)"
      using IH by blast+
    have "no_reuse w (x, now) (y, t')" if okay: ok and y: "(y, t') \<in> set L'" for y t'
    proof (cases "x = y")
      case True
      have c: "conflict ?e (entry_of sha x t')"
        by (cases x) (simp_all add: conflict_def ticket_entry_def Let_def)
      have ex: "\<not> unexpired w t' ?e"
        using ih(2) [OF y] okay c True by auto
      show ?thesis
        using ex ih(2) [OF y] True
        by (cases x) (auto simp: no_reuse_def unexpired_def ticket_entry_def Let_def)
    qed (simp add: no_reuse_def)
    then show ?thesis
      using ih sp(2,3) unfolding L by (auto split: if_splits)
  next
    case TaskTake
    then show ?thesis using Cons.IH [OF task_inv(1) [OF Cons.prems(1)], where L = L and fs = fs] Cons.prems(2,3) by simp
  next
    case (TaskPutBack fl)
    obtain g' fs' where pb: "persist_put_back hm fl g fs = (g', fs')" by fastforce
    have "guard_inv w t G g'" using task_inv(2) [OF Cons.prems(1), of hm fl fs] pb by simp
    then show ?thesis using Cons.IH [of t G g' L fs'] Cons.prems(2,3) TaskPutBack pb by simp
  qed
qed simp

text \<open>C12. Markers and tickets are single use. A marker the client sealed opens at the server to its nonce and timestamp.
  However presentations interleave with background persists, lock contention and I/O faults, a guard accepts a marker at
  most once, and accepts a ticket again only after the window of its last acceptance.\<close>

theorem markers_and_tickets_single_use:
  assumes "hkdf_correct H" "hmac_correct hm" "length nonce = 12"
    and "ts \<le> saturating_add_u64 now FUTURE_SKEW_SECS" "now \<le> saturating_add_u64 ts window"
    and "\<And>x. length (sha x) = 32" "mem_inv c" "rc_capacity c \<noteq> 0" "clock_ok t ops"
  shows "(\<exists>cr. marker_seal H hm psk ss sni dcid ts nonce = Some cr \<and> length cr = MARKER_LEN \<and>
      marker_open H hm psk ss sni dcid cr now window = Some (Some \<lparr>mk_nonce = nonce, mk_timestamp = ts\<rparr>)) \<and>
    sorted_wrt (\<lambda>a b. fst a = fst b \<longrightarrow> (\<exists>tk. fst a = PTicket tk) \<and> saturating_add_u64 (snd a) (rc_window_secs c) < snd b)
      (guard_run sha hm ops (guard_new c) fs)"
proof
  show "\<exists>cr. marker_seal H hm psk ss sni dcid ts nonce = Some cr \<and> length cr = MARKER_LEN \<and>
      marker_open H hm psk ss sni dcid cr now window = Some (Some \<lparr>mk_nonce = nonce, mk_timestamp = ts\<rparr>)"
    by (rule marker_open_seal [OF assms(1-5)])
  have "guard_inv (rc_window_secs c) t {} (guard_new c)"
    using assms(7,8) by (simp add: guard_inv_def guard_new_def guarded_def)
  from guard_run_spec [where sha = sha and hm = hm and fs = fs, OF assms(6) this assms(9) refl]
  show "sorted_wrt (\<lambda>a b. fst a = fst b \<longrightarrow> (\<exists>tk. fst a = PTicket tk) \<and> saturating_add_u64 (snd a) (rc_window_secs c) < snd b)
      (guard_run sha hm ops (guard_new c) fs)"
    unfolding no_reuse_def by blast
qed

definition const_sha :: "bytes \<Rightarrow> bytes" where
  "const_sha x = replicate 32 7"

definition replayed_ops :: "guard_op list" where
  "replayed_ops =
     [Present False (PTicket [1]) 10, TaskTake, Present False (PTicket [1]) 11, TaskPutBack [no_faults],
      Present False (PTicket [1]) 12, Present False (PTicket [1]) 200]"

text \<open>The ticket is accepted at 10, refused while the cache is checked out and after it is back, and accepted again when the
  window of 120 seconds has passed.\<close>

theorem markers_and_tickets_single_use_witness:
  "guard_run const_sha const_hmac replayed_ops (guard_new (replay_cache_new 4)) Map.empty = [(PTicket [1], 10), (PTicket [1], 200)] \<and>
   saturating_add_u64 10 DEFAULT_REPLAY_WINDOW_SECS < 200 \<and>
   (\<exists>cr. marker_seal const_hkdf const_hmac [] [] [] [] 10 (replicate 12 3) = Some cr \<and>
      marker_open const_hkdf const_hmac [] [] [] [] cr 12 120 = Some (Some \<lparr>mk_nonce = replicate 12 3, mk_timestamp = 10\<rparr>))"
proof -
  have H: "hkdf_correct const_hkdf"
    by (simp add: hkdf_correct_def const_hkdf_def)
  have inv: "mem_inv (replay_cache_new 4)" "rc_capacity (replay_cache_new 4) \<noteq> 0"
    by (simp_all add: replay_cache_new_def mem_inv_def plain_on_disk_def)
  have ck: "clock_ok 0 replayed_ops" by (simp add: replayed_ops_def)
  have sha: "length (const_sha x) = 32" for x by (simp add: const_sha_def)
  note use = markers_and_tickets_single_use [where H = const_hkdf and hm = const_hmac and nonce = "replicate 12 3" and ts = 10
      and now = 12 and window = 120 and sha = const_sha and c = "replay_cache_new 4" and t = 0 and ops = replayed_ops
      and psk = "[]" and ss = "[]" and sni = "[]" and dcid = "[]" and fs = Map.empty, OF H const_hmac_correct _ _ _ sha inv ck]
  have run: "guard_run const_sha const_hmac replayed_ops (guard_new (replay_cache_new 4)) Map.empty = [(PTicket [1], 10), (PTicket [1], 200)]"
    by (simp add: replayed_ops_def guard_new_def accept_ticket_def guard_insert_def insert_new_outcome_deferred_def stage_insert_def
        prune_expired_def replay_cache_new_def is_fresh_def ticket_entry_def const_sha_def MAX_FUTURE_SKEW_SECS_def
        DEFAULT_REPLAY_WINDOW_SECS_def saturating_add_u64_def push_loaded_entry_def min_timestamp_def persist_in_background_def
        persist_take_def persist_put_back_def persist_pending_def unexpired_def plain_on_disk_def Let_def)
  have "rc_window_secs (replay_cache_new 4) = DEFAULT_REPLAY_WINDOW_SECS" by (simp add: replay_cache_new_def)
  then show ?thesis
    using use run by (auto simp: saturating_add_u64_def FUTURE_SKEW_SECS_def DEFAULT_REPLAY_WINDOW_SECS_def)
qed

end
