(* ===== verification/Transport_Params.thy ===== *)
theory Transport_Params
  imports Varint
begin

text \<open>
  QUIC transport parameters: \<open>transport/udp/quic/transport_params.rs\<close>. The two encoders (the client's parameter list
  is rotated to a random start), and the parser of a peer's blob with its duplicate and range checks.
\<close>

section \<open>Parameters\<close>

definition TP_MAX_IDLE_TIMEOUT :: u64 where "TP_MAX_IDLE_TIMEOUT = 0x01"
definition TP_INITIAL_MAX_DATA :: u64 where "TP_INITIAL_MAX_DATA = 0x04"
definition TP_INITIAL_MAX_STREAM_DATA_BIDI_LOCAL :: u64 where "TP_INITIAL_MAX_STREAM_DATA_BIDI_LOCAL = 0x05"
definition TP_INITIAL_MAX_STREAM_DATA_BIDI_REMOTE :: u64 where "TP_INITIAL_MAX_STREAM_DATA_BIDI_REMOTE = 0x06"
definition TP_INITIAL_MAX_STREAM_DATA_UNI :: u64 where "TP_INITIAL_MAX_STREAM_DATA_UNI = 0x07"
definition TP_INITIAL_MAX_STREAMS_BIDI :: u64 where "TP_INITIAL_MAX_STREAMS_BIDI = 0x08"
definition TP_INITIAL_MAX_STREAMS_UNI :: u64 where "TP_INITIAL_MAX_STREAMS_UNI = 0x09"
definition TP_ACK_DELAY_EXPONENT :: u64 where "TP_ACK_DELAY_EXPONENT = 0x0a"
definition TP_MAX_ACK_DELAY :: u64 where "TP_MAX_ACK_DELAY = 0x0b"
definition TP_ACTIVE_CONNECTION_ID_LIMIT :: u64 where "TP_ACTIVE_CONNECTION_ID_LIMIT = 0x0e"
definition TP_INITIAL_SOURCE_CONNECTION_ID :: u64 where "TP_INITIAL_SOURCE_CONNECTION_ID = 0x0f"

lemmas tp_ids = TP_MAX_IDLE_TIMEOUT_def TP_INITIAL_MAX_DATA_def TP_INITIAL_MAX_STREAM_DATA_BIDI_LOCAL_def
  TP_INITIAL_MAX_STREAM_DATA_BIDI_REMOTE_def TP_INITIAL_MAX_STREAM_DATA_UNI_def TP_INITIAL_MAX_STREAMS_BIDI_def
  TP_INITIAL_MAX_STREAMS_UNI_def TP_ACK_DELAY_EXPONENT_def TP_MAX_ACK_DELAY_def TP_ACTIVE_CONNECTION_ID_LIMIT_def
  TP_INITIAL_SOURCE_CONNECTION_ID_def

definition SAFARI_TP_ORDER :: "u64 list" where
  "SAFARI_TP_ORDER =
     [TP_MAX_IDLE_TIMEOUT, TP_INITIAL_MAX_DATA, TP_INITIAL_MAX_STREAM_DATA_BIDI_LOCAL,
      TP_INITIAL_MAX_STREAM_DATA_BIDI_REMOTE, TP_INITIAL_MAX_STREAM_DATA_UNI, TP_INITIAL_MAX_STREAMS_UNI,
      TP_ACTIVE_CONNECTION_ID_LIMIT, TP_INITIAL_SOURCE_CONNECTION_ID]"

definition SAFARI_TP_ROTATION_WEIGHTS :: "nat list" where
  "SAFARI_TP_ROTATION_WEIGHTS = [16, 19, 7, 6, 7, 9, 35, 6]"

definition SAFARI_MAX_IDLE_TIMEOUT_MS :: u64 where "SAFARI_MAX_IDLE_TIMEOUT_MS = 300000"
definition SAFARI_INITIAL_MAX_DATA :: u64 where "SAFARI_INITIAL_MAX_DATA = 16 * 1024 * 1024"
definition SAFARI_INITIAL_MAX_STREAM_DATA :: u64 where "SAFARI_INITIAL_MAX_STREAM_DATA = 2 * 1024 * 1024"
definition SAFARI_MAX_STREAMS_UNI :: u64 where "SAFARI_MAX_STREAMS_UNI = 8"
definition SAFARI_ACTIVE_CID_LIMIT :: u64 where "SAFARI_ACTIVE_CID_LIMIT = 64"
definition DEFAULT_ACTIVE_CONNECTION_ID_LIMIT :: u64 where "DEFAULT_ACTIVE_CONNECTION_ID_LIMIT = 2"
definition DEFAULT_ACK_DELAY_EXPONENT :: u32 where "DEFAULT_ACK_DELAY_EXPONENT = 3"
definition DEFAULT_MAX_ACK_DELAY_MS :: u64 where "DEFAULT_MAX_ACK_DELAY_MS = 25"
definition MIN_ACTIVE_CONNECTION_ID_LIMIT :: u64 where "MIN_ACTIVE_CONNECTION_ID_LIMIT = 2"
definition TP_MAX_CONNECTION_ID_LEN :: nat where "TP_MAX_CONNECTION_ID_LEN = 20"
definition MAX_STREAMS_LIMIT :: u64 where "MAX_STREAMS_LIMIT = push_bit 60 1"

lemmas tp_consts = SAFARI_MAX_IDLE_TIMEOUT_MS_def SAFARI_INITIAL_MAX_DATA_def SAFARI_INITIAL_MAX_STREAM_DATA_def
  SAFARI_MAX_STREAMS_UNI_def SAFARI_ACTIVE_CID_LIMIT_def DEFAULT_ACTIVE_CONNECTION_ID_LIMIT_def
  DEFAULT_ACK_DELAY_EXPONENT_def DEFAULT_MAX_ACK_DELAY_MS_def MIN_ACTIVE_CONNECTION_ID_LIMIT_def
  TP_MAX_CONNECTION_ID_LEN_def MAX_STREAMS_LIMIT_def

datatype tp_error = TP_Truncated | TP_Malformed | TP_Duplicate | TP_Invalid

record transport_parameters =
  initial_max_data :: u64
  initial_max_stream_data_bidi_local :: u64
  initial_max_stream_data_bidi_remote :: u64
  initial_max_stream_data_uni :: u64
  initial_max_streams_bidi :: u64
  initial_max_streams_uni :: u64
  ack_delay_exponent :: u32
  max_ack_delay_ms :: u64
  active_connection_id_limit :: u64
  initial_src_cid :: bytes

definition safari_client :: "bytes \<Rightarrow> transport_parameters" where
  "safari_client scid =
     \<lparr>initial_max_data = SAFARI_INITIAL_MAX_DATA,
      initial_max_stream_data_bidi_local = SAFARI_INITIAL_MAX_STREAM_DATA,
      initial_max_stream_data_bidi_remote = SAFARI_INITIAL_MAX_STREAM_DATA,
      initial_max_stream_data_uni = SAFARI_INITIAL_MAX_STREAM_DATA,
      initial_max_streams_bidi = 0,
      initial_max_streams_uni = SAFARI_MAX_STREAMS_UNI,
      ack_delay_exponent = DEFAULT_ACK_DELAY_EXPONENT,
      max_ack_delay_ms = DEFAULT_MAX_ACK_DELAY_MS,
      active_connection_id_limit = SAFARI_ACTIVE_CID_LIMIT,
      initial_src_cid = scid\<rparr>"

definition server_params :: "bytes \<Rightarrow> transport_parameters" where
  "server_params scid =
     \<lparr>initial_max_data = SAFARI_INITIAL_MAX_DATA,
      initial_max_stream_data_bidi_local = SAFARI_INITIAL_MAX_STREAM_DATA,
      initial_max_stream_data_bidi_remote = SAFARI_INITIAL_MAX_STREAM_DATA,
      initial_max_stream_data_uni = SAFARI_INITIAL_MAX_STREAM_DATA,
      initial_max_streams_bidi = 2,
      initial_max_streams_uni = SAFARI_MAX_STREAMS_UNI,
      ack_delay_exponent = DEFAULT_ACK_DELAY_EXPONENT,
      max_ack_delay_ms = DEFAULT_MAX_ACK_DELAY_MS,
      active_connection_id_limit = MIN_ACTIVE_CONNECTION_ID_LIMIT,
      initial_src_cid = scid\<rparr>"

section \<open>Encoders\<close>

definition put_param :: "bytes \<Rightarrow> u64 \<Rightarrow> u64 \<Rightarrow> bytes" where
  "put_param out pid value = out @ varint_encode pid @ varint_encode (of_nat (varint_size value)) @ varint_encode value"

definition put_param_bytes :: "bytes \<Rightarrow> u64 \<Rightarrow> bytes \<Rightarrow> bytes" where
  "put_param_bytes out pid value = out @ varint_encode pid @ varint_encode (of_nat (length value)) @ value"

text \<open>One round of the client's loop.\<close>

definition put_safari_param :: "transport_parameters \<Rightarrow> bytes \<Rightarrow> u64 \<Rightarrow> bytes" where
  "put_safari_param tp out pid =
     (if pid = TP_INITIAL_SOURCE_CONNECTION_ID then put_param_bytes out pid (initial_src_cid tp)
      else put_param out pid
        (if pid = TP_MAX_IDLE_TIMEOUT then SAFARI_MAX_IDLE_TIMEOUT_MS
         else if pid = TP_INITIAL_MAX_DATA then initial_max_data tp
         else if pid = TP_INITIAL_MAX_STREAM_DATA_BIDI_LOCAL then initial_max_stream_data_bidi_local tp
         else if pid = TP_INITIAL_MAX_STREAM_DATA_BIDI_REMOTE then initial_max_stream_data_bidi_remote tp
         else if pid = TP_INITIAL_MAX_STREAM_DATA_UNI then initial_max_stream_data_uni tp
         else if pid = TP_INITIAL_MAX_STREAMS_UNI then initial_max_streams_uni tp
         else active_connection_id_limit tp))"

definition encode_safari_client_from :: "transport_parameters \<Rightarrow> nat \<Rightarrow> bytes" where
  "encode_safari_client_from tp start =
     foldl (\<lambda>out i. put_safari_param tp out (SAFARI_TP_ORDER ! ((start + i) mod length SAFARI_TP_ORDER))) []
       [0..<length SAFARI_TP_ORDER]"

primrec rotation_start_loop :: "nat list \<Rightarrow> nat \<Rightarrow> nat \<Rightarrow> nat" where
  "rotation_start_loop [] start draw = 0"
| "rotation_start_loop (weight # weights) start draw =
     (if draw < weight then start else rotation_start_loop weights (Suc start) (draw - weight))"

definition rotation_start_for :: "nat \<Rightarrow> nat" where
  "rotation_start_for draw = rotation_start_loop SAFARI_TP_ROTATION_WEIGHTS 0 draw"

text \<open>The two bytes come from the system's random generator.\<close>

definition safari_tp_rotation_start :: "byte \<times> byte \<Rightarrow> nat" where
  "safari_tp_rotation_start = (\<lambda>(b0, b1).
     rotation_start_for (unat (from_be [b0, b1] :: u16) mod sum_list SAFARI_TP_ROTATION_WEIGHTS))"

definition encode_safari_client :: "transport_parameters \<Rightarrow> byte \<times> byte \<Rightarrow> bytes" where
  "encode_safari_client tp bs = encode_safari_client_from tp (safari_tp_rotation_start bs)"

definition encode_server :: "transport_parameters \<Rightarrow> bytes" where
  "encode_server tp =
     (let out = [];
          out = put_param out TP_INITIAL_MAX_DATA (initial_max_data tp);
          out = put_param out TP_INITIAL_MAX_STREAM_DATA_BIDI_LOCAL (initial_max_stream_data_bidi_local tp);
          out = put_param out TP_INITIAL_MAX_STREAM_DATA_BIDI_REMOTE (initial_max_stream_data_bidi_remote tp);
          out = put_param out TP_INITIAL_MAX_STREAM_DATA_UNI (initial_max_stream_data_uni tp);
          out = put_param out TP_INITIAL_MAX_STREAMS_BIDI (initial_max_streams_bidi tp);
          out = put_param out TP_INITIAL_MAX_STREAMS_UNI (initial_max_streams_uni tp);
          out = put_param out TP_ACTIVE_CONNECTION_ID_LIMIT (active_connection_id_limit tp)
      in put_param_bytes out TP_INITIAL_SOURCE_CONNECTION_ID (initial_src_cid tp))"

section \<open>Parser\<close>

definition read_varint_body :: "bytes \<Rightarrow> tp_error + u64" where
  "read_varint_body body =
     and_then (ok_or (varint_decode body) TP_Truncated) (\<lambda>(value, n).
       if n \<noteq> length body then Inl TP_Malformed else Inr value)"

definition read_max_streams :: "bytes \<Rightarrow> tp_error + u64" where
  "read_max_streams body =
     and_then (read_varint_body body) (\<lambda>value. if value > MAX_STREAMS_LIMIT then Inl TP_Invalid else Inr value)"

text \<open>The match on the identifier of one parameter.\<close>

definition tp_apply :: "transport_parameters \<Rightarrow> u64 \<Rightarrow> bytes \<Rightarrow> tp_error + transport_parameters" where
  "tp_apply tp pid body =
     (if pid = TP_INITIAL_MAX_DATA then and_then (read_varint_body body) (\<lambda>v. Inr (tp\<lparr>initial_max_data := v\<rparr>))
      else if pid = TP_INITIAL_MAX_STREAM_DATA_BIDI_LOCAL then
        and_then (read_varint_body body) (\<lambda>v. Inr (tp\<lparr>initial_max_stream_data_bidi_local := v\<rparr>))
      else if pid = TP_INITIAL_MAX_STREAM_DATA_BIDI_REMOTE then
        and_then (read_varint_body body) (\<lambda>v. Inr (tp\<lparr>initial_max_stream_data_bidi_remote := v\<rparr>))
      else if pid = TP_INITIAL_MAX_STREAM_DATA_UNI then
        and_then (read_varint_body body) (\<lambda>v. Inr (tp\<lparr>initial_max_stream_data_uni := v\<rparr>))
      else if pid = TP_INITIAL_MAX_STREAMS_BIDI then
        and_then (read_max_streams body) (\<lambda>v. Inr (tp\<lparr>initial_max_streams_bidi := v\<rparr>))
      else if pid = TP_INITIAL_MAX_STREAMS_UNI then
        and_then (read_max_streams body) (\<lambda>v. Inr (tp\<lparr>initial_max_streams_uni := v\<rparr>))
      else if pid = TP_ACK_DELAY_EXPONENT then
        and_then (read_varint_body body) (\<lambda>v.
          if v > 20 then Inl TP_Invalid else Inr (tp\<lparr>ack_delay_exponent := ucast v\<rparr>))
      else if pid = TP_MAX_ACK_DELAY then
        and_then (read_varint_body body) (\<lambda>v.
          if v \<ge> push_bit 14 1 then Inl TP_Invalid else Inr (tp\<lparr>max_ack_delay_ms := v\<rparr>))
      else if pid = TP_ACTIVE_CONNECTION_ID_LIMIT then
        and_then (read_varint_body body) (\<lambda>v.
          if v < MIN_ACTIVE_CONNECTION_ID_LIMIT then Inl TP_Invalid else Inr (tp\<lparr>active_connection_id_limit := v\<rparr>))
      else if pid = TP_INITIAL_SOURCE_CONNECTION_ID then
        (if length body > TP_MAX_CONNECTION_ID_LEN then Inl TP_Invalid else Inr (tp\<lparr>initial_src_cid := body\<rparr>))
      else Inr tp)"

definition tp_default :: transport_parameters where
  "tp_default =
     \<lparr>initial_max_data = 0, initial_max_stream_data_bidi_local = 0, initial_max_stream_data_bidi_remote = 0,
      initial_max_stream_data_uni = 0, initial_max_streams_bidi = 0, initial_max_streams_uni = 0,
      ack_delay_exponent = DEFAULT_ACK_DELAY_EXPONENT, max_ack_delay_ms = DEFAULT_MAX_ACK_DELAY_MS,
      active_connection_id_limit = DEFAULT_ACTIVE_CONNECTION_ID_LIMIT, initial_src_cid = []\<rparr>"

text \<open>Identifier, length and body of the parameter at position \<open>i\<close>, and the position after it, up to the duplicate
  check, which comes between the two varints. \<open>usize::try_from\<close> of a \<open>u64\<close> does not fail on a 64-bit target.\<close>

definition tp_field :: "u64 set \<Rightarrow> bytes \<Rightarrow> nat \<Rightarrow> tp_error + (u64 \<times> bytes \<times> nat)" where
  "tp_field seen blob i =
     and_then (ok_or (get_from blob i) TP_Truncated) (\<lambda>rest.
     and_then (ok_or (varint_decode rest) TP_Truncated) (\<lambda>(pid, n).
       let i = i + n in
       if pid \<in> seen then Inl TP_Duplicate
       else and_then (ok_or (get_from blob i) TP_Truncated) (\<lambda>rest.
         and_then (ok_or (varint_decode rest) TP_Truncated) (\<lambda>(len, m).
           let i = i + m in
           and_then (ok_or (checked_add_usize i (unat len)) TP_Truncated) (\<lambda>end_pos.
           and_then (ok_or (get_range blob i end_pos) TP_Truncated) (\<lambda>body. Inr (pid, body, end_pos)))))))"

lemma tp_field_advances: "tp_field seen blob i = Inr (pid, body, j) \<Longrightarrow> i < j \<and> j \<le> length blob"
  by (auto simp: tp_field_def and_then_eq_Inr Let_def checked_add_usize_def get_range_def
      dest!: varint_decode_pos split: if_splits prod.splits)

function tp_loop :: "bytes \<Rightarrow> nat \<Rightarrow> u64 set \<Rightarrow> transport_parameters \<Rightarrow> tp_error + transport_parameters" where
  "tp_loop blob i seen tp =
     (if i < length blob then
        (case tp_field seen blob i of
           Inl e \<Rightarrow> Inl e
         | Inr (pid, body, j) \<Rightarrow> and_then (tp_apply tp pid body) (\<lambda>tp'. tp_loop blob j (insert pid seen) tp'))
      else Inr tp)"
  by pat_completeness auto
termination
  by (relation "measure (\<lambda>(blob, i, _, _). length blob - i)") (auto dest: tp_field_advances)

declare tp_loop.simps [simp del]

definition tp_read :: "bytes \<Rightarrow> tp_error + transport_parameters" where
  "tp_read blob = tp_loop blob 0 {} tp_default"

section \<open>Values of a parsed blob\<close>

text \<open>The ranges of RFC 9000, section 18.2.\<close>

definition tp_wf :: "transport_parameters \<Rightarrow> bool" where
  "tp_wf tp \<longleftrightarrow> initial_max_data tp \<le> VARINT_MAX \<and> initial_max_stream_data_bidi_local tp \<le> VARINT_MAX \<and>
     initial_max_stream_data_bidi_remote tp \<le> VARINT_MAX \<and> initial_max_stream_data_uni tp \<le> VARINT_MAX \<and>
     initial_max_streams_bidi tp \<le> MAX_STREAMS_LIMIT \<and> initial_max_streams_uni tp \<le> MAX_STREAMS_LIMIT \<and>
     ack_delay_exponent tp \<le> 20 \<and> max_ack_delay_ms tp < 2 ^ 14 \<and>
     2 \<le> active_connection_id_limit tp \<and> active_connection_id_limit tp \<le> VARINT_MAX \<and>
     length (initial_src_cid tp) \<le> 20"

lemma read_varint_body_le: "read_varint_body body = Inr v \<Longrightarrow> v \<le> VARINT_MAX"
  by (auto simp: read_varint_body_def and_then_eq_Inr dest: varint_decode_le_MAX split: if_splits prod.splits)

lemma read_max_streams_le: "read_max_streams body = Inr v \<Longrightarrow> v \<le> MAX_STREAMS_LIMIT"
  by (auto simp: read_max_streams_def and_then_eq_Inr split: if_splits)

lemma ucast_ack_exponent:
  assumes "(v :: u64) \<le> 20"
  shows "(ucast v :: u32) \<le> 20"
proof -
  have v: "unat v \<le> 20"
    using assms by (simp add: word_le_nat_alt)
  then have "unat (ucast v :: u32) = unat v"
    by (simp add: unsigned_ucast_eq take_bit_nat_eq_self)
  then show ?thesis
    using v by (simp add: word_le_nat_alt)
qed

lemma tp_apply_wf:
  assumes "tp_wf tp" and "tp_apply tp pid body = Inr tp'"
  shows "tp_wf tp'"
  using assms read_varint_body_le [of body] read_max_streams_le [of body] ucast_ack_exponent
  by (auto simp: tp_wf_def tp_apply_def and_then_eq_Inr MIN_ACTIVE_CONNECTION_ID_LIMIT_def not_le not_less
      TP_MAX_CONNECTION_ID_LEN_def split: if_splits)

lemma tp_loop_wf: "tp_loop blob i seen tp = Inr tp' \<Longrightarrow> tp_wf tp \<Longrightarrow> tp_wf tp'"
proof (induction blob i seen tp rule: tp_loop.induct)
  case (1 blob i seen tp)
  show ?case
  proof (cases "i < length blob")
    case True
    then obtain pid body j where f: "tp_field seen blob i = Inr (pid, body, j)"
      using "1.prems"(1) by (subst (asm) tp_loop.simps) (auto split: sum.splits)
    then obtain tp1 where a: "tp_apply tp pid body = Inr tp1" "tp_loop blob j (insert pid seen) tp1 = Inr tp'"
      using True "1.prems"(1) by (subst (asm) tp_loop.simps) (auto simp: and_then_eq_Inr)
    show ?thesis
      using "1.IH" [OF True f refl refl a(2) tp_apply_wf [OF "1.prems"(2) a(1)]] .
  next
    case False
    then show ?thesis
      using "1.prems" by (subst (asm) tp_loop.simps) simp
  qed
qed

lemma tp_default_wf: "tp_wf tp_default"
  by (simp add: tp_wf_def tp_default_def tp_consts VARINT_MAX_eq)

text \<open>C35. Whatever bytes a peer sends as its transport parameters, a blob that is accepted yields values in the ranges the
  rest of the stack relies on: stream counts up to 2 to the 60, an ACK delay exponent of at most 20 and an ACK delay below
  16384 ms, at least two connection ids, an identifier of at most 20 bytes, and every other value a varint.\<close>

theorem transport_params_typed: "tp_read blob = Inr tp \<Longrightarrow> tp_wf tp"
  unfolding tp_read_def using tp_loop_wf tp_default_wf by blast

section \<open>Round trips\<close>

text \<open>A blob as the list of its parameters.\<close>

definition tp_wire :: "(u64 \<times> bytes) list \<Rightarrow> bytes" where
  "tp_wire ps = concat (map (\<lambda>(pid, body). varint_encode pid @ varint_encode (of_nat (length body)) @ body) ps)"

definition params_ok :: "(u64 \<times> bytes) list \<Rightarrow> bool" where
  "params_ok ps \<longleftrightarrow> distinct (map fst ps) \<and> (\<forall>(pid, body) \<in> set ps. pid \<le> VARINT_MAX \<and> length body \<le> 20)"

lemma tp_wire_simps [simp]:
  "tp_wire [] = []"
  "tp_wire ((pid, body) # ps) = varint_encode pid @ varint_encode (of_nat (length body)) @ body @ tp_wire ps"
  by (simp_all add: tp_wire_def)

lemma small_length:
  assumes "length (body :: bytes) \<le> 20"
  shows "(of_nat (length body) :: u64) \<le> VARINT_MAX" "unat (of_nat (length body) :: u64) = length body"
proof -
  show u: "unat (of_nat (length body) :: u64) = length body"
    using assms by (simp add: unsigned_of_nat take_bit_nat_eq_self)
  show "(of_nat (length body) :: u64) \<le> VARINT_MAX"
    unfolding word_le_nat_alt u VARINT_MAX_eq using assms by simp
qed

lemma tp_field_wire:
  assumes blob: "drop i blob = tp_wire ((pid, body) # ps)" and i: "i \<le> length blob" and len: "length blob < 2 ^ 64"
    and pid: "pid \<le> VARINT_MAX" "pid \<notin> seen" and body: "length body \<le> 20"
  shows "\<exists>j. tp_field seen blob i = Inr (pid, body, j) \<and> drop j blob = tp_wire ps \<and> j \<le> length blob"
proof -
  let ?l = "of_nat (length body) :: u64"
  define i1 where "i1 = i + varint_size pid"
  define i2 where "i2 = i1 + varint_size ?l"
  define j where "j = i2 + length body"
  have d1: "drop i1 blob = varint_encode ?l @ body @ tp_wire ps"
    using drop_append_step [of i blob "varint_encode pid"] blob by (simp add: i1_def)
  have d2: "drop i2 blob = body @ tp_wire ps"
    using drop_append_step [OF d1] by (simp add: i2_def)
  have d3: "drop j blob = tp_wire ps"
    using drop_append_step [OF d2] by (simp add: j_def)
  have le1: "i1 \<le> length blob" and le2: "i2 \<le> length blob"
    using arg_cong [OF blob, of length] arg_cong [OF d1, of length] i by (auto simp: i1_def i2_def)
  have le3: "j \<le> length blob"
    using arg_cong [OF d2, of length] le2 by (simp add: j_def)
  have "checked_add_usize i2 (unat ?l) = Some j"
    using le3 len by (simp add: checked_add_usize_def usize_limit_def j_def small_length(2) [OF body])
  moreover have "get_range blob i2 j = Some body"
    by (rule get_range_append [OF d2 le2]) (simp add: j_def)
  ultimately have "tp_field seen blob i = Inr (pid, body, j)"
    using blob d1 i le1 pid varint_decode_encode [OF small_length(1) [OF body]]
    by (simp add: tp_field_def get_from_def varint_decode_encode Let_def i1_def i2_def)
  with d3 le3 show ?thesis by blast
qed

lemma tp_loop_wire:
  "drop i blob = tp_wire ps \<Longrightarrow> i \<le> length blob \<Longrightarrow> length blob < 2 ^ 64 \<Longrightarrow> params_ok ps \<Longrightarrow>
     fst ` set ps \<inter> seen = {} \<Longrightarrow>
     tp_loop blob i seen tp = foldl (\<lambda>r (pid, body). and_then r (\<lambda>tp. tp_apply tp pid body)) (Inr tp) ps"
proof (induction ps arbitrary: i seen tp)
  case Nil
  then show ?case
    by (subst tp_loop.simps) simp
next
  case (Cons p ps)
  obtain pid body where p: "p = (pid, body)"
    by (cases p)
  have ok: "pid \<le> VARINT_MAX" "length body \<le> 20" "params_ok ps" "pid \<notin> seen" "pid \<notin> fst ` set ps"
    using Cons.prems(4,5) by (auto simp: p params_ok_def)
  obtain j where j: "tp_field seen blob i = Inr (pid, body, j)" "drop j blob = tp_wire ps" "j \<le> length blob"
    using tp_field_wire [OF Cons.prems(1) [unfolded p] Cons.prems(2,3) ok(1,4,2)] by blast
  have lt: "i < length blob"
    using Cons.prems(1,2) by (cases "i = length blob") (auto simp: p)
  have ih: "tp_loop blob j (insert pid seen) tp' =
      foldl (\<lambda>r (pid, body). and_then r (\<lambda>tp. tp_apply tp pid body)) (Inr tp') ps" for tp'
    using Cons.IH [OF j(2,3) Cons.prems(3) ok(3), of "insert pid seen" tp'] Cons.prems(5) ok(5) by (auto simp: p)
  have err: "foldl (\<lambda>r (pid, body). and_then r (\<lambda>tp. tp_apply tp pid body)) (Inl e) ps = Inl e" for e ps
    by (induction ps) auto
  show ?case
    using lt j(1) ih err by (subst tp_loop.simps) (cases "tp_apply tp pid body"; simp add: p)
qed

lemma put_param_wire:
  "put_param (tp_wire ps) pid v = tp_wire (ps @ [(pid, varint_encode v)])"
  "put_param_bytes (tp_wire ps) pid body = tp_wire (ps @ [(pid, body)])"
  by (simp_all add: put_param_def put_param_bytes_def tp_wire_def)

text \<open>The bodies of the parameters: a varint for all but the connection id.\<close>

definition tp_body :: "transport_parameters \<Rightarrow> u64 \<Rightarrow> bytes" where
  "tp_body tp pid =
     (if pid = TP_INITIAL_SOURCE_CONNECTION_ID then initial_src_cid tp
      else varint_encode
        (if pid = TP_MAX_IDLE_TIMEOUT then SAFARI_MAX_IDLE_TIMEOUT_MS
         else if pid = TP_INITIAL_MAX_DATA then initial_max_data tp
         else if pid = TP_INITIAL_MAX_STREAM_DATA_BIDI_LOCAL then initial_max_stream_data_bidi_local tp
         else if pid = TP_INITIAL_MAX_STREAM_DATA_BIDI_REMOTE then initial_max_stream_data_bidi_remote tp
         else if pid = TP_INITIAL_MAX_STREAM_DATA_UNI then initial_max_stream_data_uni tp
         else if pid = TP_INITIAL_MAX_STREAMS_BIDI then initial_max_streams_bidi tp
         else if pid = TP_INITIAL_MAX_STREAMS_UNI then initial_max_streams_uni tp
         else active_connection_id_limit tp))"

definition SERVER_TP_ORDER :: "u64 list" where
  "SERVER_TP_ORDER =
     [TP_INITIAL_MAX_DATA, TP_INITIAL_MAX_STREAM_DATA_BIDI_LOCAL, TP_INITIAL_MAX_STREAM_DATA_BIDI_REMOTE,
      TP_INITIAL_MAX_STREAM_DATA_UNI, TP_INITIAL_MAX_STREAMS_BIDI, TP_INITIAL_MAX_STREAMS_UNI,
      TP_ACTIVE_CONNECTION_ID_LIMIT, TP_INITIAL_SOURCE_CONNECTION_ID]"

definition tp_list :: "transport_parameters \<Rightarrow> u64 list \<Rightarrow> (u64 \<times> bytes) list" where
  "tp_list tp ids = map (\<lambda>pid. (pid, tp_body tp pid)) ids"

lemma encode_server_wire: "encode_server tp = tp_wire (tp_list tp SERVER_TP_ORDER)"
  by (simp add: encode_server_def Let_def put_param_def put_param_bytes_def tp_list_def SERVER_TP_ORDER_def tp_body_def
      tp_ids)

lemma put_safari_param_wire:
  "pid \<noteq> TP_INITIAL_MAX_STREAMS_BIDI \<Longrightarrow> put_safari_param tp (tp_wire ps) pid = tp_wire (ps @ [(pid, tp_body tp pid)])"
  by (simp add: put_safari_param_def put_param_wire tp_body_def)

lemma foldl_safari_wire:
  "TP_INITIAL_MAX_STREAMS_BIDI \<notin> set ids \<Longrightarrow>
     foldl (put_safari_param tp) (tp_wire ps) ids = tp_wire (ps @ tp_list tp ids)"
proof (induction ids arbitrary: ps)
  case (Cons pid ids)
  then have "put_safari_param tp (tp_wire ps) pid = tp_wire (ps @ [(pid, tp_body tp pid)])"
    by (intro put_safari_param_wire) auto
  then show ?case
    using Cons by (simp add: tp_list_def)
qed (simp add: tp_list_def)

text \<open>The client's identifiers, rotated.\<close>

lemma length_SAFARI_TP_ORDER [simp]: "length SAFARI_TP_ORDER = 8"
  by (simp add: SAFARI_TP_ORDER_def)

lemma rotate_as_map: "map (\<lambda>i. xs ! ((n + i) mod length xs)) [0..<length xs] = rotate n xs"
  by (rule nth_equalityI) (simp_all add: nth_rotate)

lemma encode_safari_client_wire:
  "encode_safari_client_from tp start = tp_wire (tp_list tp (rotate start SAFARI_TP_ORDER))"
proof -
  have "TP_INITIAL_MAX_STREAMS_BIDI \<notin> set (rotate start SAFARI_TP_ORDER)"
    by (simp add: SAFARI_TP_ORDER_def tp_ids)
  moreover have "encode_safari_client_from tp start =
      foldl (put_safari_param tp) (tp_wire []) (rotate start SAFARI_TP_ORDER)"
    unfolding rotate_as_map [of SAFARI_TP_ORDER start, symmetric] by (simp add: encode_safari_client_from_def foldl_map)
  ultimately show ?thesis
    using foldl_safari_wire [of "rotate start SAFARI_TP_ORDER" tp "[]"] by simp
qed

lemma read_varint_body_encode: "v \<le> VARINT_MAX \<Longrightarrow> read_varint_body (varint_encode v) = Inr v"
  using varint_decode_encode [of v "[]"] by (simp add: read_varint_body_def)

lemma limit_le_VARINT: "v \<le> MAX_STREAMS_LIMIT \<Longrightarrow> v \<le> VARINT_MAX"
  by (simp add: MAX_STREAMS_LIMIT_def VARINT_MAX_eq word_le_nat_alt)

lemma read_max_streams_encode: "v \<le> MAX_STREAMS_LIMIT \<Longrightarrow> read_max_streams (varint_encode v) = Inr v"
  using read_varint_body_encode [OF limit_le_VARINT, of v] by (simp add: read_max_streams_def)

lemma length_varint_le_20: "length (varint_encode v) \<le> 20"
  using varint_size_le_8 [of v] by simp

lemma tp_body_length: "tp_wf tp \<Longrightarrow> length (tp_body tp pid) \<le> 20"
  unfolding tp_body_def by (cases "pid = TP_INITIAL_SOURCE_CONNECTION_ID")
    (simp_all only: if_True if_False refl length_varint_le_20 tp_wf_def)

lemma tp_list_ok:
  assumes "tp_wf tp" and "distinct ids" and "\<forall>pid \<in> set ids. pid \<le> VARINT_MAX"
  shows "params_ok (tp_list tp ids)"
  using assms tp_body_length [OF assms(1)] by (auto simp: params_ok_def tp_list_def comp_def)

lemma tp_wire_length:
  assumes "\<forall>(pid, body) \<in> set ps. length body \<le> 20"
  shows "length (tp_wire ps) \<le> 36 * length ps"
  using assms
proof (induction ps)
  case (Cons p ps)
  then show ?case
    using varint_size_le_8 [of "fst p"] varint_size_le_8 [of "of_nat (length (snd p))"]
    by (cases p) auto
qed simp

lemma tp_read_list:
  assumes "tp_wf tp" and "distinct ids" and "\<forall>pid \<in> set ids. pid \<le> VARINT_MAX" and "length ids = 8"
  shows "tp_read (tp_wire (tp_list tp ids)) =
    foldl (\<lambda>r pid. and_then r (\<lambda>t. tp_apply t pid (tp_body tp pid))) (Inr tp_default) ids"
proof -
  note ok = tp_list_ok [OF assms(1-3)]
  have "length (tp_wire (tp_list tp ids)) \<le> 36 * length (tp_list tp ids)"
    by (rule tp_wire_length) (use ok in \<open>auto simp: params_ok_def\<close>)
  then have "length (tp_wire (tp_list tp ids)) < 2 ^ 64"
    using assms(4) by (simp add: tp_list_def)
  then show ?thesis
    using tp_loop_wire [of 0 "tp_wire (tp_list tp ids)" "tp_list tp ids" "{}" tp_default] ok
    by (simp add: tp_read_def tp_list_def foldl_map)
qed

lemma ids_le: "pid \<in> set (SAFARI_TP_ORDER @ SERVER_TP_ORDER) \<Longrightarrow> pid \<le> VARINT_MAX"
  by (auto simp: SAFARI_TP_ORDER_def SERVER_TP_ORDER_def tp_ids VARINT_MAX_eq)

text \<open>The effect of one parameter of the encoders on the parser's state.\<close>

definition tp_copy :: "transport_parameters \<Rightarrow> transport_parameters \<Rightarrow> u64 \<Rightarrow> transport_parameters" where
  "tp_copy tp t pid =
     (if pid = TP_INITIAL_MAX_DATA then t\<lparr>initial_max_data := initial_max_data tp\<rparr>
      else if pid = TP_INITIAL_MAX_STREAM_DATA_BIDI_LOCAL
        then t\<lparr>initial_max_stream_data_bidi_local := initial_max_stream_data_bidi_local tp\<rparr>
      else if pid = TP_INITIAL_MAX_STREAM_DATA_BIDI_REMOTE
        then t\<lparr>initial_max_stream_data_bidi_remote := initial_max_stream_data_bidi_remote tp\<rparr>
      else if pid = TP_INITIAL_MAX_STREAM_DATA_UNI then t\<lparr>initial_max_stream_data_uni := initial_max_stream_data_uni tp\<rparr>
      else if pid = TP_INITIAL_MAX_STREAMS_BIDI then t\<lparr>initial_max_streams_bidi := initial_max_streams_bidi tp\<rparr>
      else if pid = TP_INITIAL_MAX_STREAMS_UNI then t\<lparr>initial_max_streams_uni := initial_max_streams_uni tp\<rparr>
      else if pid = TP_ACTIVE_CONNECTION_ID_LIMIT then t\<lparr>active_connection_id_limit := active_connection_id_limit tp\<rparr>
      else if pid = TP_INITIAL_SOURCE_CONNECTION_ID then t\<lparr>initial_src_cid := initial_src_cid tp\<rparr>
      else t)"

lemma tp_apply_body:
  assumes wf: "tp_wf tp" and pid: "pid \<in> set (SAFARI_TP_ORDER @ SERVER_TP_ORDER)"
  shows "tp_apply t pid (tp_body tp pid) = Inr (tp_copy tp t pid)"
proof -
  note r = read_varint_body_encode read_max_streams_encode
  have w: "initial_max_data tp \<le> VARINT_MAX" "initial_max_stream_data_bidi_local tp \<le> VARINT_MAX"
    "initial_max_stream_data_bidi_remote tp \<le> VARINT_MAX" "initial_max_stream_data_uni tp \<le> VARINT_MAX"
    "initial_max_streams_bidi tp \<le> MAX_STREAMS_LIMIT" "initial_max_streams_uni tp \<le> MAX_STREAMS_LIMIT"
    "\<not> active_connection_id_limit tp < MIN_ACTIVE_CONNECTION_ID_LIMIT" "active_connection_id_limit tp \<le> VARINT_MAX"
    "\<not> TP_MAX_CONNECTION_ID_LEN < length (initial_src_cid tp)"
    using wf by (auto simp: tp_wf_def MIN_ACTIVE_CONNECTION_ID_LIMIT_def TP_MAX_CONNECTION_ID_LEN_def)
  have "pid \<in> {TP_MAX_IDLE_TIMEOUT, TP_INITIAL_MAX_DATA, TP_INITIAL_MAX_STREAM_DATA_BIDI_LOCAL,
      TP_INITIAL_MAX_STREAM_DATA_BIDI_REMOTE, TP_INITIAL_MAX_STREAM_DATA_UNI, TP_INITIAL_MAX_STREAMS_BIDI,
      TP_INITIAL_MAX_STREAMS_UNI, TP_ACTIVE_CONNECTION_ID_LIMIT, TP_INITIAL_SOURCE_CONNECTION_ID}"
    using pid by (auto simp: SAFARI_TP_ORDER_def SERVER_TP_ORDER_def)
  then show ?thesis
    unfolding tp_apply_def tp_body_def tp_copy_def
    by (elim insertE) (simp_all add: tp_ids r w)
qed

lemma tp_fold_copy:
  assumes "tp_wf tp" and "set ids \<subseteq> set (SAFARI_TP_ORDER @ SERVER_TP_ORDER)"
  shows "foldl (\<lambda>r pid. and_then r (\<lambda>t. tp_apply t pid (tp_body tp pid))) (Inr t) ids = Inr (foldl (tp_copy tp) t ids)"
  using assms(2)
proof (induction ids arbitrary: t)
  case (Cons pid ids)
  then show ?case
    using tp_apply_body [OF assms(1), of pid t] by auto
qed simp

lemma rotation_cases:
  "rotate start [a, b, c, d, e, f, g, h] \<in>
     {[a, b, c, d, e, f, g, h], [b, c, d, e, f, g, h, a], [c, d, e, f, g, h, a, b], [d, e, f, g, h, a, b, c],
      [e, f, g, h, a, b, c, d], [f, g, h, a, b, c, d, e], [g, h, a, b, c, d, e, f], [h, a, b, c, d, e, f, g]}"
proof (induction start)
  case (Suc start)
  then show ?case
    by (elim insertE emptyE)
      (simp_all only: rotate_Suc rotate1.simps append.simps insert_iff refl simp_thms)
qed simp

lemma server_copy:
  assumes "ack_delay_exponent tp = DEFAULT_ACK_DELAY_EXPONENT" and "max_ack_delay_ms tp = DEFAULT_MAX_ACK_DELAY_MS"
  shows "foldl (tp_copy tp) tp_default SERVER_TP_ORDER = tp"
  using assms by (cases tp) (simp add: SERVER_TP_ORDER_def tp_copy_def tp_ids tp_default_def)

lemma safari_copy:
  assumes "initial_max_streams_bidi tp = 0"
    and "ack_delay_exponent tp = DEFAULT_ACK_DELAY_EXPONENT" and "max_ack_delay_ms tp = DEFAULT_MAX_ACK_DELAY_MS"
  shows "foldl (tp_copy tp) tp_default (rotate start SAFARI_TP_ORDER) = tp"
  using rotation_cases [of start TP_MAX_IDLE_TIMEOUT TP_INITIAL_MAX_DATA TP_INITIAL_MAX_STREAM_DATA_BIDI_LOCAL
      TP_INITIAL_MAX_STREAM_DATA_BIDI_REMOTE TP_INITIAL_MAX_STREAM_DATA_UNI TP_INITIAL_MAX_STREAMS_UNI
      TP_ACTIVE_CONNECTION_ID_LIMIT TP_INITIAL_SOURCE_CONNECTION_ID] assms
  unfolding SAFARI_TP_ORDER_def
  by (elim insertE emptyE; cases tp) (simp_all add: tp_copy_def tp_ids tp_default_def)

text \<open>C36. What an endpoint advertises is what its peer enforces: the blob of the server's encoder, and the blob of the
  client's encoder from every rotation, parse back to the parameters they were made from, for all well-formed values of
  the fields an encoder writes (the fields it omits having their defaults).\<close>

theorem transport_params_roundtrip:
  assumes "tp_wf tp" and "ack_delay_exponent tp = DEFAULT_ACK_DELAY_EXPONENT"
    and "max_ack_delay_ms tp = DEFAULT_MAX_ACK_DELAY_MS"
  shows "tp_read (encode_server tp) = Inr tp \<and>
    (initial_max_streams_bidi tp = 0 \<longrightarrow> tp_read (encode_safari_client_from tp start) = Inr tp \<and>
       tp_read (encode_safari_client tp draw) = Inr tp)"
proof -
  have "tp_read (encode_server tp) = Inr tp"
    unfolding encode_server_wire
    by (subst tp_read_list [OF assms(1)])
      (simp_all add: tp_fold_copy [OF assms(1)] server_copy assms(2,3) ids_le, simp_all add: SERVER_TP_ORDER_def tp_ids)
  moreover have "tp_read (encode_safari_client_from tp n) = Inr tp" if "initial_max_streams_bidi tp = 0" for n
  proof -
    have "distinct (rotate n SAFARI_TP_ORDER)"
      by (simp add: SAFARI_TP_ORDER_def tp_ids)
    then show ?thesis
      unfolding encode_safari_client_wire
      by (subst tp_read_list [OF assms(1)])
        (simp_all add: tp_fold_copy [OF assms(1)] safari_copy that assms(2,3) ids_le)
  qed
  ultimately show ?thesis
    by (simp add: encode_safari_client_def)
qed

theorem transport_params_roundtrip_witness:
  "tp_read (encode_server (server_params [1, 2, 3])) = Inr (server_params [1, 2, 3]) \<and>
   tp_read (encode_safari_client_from (safari_client []) 5) = Inr (safari_client [])"
  using transport_params_roundtrip [of "server_params [1, 2, 3]" 0 "(0, 0)"]
    transport_params_roundtrip [of "safari_client []" 5 "(0, 0)"]
  by (simp add: tp_wf_def server_params_def safari_client_def tp_consts VARINT_MAX_eq)

theorem transport_params_typed_witness: "tp_wf (server_params [1, 2, 3])"
proof (rule transport_params_typed)
  show "tp_read (encode_server (server_params [1, 2, 3])) = Inr (server_params [1, 2, 3])"
    unfolding encode_server_wire
    by (subst tp_read_list)
      (simp_all add: tp_fold_copy server_copy ids_le tp_wf_def server_params_def tp_consts VARINT_MAX_eq,
       simp_all add: SERVER_TP_ORDER_def tp_ids)
qed

text \<open>A rotation start is drawn with exactly its measured weight.\<close>

lemma rotation_weights:
  "map (\<lambda>s. length (filter (\<lambda>d. rotation_start_for d = s) [0..<sum_list SAFARI_TP_ROTATION_WEIGHTS])) [0..<8] =
     SAFARI_TP_ROTATION_WEIGHTS"
  by code_simp

end
