(* ===== verification/Pq_Rekey.thy ===== *)
theory Pq_Rekey
  imports Session
begin

text \<open>
  The inputs of the post-quantum rekey: the transcript hash (\<open>handshake/transcript.rs\<close>), the ML-KEM wrapper and the
  hybrid combiner (\<open>crypto/pq.rs\<close>), and the messages of the server identity (\<open>crypto/identity.rs\<close>). SHA-256 and ML-KEM
  are parameters; so is the signature, which \<open>crypto/identity.rs\<close> calls through \<open>sign\<close> and \<open>verify\<close> alone. The random
  bytes of a key pair and of an encapsulation are arguments.
\<close>

section \<open>Transcript\<close>

text \<open>\<open>(len as u32).to_be_bytes()\<close> of a byte string.\<close>

definition u32_len :: "bytes \<Rightarrow> bytes" where
  "u32_len bs = be_bytes 4 (of_nat (length bs) :: u32)"

definition transcript_input :: "bytes \<Rightarrow> bytes \<Rightarrow> bytes" where
  "transcript_input client_hello_record server_hello_record =
     ascii ''ParallaX v1 handshake transcript'' @ u32_len client_hello_record @ client_hello_record @
     u32_len server_hello_record @ server_hello_record"

definition handshake_transcript_hash :: "(bytes \<Rightarrow> bytes) \<Rightarrow> bytes \<Rightarrow> bytes \<Rightarrow> bytes" where
  "handshake_transcript_hash sha client_hello_record server_hello_record =
     sha (transcript_input client_hello_record server_hello_record)"

section \<open>ML-KEM\<close>

text \<open>\<open>k_pair seed\<close> is a generated key pair, encapsulation key first; \<open>k_public_ok\<close> and \<open>k_secret_ok\<close> are the
  constructors of the two key types on serialised keys; \<open>k_encap coins public\<close> gives ciphertext and shared secret.\<close>

record kem =
  k_pair :: "bytes \<Rightarrow> bytes \<times> bytes"
  k_public_ok :: "bytes \<Rightarrow> bool"
  k_secret_ok :: "bytes \<Rightarrow> bool"
  k_encap :: "bytes \<Rightarrow> bytes \<Rightarrow> (bytes \<times> bytes) option"
  k_decap :: "bytes \<Rightarrow> bytes \<Rightarrow> bytes option"

datatype pq_error =
    PqInvalidPublicKey | PqInvalidSecretKey | PqInvalidCiphertext | PqHkdf | PqDegenerateSharedSecret

record mlkem_key_pair =
  mk_public :: bytes
  mk_secret :: bytes

record mlkem_encapsulation =
  me_ciphertext :: bytes
  me_shared_secret :: bytes

definition public_key_bytes :: nat where "public_key_bytes = 1568"
definition secret_key_bytes :: nat where "secret_key_bytes = 3168"
definition ciphertext_bytes :: nat where "ciphertext_bytes = 1568"

definition shared_secret_32 :: "bytes \<Rightarrow> pq_error + bytes" where
  "shared_secret_32 s = (if length s \<noteq> 32 then Inl PqInvalidCiphertext else Inr s)"

definition mlkem_keypair :: "kem \<Rightarrow> bytes \<Rightarrow> mlkem_key_pair" where
  "mlkem_keypair K seed = (case k_pair K seed of (pk, sk) \<Rightarrow> \<lparr>mk_public = pk, mk_secret = sk\<rparr>)"

definition encapsulate :: "kem \<Rightarrow> bytes \<Rightarrow> bytes \<Rightarrow> pq_error + mlkem_encapsulation" where
  "encapsulate K coins public_key =
     (if \<not> k_public_ok K public_key then Inl PqInvalidPublicKey
      else
        and_then (ok_or (k_encap K coins public_key) PqInvalidPublicKey) (\<lambda>(ciphertext, shared).
        and_then (shared_secret_32 shared) (\<lambda>s. Inr \<lparr>me_ciphertext = ciphertext, me_shared_secret = s\<rparr>)))"

definition decapsulate :: "kem \<Rightarrow> bytes \<Rightarrow> bytes \<Rightarrow> pq_error + bytes" where
  "decapsulate K ciphertext secret_key =
     (if \<not> k_secret_ok K secret_key then Inl PqInvalidSecretKey
      else and_then (ok_or (k_decap K secret_key ciphertext) PqInvalidCiphertext) shared_secret_32)"

text \<open>The documented behaviour of the KEM: generated keys serialise to the FIPS 203 lengths and are accepted, and
  decapsulation recovers the secret of an encapsulation to the same pair.\<close>

definition kem_correct :: "kem \<Rightarrow> bool" where
  "kem_correct K \<longleftrightarrow> (\<forall>seed coins pk sk. k_pair K seed = (pk, sk) \<longrightarrow>
     length pk = public_key_bytes \<and> length sk = secret_key_bytes \<and> k_public_ok K pk \<and> k_secret_ok K sk \<and>
     (\<exists>ct s. k_encap K coins pk = Some (ct, s) \<and> length ct = ciphertext_bytes \<and> length s = 32 \<and>
        k_decap K sk ct = Some s))"

section \<open>The hybrid combiner\<close>

definition HYBRID_REKEY_IKM_FIXED_LEN :: nat where "HYBRID_REKEY_IKM_FIXED_LEN = 7 + 32 + 11 + 32 + 5 + 4"
definition HYBRID_REKEY_IKM_STACK_LEN :: nat where "HYBRID_REKEY_IKM_STACK_LEN = 128"

text \<open>The writer into the stack array; \<open>None\<close> is the panic of a write that does not fit.\<close>

definition write_hybrid_rekey_ikm :: "bytes \<Rightarrow> bytes \<Rightarrow> bytes \<Rightarrow> bytes \<Rightarrow> (bytes \<times> nat) option" where
  "write_hybrid_rekey_ikm out x25519_shared pq_shared symmetric =
     write_all [ascii ''x25519:'', x25519_shared, ascii ''|mlkem1024:'', pq_shared, ascii ''|psk:'',
       u32_len symmetric, symmetric] (out, 0)"

definition write_hybrid_rekey_ikm_vec :: "bytes \<Rightarrow> bytes \<Rightarrow> bytes \<Rightarrow> bytes \<Rightarrow> bytes" where
  "write_hybrid_rekey_ikm_vec out x25519_shared pq_shared symmetric =
     out @ ascii ''x25519:'' @ x25519_shared @ ascii ''|mlkem1024:'' @ pq_shared @ ascii ''|psk:'' @
     u32_len symmetric @ symmetric"

definition hybrid_sandwich_rekey ::
  "hkdf \<Rightarrow> bytes \<Rightarrow> bytes \<Rightarrow> bytes \<Rightarrow> bytes \<Rightarrow> (pq_error + bytes) option" where
  "hybrid_sandwich_rekey H old_chain x25519_shared pq_shared symmetric =
     (if x25519_shared = replicate 32 0 then Some (Inl PqDegenerateSharedSecret)
      else
        let ikm_len = HYBRID_REKEY_IKM_FIXED_LEN + length symmetric
        in if ikm_len \<le> HYBRID_REKEY_IKM_STACK_LEN then
             (case write_hybrid_rekey_ikm (replicate HYBRID_REKEY_IKM_STACK_LEN 0) x25519_shared pq_shared symmetric of
                None \<Rightarrow> None
              | Some (ikm, used) \<Rightarrow> Some (Inr (h_extract H old_chain (take used ikm))))
           else Some (Inr (h_extract H old_chain (write_hybrid_rekey_ikm_vec [] x25519_shared pq_shared symmetric))))"

definition hybrid_rekey :: "hkdf \<Rightarrow> bytes \<Rightarrow> bytes \<Rightarrow> bytes \<Rightarrow> (pq_error + bytes) option" where
  "hybrid_rekey H old_chain x25519_shared pq_shared = hybrid_sandwich_rekey H old_chain x25519_shared pq_shared []"

section \<open>The server identity\<close>

datatype mldsa_error =
    InvalidPublicKeyLen | InvalidSecretKeyLen | InvalidSignatureLen | ContextTooLong | MlDsaVerificationFailed

datatype identity_error = IdInvalidPublicKey | IdInvalidSecretKey | IdInvalidSignature | IdVerificationFailed

fun identity_error_from :: "mldsa_error \<Rightarrow> identity_error" where
  "identity_error_from InvalidPublicKeyLen = IdInvalidPublicKey"
| "identity_error_from InvalidSecretKeyLen = IdInvalidSecretKey"
| "identity_error_from InvalidSignatureLen = IdInvalidSignature"
| "identity_error_from ContextTooLong = IdInvalidSignature"
| "identity_error_from MlDsaVerificationFailed = IdVerificationFailed"

text \<open>\<open>sg_sign secret message context\<close> and \<open>sg_verify public signature message context\<close>.\<close>

record signature_scheme =
  sg_sign :: "bytes \<Rightarrow> bytes \<Rightarrow> bytes \<Rightarrow> mldsa_error + bytes"
  sg_verify :: "bytes \<Rightarrow> bytes \<Rightarrow> bytes \<Rightarrow> bytes \<Rightarrow> mldsa_error + unit"

definition IDENTITY_CONTEXT :: bytes where "IDENTITY_CONTEXT = ascii ''ParallaX v2 ML-DSA-87 server identity''"
definition IDENTITY_MESSAGE_LABEL :: bytes where "IDENTITY_MESSAGE_LABEL = ascii ''ParallaX v2 server identity proof''"
definition PQ_REKEY_BINDING_LABEL :: bytes where "PQ_REKEY_BINDING_LABEL = ascii ''ParallaX v1 PQ rekey identity binding''"

definition identity_message :: "bytes \<Rightarrow> bytes \<Rightarrow> bytes \<Rightarrow> u64 \<Rightarrow> bytes" where
  "identity_message th server_x25519_public_key binding ep =
     IDENTITY_MESSAGE_LABEL @ be_bytes 8 ep @ th @ server_x25519_public_key @ binding"

definition binding_input :: "bytes \<Rightarrow> bytes \<Rightarrow> bytes" where
  "binding_input client_pq_rekey_request server_key_exchange =
     PQ_REKEY_BINDING_LABEL @ u32_len client_pq_rekey_request @ client_pq_rekey_request @
     u32_len server_key_exchange @ server_key_exchange"

definition pq_rekey_binding :: "(bytes \<Rightarrow> bytes) \<Rightarrow> bytes \<Rightarrow> bytes \<Rightarrow> bytes" where
  "pq_rekey_binding sha client_pq_rekey_request server_key_exchange =
     sha (binding_input client_pq_rekey_request server_key_exchange)"

definition sign_server_identity ::
  "signature_scheme \<Rightarrow> bytes \<Rightarrow> bytes \<Rightarrow> bytes \<Rightarrow> bytes \<Rightarrow> u64 \<Rightarrow> identity_error + bytes" where
  "sign_server_identity S secret_key th server_x25519_public_key binding ep =
     map_err identity_error_from
       (sg_sign S secret_key (identity_message th server_x25519_public_key binding ep) IDENTITY_CONTEXT)"

definition verify_server_identity ::
  "signature_scheme \<Rightarrow> bytes \<Rightarrow> bytes \<Rightarrow> bytes \<Rightarrow> bytes \<Rightarrow> bytes \<Rightarrow> u64 \<Rightarrow> identity_error + unit" where
  "verify_server_identity S public_key sig th server_x25519_public_key binding ep =
     map_err identity_error_from
       (sg_verify S public_key sig (identity_message th server_x25519_public_key binding ep) IDENTITY_CONTEXT)"

text \<open>What the handshake relies on of a key pair of the signature (FIPS 204, ML-DSA-87): signing under a context of at
  most 255 bytes returns a signature of 4627 bytes that verifies.\<close>

definition signature_correct :: "signature_scheme \<Rightarrow> bytes \<Rightarrow> bytes \<Rightarrow> bool" where
  "signature_correct S public_key secret_key \<longleftrightarrow> (\<forall>message context. length context \<le> 255 \<longrightarrow>
     (\<exists>sig. sg_sign S secret_key message context = Inr sig \<and> length sig = 4627 \<and>
        sg_verify S public_key sig message context = Inr ()))"

section \<open>Lemmas\<close>

lemma length_u32_len [simp]: "length (u32_len bs) = 4"
  by (simp add: u32_len_def)

lemma u32_len_inject:
  assumes "length a < 2 ^ 32" and "length b < 2 ^ 32" and "u32_len a = u32_len b"
  shows "length a = length b"
proof -
  have "(of_nat (length a) :: u32) = of_nat (length b)"
    by (rule be_bytes_inject [of 4]) (use assms(3) in \<open>simp_all add: u32_len_def\<close>)
  then show ?thesis
    using unat_of_nat_u32 [OF assms(1)] unat_of_nat_u32 [OF assms(2)] by metis
qed

text \<open>A length-prefixed field in front of anything is determined by the bytes.\<close>

lemma prefixed_inject:
  assumes "length a < 2 ^ 32" and "length b < 2 ^ 32" and "u32_len a @ a @ x = u32_len b @ b @ y"
  shows "a = b \<and> x = y"
proof -
  have "u32_len a = u32_len b" and r: "a @ x = b @ y"
    using assms(3) by (simp_all add: append_eq_append_conv)
  then have "length a = length b"
    using u32_len_inject assms(1,2) by blast
  then show ?thesis
    using r by (simp add: append_eq_append_conv)
qed

lemma two_prefixed_inject:
  assumes "length a < 2 ^ 32" and "length b < 2 ^ 32" and "length a' < 2 ^ 32" and "length b' < 2 ^ 32"
    and "u32_len a @ a @ u32_len b @ b = u32_len a' @ a' @ u32_len b' @ b'"
  shows "a = a' \<and> b = b'"
  using prefixed_inject [OF assms(1,3,5)] prefixed_inject [OF assms(2,4), of "[]" "[]"] by simp

text \<open>Both writers build the same bytes, and the guard keeps the stack array from overflowing.\<close>

lemma hybrid_sandwich_rekey_eq:
  assumes "length x = 32" and "length q = 32"
  shows "hybrid_sandwich_rekey H old x q psk = Some (if x = replicate 32 0 then Inl PqDegenerateSharedSecret
    else Inr (h_extract H old (write_hybrid_rekey_ikm_vec [] x q psk)))"
  using write_all_fresh [of "[ascii ''x25519:'', x, ascii ''|mlkem1024:'', q, ascii ''|psk:'', u32_len psk, psk]"
      HYBRID_REKEY_IKM_STACK_LEN] assms
  by (auto simp: hybrid_sandwich_rekey_def write_hybrid_rekey_ikm_def write_hybrid_rekey_ikm_vec_def Let_def
      HYBRID_REKEY_IKM_FIXED_LEN_def algebra_simps)

lemma ikm_inject:
  assumes "length x = 32" and "length q = 32" and "length x' = 32" and "length q' = 32"
    and "length psk < 2 ^ 32" and "length psk' < 2 ^ 32"
    and "write_hybrid_rekey_ikm_vec [] x q psk = write_hybrid_rekey_ikm_vec [] x' q' psk'"
  shows "x = x' \<and> q = q' \<and> psk = psk'"
  using assms(7) prefixed_inject [OF assms(5,6), of "[]" "[]"] assms(1-4)
  by (simp add: write_hybrid_rekey_ikm_vec_def append_eq_append_conv)

text \<open>C37. The hybrid combiner never panics and does not depend on where it builds its input: for 32-byte secrets and every
  pre-shared secret, the branch with the 128-byte stack array and the branch with the heap buffer extract from the same
  bytes, an all-zero X25519 secret is refused, and the bytes determine all three secrets.\<close>

theorem hybrid_rekey_paths_agree:
  assumes "length x = 32" and "length q = 32" and "length x' = 32" and "length q' = 32"
    and "length psk < 2 ^ 32" and "length psk' < 2 ^ 32"
  shows "hybrid_sandwich_rekey H old x q psk = Some (if x = replicate 32 0 then Inl PqDegenerateSharedSecret
      else Inr (h_extract H old (write_hybrid_rekey_ikm_vec [] x q psk))) \<and>
    (write_hybrid_rekey_ikm_vec [] x q psk = write_hybrid_rekey_ikm_vec [] x' q' psk' \<longleftrightarrow> x = x' \<and> q = q' \<and> psk = psk')"
  using hybrid_sandwich_rekey_eq [OF assms(1,2)] ikm_inject [OF assms] by blast

theorem hybrid_rekey_paths_agree_witness:
  "hybrid_sandwich_rekey const_hkdf [] (replicate 32 2) (replicate 32 3) (replicate 40 7) = Some (Inr (replicate 32 1)) \<and>
   write_hybrid_rekey_ikm_vec [] (replicate 32 2) (replicate 32 3) [] \<noteq>
   write_hybrid_rekey_ikm_vec [] (replicate 32 2) (replicate 32 3) [0]"
proof -
  have "(replicate 32 2 :: bytes) \<noteq> replicate 32 0"
    by simp
  then show ?thesis
    using hybrid_rekey_paths_agree [of "replicate 32 2" "replicate 32 3" "replicate 32 2" "replicate 32 3"
        "replicate 40 7" "[]" const_hkdf "[]"]
      hybrid_rekey_paths_agree [of "replicate 32 2" "replicate 32 3" "replicate 32 2" "replicate 32 3"
        "[]" "[0]" const_hkdf "[]"]
    by (simp add: const_hkdf_def)
qed

text \<open>C38. What the identity signature covers is determined by the signed bytes: the hash inputs of the transcript and of
  the rekey binding determine both of their messages and never coincide with each other, and the signed message
  determines epoch, transcript hash, server key and binding.\<close>

theorem identity_inputs_injective:
  assumes "length c < 2 ^ 32" and "length s < 2 ^ 32" and "length c' < 2 ^ 32" and "length s' < 2 ^ 32"
    and "length th = 32" and "length th' = 32" and "length x = 32" and "length x' = 32"
  shows "(transcript_input c s = transcript_input c' s' \<longleftrightarrow> c = c' \<and> s = s') \<and>
    (binding_input c s = binding_input c' s' \<longleftrightarrow> c = c' \<and> s = s') \<and>
    transcript_input c s \<noteq> binding_input c' s' \<and>
    (identity_message th x b e = identity_message th' x' b' e' \<longleftrightarrow> th = th' \<and> x = x' \<and> b = b' \<and> e = e')"
proof (intro conjI)
  show "transcript_input c s = transcript_input c' s' \<longleftrightarrow> c = c' \<and> s = s'"
    using two_prefixed_inject [OF assms(1-4)] by (auto simp: transcript_input_def)
  show "binding_input c s = binding_input c' s' \<longleftrightarrow> c = c' \<and> s = s'"
    using two_prefixed_inject [OF assms(1-4)] by (auto simp: binding_input_def)
  show "transcript_input c s \<noteq> binding_input c' s'"
    by (simp add: transcript_input_def binding_input_def PQ_REKEY_BINDING_LABEL_def ascii_def)
  have "e = e'" if "be_bytes 8 e = be_bytes 8 e'"
    by (rule be_bytes_inject [of 8]) (use that in simp_all)
  then show "identity_message th x b e = identity_message th' x' b' e' \<longleftrightarrow> th = th' \<and> x = x' \<and> b = b' \<and> e = e'"
    using assms(5-8) by (auto simp: identity_message_def append_eq_append_conv)
qed

theorem identity_inputs_injective_witness:
  "transcript_input [1, 2] [3] \<noteq> transcript_input [1] [2, 3] \<and>
   identity_message (replicate 32 1) (replicate 32 2) [] 41 \<noteq> identity_message (replicate 32 1) (replicate 32 2) [] 42"
  using identity_inputs_injective [of "[1, 2]" "[3]" "[1]" "[2, 3]" "replicate 32 1" "replicate 32 1" "replicate 32 2"
      "replicate 32 2" "[]" 41 "[]" 42]
  by simp

text \<open>Encapsulation to a generated pair, and its inverse.\<close>

lemma kem_roundtrip:
  assumes "kem_correct K"
  obtains ct s where "encapsulate K coins (mk_public (mlkem_keypair K seed)) = Inr \<lparr>me_ciphertext = ct, me_shared_secret = s\<rparr>"
    "decapsulate K ct (mk_secret (mlkem_keypair K seed)) = Inr s" "length s = 32" "length ct = ciphertext_bytes"
    "length (mk_public (mlkem_keypair K seed)) = public_key_bytes"
proof -
  obtain pk sk where p: "k_pair K seed = (pk, sk)"
    by (cases "k_pair K seed")
  with assms obtain ct s where "length pk = public_key_bytes" "k_public_ok K pk" "k_secret_ok K sk"
    "k_encap K coins pk = Some (ct, s)" "length ct = ciphertext_bytes" "length s = 32" "k_decap K sk ct = Some s"
    unfolding kem_correct_def by metis
  then show ?thesis
    using p by (intro that [of ct s]) (simp_all add: mlkem_keypair_def encapsulate_def decapsulate_def shared_secret_32_def)
qed

lemma identity_roundtrip:
  assumes "signature_correct S pk sk"
  obtains sig where "sign_server_identity S sk th x b e = Inr sig" "length sig = 4627"
    "verify_server_identity S pk sig th x b e = Inr ()"
proof -
  have "length IDENTITY_CONTEXT \<le> 255"
    by (simp add: IDENTITY_CONTEXT_def)
  then show ?thesis
    using assms that unfolding signature_correct_def sign_server_identity_def verify_server_identity_def
    by (metis map_err_eq_Inr)
qed

end
