(* ===== verification/Record_Stream.thy ===== *)
theory Record_Stream
  imports Data_Record
begin

text \<open>
  Sealed records on a byte stream: what the record reader cuts out of a stream that carries sealed records, what each
  way of opening returns for one of them, and when sealing a flight of chunks succeeds. Client and server compose these
  facts into the handshake.
\<close>

section \<open>Records of a stream\<close>

lemma wire_record_parse:
  assumes "aead_correct A" and "wire_record A c aad sq payload rec"
  obtains h p where "parse_exact (rec @ rest) = Inr (h, p)" "total_len h = length rec"
proof -
  obtain h padded where v: "\<forall>pre rest. validate_record_header (pre @ rec @ rest) (length pre) = Inr h"
    and t: "total_len h = length rec"
    using wire_record_opens [OF assms] by metis
  have "parse_header (rec @ rest) = Inr h"
    using validate_record_header_Inr(1) [OF v [rule_format, of "[]" rest]] by simp
  then show ?thesis
    using that t by (simp add: parse_exact_Inr)
qed

lemma split_records_wire:
  assumes "aead_correct A"
  shows "wire A c aad sq ps recs \<Longrightarrow> split_records (concat recs @ rest) = recs @ split_records rest"
proof (induction ps arbitrary: sq recs)
  case Nil
  then show ?case by (cases recs) simp_all
next
  case (Cons p ps)
  then obtain rec recs' where r: "recs = rec # recs'" "wire_record A c aad sq p rec" "wire A c aad (sq + 1) ps recs'"
    by (cases recs) simp_all
  obtain h q where "parse_exact (rec @ concat recs' @ rest) = Inr (h, q)" "total_len h = length rec"
    by (rule wire_record_parse [OF assms r(2)])
  then show ?case
    using split_records_Inr [of "rec @ concat recs' @ rest" h q] Cons.IH [OF r(3)] r(1) by simp
qed

lemma parse_exact_append:
  assumes "parse_exact inp = Inr (h, p)"
  shows "parse_exact (inp @ rest) = Inr (h, p)"
proof -
  have h: "parse_header inp = Inr h" "total_len h \<le> length inp" "p = take (payload_len h) (drop TLS_HEADER_LEN inp)"
    using assms by (simp_all add: parse_exact_Inr)
  note len = parse_header_Inr [OF h(1)]
  obtain x y where xy: "inp = x @ y" "length x = TLS_HEADER_LEN"
    using len by (metis append_take_drop_id length_take min.absorb2)
  have "parse_header x = Inr h" "payload_len h \<le> length y"
    using h(1,2) len parse_header_append [OF xy(2), of y] xy by simp_all
  then show ?thesis
    using h(3) len xy(2) parse_header_append [OF xy(2), of "y @ rest"] unfolding xy(1) by (simp add: parse_exact_Inr)
qed

text \<open>A stream that ends at a record boundary: what follows is split on its own.\<close>

lemma split_records_append:
  "concat (split_records a) = a \<Longrightarrow> split_records (a @ b) = split_records a @ split_records b"
proof (induction a rule: split_records.induct)
  case (1 a)
  show ?case
  proof (cases "parse_exact a")
    case (Inl e)
    then show ?thesis
      using 1 split_records_Inl [OF Inl] by (metis append_Nil concat.simps(1))
  next
    case (Inr hp)
    obtain h p where hp: "hp = (h, p)" by (cases hp)
    note P = Inr [unfolded hp]
    have le: "total_len h \<le> length a"
      using P by (simp add: parse_exact_Inr)
    have "take (total_len h) a @ concat (split_records (drop (total_len h) a)) = a"
      using 1(2) split_records_Inr [OF P] by simp
    then have "concat (split_records (drop (total_len h) a)) = drop (total_len h) a"
      by (metis append_take_drop_id same_append_eq)
    then have "split_records (drop (total_len h) a @ b) = split_records (drop (total_len h) a) @ split_records b"
      using 1(1) [OF Inr hp [symmetric]] by simp
    then show ?thesis
      using split_records_Inr [OF P] split_records_Inr [OF parse_exact_append [OF P], of b] le by simp
  qed
qed

lemma split_records_whole:
  "rec \<in> set (split_records inp) \<Longrightarrow> \<exists>h. parse_header rec = Inr h \<and> total_len h = length rec"
proof (induction inp rule: split_records.induct)
  case (1 inp)
  show ?case
  proof (cases "parse_exact inp")
    case (Inl e)
    then show ?thesis
      using 1(2) split_records_Inl by simp
  next
    case (Inr hp)
    obtain h p where hp: "hp = (h, p)" by (cases hp)
    note P = Inr [unfolded hp]
    have h: "parse_header inp = Inr h" "total_len h \<le> length inp"
      using P by (simp_all add: parse_exact_Inr)
    note len = parse_header_Inr [OF h(1)]
    obtain x y where xy: "inp = x @ y" "length x = TLS_HEADER_LEN"
      using len by (metis append_take_drop_id length_take min.absorb2)
    have "take (total_len h) inp = x @ take (payload_len h) y"
      using len xy by simp
    then have "parse_header (take (total_len h) inp) = Inr h"
      using h(1) parse_header_append [OF xy(2)] unfolding xy(1) by metis
    then have "\<exists>h'. parse_header (take (total_len h) inp) = Inr h' \<and> total_len h' = length (take (total_len h) inp)"
      using h(2) by simp
    then show ?thesis
      using 1(2) 1(1) [OF Inr hp [symmetric]] split_records_Inr [OF P] by auto
  qed
qed

section \<open>Opening one record\<close>

lemma wire_record_open:
  assumes "aead_correct A" and "\<not> poisoned (ac_records (dc_aead dc))"
    and "wire_record A (dc_aead dc) (dc_aad dc) (codec_sequence (dc_aead dc)) payload rec"
  shows "data_open A rec dc = (Inr payload, dc_next 1 dc)"
    and "open_in_place_payload_range A rec dc =
      (Inr (TLS_HEADER_LEN, TLS_HEADER_LEN + length payload), dc_next 1 dc, take TLS_HEADER_LEN rec @ payload)"
    and "data_open_in_place A rec dc = (Inr (), dc_next 1 dc, payload)"
proof -
  obtain h padded where v: "\<forall>pre rest. validate_record_header (pre @ rec @ rest) (length pre) = Inr h"
    and t: "total_len h = length rec"
    and o: "open_in_place_split_with A (ac_suite (dc_aead dc)) (ac_key (dc_aead dc)) (ac_nonce_base (dc_aead dc))
        (codec_sequence (dc_aead dc)) (drop TLS_HEADER_LEN rec) (dc_aad dc) = Inr padded"
    and u: "unpadded_len padded = Inr (length payload)" "take (length payload) padded = payload"
    and sq: "codec_sequence (dc_aead dc) \<noteq> - 1"
    by (rule wire_record_opens [OF assms(1,3)]) blast
  have V: "validate_record_header rec 0 = Inr h"
    using v [rule_format, of "[]" "[]"] by simp
  have l: "TLS_HEADER_LEN \<le> length rec"
    using validate_record_header_Inr(4) [OF V] t by simp
  have O: "open_in_place_split A (drop TLS_HEADER_LEN rec) (dc_aad dc) (dc_aead dc) = (Inr padded, dc_aead (dc_next 1 dc))"
    using open_split_next [OF assms(2) o] sq by simp
  show "data_open A rec dc = (Inr payload, dc_next 1 dc)"
    using V O u t by (simp add: data_open_def remove_in_place_def)
  show R: "open_in_place_payload_range A rec dc =
      (Inr (TLS_HEADER_LEN, TLS_HEADER_LEN + length payload), dc_next 1 dc, take TLS_HEADER_LEN rec @ payload)"
    using V O u t by (simp add: open_in_place_payload_range_def Let_def)
  show "data_open_in_place A rec dc = (Inr (), dc_next 1 dc, payload)"
    using l by (simp add: data_open_in_place_def R)
qed

text \<open>A record that is not ours: a failure to authenticate leaves the codec, and the length of the buffer.\<close>

definition residual_error :: "data_record_error \<Rightarrow> bool" where
  "residual_error e \<longleftrightarrow> (case e of DrAead _ \<Rightarrow> True | NotApplicationData \<Rightarrow> True | _ \<Rightarrow> False)"

lemma residual_open:
  assumes "data_open A rec dc = (Inl e, dc')" and "residual_error e" and "parse_header rec = Inr h" and "total_len h = length rec"
  shows "dc' = dc" and "\<exists>rec'. open_in_place_payload_range A rec dc = (Inl e, dc, rec') \<and> length rec' = length rec"
proof -
  have "dc' = dc \<and> (\<exists>rec'. open_in_place_payload_range A rec dc = (Inl e, dc, rec') \<and> length rec' = length rec)"
  proof (cases "validate_record_header rec 0")
    case (Inl e')
    then show ?thesis
      using assms(1) by (simp add: data_open_def open_in_place_payload_range_def)
  next
    case (Inr h')
    have h': "h' = h"
      using validate_record_header_Inr(1) [OF Inr] assms(3) by simp
    have z: "length (take TLS_HEADER_LEN rec @ replicate (payload_len h) 0) = length rec"
      using validate_record_header_Inr(4,6) [OF Inr] assms(4) by (simp add: h')
    obtain r c' where o: "open_in_place_split A (drop TLS_HEADER_LEN (take (total_len h) rec)) (dc_aad dc) (dc_aead dc) = (r, c')"
      by (cases "open_in_place_split A (drop TLS_HEADER_LEN (take (total_len h) rec)) (dc_aad dc) (dc_aead dc)")
    show ?thesis
    proof (cases r)
      case (Inl s)
      then have "c' = dc_aead dc"
        using o by (auto simp: open_in_place_split_def split: sum.splits)
      then show ?thesis
        using Inl Inr o z assms(1) h' by (simp add: data_open_def open_in_place_payload_range_def Let_def)
    next
      case (Inr padded)
      then show ?thesis
        using \<open>validate_record_header rec 0 = Inr h'\<close> o assms(1,2) h'
        by (auto simp: data_open_def remove_in_place_def residual_error_def split: sum.splits)
    qed
  qed
  then show "dc' = dc" and "\<exists>rec'. open_in_place_payload_range A rec dc = (Inl e, dc, rec') \<and> length rec' = length rec"
    by blast+
qed

section \<open>Sealing a flight\<close>

lemma extra_suffix_length:
  assumes "rng_correct R" and "profile_ok p" and "write_extra_padded_suffix_into R p n extra r out = (out', r')"
  shows "length out' \<le> length out + pp_max p + extra + 2"
proof -
  obtain m r1 where m: "sample_padding_len R p n r = (m, r1)" by (cases "sample_padding_len R p n r")
  have b: "m \<le> pp_max p" using sample_padding_len_bounds [OF assms(1,2) m] assms(2) by (auto simp: profile_ok_def)
  let ?k = "min (min (m + extra) (usize_limit - 1)) (2 ^ 16 - 1)"
  have "?k < 2 ^ 16" by simp
  then obtain pad where "out' = out @ pad @ be_bytes 2 (of_nat ?k :: u16)" "length pad = ?k"
    using write_padding_suffix_spec [OF assms(1), of ?k r1 out out' r'] assms(3) m
    by (metis write_extra_padded_suffix_into_def case_prod_conv)
  then show ?thesis using b by simp
qed

lemma seal_into_extra_padded_ok:
  assumes "rng_correct R" and "profile_ok (dc_padding dc)" and "cipher_total A" and "ensure_seal_budget 1 dc = Inr ()"
    and "length payload + extra \<le> codec_max_plaintext_len dc" and "0 < codec_max_plaintext_len dc"
  shows "is_ok (fst (seal_into_extra_padded A R payload extra r out dc))"
proof -
  let ?out = "out @ record_prefix @ payload"
  obtain o1 r1 where o1: "write_extra_padded_suffix_into R (dc_padding dc) (length payload) extra r ?out = (o1, r1)"
    by (cases "write_extra_padded_suffix_into R (dc_padding dc) (length payload) extra r ?out")
  obtain pad where pad: "o1 = ?out @ pad @ be_bytes 2 (of_nat (length pad) :: u16)"
    using suffix_writers(2) [OF assms(1,2) o1] by blast
  let ?P = "payload @ pad @ be_bytes 2 (of_nat (length pad) :: u16)"
  have "length ?P + AEAD_TAG_LEN \<le> OUTER_TLS_RECORD_LIMIT"
    using extra_suffix_length [OF assms(1,2) o1] assms(5,6)
    by (simp add: pad codec_max_plaintext_len_def max_plaintext_len_def max_len_def PADDING_LEN_FIELD_def)
  from seal_framed_ok [OF assms(4,3) this, of out r1] show ?thesis
    using o1 assms(4) pad by (simp add: seal_into_extra_padded_def seal_record_with_suffix_def)
qed

context record_sealer
begin

lemma seal_each_total:
  assumes "rng_correct R" and "profile_ok (dc_padding dc0)" and "ensure_seal_budget n dc0 = Inr ()" and "n < 2 ^ 64"
  shows "dc = dc_next k dc0 \<Longrightarrow> k + length xs \<le> n \<Longrightarrow>
    (\<And>x r out dc. x \<in> set xs \<Longrightarrow> ensure_seal_budget 1 dc = Inr () \<Longrightarrow> dc_padding dc = dc_padding dc0 \<Longrightarrow> is_ok (fst (f x r out dc))) \<Longrightarrow>
    is_ok (fst (seal_each f xs r out dc))"
proof (induction xs arbitrary: k r out dc)
  case (Cons x xs)
  have pad: "dc_padding dc = dc_padding dc0" and b: "ensure_seal_budget 1 dc = Inr ()"
    using ensure_seal_budget_step [OF assms(3,4), of k] Cons.prems(1,2) by simp_all
  obtain rg dc1 r1 out1 where s: "f x r out dc = (Inr rg, dc1, r1, out1)"
    using Cons.prems(3) [of x dc r out] pad b by (cases "f x r out dc") (auto simp: is_ok_iff)
  have "profile_ok (dc_padding dc)"
    using pad assms(2) by simp
  then have d: "dc1 = dc_next 1 dc"
    using seals [OF assms(1) _ s] by auto
  have "is_ok (fst (seal_each f xs r1 out1 dc1))"
    by (rule Cons.IH [of dc1 "Suc k"]) (use Cons.prems d in auto)
  then show ?case
    using s by (auto simp: is_ok_iff split: prod.splits)
qed simp

lemma seal_each_all:
  assumes "rng_correct R" and "profile_ok (dc_padding dc)" and "ensure_seal_budget (length xs) dc = Inr ()" and "length xs < 2 ^ 64"
    and "\<And>x r out dc'. x \<in> set xs \<Longrightarrow> ensure_seal_budget 1 dc' = Inr () \<Longrightarrow> dc_padding dc' = dc_padding dc \<Longrightarrow> is_ok (fst (f x r out dc'))"
  obtains rgs r' recs where "seal_each f xs r out dc = (Inr rgs, dc_next (length xs) dc, r', out @ concat recs)"
    "wire A (dc_aead dc) (dc_aad dc) (codec_sequence (dc_aead dc)) (map plain xs) recs"
proof -
  obtain res dc' r' out' where s: "seal_each f xs r out dc = (res, dc', r', out')"
    by (cases "seal_each f xs r out dc")
  have ok: "is_ok res"
    using seal_each_total [OF assms(1-4), of dc 0 xs r out] assms(5) s by simp
  obtain recs where recs: "out' = out @ concat recs" "dc' = dc_next (length xs) dc"
    "wire A (dc_aead dc) (dc_aad dc) (codec_sequence (dc_aead dc)) (map plain xs) recs"
    using seal_each_wire [OF assms(1,2) s] ok by auto
  show ?thesis
    using that [of _ r' recs] s recs ok by (auto simp: is_ok_iff)
qed

end

lemma aggregate_pad_le:
  assumes "rng_correct R" and "aggregate_pad_len R r = (pad, r')"
  shows "pad \<le> PQ_FLIGHT_AGGREGATE_PAD_MAX"
proof -
  have "PQ_FLIGHT_AGGREGATE_PAD_MIN < PQ_FLIGHT_AGGREGATE_PAD_MAX + 1"
    by (simp add: PQ_FLIGHT_AGGREGATE_PAD_MIN_def PQ_FLIGHT_AGGREGATE_PAD_MAX_def)
  then show ?thesis
    using rng_rangeD [OF assms(1), of PQ_FLIGHT_AGGREGATE_PAD_MIN "PQ_FLIGHT_AGGREGATE_PAD_MAX + 1" r pad r'] assms(2)
    by (simp add: aggregate_pad_len_def)
qed

lemma flight_record_ok:
  assumes "rng_correct R" and "profile_ok (dc_padding dc)" and "cipher_total A" and "ensure_seal_budget 1 dc = Inr ()"
    and "length part + PQ_FLIGHT_AGGREGATE_PAD_MAX \<le> codec_max_plaintext_len dc" and "pad \<le> PQ_FLIGHT_AGGREGATE_PAD_MAX"
  shows "is_ok (fst (seal_flight_record A R pad lst (idx, part) r out dc))"
proof -
  have "0 < codec_max_plaintext_len dc"
    using assms(5) by (simp add: PQ_FLIGHT_AGGREGATE_PAD_MAX_def)
  then show ?thesis
    using seal_into_extra_padded_ok [OF assms(1-4), of part pad r out] seal_into_ok [OF assms(1-4), of part r out] assms(5,6)
    by (simp add: seal_flight_record_def)
qed

text \<open>Chunks that leave room for the aggregate pad are sealed, one record for each.\<close>

lemma flight_each:
  assumes "rng_correct R" and "cipher_total A" and "profile_ok (dc_padding dc)"
    and "ensure_seal_budget (length cks) dc = Inr ()" and "length cks < 2 ^ 64" and "pad \<le> PQ_FLIGHT_AGGREGATE_PAD_MAX"
    and "\<And>c. c \<in> set cks \<Longrightarrow> length c + PQ_FLIGHT_AGGREGATE_PAD_MAX \<le> codec_max_plaintext_len dc"
  obtains rgs r' recs where
    "seal_each (seal_flight_record A R pad lst) (List.enumerate i cks) r out dc =
       (Inr rgs, dc_next (length cks) dc, r', out @ concat recs)"
    "wire A (dc_aead dc) (dc_aad dc) (codec_sequence (dc_aead dc)) cks recs"
proof (rule sp.seal_each_all [OF assms(1,3), of "List.enumerate i cks" A pad lst r out])
  show "ensure_seal_budget (length (List.enumerate i cks)) dc = Inr ()" "length (List.enumerate i cks) < 2 ^ 64"
    using assms(4,5) by simp_all
next
  fix x and r :: 'a and out dc'
  assume x: "x \<in> set (List.enumerate i cks)" and b: "ensure_seal_budget 1 dc' = Inr ()" and p: "dc_padding dc' = dc_padding dc"
  obtain idx part where xp: "x = (idx, part)" by (cases x)
  have "part \<in> set cks"
    using x unfolding xp by (metis in_set_zip enumerate_eq_zip nth_mem snd_conv)
  then show "is_ok (fst (seal_flight_record A R pad lst x r out dc'))"
    using flight_record_ok [OF assms(1) _ assms(2) b _ assms(6)] assms(3,7) p
    by (simp add: xp codec_max_plaintext_len_def)
next
  fix rgs r' recs
  assume "seal_each (seal_flight_record A R pad lst) (List.enumerate i cks) r out dc =
      (Inr rgs, dc_next (length (List.enumerate i cks)) dc, r', out @ concat recs)"
    and "wire A (dc_aead dc) (dc_aad dc) (codec_sequence (dc_aead dc)) (map snd (List.enumerate i cks)) recs"
  then show thesis
    using that by (simp add: enumerate_eq_zip)
qed

lemma seal_pq_flight_ok:
  assumes "rng_correct R" and "cipher_total A" and "profile_ok (dc_padding dc)"
    and "ensure_seal_budget (length cks) dc = Inr ()" and "length cks < 2 ^ 64"
    and "\<And>c. c \<in> set cks \<Longrightarrow> length c + PQ_FLIGHT_AGGREGATE_PAD_MAX \<le> codec_max_plaintext_len dc"
  obtains r' recs where "seal_pq_flight A R cks r out dc = (Inr (), dc_next (length cks) dc, r', out @ concat recs)"
    "wire A (dc_aead dc) (dc_aad dc) (codec_sequence (dc_aead dc)) cks recs"
proof -
  obtain pad r1 where pad: "aggregate_pad_len R r = (pad, r1)"
    by (cases "aggregate_pad_len R r")
  obtain rgs r' recs where e:
    "seal_each (seal_flight_record A R pad (length cks - 1)) (List.enumerate 0 cks) r1 out dc =
       (Inr rgs, dc_next (length cks) dc, r', out @ concat recs)"
    "wire A (dc_aead dc) (dc_aad dc) (codec_sequence (dc_aead dc)) cks recs"
    by (rule flight_each [OF assms(1-5) aggregate_pad_le [OF assms(1) pad] assms(6)])
  show ?thesis
    by (rule that [OF _ e(2)]) (simp add: seal_pq_flight_def assms(4) pad e(1) [unfolded One_nat_def])
qed

text \<open>The budget of a codec under a fresh key.\<close>

definition fresh_codec :: "data_record_codec \<Rightarrow> bool" where
  "fresh_codec dc \<longleftrightarrow> ac_records (dc_aead dc) = seq_default \<and> length (dc_aad dc) \<le> 32"

lemma fresh_budget:
  assumes "fresh_codec dc" and "n \<le> AES_GCM_RECORD_LIMIT" and "0 < n"
  shows "ensure_seal_budget n dc = Inr ()"
proof -
  have n: "n < 2 ^ 64"
    using assms(2) by (simp add: AES_GCM_RECORD_LIMIT_def)
  have "div_ceil (length (dc_aad dc)) 16 \<le> 2"
    using assms(1) div_le_mono [of "15 + length (dc_aad dc)" 47 16] by (simp add: fresh_codec_def div_ceil_def)
  then show ?thesis
    using assms n unfolding ensure_seal_budget_iff [OF n assms(3)]
    by (simp add: fresh_codec_def seq_default_def codec_sequence_def checked_add_usize_def usize_limit_def div_ceil_def
        record_consts AES_GCM_MAX_AUTH_BLOCKS_def)
qed

end
