(* ===== verification/Client_Session.thy ===== *)
theory Client_Session
  imports Pq_Rekey Record_Stream
begin

text \<open>
  The client's data session: \<open>handshake/client.rs\<close>. Both record codecs, the live keys and the binding of the last
  post-quantum rekey, and every operation on them. An operation returns its result together with the session it leaves,
  also when it fails; where a loop draws record sizes, or a buffer write could panic, the pair is inside an option. The
  calls that exclude secrets from core dumps have no effect on the values.
\<close>

definition CLIENT_TO_SERVER_AAD :: bytes where "CLIENT_TO_SERVER_AAD = ascii ''ParallaX v1 client appdata''"
definition SERVER_TO_CLIENT_AAD :: bytes where "SERVER_TO_CLIENT_AAD = ascii ''ParallaX v1 server appdata''"

text \<open>The cryptographic libraries in one record.\<close>

record primitives =
  p_aead :: aead
  p_hkdf :: hkdf
  p_x25519 :: x25519
  p_kem :: kem
  p_signature :: signature_scheme
  p_sha :: "bytes \<Rightarrow> bytes"

datatype client_handshake_error =
    CheSession session_error
  | CheTraffic traffic_error
  | CheConnectRequest connect_request_error
  | CheDataRecord data_record_error
  | ChePq pq_error
  | ChePqCommand pq_rekey_error
  | CheFramedChunk framed_chunk_error
  | CheServerKeyExchange server_key_exchange_error
  | CheServerIdentityProof server_identity_proof_error
  | CheServerIdentityChunk server_identity_chunk_error
  | CheIdentity identity_error
  | CheMissingPqIdentityBinding

section \<open>Keys and codecs\<close>

definition derive_session_keys ::
  "primitives \<Rightarrow> bytes \<Rightarrow> bytes \<Rightarrow> bytes \<Rightarrow> bytes \<Rightarrow> bytes \<Rightarrow> (client_handshake_error + session_keys) option" where
  "derive_session_keys P psk client_private server_public client_hello_record server_hello_record =
     map_option (map_err CheSession) (derive_client_keys (p_hkdf P) (p_x25519 P) psk client_private server_public
       (handshake_transcript_hash (p_sha P) client_hello_record server_hello_record))"

definition derive_session_keys_from_shared ::
  "primitives \<Rightarrow> bytes \<Rightarrow> bytes \<Rightarrow> bytes \<Rightarrow> bytes \<Rightarrow> (client_handshake_error + session_keys) option" where
  "derive_session_keys_from_shared P psk shared client_hello_record server_hello_record =
     map_option (map_err CheSession) (derive_client_keys_from_shared (p_hkdf P) psk shared
       (handshake_transcript_hash (p_sha P) client_hello_record server_hello_record))"

definition data_codecs ::
  "session_keys \<Rightarrow> traffic_config \<Rightarrow> client_handshake_error + (data_record_codec \<times> data_record_codec)" where
  "data_codecs keys traffic =
     and_then (map_err CheTraffic (padding_from_config traffic)) (\<lambda>padding.
       Inr (data_codec_new (codec_new (client_key keys) (client_nonce keys)) padding CLIENT_TO_SERVER_AAD,
            data_codec_new (codec_new (server_key keys) (server_nonce keys)) padding SERVER_TO_CLIENT_AAD))"

record client_data_session =
  cs_seal :: data_record_codec
  cs_open :: data_record_codec
  cs_keys :: session_keys
  cs_binding :: "bytes option"

record x25519_key_pair =
  xk_private :: bytes
  xk_public :: bytes

record pending_pq_rekey =
  pr_x25519 :: x25519_key_pair
  pr_mlkem :: mlkem_key_pair
  pr_request_payload :: bytes

text \<open>A generated pair, from the random private key.\<close>

definition x25519_generate :: "x25519 \<Rightarrow> bytes \<Rightarrow> x25519_key_pair" where
  "x25519_generate X private = \<lparr>xk_private = private, xk_public = x_public X private\<rparr>"

definition pending_x25519_shared_secret :: "primitives \<Rightarrow> pending_pq_rekey \<Rightarrow> bytes \<Rightarrow> bytes" where
  "pending_x25519_shared_secret P pending server_public =
     x_shared (p_x25519 P) (xk_private (pr_x25519 pending)) server_public"

definition pending_identity_binding :: "primitives \<Rightarrow> pending_pq_rekey \<Rightarrow> bytes \<Rightarrow> bytes" where
  "pending_identity_binding P pending server_key_exchange_payload =
     pq_rekey_binding (p_sha P) (pr_request_payload pending) server_key_exchange_payload"

definition client_session_new :: "session_keys \<Rightarrow> traffic_config \<Rightarrow> client_handshake_error + client_data_session" where
  "client_session_new keys traffic =
     and_then (data_codecs keys traffic) (\<lambda>(seal_to_server, open_from_server).
       Inr \<lparr>cs_seal = seal_to_server, cs_open = open_from_server, cs_keys = keys, cs_binding = None\<rparr>)"

section \<open>Rekeying\<close>

definition apply_pq_rekey_shared ::
  "primitives \<Rightarrow> cipher_suite \<Rightarrow> bytes \<Rightarrow> bytes \<Rightarrow> bytes \<Rightarrow> client_data_session \<Rightarrow>
   ((client_handshake_error + unit) \<times> client_data_session) option" where
  "apply_pq_rekey_shared P suite x25519_shared pq_shared sandwich_secret s =
     (case hybrid_sandwich_rekey (p_hkdf P) (chain_secret (cs_keys s)) x25519_shared pq_shared sandwich_secret of
        None \<Rightarrow> None
      | Some (Inl e) \<Rightarrow> Some (Inl (ChePq e), s)
      | Some (Inr chain) \<Rightarrow>
          (case expand_epoch_keys (p_hkdf P) chain (saturating_add_u64 (epoch (cs_keys s)) 1)
                  (transcript_hash (cs_keys s)) x25519_shared of
             None \<Rightarrow> None
           | Some (Inl e) \<Rightarrow> Some (Inl (CheSession e), s)
           | Some (Inr next_keys) \<Rightarrow>
               Some (Inr (), s\<lparr>
                 cs_seal := data_rekey_with_suite suite (client_key next_keys) (client_nonce next_keys) (cs_seal s),
                 cs_open := data_rekey_with_suite suite (server_key next_keys) (server_nonce next_keys) (cs_open s),
                 cs_keys := next_keys\<rparr>)))"

definition apply_pq_rekey_shared_with_identity_binding ::
  "primitives \<Rightarrow> cipher_suite \<Rightarrow> bytes \<Rightarrow> bytes \<Rightarrow> bytes \<Rightarrow> bytes \<Rightarrow> client_data_session \<Rightarrow>
   ((client_handshake_error + unit) \<times> client_data_session) option" where
  "apply_pq_rekey_shared_with_identity_binding P suite x25519_shared pq_shared sandwich_secret binding s =
     (case apply_pq_rekey_shared P suite x25519_shared pq_shared sandwich_secret s of
        None \<Rightarrow> None
      | Some (Inl e, s') \<Rightarrow> Some (Inl e, s')
      | Some (Inr _, s') \<Rightarrow> Some (Inr (), s'\<lparr>cs_binding := Some binding\<rparr>))"

definition build_pq_rekey_record ::
  "primitives \<Rightarrow> 'r rng \<Rightarrow> bytes \<Rightarrow> bytes \<Rightarrow> 'r \<Rightarrow> client_data_session \<Rightarrow>
   ((client_handshake_error + (bytes \<times> pending_pq_rekey)) \<times> client_data_session \<times> 'r) option" where
  "build_pq_rekey_record P R x25519_private mlkem_seed r s =
     (let x25519 = x25519_generate (p_x25519 P) x25519_private;
          mlkem = mlkem_keypair (p_kem P) mlkem_seed
      in case pq_encode_borrowed (xk_public x25519) (mk_public mlkem) of
           Inl e \<Rightarrow> Some (Inl (ChePqCommand e), s, r)
         | Inr request \<Rightarrow>
             let max_chunk = pq_flight_max_chunk_size (codec_max_plaintext_len (cs_seal s))
             in (case framed_encode_all_browser_shaped R request max_chunk r of
                   None \<Rightarrow> None
                 | Some (Inl e, r) \<Rightarrow> Some (Inl (CheFramedChunk e), s, r)
                 | Some (Inr cks, r) \<Rightarrow>
                     (case seal_pq_flight (p_aead P) R cks r [] (cs_seal s) of
                        (Inl e, dc, r, _) \<Rightarrow> Some (Inl (CheDataRecord e), s\<lparr>cs_seal := dc\<rparr>, r)
                      | (Inr _, dc, r, record) \<Rightarrow>
                          Some (Inr (record, \<lparr>pr_x25519 = x25519, pr_mlkem = mlkem, pr_request_payload = request\<rparr>),
                            s\<lparr>cs_seal := dc\<rparr>, r))))"

text \<open>From a complete key exchange payload on; the receive paths of \<open>handshake/client.rs\<close> and of
  \<open>client/runtime.rs\<close> share these lines.\<close>

definition apply_key_exchange_payload ::
  "primitives \<Rightarrow> bytes \<Rightarrow> pending_pq_rekey \<Rightarrow> bytes \<Rightarrow> client_data_session \<Rightarrow>
   ((client_handshake_error + unit) \<times> client_data_session) option" where
  "apply_key_exchange_payload P exchange_payload pending sandwich_secret s =
     (case ske_decode_with_suite exchange_payload of
        Inl e \<Rightarrow> Some (Inl (CheServerKeyExchange e), s)
      | Inr (exchange, suite) \<Rightarrow>
          let binding = pending_identity_binding P pending exchange_payload;
              x25519_shared = pending_x25519_shared_secret P pending (ske_server_x25519_public exchange)
          in (case decapsulate (p_kem P) (ske_mlkem_ciphertext exchange) (mk_secret (pr_mlkem pending)) of
                Inl e \<Rightarrow> Some (Inl (ChePq e), s)
              | Inr pq_shared \<Rightarrow>
                  apply_pq_rekey_shared_with_identity_binding P suite x25519_shared pq_shared sandwich_secret binding s))"

definition apply_server_key_exchange_record ::
  "primitives \<Rightarrow> bytes \<Rightarrow> pending_pq_rekey \<Rightarrow> bytes \<Rightarrow> client_data_session \<Rightarrow>
   ((client_handshake_error + unit) \<times> client_data_session) option" where
  "apply_server_key_exchange_record P record pending sandwich_secret s =
     (case data_open (p_aead P) record (cs_open s) of
        (Inl e, dc) \<Rightarrow> Some (Inl (CheDataRecord e), s\<lparr>cs_open := dc\<rparr>)
      | (Inr exchange_payload, dc) \<Rightarrow>
          apply_key_exchange_payload P exchange_payload pending sandwich_secret (s\<lparr>cs_open := dc\<rparr>))"

section \<open>Sealing\<close>

text \<open>A sealing call with the session's codec: its buffer is the result.\<close>

definition with_seal ::
  "client_data_session \<Rightarrow> (data_record_error + 'a) \<times> data_record_codec \<times> 'r \<times> bytes \<Rightarrow>
   (client_handshake_error + bytes) \<times> client_data_session \<times> 'r" where
  "with_seal s = (\<lambda>(res, dc, r, out). (and_then (map_err CheDataRecord res) (\<lambda>_. Inr out), s\<lparr>cs_seal := dc\<rparr>, r))"

definition build_connect_record ::
  "primitives \<Rightarrow> 'r rng \<Rightarrow> connect_request \<Rightarrow> 'r \<Rightarrow> client_data_session \<Rightarrow>
   (client_handshake_error + bytes) \<times> client_data_session \<times> 'r" where
  "build_connect_record P R request r s =
     (case connect_encode request of
        Inl e \<Rightarrow> (Inl (CheConnectRequest e), s, r)
      | Inr payload \<Rightarrow>
          let max_extra_pad = codec_max_plaintext_len (cs_seal s) - length payload;
              (shaping_pad, r) = shaping_extra_pad R request max_extra_pad r
          in with_seal s (seal_into_exact_padded (p_aead P) R payload shaping_pad r [] (cs_seal s)))"

definition seal_payload ::
  "primitives \<Rightarrow> 'r rng \<Rightarrow> bytes \<Rightarrow> 'r \<Rightarrow> client_data_session \<Rightarrow>
   (client_handshake_error + bytes) \<times> client_data_session \<times> 'r" where
  "seal_payload P R payload r s =
     (case data_seal (p_aead P) R payload r (cs_seal s) of (res, dc, r) \<Rightarrow> (map_err CheDataRecord res, s\<lparr>cs_seal := dc\<rparr>, r))"

definition seal_payload_band_shaped ::
  "primitives \<Rightarrow> 'r rng \<Rightarrow> bytes \<Rightarrow> 'r \<Rightarrow> client_data_session \<Rightarrow>
   (client_handshake_error + bytes) \<times> client_data_session \<times> 'r" where
  "seal_payload_band_shaped P R payload r s =
     (let max_extra_pad = codec_max_plaintext_len (cs_seal s) - length payload;
          (shaping_pad, r) = control_frame_shaping_pad R (length payload) max_extra_pad r
      in with_seal s (seal_into_exact_padded (p_aead P) R payload shaping_pad r [] (cs_seal s)))"

definition seal_payload_chunks ::
  "primitives \<Rightarrow> 'r rng \<Rightarrow> bytes \<Rightarrow> 'r \<Rightarrow> client_data_session \<Rightarrow>
   (client_handshake_error + bytes list) \<times> client_data_session \<times> 'r" where
  "seal_payload_chunks P R payload r s =
     (case seal_chunks (p_aead P) R payload r (cs_seal s) of (res, dc, r) \<Rightarrow> (map_err CheDataRecord res, s\<lparr>cs_seal := dc\<rparr>, r))"

definition seal_payload_chunks_into ::
  "primitives \<Rightarrow> 'r rng \<Rightarrow> bytes \<Rightarrow> 'r \<Rightarrow> bytes \<Rightarrow> client_data_session \<Rightarrow>
   (client_handshake_error + sealed_record list) \<times> client_data_session \<times> 'r \<times> bytes" where
  "seal_payload_chunks_into P R payload r out s =
     (case seal_chunks_into (p_aead P) R payload r out (cs_seal s) of
        (res, dc, r, out) \<Rightarrow> (map_err CheDataRecord res, s\<lparr>cs_seal := dc\<rparr>, r, out))"

definition seal_payload_chunks_into_reusing ::
  "primitives \<Rightarrow> 'r rng \<Rightarrow> bytes \<Rightarrow> 'r \<Rightarrow> bytes \<Rightarrow> client_data_session \<Rightarrow>
   (client_handshake_error + sealed_record list) \<times> client_data_session \<times> 'r \<times> bytes" where
  "seal_payload_chunks_into_reusing P R payload r out s =
     (case seal_chunks_into_reusing (p_aead P) R payload r out (cs_seal s) of
        (res, dc, r, out) \<Rightarrow> (map_err CheDataRecord res, s\<lparr>cs_seal := dc\<rparr>, r, out))"

definition seal_payload_chunks_into_untracked ::
  "primitives \<Rightarrow> 'r rng \<Rightarrow> bytes \<Rightarrow> 'r \<Rightarrow> bytes \<Rightarrow> client_data_session \<Rightarrow>
   (client_handshake_error + unit) \<times> client_data_session \<times> 'r \<times> bytes" where
  "seal_payload_chunks_into_untracked P R payload r out s =
     (case seal_chunks_into_untracked (p_aead P) R payload r out (cs_seal s) of
        (res, dc, r, out) \<Rightarrow> (map_err CheDataRecord res, s\<lparr>cs_seal := dc\<rparr>, r, out))"

definition max_payload_chunk_len :: "client_data_session \<Rightarrow> nat" where
  "max_payload_chunk_len s = codec_max_plaintext_len (cs_seal s)"

definition into_data_codecs :: "client_data_session \<Rightarrow> data_record_codec \<times> data_record_codec" where
  "into_data_codecs s = (cs_seal s, cs_open s)"

section \<open>Opening and identity\<close>

definition open_server_record ::
  "primitives \<Rightarrow> bytes \<Rightarrow> client_data_session \<Rightarrow> (client_handshake_error + bytes) \<times> client_data_session" where
  "open_server_record P record s =
     (case data_open (p_aead P) record (cs_open s) of (res, dc) \<Rightarrow> (map_err CheDataRecord res, s\<lparr>cs_open := dc\<rparr>))"

definition open_server_record_owned ::
  "primitives \<Rightarrow> bytes \<Rightarrow> client_data_session \<Rightarrow> (client_handshake_error + bytes) \<times> client_data_session" where
  "open_server_record_owned P record s =
     (case open_owned (p_aead P) record (cs_open s) of (res, dc) \<Rightarrow> (map_err CheDataRecord res, s\<lparr>cs_open := dc\<rparr>))"

definition open_server_record_in_place ::
  "primitives \<Rightarrow> bytes \<Rightarrow> client_data_session \<Rightarrow> (client_handshake_error + unit) \<times> client_data_session \<times> bytes" where
  "open_server_record_in_place P record s =
     (case data_open_in_place (p_aead P) record (cs_open s) of
        (res, dc, record) \<Rightarrow> (map_err CheDataRecord res, s\<lparr>cs_open := dc\<rparr>, record))"

definition open_server_record_in_place_payload_range ::
  "primitives \<Rightarrow> bytes \<Rightarrow> client_data_session \<Rightarrow>
   (client_handshake_error + (nat \<times> nat)) \<times> client_data_session \<times> bytes" where
  "open_server_record_in_place_payload_range P record s =
     (case open_in_place_payload_range (p_aead P) record (cs_open s) of
        (res, dc, record) \<Rightarrow> (map_err CheDataRecord res, s\<lparr>cs_open := dc\<rparr>, record))"

definition open_server_identity_chunk ::
  "primitives \<Rightarrow> bytes \<Rightarrow> client_data_session \<Rightarrow> (client_handshake_error + offset_chunk) \<times> client_data_session" where
  "open_server_identity_chunk P record s =
     (case open_server_record P record s of
        (res, s) \<Rightarrow> (and_then res (\<lambda>payload. map_err CheServerIdentityChunk (identity_chunk_decode payload)), s))"

definition pq_identity_binding :: "client_data_session \<Rightarrow> client_handshake_error + bytes" where
  "pq_identity_binding s = ok_or (cs_binding s) CheMissingPqIdentityBinding"

definition verify_server_identity_payload ::
  "primitives \<Rightarrow> bytes \<Rightarrow> bytes \<Rightarrow> bytes \<Rightarrow> client_data_session \<Rightarrow> client_handshake_error + unit" where
  "verify_server_identity_payload P payload server_identity_public_key server_x25519_public_key s =
     and_then (map_err CheServerIdentityProof (sip_signature_of payload)) (\<lambda>sig.
     and_then (ok_or (cs_binding s) CheMissingPqIdentityBinding) (\<lambda>binding.
     map_err CheIdentity (verify_server_identity (p_signature P) server_identity_public_key sig
       (transcript_hash (cs_keys s)) server_x25519_public_key binding (epoch (cs_keys s)))))"

definition verify_server_identity_record ::
  "primitives \<Rightarrow> bytes \<Rightarrow> bytes \<Rightarrow> bytes \<Rightarrow> client_data_session \<Rightarrow>
   (client_handshake_error + unit) \<times> client_data_session" where
  "verify_server_identity_record P record server_identity_public_key server_x25519_public_key s =
     (case open_server_record P record s of
        (res, s) \<Rightarrow> (and_then res (\<lambda>payload.
          verify_server_identity_payload P payload server_identity_public_key server_x25519_public_key s), s))"

definition decode_server_identity_payload :: "bytes \<Rightarrow> client_handshake_error + server_identity_proof" where
  "decode_server_identity_payload payload = map_err CheServerIdentityProof (sip_decode payload)"

section \<open>The CONNECT record\<close>

lemma seal_exact_ok:
  assumes "aead_correct A" and "cipher_total A" and "rng_correct R" and "profile_ok (dc_padding dc)"
    and "ensure_seal_budget 1 dc = Inr ()" and "length payload + pad + 18 \<le> OUTER_TLS_RECORD_LIMIT"
  obtains rg r' rec where "seal_into_exact_padded A R payload pad r [] dc = (Inr rg, dc_next 1 dc, r', rec)"
    "wire_record A (dc_aead dc) (dc_aad dc) (codec_sequence (dc_aead dc)) payload rec"
    "length rec = TLS_HEADER_LEN + length payload + pad + 18"
proof -
  obtain o1 r1 where o1: "write_exact_padding_suffix R pad r (record_prefix @ payload) = (o1, r1)"
    by (cases "write_exact_padding_suffix R pad r (record_prefix @ payload)")
  have small: "min pad (2 ^ 16 - 1) = pad"
    using assms(6) by (simp add: record_consts)
  obtain padding where p: "o1 = record_prefix @ payload @ padding @ be_bytes 2 (of_nat (length padding) :: u16)" "length padding = pad"
    using suffix_writers(3) [OF assms(3,4) o1] small by auto
  let ?P = "payload @ padding @ be_bytes 2 (of_nat (length padding) :: u16)"
  have "is_ok (fst (seal_framed A 0 r1 o1 dc))"
    using seal_framed_ok [OF assms(5,2), of ?P "[]" r1] assms(6) p by (simp add: AEAD_TAG_LEN_def)
  then obtain rg dc' r' rec where f: "seal_framed A 0 r1 o1 dc = (Inr rg, dc', r', rec)"
    by (cases "seal_framed A 0 r1 o1 dc") (auto simp: is_ok_iff)
  have s: "seal_exact_record A R (payload, pad) r [] dc = (Inr rg, dc', r', rec)"
    using f o1 assms(5) by (simp add: seal_exact_record_def seal_into_exact_padded_def seal_record_with_suffix_def)
  have "dc' = dc_next 1 dc" "wire_record A (dc_aead dc) (dc_aad dc) (codec_sequence (dc_aead dc)) payload rec"
    using se.seals [OF assms(3,4) s] by simp_all
  moreover have "length rec = TLS_HEADER_LEN + length payload + pad + 18"
    using seal_framed_length(1) [OF assms(1), of "[]" r1 ?P dc rg dc' r' rec] f p by (simp add: AEAD_TAG_LEN_def)
  ultimately show ?thesis
    using that s by (simp add: seal_exact_record_def)
qed

text \<open>C39. The CONNECT record: every well-formed request that fits one record is sealed, the server's codec opens the record
  to bytes that decode to exactly the request, and, whenever some size band is within reach, the size on the wire is
  in a band whatever the lengths of host and payload and whatever padding profile is configured.\<close>

theorem connect_record_delivered:
  assumes "aead_correct (p_aead P)" and "cipher_total (p_aead P)" and "rng_correct R" and "profile_ok (dc_padding (cs_seal s))"
    and "connect_ok q" and "connect_encoded_len q \<le> codec_max_plaintext_len (cs_seal s)" and "ensure_seal_budget 1 (cs_seal s) = Inr ()"
  shows "\<exists>rec s' r' payload. build_connect_record P R q r s = (Inr rec, s', r') \<and>
    data_open (p_aead P) rec (cs_seal s) = (Inr payload, cs_seal s') \<and> connect_decode payload = Inr q \<and>
    (list_ex (\<lambda>c. connect_encoded_len q + DATA_RECORD_WIRE_OVERHEAD \<le> c \<and>
        c \<le> DATA_RECORD_WIRE_OVERHEAD + codec_max_plaintext_len (cs_seal s))
       CONNECT_RECORD_SIZE_BANDS \<longrightarrow> connect_record_size_is_shaped (length rec - TLS_HEADER_LEN))"
proof -
  obtain payload where p: "connect_encode q = Inr payload" "connect_decode payload = Inr q"
    using connect_enc_dec [OF assms(5)] by blast
  have len: "length payload = connect_encoded_len q"
    using p(1) by (auto simp: connect_encode_def connect_encoded_len_def CONNECT_FIXED_LEN_def Let_def split: if_splits)
  let ?mx = "codec_max_plaintext_len (cs_seal s) - length payload"
  obtain pad r1 where pad: "band_shaping_pad R (connect_encoded_len q) ?mx r = (pad, r1)"
    by (cases "band_shaping_pad R (connect_encoded_len q) ?mx r")
  note B = control_records_shaped [OF assms(3) pad]
  have pos: "0 < length payload"
    using len assms(5) by (simp add: connect_encoded_len_def CONNECT_FIXED_LEN_def)
  have fit: "length payload + pad + 18 \<le> OUTER_TLS_RECORD_LIMIT"
    using conjunct1 [OF B] assms(6) len pos by (simp add: codec_max_plaintext_len_def max_plaintext_len_def record_consts)
  obtain rg r' rec where z: "seal_into_exact_padded (p_aead P) R payload pad r1 [] (cs_seal s) = (Inr rg, dc_next 1 (cs_seal s), r', rec)"
    "wire_record (p_aead P) (dc_aead (cs_seal s)) (dc_aad (cs_seal s)) (codec_sequence (dc_aead (cs_seal s))) payload rec"
    "length rec = TLS_HEADER_LEN + length payload + pad + 18"
    by (rule seal_exact_ok [OF assms(1-4,7) fit])
  have np: "\<not> poisoned (ac_records (dc_aead (cs_seal s)))"
    using assms(7) ensure_seal_budget_iff [of 1 "cs_seal s"] by simp
  have "build_connect_record P R q r s = (Inr rec, s\<lparr>cs_seal := dc_next 1 (cs_seal s)\<rparr>, r')"
    using pad z(1) by (simp add: build_connect_record_def p(1) shaping_extra_pad_def with_seal_def)
  moreover have "connect_record_size_is_shaped (length rec - TLS_HEADER_LEN)"
    if "list_ex (\<lambda>c. connect_encoded_len q + DATA_RECORD_WIRE_OVERHEAD \<le> c \<and>
        c \<le> DATA_RECORD_WIRE_OVERHEAD + codec_max_plaintext_len (cs_seal s)) CONNECT_RECORD_SIZE_BANDS"
  proof -
    have "list_ex (\<lambda>c. connect_encoded_len q + DATA_RECORD_WIRE_OVERHEAD \<le> c \<and>
        c \<le> connect_encoded_len q + DATA_RECORD_WIRE_OVERHEAD + ?mx) CONNECT_RECORD_SIZE_BANDS"
      using that len assms(6) by (auto simp: list_ex_iff)
    then show ?thesis
      using B z(3) len by (simp add: DATA_RECORD_WIRE_OVERHEAD_def add.assoc add.commute [of pad])
  qed
  ultimately show ?thesis
    using wire_record_open(1) [OF assms(1) np z(2)] p(2) by (intro exI [of _ rec]) auto
qed

text \<open>Toy primitives for the examples: every secret is constant.\<close>

definition toy_primitives :: primitives where
  "toy_primitives =
     \<lparr>p_aead = plain_aead, p_hkdf = const_hkdf,
      p_x25519 = \<lparr>x_public = (\<lambda>a. replicate 32 (hd a)), x_shared = (\<lambda>a b. replicate 32 (hd a + hd b))\<rparr>,
      p_kem = \<lparr>k_pair = (\<lambda>seed. (replicate 1568 0, replicate 3168 0)), k_public_ok = (\<lambda>_. True), k_secret_ok = (\<lambda>_. True),
        k_encap = (\<lambda>coins pk. Some (replicate 1568 0, replicate 32 5)), k_decap = (\<lambda>sk ct. Some (replicate 32 5))\<rparr>,
      p_signature = \<lparr>sg_sign = (\<lambda>sk m c. Inr (replicate 4627 0)), sg_verify = (\<lambda>pk s m c. Inr ())\<rparr>,
      p_sha = (\<lambda>m. replicate 32 0)\<rparr>"

definition toy_keys :: session_keys where
  "toy_keys = \<lparr>client_key = replicate 32 1, server_key = replicate 32 2, client_nonce = replicate 12 1, server_nonce = replicate 12 2,
     chain_secret = replicate 32 3, epoch = 0, transcript_hash = replicate 32 4, shared_secret = replicate 32 5\<rparr>"

theorem connect_record_delivered_witness:
  "\<exists>rec s' r' payload. build_connect_record toy_primitives low_rng \<lparr>cr_host = [97, 98], cr_port = 443, cr_initial_payload = [1, 2, 3]\<rparr> 0
      \<lparr>cs_seal = plain_codec, cs_open = plain_codec, cs_keys = toy_keys, cs_binding = None\<rparr> = (Inr rec, s', r') \<and>
    data_open plain_aead rec plain_codec = (Inr payload, cs_seal s') \<and>
    connect_decode payload = Inr \<lparr>cr_host = [97, 98], cr_port = 443, cr_initial_payload = [1, 2, 3]\<rparr> \<and>
    connect_record_size_is_shaped (length rec - TLS_HEADER_LEN)"
proof -
  let ?s = "\<lparr>cs_seal = plain_codec, cs_open = plain_codec, cs_keys = toy_keys, cs_binding = None\<rparr>"
  let ?q = "\<lparr>cr_host = [97, 98], cr_port = 443, cr_initial_payload = [1, 2, 3]\<rparr> :: connect_request"
  have A: "p_aead toy_primitives = plain_aead"
    by (simp add: toy_primitives_def)
  have len: "connect_encoded_len ?q = 17"
    by (simp add: connect_encoded_len_def CONNECT_FIXED_LEN_def)
  have "connect_ok ?q"
    by (simp add: connect_ok_def)
  then show ?thesis
    using connect_record_delivered [of toy_primitives low_rng ?s ?q 0] plain_aead_correct plain_codec_facts low_rng_correct len
    by (simp add: A CONNECT_RECORD_SIZE_BANDS_def DATA_RECORD_WIRE_OVERHEAD_def)
qed

end
