(* ===== verification/Pq_Handshake.thy ===== *)
theory Pq_Handshake
  imports Client_Session
begin

text \<open>
  The post-quantum rekey between both ends: the client's receive path (\<open>client/runtime.rs\<close>) and the server's pre-data
  loop up to the end of the identity flight (\<open>run_authenticated_data_mode\<close> of \<open>handshake/server.rs\<close>). The records a
  reader returns are arguments, in order; the loop over the two sockets and the deadline is a step function over events,
  which carry the outcome of the write they cause. Writes of the rekey itself succeed in the model: a failed one ends
  the task with its error and has no other effect.
\<close>

section \<open>Client: key exchange and identity\<close>

definition MAX_PRE_KEY_EXCHANGE_CAMOUFLAGE_RECORDS :: nat where "MAX_PRE_KEY_EXCHANGE_CAMOUFLAGE_RECORDS = 64"

definition MAX_PRE_KEY_EXCHANGE_CAMOUFLAGE_BYTES :: nat where
  "MAX_PRE_KEY_EXCHANGE_CAMOUFLAGE_BYTES =
     MAX_PRE_KEY_EXCHANGE_CAMOUFLAGE_RECORDS * (MAX_TLS_RECORD_PAYLOAD + TLS_HEADER_LEN)"

definition MAX_RESIDUAL_CAMOUFLAGE_BYTES_BEFORE_KEY_EXCHANGE :: nat where
  "MAX_RESIDUAL_CAMOUFLAGE_BYTES_BEFORE_KEY_EXCHANGE = MAX_PRE_KEY_EXCHANGE_CAMOUFLAGE_BYTES"

datatype client_runtime_error =
    CrIo
  | CrHandshake client_handshake_error
  | CrServerIdentityTooLarge
  | CrInvalidServerIdentityChunks

text \<open>One record. The buffer is returned, because the caller measures it after a failure.\<close>

definition apply_server_key_exchange_record_blocking ::
  "primitives \<Rightarrow> bytes \<Rightarrow> pending_pq_rekey \<Rightarrow> bytes \<Rightarrow> framed_reassembler \<Rightarrow> client_data_session \<Rightarrow>
   ((client_runtime_error + bool) \<times> client_data_session \<times> framed_reassembler \<times> bytes) option" where
  "apply_server_key_exchange_record_blocking P record pending psk reassembler s =
     (case open_server_record_in_place_payload_range P record s of
        (Inl e, s, record) \<Rightarrow> Some (Inl (CrHandshake e), s, reassembler, record)
      | (Inr (a, b), s, record) \<Rightarrow>
          (case reassembler_push reassembler (drop a (take b record)) MAX_PQ_HANDSHAKE_FRAME of
             (Inl e, reassembler) \<Rightarrow> Some (Inl (CrHandshake (CheFramedChunk e)), s, reassembler, record)
           | (Inr None, reassembler) \<Rightarrow> Some (Inr False, s, reassembler, record)
           | (Inr (Some exchange_payload), reassembler) \<Rightarrow>
               (case apply_key_exchange_payload P exchange_payload pending psk s of
                  None \<Rightarrow> None
                | Some (Inl e, s) \<Rightarrow> Some (Inl (CrHandshake e), s, reassembler, record)
                | Some (Inr _, s) \<Rightarrow> Some (Inr True, s, reassembler, record))))"

fun is_residual_camouflage_record :: "client_handshake_error \<Rightarrow> bool" where
  "is_residual_camouflage_record (CheDataRecord (DrAead _)) = True"
| "is_residual_camouflage_record (CheDataRecord NotApplicationData) = True"
| "is_residual_camouflage_record _ = False"

text \<open>The loop over the records of the stream; what it leaves unread comes back. The stream running dry is an I/O
  error.\<close>

fun after_residuals ::
  "primitives \<Rightarrow> pending_pq_rekey \<Rightarrow> bytes \<Rightarrow> bytes list \<Rightarrow> nat \<Rightarrow> framed_reassembler \<Rightarrow> client_data_session \<Rightarrow>
   ((client_runtime_error + bytes list) \<times> client_data_session) option" where
  "after_residuals P pending psk [] skipped_bytes reassembler s = Some (Inl CrIo, s)"
| "after_residuals P pending psk (record # records) skipped_bytes reassembler s =
     (case apply_server_key_exchange_record_blocking P record pending psk reassembler s of
        None \<Rightarrow> None
      | Some (Inr True, s, reassembler, record) \<Rightarrow> Some (Inr records, s)
      | Some (Inr False, s, reassembler, record) \<Rightarrow> after_residuals P pending psk records skipped_bytes reassembler s
      | Some (Inl (CrHandshake e), s, reassembler, record) \<Rightarrow>
          if is_residual_camouflage_record e then
            (if skipped_bytes < MAX_RESIDUAL_CAMOUFLAGE_BYTES_BEFORE_KEY_EXCHANGE
             then after_residuals P pending psk records (skipped_bytes + length record) reassembler s
             else Some (Inl (CrHandshake e), s))
          else Some (Inl (CrHandshake e), s)
      | Some (Inl e, s, reassembler, record) \<Rightarrow> Some (Inl e, s))"

definition apply_server_key_exchange_after_residuals ::
  "primitives \<Rightarrow> pending_pq_rekey \<Rightarrow> bytes \<Rightarrow> bytes list \<Rightarrow> client_data_session \<Rightarrow>
   ((client_runtime_error + bytes list) \<times> client_data_session) option" where
  "apply_server_key_exchange_after_residuals P pending psk records s =
     after_residuals P pending psk records 0 reassembler_default s"

text \<open>Reading the identity proof from the records of the stream.\<close>

fun read_identity_records ::
  "primitives \<Rightarrow> nat option \<Rightarrow> bytes \<Rightarrow> bytes list \<Rightarrow> client_data_session \<Rightarrow>
   (client_runtime_error + (bytes \<times> bytes list)) \<times> client_data_session" where
  "read_identity_records P expected_total assembled [] s = (Inl CrIo, s)"
| "read_identity_records P expected_total assembled (record # records) s =
     (case open_server_record_in_place P record s of
        (Inl e, s, _) \<Rightarrow> (Inl (CrHandshake e), s)
      | (Inr _, s, record) \<Rightarrow>
          (case identity_chunk_decode record of
             Inl e \<Rightarrow> (Inl (CrHandshake (CheServerIdentityChunk e)), s)
           | Inr c \<Rightarrow>
               let total_len = unat (oc_total_len c)
               in if total_len = 0 \<or> total_len > MAX_SERVER_IDENTITY_PAYLOAD then (Inl CrServerIdentityTooLarge, s)
                  else if (case expected_total of Some expected \<Rightarrow> expected \<noteq> total_len | None \<Rightarrow> False)
                  then (Inl CrInvalidServerIdentityChunks, s)
                  else if unat (oc_offset c) \<noteq> length assembled then (Inl CrInvalidServerIdentityChunks, s)
                  else
                    let assembled = assembled @ oc_bytes c
                    in if length assembled = total_len then (Inr (assembled, records), s)
                       else if length assembled > total_len then (Inl CrInvalidServerIdentityChunks, s)
                       else read_identity_records P (Some total_len) assembled records s))"

definition verify_server_identity_payload_blocking ::
  "primitives \<Rightarrow> bytes \<Rightarrow> bytes \<Rightarrow> bytes \<Rightarrow> client_data_session \<Rightarrow> client_runtime_error + unit" where
  "verify_server_identity_payload_blocking P payload server_identity_public_key server_x25519_public_key s =
     map_err CrHandshake
       (and_then (pq_identity_binding s) (\<lambda>binding.
        and_then (map_err CheServerIdentityProof (sip_signature_of payload)) (\<lambda>sig.
        map_err CheIdentity (verify_server_identity (p_signature P) server_identity_public_key sig
          (transcript_hash (cs_keys s)) server_x25519_public_key binding (epoch (cs_keys s))))))"

section \<open>Server: rekey and identity flight\<close>

datatype server_error =
    SrvIo
  | SrvSession session_error
  | SrvDataRecord data_record_error
  | SrvTraffic traffic_error
  | SrvFramedChunk framed_chunk_error
  | SrvServerKeyExchange server_key_exchange_error
  | SrvPq pq_error
  | SrvServerIdentityProof server_identity_proof_error
  | SrvServerIdentityChunk server_identity_chunk_error
  | SrvIdentity identity_error
  | SrvReplayCache

record server_session =
  sv_open :: data_record_codec
  sv_seal :: data_record_codec
  sv_keys :: session_keys
  sv_reassembler :: framed_reassembler
  sv_camouflage_records :: nat
  sv_camouflage_bytes :: nat
  sv_fallback_bytes :: nat
  sv_fallback_open :: bool

definition server_session_new :: "session_keys \<Rightarrow> traffic_config \<Rightarrow> server_error + server_session" where
  "server_session_new keys traffic =
     and_then (map_err SrvTraffic (padding_from_config traffic)) (\<lambda>padding.
       Inr \<lparr>sv_open = data_codec_new (codec_new (client_key keys) (client_nonce keys)) padding CLIENT_TO_SERVER_AAD,
            sv_seal = data_codec_new (codec_new (server_key keys) (server_nonce keys)) padding SERVER_TO_CLIENT_AAD,
            sv_keys = keys, sv_reassembler = reassembler_default, sv_camouflage_records = 0, sv_camouflage_bytes = 0,
            sv_fallback_bytes = 0, sv_fallback_open = True\<rparr>)"

text \<open>What the rekey takes from outside: the operator's keys, the random key and coins of this connection, the cipher
  suite of the hardware, and the verdict of the replay cache on the pending entry.\<close>

record server_env =
  se_identity_secret :: bytes
  se_sandwich_secret :: bytes
  se_server_public_key :: bytes
  se_ephemeral :: bytes
  se_coins :: bytes
  se_has_aes :: bool
  se_timing :: timing_profile
  se_commit :: "server_error + bool"

definition server_data_cipher_suite :: "bool \<Rightarrow> cipher_suite" where
  "server_data_cipher_suite has_aes = (if has_aes then Aes256Gcm else ChaCha20Poly1305)"

definition apply_server_pq_rekey ::
  "primitives \<Rightarrow> cipher_suite \<Rightarrow> data_record_codec \<Rightarrow> data_record_codec \<Rightarrow> session_keys \<Rightarrow> bytes \<Rightarrow> bytes \<Rightarrow> bytes \<Rightarrow>
   (server_error + (session_keys \<times> data_record_codec \<times> data_record_codec)) option" where
  "apply_server_pq_rekey P suite client_open server_seal keys x25519_shared pq_shared sandwich_secret =
     try_bind (map_option (map_err SrvPq)
       (hybrid_sandwich_rekey (p_hkdf P) (chain_secret keys) x25519_shared pq_shared sandwich_secret)) (\<lambda>chain.
     try_bind (map_option (map_err SrvSession)
       (expand_epoch_keys (p_hkdf P) chain (saturating_add_u64 (epoch keys) 1) (transcript_hash keys) x25519_shared)) (\<lambda>next_keys.
     Some (Inr (next_keys,
       data_rekey_with_suite suite (client_key next_keys) (client_nonce next_keys) client_open,
       data_rekey_with_suite suite (server_key next_keys) (server_nonce next_keys) server_seal))))"

definition SERVER_IDENTITY_CHUNK_MIN_DELAY :: nat where "SERVER_IDENTITY_CHUNK_MIN_DELAY = 45"

definition server_identity_chunk_delay :: "'r rng \<Rightarrow> timing_profile \<Rightarrow> 'r \<Rightarrow> nat \<times> 'r" where
  "server_identity_chunk_delay R timing r =
     (if timing_is_enabled timing then
        let (d, r) = sample_delay R timing r in (SERVER_IDENTITY_CHUNK_MIN_DELAY + d, r)
      else (0, r))"

text \<open>The paced branch: one write for each record, with the delay in milliseconds that follows it.\<close>

fun write_paced ::
  "aead \<Rightarrow> 'r rng \<Rightarrow> nat \<Rightarrow> nat \<Rightarrow> timing_profile \<Rightarrow> (nat \<times> bytes) list \<Rightarrow> 'r \<Rightarrow> data_record_codec \<Rightarrow>
   (server_error + (bytes \<times> nat) list) \<times> data_record_codec \<times> 'r" where
  "write_paced A R aggregate_pad lst timing [] r dc = (Inr [], dc, r)"
| "write_paced A R aggregate_pad lst timing ((idx, chunk) # cks) r dc =
     (case (if idx = lst
            then (case seal_into_extra_padded A R chunk aggregate_pad r [] dc of (res, dc, r, buf) \<Rightarrow> (and_then res (\<lambda>_. Inr buf), dc, r))
            else data_seal A R chunk r dc) of
        (Inl e, dc, r) \<Rightarrow> (Inl (SrvDataRecord e), dc, r)
      | (Inr record, dc, r) \<Rightarrow>
          let (delay, r) = (if cks \<noteq> [] then server_identity_chunk_delay R timing r else (0, r))
          in (case write_paced A R aggregate_pad lst timing cks r dc of
                (res, rest) \<Rightarrow> (and_then res (\<lambda>ws. Inr ((record, delay) # ws)), rest)))"

definition write_server_identity_chunks ::
  "aead \<Rightarrow> 'r rng \<Rightarrow> bytes list \<Rightarrow> timing_profile \<Rightarrow> 'r \<Rightarrow> data_record_codec \<Rightarrow>
   (server_error + (bytes \<times> nat) list) \<times> data_record_codec \<times> 'r" where
  "write_server_identity_chunks A R identity_chunks timing r dc =
     (let (aggregate_pad, r) = aggregate_pad_len R r;
          lst = length identity_chunks - 1
      in if timing_is_enabled timing
         then write_paced A R aggregate_pad lst timing (List.enumerate 0 identity_chunks) r dc
         else
           (case seal_each (seal_flight_record A R aggregate_pad lst) (List.enumerate 0 identity_chunks) r [] dc of
              (Inl e, dc, r, _) \<Rightarrow> (Inl (SrvDataRecord e), dc, r)
            | (Inr _, dc, r, identity_records) \<Rightarrow> (Inr [(identity_records, 0)], dc, r)))"

text \<open>The rekey proper, from the reassembled request on. A malformed request and a replay end in a graceful close; the
  other failures end the task with an error.\<close>

datatype 'r rekey_outcome =
    RekeyClosed
  | Rekeyed bytes "(bytes \<times> nat) list" server_session 'r

definition server_pq_rekey ::
  "primitives \<Rightarrow> 'r rng \<Rightarrow> server_env \<Rightarrow> bytes \<Rightarrow> 'r \<Rightarrow> server_session \<Rightarrow> (server_error + 'r rekey_outcome) option" where
  "server_pq_rekey P R env first_payload r st =
     (case pq_decode first_payload of
        Inl _ \<Rightarrow> Some (Inr RekeyClosed)
      | Inr pq_rekey \<Rightarrow>
          try_bind (Some (se_commit env)) (\<lambda>fresh.
          if \<not> fresh then Some (Inr RekeyClosed)
          else
            let x25519_shared = x_shared (p_x25519 P) (se_ephemeral env) (pq_client_x25519_public pq_rekey);
                suite = server_data_cipher_suite (se_has_aes env)
            in
            try_bind (Some (map_err SrvPq (encapsulate (p_kem P) (se_coins env) (pq_client_mlkem_public_key pq_rekey)))) (\<lambda>enc.
            try_bind (Some (map_err SrvServerKeyExchange (ske_encode_with_suite
              \<lparr>ske_server_x25519_public = x_public (p_x25519 P) (se_ephemeral env), ske_mlkem_ciphertext = me_ciphertext enc\<rparr>
              suite))) (\<lambda>key_exchange_payload.
            let binding = pq_rekey_binding (p_sha P) first_payload key_exchange_payload;
                max_pq_chunk = pq_flight_max_chunk_size (codec_max_plaintext_len (sv_seal st))
            in
            (case framed_encode_all_browser_shaped R key_exchange_payload max_pq_chunk r of
               None \<Rightarrow> None
             | Some (Inl e, _) \<Rightarrow> Some (Inl (SrvFramedChunk e))
             | Some (Inr key_exchange_chunks, r) \<Rightarrow>
                 (case seal_pq_flight (p_aead P) R key_exchange_chunks r [] (sv_seal st) of
                    (Inl e, _) \<Rightarrow> Some (Inl (SrvDataRecord e))
                  | (Inr _, seal', r, key_exchange_record) \<Rightarrow>
                      try_bind (apply_server_pq_rekey P suite (sv_open st) seal' (sv_keys st) x25519_shared
                        (me_shared_secret enc) (se_sandwich_secret env)) (\<lambda>(rekeyed_keys, open', seal'').
                      try_bind (Some (map_err SrvIdentity (sign_server_identity (p_signature P) (se_identity_secret env)
                        (transcript_hash rekeyed_keys) (se_server_public_key env) binding (epoch rekeyed_keys)))) (\<lambda>sig.
                      try_bind (Some (map_err SrvServerIdentityProof (sip_encode \<lparr>sip_signature = sig\<rparr>))) (\<lambda>identity_payload.
                      (case identity_encode_all_browser_shaped R identity_payload max_pq_chunk r of
                         None \<Rightarrow> None
                       | Some (Inl e, _) \<Rightarrow> Some (Inl (SrvServerIdentityChunk e))
                       | Some (Inr identity_chunks, r) \<Rightarrow>
                           (case write_server_identity_chunks (p_aead P) R identity_chunks (se_timing env) r seal'' of
                              (Inl e, _) \<Rightarrow> Some (Inl e)
                            | (Inr ws, seal''', r) \<Rightarrow>
                                Some (Inr (Rekeyed key_exchange_record ws
                                  (st\<lparr>sv_open := open', sv_seal := seal''', sv_keys := rekeyed_keys\<rparr>) r)))))))))))))"

section \<open>Server: the loop before the rekey\<close>

definition PRE_PQ_FALLBACK_FORWARD_RECORD_LIMIT :: nat where
  "PRE_PQ_FALLBACK_FORWARD_RECORD_LIMIT = MAX_PRE_KEY_EXCHANGE_CAMOUFLAGE_RECORDS"

definition PRE_PQ_FALLBACK_FORWARD_BYTE_LIMIT :: nat where
  "PRE_PQ_FALLBACK_FORWARD_BYTE_LIMIT = MAX_PRE_KEY_EXCHANGE_CAMOUFLAGE_BYTES"

text \<open>The outcome of a forwarding write under the deadline.\<close>

datatype write_outcome = WriteOk | WritePeerClosed | WriteError | WriteDeadline

text \<open>The arms of the select: a record of the client, bytes available from the origin (none at end of file), each with
  the outcome of forwarding; the ends of the two sockets; the deadline.\<close>

datatype predata_event =
    ClientRecord bytes write_outcome
  | ClientClosed
  | ClientReadError
  | OriginBytes bytes write_outcome
  | OriginClosed
  | OriginReadError
  | PrePqDeadline

datatype forwarded = ToOrigin bytes | ToClient bytes | Silent

datatype 'r predata_result =
    PdContinue server_session forwarded
  | PdReturn "server_error + unit"
  | PdRekeyed bytes "(bytes \<times> nat) list" server_session 'r

fun rekey_result :: "server_error + 'r rekey_outcome \<Rightarrow> 'r predata_result" where
  "rekey_result (Inl e) = PdReturn (Inl e)"
| "rekey_result (Inr RekeyClosed) = PdReturn (Inr ())"
| "rekey_result (Inr (Rekeyed kx ws st r)) = PdRekeyed kx ws st r"

definition client_camouflage_step ::
  "bytes \<Rightarrow> write_outcome \<Rightarrow> data_record_error \<Rightarrow> server_session \<Rightarrow> 'r predata_result" where
  "client_camouflage_step client_record w e st =
     (if \<not> residual_error e then PdReturn (Inl (SrvDataRecord e))
      else
        let st = st\<lparr>sv_camouflage_records := sv_camouflage_records st + 1,
                    sv_camouflage_bytes := sv_camouflage_bytes st + length client_record\<rparr>
        in if sv_camouflage_records st > PRE_PQ_FALLBACK_FORWARD_RECORD_LIMIT then PdReturn (Inr ())
           else if \<not> sv_fallback_open st then PdContinue st Silent
           else (case w of
                   WriteOk \<Rightarrow> PdContinue st (ToOrigin client_record)
                 | WritePeerClosed \<Rightarrow> PdContinue (st\<lparr>sv_fallback_open := False\<rparr>) Silent
                 | WriteError \<Rightarrow> PdReturn (Inl SrvIo)
                 | WriteDeadline \<Rightarrow> PdReturn (Inr ())))"

definition client_record_step ::
  "primitives \<Rightarrow> 'r rng \<Rightarrow> server_env \<Rightarrow> bytes \<Rightarrow> write_outcome \<Rightarrow> 'r \<Rightarrow> server_session \<Rightarrow> 'r predata_result option" where
  "client_record_step P R env client_record w r st =
     (case data_open (p_aead P) client_record (sv_open st) of
        (Inr chunk_payload, open') \<Rightarrow>
          let st = st\<lparr>sv_open := open'\<rparr>
          in (case reassembler_push (sv_reassembler st) chunk_payload MAX_PQ_HANDSHAKE_FRAME of
                (Inl _, _) \<Rightarrow> Some (PdReturn (Inr ()))
              | (Inr None, reassembler) \<Rightarrow> Some (PdContinue (st\<lparr>sv_reassembler := reassembler\<rparr>) Silent)
              | (Inr (Some first_payload), reassembler) \<Rightarrow>
                  map_option rekey_result (server_pq_rekey P R env first_payload r (st\<lparr>sv_reassembler := reassembler\<rparr>)))
      | (Inl e, open') \<Rightarrow> Some (client_camouflage_step client_record w e (st\<lparr>sv_open := open'\<rparr>)))"

text \<open>The origin arm is disabled when its half is closed or the byte budget is used up; a read takes at most the rest
  of the budget and the size of the buffer.\<close>

definition origin_read_cap :: "server_session \<Rightarrow> nat" where
  "origin_read_cap st =
     min (PRE_PQ_FALLBACK_FORWARD_BYTE_LIMIT - sv_fallback_bytes st) (relay_read_buffer_len (max_plaintext_len 0))"

definition origin_bytes_step :: "bytes \<Rightarrow> write_outcome \<Rightarrow> server_session \<Rightarrow> 'r predata_result" where
  "origin_bytes_step available w st =
     (if \<not> (sv_fallback_open st \<and> sv_fallback_bytes st < PRE_PQ_FALLBACK_FORWARD_BYTE_LIMIT) then PdContinue st Silent
      else
        let bs = take (origin_read_cap st) available
        in if bs = [] then PdContinue (st\<lparr>sv_fallback_open := False\<rparr>) Silent
           else
             let st = st\<lparr>sv_fallback_bytes := sv_fallback_bytes st + length bs\<rparr>
             in (case w of
                   WriteOk \<Rightarrow> PdContinue st (ToClient bs)
                 | WritePeerClosed \<Rightarrow> PdReturn (Inr ())
                 | WriteError \<Rightarrow> PdReturn (Inl SrvIo)
                 | WriteDeadline \<Rightarrow> PdReturn (Inr ())))"

fun predata_step ::
  "primitives \<Rightarrow> 'r rng \<Rightarrow> server_env \<Rightarrow> 'r \<Rightarrow> predata_event \<Rightarrow> server_session \<Rightarrow> 'r predata_result option" where
  "predata_step P R env r (ClientRecord record w) st = client_record_step P R env record w r st"
| "predata_step P R env r ClientClosed st = Some (PdReturn (Inr ()))"
| "predata_step P R env r ClientReadError st = Some (PdReturn (Inl SrvIo))"
| "predata_step P R env r (OriginBytes available w) st = Some (origin_bytes_step available w st)"
| "predata_step P R env r OriginClosed st =
     Some (PdContinue (if sv_fallback_open st \<and> sv_fallback_bytes st < PRE_PQ_FALLBACK_FORWARD_BYTE_LIMIT
       then st\<lparr>sv_fallback_open := False\<rparr> else st) Silent)"
| "predata_step P R env r OriginReadError st =
     Some (if sv_fallback_open st \<and> sv_fallback_bytes st < PRE_PQ_FALLBACK_FORWARD_BYTE_LIMIT
       then PdReturn (Inl SrvIo) else PdContinue st Silent)"
| "predata_step P R env r PrePqDeadline st = Some (PdReturn (Inr ()))"

text \<open>A run of the loop: what it forwarded, and how it stands.\<close>

fun predata_run ::
  "primitives \<Rightarrow> 'r rng \<Rightarrow> server_env \<Rightarrow> 'r \<Rightarrow> predata_event list \<Rightarrow> server_session \<Rightarrow>
   (forwarded list \<times> 'r predata_result) option" where
  "predata_run P R env r [] st = Some ([], PdContinue st Silent)"
| "predata_run P R env r (e # es) st =
     (case predata_step P R env r e st of
        None \<Rightarrow> None
      | Some (PdContinue st' out) \<Rightarrow> map_option (\<lambda>(outs, res). (out # outs, res)) (predata_run P R env r es st')
      | Some res \<Rightarrow> Some ([], res))"

end
