(* ===== verification/Pq_Agreement.thy ===== *)
theory Pq_Agreement
  imports Pq_Handshake
begin

text \<open>
  The handshake as a whole. Any interleaving of the origin's bytes with the client's records lets the server finish the
  rekey; a client that reads what the server then wrote, after camouflage records it cannot open, derives the same keys,
  checks the identity and ends with the mirror image of the server's codecs.
\<close>

section \<open>The client's side\<close>

lemma residual_camouflage_iff: "is_residual_camouflage_record (CheDataRecord e) \<longleftrightarrow> residual_error e"
  by (cases e) (simp_all add: residual_error_def)

text \<open>A whole record that does not open under the codec.\<close>

definition residual_record :: "aead \<Rightarrow> data_record_codec \<Rightarrow> bytes \<Rightarrow> bool" where
  "residual_record A dc rec \<longleftrightarrow> (\<exists>h. parse_header rec = Inr h \<and> total_len h = length rec) \<and>
     (\<exists>e. fst (data_open A rec dc) = Inl e \<and> residual_error e)"

lemma residual_recordE:
  assumes "residual_record A dc rec"
  obtains e rec' where "data_open A rec dc = (Inl e, dc)" "residual_error e"
    "open_in_place_payload_range A rec dc = (Inl e, dc, rec')" "length rec' = length rec" "0 < length rec"
proof -
  obtain h e dc' where h: "parse_header rec = Inr h" "total_len h = length rec"
    and e: "data_open A rec dc = (Inl e, dc')" "residual_error e"
    using assms unfolding residual_record_def by (metis fst_conv surj_pair)
  have "0 < length rec"
    using parse_header_Inr [OF h(1)] by (simp add: TLS_HEADER_LEN_def del: length_greater_0_conv)
  then show ?thesis
    using residual_open [OF e h] e that by blast
qed

lemma after_residuals_skip:
  "(\<And>rec. rec \<in> set recs \<Longrightarrow> residual_record (p_aead P) (cs_open s) rec) \<Longrightarrow>
   n + length (concat recs) \<le> MAX_RESIDUAL_CAMOUFLAGE_BYTES_BEFORE_KEY_EXCHANGE \<Longrightarrow>
   after_residuals P pending psk (recs @ rest) n reasm s =
     after_residuals P pending psk rest (n + length (concat recs)) reasm s"
proof (induction recs arbitrary: n)
  case (Cons rec recs)
  obtain e rec' where o: "open_in_place_payload_range (p_aead P) rec (cs_open s) = (Inl e, cs_open s, rec')"
    "length rec' = length rec" "residual_error e" "0 < length rec"
    by (rule residual_recordE [OF Cons.prems(1) [of rec]]) simp_all
  have "apply_server_key_exchange_record_blocking P rec pending psk reasm s =
      Some (Inl (CrHandshake (CheDataRecord e)), s, reasm, rec')"
    by (simp add: apply_server_key_exchange_record_blocking_def open_server_record_in_place_payload_range_def o)
  moreover have "n < MAX_RESIDUAL_CAMOUFLAGE_BYTES_BEFORE_KEY_EXCHANGE"
    using Cons.prems(2) o(4) by (simp only: concat.simps length_append)
  ultimately show ?case
    using Cons.IH [of "n + length rec"] Cons.prems o(2,3) by (simp add: residual_camouflage_iff add.assoc)
qed simp

lemma wire_Cons:
  "wire A c aad sq (p # ps) recs \<longleftrightarrow> (\<exists>rec recs'. recs = rec # recs' \<and> wire_record A c aad sq p rec \<and> wire A c aad (sq + 1) ps recs')"
  by (cases recs) simp_all

lemma after_residuals_flight:
  assumes "aead_correct (p_aead P)" and "length payload \<le> MAX_PQ_HANDSHAKE_FRAME"
    and "apply_key_exchange_payload P payload pending psk (s\<lparr>cs_open := dc_next (length ss) (cs_open s)\<rparr>) = Some (Inr (), s')"
    and "\<not> poisoned (ac_records (dc_aead (cs_open s)))" and "tiles payload off ss" and "ss \<noteq> []"
    and "wire (p_aead P) (dc_aead (cs_open s)) (dc_aad (cs_open s)) (codec_sequence (dc_aead (cs_open s)))
      (map (chunk_wire FRAMED_CHUNK_MAGIC) (cut_at payload off ss)) recs"
  shows "after_residuals P pending psk (recs @ rest) n (partial_state payload off) s = Some (Inr rest, s')"
  using assms(3-7)
proof (induction ss arbitrary: off s recs)
  case (Cons z zs)
  let ?c = "chunk_wire FRAMED_CHUNK_MAGIC \<lparr>oc_total_len = of_nat (length payload), oc_offset = of_nat off, oc_bytes = take z (drop off payload)\<rparr>"
  let ?s = "s\<lparr>cs_open := dc_next 1 (cs_open s)\<rparr>"
  obtain rec recs' where r: "recs = rec # recs'"
    "wire_record (p_aead P) (dc_aead (cs_open s)) (dc_aad (cs_open s)) (codec_sequence (dc_aead (cs_open s))) ?c rec"
    "wire (p_aead P) (dc_aead (cs_open s)) (dc_aad (cs_open s)) (codec_sequence (dc_aead (cs_open s)) + 1)
      (map (chunk_wire FRAMED_CHUNK_MAGIC) (cut_at payload (off + z) zs)) recs'"
    using Cons.prems(5) by (auto simp: wire_Cons)
  have l: "TLS_HEADER_LEN \<le> length rec"
    using wire_record_parse [OF assms(1) r(2), of "[]"] parse_header_Inr by (metis append_Nil2 parse_exact_Inr)
  have o: "open_server_record_in_place_payload_range P rec s =
      (Inr (TLS_HEADER_LEN, TLS_HEADER_LEN + length ?c), ?s, take TLS_HEADER_LEN rec @ ?c)"
    by (simp add: open_server_record_in_place_payload_range_def wire_record_open(2) [OF assms(1) Cons.prems(2) r(2)])
  have p: "drop TLS_HEADER_LEN (take (TLS_HEADER_LEN + length ?c) (take TLS_HEADER_LEN rec @ ?c)) = ?c"
    using l by simp
  note push = push_cut_head [OF Cons.prems(3) assms(2)]
  show ?case
  proof (cases "zs = []")
    case True
    then have "apply_server_key_exchange_record_blocking P rec pending psk (partial_state payload off) s =
        Some (Inr True, s', reassembler_default, take TLS_HEADER_LEN rec @ ?c)"
      using o p push Cons.prems(1) by (simp add: apply_server_key_exchange_record_blocking_def)
    moreover have "recs' = []"
      using r(3) True by (cases recs') simp_all
    ultimately show ?thesis
      by (simp add: r(1))
  next
    case False
    then have "apply_server_key_exchange_record_blocking P rec pending psk (partial_state payload off) s =
        Some (Inr False, ?s, partial_state payload (off + z), take TLS_HEADER_LEN rec @ ?c)"
      using o p push by (simp add: apply_server_key_exchange_record_blocking_def)
    moreover have "after_residuals P pending psk (recs' @ rest) n (partial_state payload (off + z)) ?s = Some (Inr rest, s')"
      by (rule Cons.IH) (use Cons.prems False r(3) in \<open>simp_all add: tiles_Cons\<close>)
    ultimately show ?thesis
      by (simp add: r(1))
  qed
qed simp

lemma read_identity_flight:
  assumes "aead_correct (p_aead P)" and "length payload \<le> MAX_SERVER_IDENTITY_PAYLOAD"
    and "\<not> poisoned (ac_records (dc_aead (cs_open s)))" and "tiles payload off ss" and "ss \<noteq> []"
    and "expected = None \<or> expected = Some (length payload)"
    and "wire (p_aead P) (dc_aead (cs_open s)) (dc_aad (cs_open s)) (codec_sequence (dc_aead (cs_open s)))
      (map (chunk_wire SERVER_IDENTITY_CHUNK_MAGIC) (cut_at payload off ss)) recs"
  shows "read_identity_records P expected (take off payload) (recs @ rest) s =
    (Inr (payload, rest), s\<lparr>cs_open := dc_next (length ss) (cs_open s)\<rparr>)"
  using assms(3-7)
proof (induction ss arbitrary: off s recs expected)
  case (Cons z zs)
  let ?c = "\<lparr>oc_total_len = of_nat (length payload), oc_offset = of_nat off, oc_bytes = take z (drop off payload)\<rparr>"
  let ?s = "s\<lparr>cs_open := dc_next 1 (cs_open s)\<rparr>"
  note ok = cut_head_ok [OF Cons.prems(2)]
  have le: "0 < z" "off + z \<le> length payload" and t: "tiles payload (off + z) zs"
    using Cons.prems(2) by (simp_all add: tiles_Cons)
  have last: "zs = [] \<longleftrightarrow> off + z = length payload"
    using t by (cases zs) (auto simp: tiles_def)
  obtain rec recs' where r: "recs = rec # recs'"
    "wire_record (p_aead P) (dc_aead (cs_open s)) (dc_aad (cs_open s)) (codec_sequence (dc_aead (cs_open s)))
      (chunk_wire SERVER_IDENTITY_CHUNK_MAGIC ?c) rec"
    "wire (p_aead P) (dc_aead (cs_open s)) (dc_aad (cs_open s)) (codec_sequence (dc_aead (cs_open s)) + 1)
      (map (chunk_wire SERVER_IDENTITY_CHUNK_MAGIC) (cut_at payload (off + z) zs)) recs'"
    using Cons.prems(5) by (auto simp: wire_Cons)
  have o: "open_server_record_in_place P rec s = (Inr (), ?s, chunk_wire SERVER_IDENTITY_CHUNK_MAGIC ?c)"
    by (simp add: open_server_record_in_place_def wire_record_open(3) [OF assms(1) Cons.prems(1) r(2)])
  have dec: "identity_chunk_decode (chunk_wire SERVER_IDENTITY_CHUNK_MAGIC ?c) = Inr ?c"
    by (simp add: identity_chunk_decode_def chunk_roundtrip [OF ok(1)])
  have app: "take off payload @ take z (drop off payload) = take (off + z) payload"
    by (simp add: take_add)
  have len: "length (take off payload) = off" "length (take (off + z) payload) = off + z" "length payload \<noteq> 0"
    "\<not> MAX_SERVER_IDENTITY_PAYLOAD < length payload" "\<not> off + z > length payload"
    using le assms(2) by auto
  have ih: "read_identity_records P (Some (length payload)) (take (off + z) payload) (recs' @ rest) ?s =
      (Inr (payload, rest), s\<lparr>cs_open := dc_next (Suc (length zs)) (cs_open s)\<rparr>)" if "zs \<noteq> []"
    using Cons.IH [of ?s "off + z" "Some (length payload)" recs'] Cons.prems(1) t r(3) that by simp
  have nil: "recs' = []" if "zs = []"
    using r(3) that by (cases recs') simp_all
  have e: "(case expected of None \<Rightarrow> False | Some expected \<Rightarrow> expected \<noteq> length payload) = False"
    using Cons.prems(4) by auto
  show ?case
    unfolding r(1) append_Cons read_identity_records.simps o prod.case sum.case dec Let_def offset_chunk.simps ok(2,3) app e
    using len ih last nil by (cases "zs = []") simp_all
qed simp

section \<open>The server's side\<close>

fun client_records :: "predata_event list \<Rightarrow> bytes list" where
  "client_records [] = []"
| "client_records (ClientRecord record w # es) = record # client_records es"
| "client_records (_ # es) = client_records es"

fun forwarded_bytes :: "forwarded \<Rightarrow> bytes" where
  "forwarded_bytes (ToClient bs) = bs"
| "forwarded_bytes _ = []"

text \<open>Everything the server wrote to the client before the key exchange.\<close>

definition to_client :: "forwarded list \<Rightarrow> bytes" where
  "to_client outs = concat (map forwarded_bytes outs)"

text \<open>Events that do not end the loop by themselves: the origin may close at any time, on either half.\<close>

fun benign :: "predata_event \<Rightarrow> bool" where
  "benign (ClientRecord record w) \<longleftrightarrow> w = WriteOk \<or> w = WritePeerClosed"
| "benign (OriginBytes available w) \<longleftrightarrow> w = WriteOk"
| "benign OriginClosed \<longleftrightarrow> True"
| "benign _ \<longleftrightarrow> False"

fun from_client :: "predata_event \<Rightarrow> bool" where
  "from_client (ClientRecord record w) \<longleftrightarrow> True"
| "from_client _ \<longleftrightarrow> False"

lemma client_records_Cons: "\<not> from_client e \<Longrightarrow> client_records (e # es) = client_records es"
  by (cases e) simp_all

text \<open>The part of the state that an origin event may change.\<close>

definition origin_change :: "server_session \<Rightarrow> server_session \<Rightarrow> forwarded \<Rightarrow> bool" where
  "origin_change st st' out \<longleftrightarrow> (\<exists>b o'. st' = st\<lparr>sv_fallback_bytes := b, sv_fallback_open := o'\<rparr> \<and>
     b = sv_fallback_bytes st + length (forwarded_bytes out) \<and> b \<le> PRE_PQ_FALLBACK_FORWARD_BYTE_LIMIT)"

lemma origin_step:
  assumes "benign e" and "\<not> from_client e" and "sv_fallback_bytes st \<le> PRE_PQ_FALLBACK_FORWARD_BYTE_LIMIT"
  obtains st' out where "predata_step P R env r e st = Some (PdContinue st' out)" "origin_change st st' out"
proof -
  have id: "st = st\<lparr>sv_fallback_bytes := sv_fallback_bytes st, sv_fallback_open := sv_fallback_open st\<rparr>"
    by simp
  show ?thesis
  proof (cases e)
    case (OriginBytes available w)
    let ?bs = "take (origin_read_cap st) available"
    have le: "length ?bs \<le> PRE_PQ_FALLBACK_FORWARD_BYTE_LIMIT - sv_fallback_bytes st"
      by (simp add: origin_read_cap_def)
    show ?thesis
    proof (cases "sv_fallback_open st \<and> sv_fallback_bytes st < PRE_PQ_FALLBACK_FORWARD_BYTE_LIMIT")
      case False
      then have "predata_step P R env r e st = Some (PdContinue st Silent)"
        unfolding OriginBytes predata_step.simps origin_bytes_step_def by simp
      then show ?thesis
        using that id assms(3) by (metis origin_change_def forwarded_bytes.simps(3) list.size(3) add_0_right)
    next
      case True
      have w: "w = WriteOk"
        using assms(1) OriginBytes by simp
      show ?thesis
      proof (cases "?bs = []")
        case T: True
        then have s: "predata_step P R env r e st = Some (PdContinue (st\<lparr>sv_fallback_open := False\<rparr>) Silent)"
          unfolding OriginBytes predata_step.simps origin_bytes_step_def using True by simp
        have "origin_change st (st\<lparr>sv_fallback_open := False\<rparr>) Silent"
          unfolding origin_change_def
          by (intro exI [of _ "sv_fallback_bytes st"] exI [of _ False]) (use assms(3) in simp)
        then show ?thesis
          using that s by blast
      next
        case F: False
        let ?st = "st\<lparr>sv_fallback_bytes := sv_fallback_bytes st + length ?bs\<rparr>"
        have s: "predata_step P R env r e st = Some (PdContinue ?st (ToClient ?bs))"
          unfolding OriginBytes predata_step.simps origin_bytes_step_def using True F w by simp
        have "origin_change st ?st (ToClient ?bs)"
          unfolding origin_change_def
          by (intro exI [of _ "sv_fallback_bytes st + length ?bs"] exI [of _ "sv_fallback_open st"]) (use le assms(3) in simp)
        then show ?thesis
          using that s by blast
      qed
    qed
  next
    case OriginClosed
    have c: "origin_change st (st\<lparr>sv_fallback_open := x\<rparr>) Silent" for x
      unfolding origin_change_def by (intro exI [of _ "sv_fallback_bytes st"] exI [of _ x]) (use assms(3) in simp)
    have "origin_change st st Silent"
      using c [of "sv_fallback_open st"] by simp
    then show ?thesis
      using that c [of False] OriginClosed by (metis predata_step.simps(5))
  qed (use assms in simp_all)
qed

text \<open>A camouflage record of the client is counted and forwarded or dropped.\<close>

lemma camouflage_step:
  assumes "residual_record (p_aead P) (sv_open st) rec" and "w = WriteOk \<or> w = WritePeerClosed"
    and "sv_camouflage_records st < PRE_PQ_FALLBACK_FORWARD_RECORD_LIMIT"
  obtains o' out where "predata_step P R env r (ClientRecord rec w) st =
      Some (PdContinue (st\<lparr>sv_camouflage_records := sv_camouflage_records st + 1,
        sv_camouflage_bytes := sv_camouflage_bytes st + length rec, sv_fallback_open := o'\<rparr>) out)" "forwarded_bytes out = []"
proof -
  obtain e where e: "data_open (p_aead P) rec (sv_open st) = (Inl e, sv_open st)" "residual_error e"
    by (rule residual_recordE [OF assms(1)])
  let ?st = "st\<lparr>sv_camouflage_records := sv_camouflage_records st + 1, sv_camouflage_bytes := sv_camouflage_bytes st + length rec\<rparr>"
  have s: "predata_step P R env r (ClientRecord rec w) st =
      (if \<not> sv_fallback_open st then Some (PdContinue ?st Silent)
       else Some (case w of
           WriteOk \<Rightarrow> PdContinue ?st (ToOrigin rec)
         | WritePeerClosed \<Rightarrow> PdContinue (?st\<lparr>sv_fallback_open := False\<rparr>) Silent
         | WriteError \<Rightarrow> PdReturn (Inl SrvIo)
         | WriteDeadline \<Rightarrow> PdReturn (Inr ())))"
    using e assms(3) by (cases w) (simp_all add: client_record_step_def client_camouflage_step_def Let_def)
  show ?thesis
    using s assms(2) that [of "sv_fallback_open st"] that [of False Silent] by (cases "sv_fallback_open st") auto
qed

text \<open>A run that reaches the rekey with the reassembled request after \<open>n\<close> opened records.\<close>

definition reaches_rekey ::
  "primitives \<Rightarrow> 'r rng \<Rightarrow> server_env \<Rightarrow> 'r \<Rightarrow> bytes \<Rightarrow> predata_event list \<Rightarrow> server_session \<Rightarrow> nat \<Rightarrow> bool" where
  "reaches_rekey P R env r payload es st n \<longleftrightarrow> (\<exists>outs st'.
     predata_run P R env r es st = map_option (\<lambda>res. (outs, rekey_result res)) (server_pq_rekey P R env payload r st') \<and>
     sv_open st' = dc_next n (sv_open st) \<and> sv_seal st' = sv_seal st \<and> sv_keys st' = sv_keys st \<and>
     sv_fallback_bytes st + length (to_client outs) \<le> PRE_PQ_FALLBACK_FORWARD_BYTE_LIMIT)"

lemma reaches_step:
  assumes "predata_step P R env r e st = Some (PdContinue st1 out)" and "reaches_rekey P R env r payload es st1 n"
    and "sv_open st1 = dc_next m (sv_open st)" and "sv_seal st1 = sv_seal st" and "sv_keys st1 = sv_keys st"
    and "sv_fallback_bytes st1 = sv_fallback_bytes st + length (forwarded_bytes out)"
  shows "reaches_rekey P R env r payload (e # es) st (m + n)"
proof -
  obtain outs st' where "predata_run P R env r es st1 =
        map_option (\<lambda>res. (outs, rekey_result res)) (server_pq_rekey P R env payload r st')"
      "sv_open st' = dc_next n (sv_open st1)" "sv_seal st' = sv_seal st1" "sv_keys st' = sv_keys st1"
      "sv_fallback_bytes st1 + length (to_client outs) \<le> PRE_PQ_FALLBACK_FORWARD_BYTE_LIMIT"
    using assms(2) unfolding reaches_rekey_def by blast
  then show ?thesis
    unfolding reaches_rekey_def
    by (intro exI [of _ "out # outs"] exI [of _ st'])
      (use assms in \<open>simp add: option.map_comp comp_def to_client_def\<close>)
qed

lemma reaches_origin:
  assumes "benign e" and "\<not> from_client e" and "sv_fallback_bytes st \<le> PRE_PQ_FALLBACK_FORWARD_BYTE_LIMIT"
    and "\<And>b o'. b \<le> PRE_PQ_FALLBACK_FORWARD_BYTE_LIMIT \<Longrightarrow>
      reaches_rekey P R env r payload es (st\<lparr>sv_fallback_bytes := b, sv_fallback_open := o'\<rparr>) n"
  shows "reaches_rekey P R env r payload (e # es) st n"
proof -
  obtain st1 out where s: "predata_step P R env r e st = Some (PdContinue st1 out)" "origin_change st st1 out"
    by (rule origin_step [OF assms(1-3)])
  obtain b o' where b: "st1 = st\<lparr>sv_fallback_bytes := b, sv_fallback_open := o'\<rparr>"
    "b = sv_fallback_bytes st + length (forwarded_bytes out)" "b \<le> PRE_PQ_FALLBACK_FORWARD_BYTE_LIMIT"
    using s(2) unfolding origin_change_def by blast
  show ?thesis
    using reaches_step [OF s(1), of payload es n 0] assms(4) [OF b(3), of o'] b(1,2) by simp
qed

text \<open>The records of the rekey request, in any interleaving with the origin.\<close>

lemma predata_run_flight:
  assumes A: "aead_correct (p_aead P)" and cap: "length payload \<le> MAX_PQ_HANDSHAKE_FRAME"
  shows "list_all benign es \<Longrightarrow> client_records es = recs \<Longrightarrow> tiles payload off ss \<Longrightarrow> ss \<noteq> [] \<Longrightarrow>
    \<not> poisoned (ac_records (dc_aead (sv_open st))) \<Longrightarrow> sv_reassembler st = partial_state payload off \<Longrightarrow>
    sv_fallback_bytes st \<le> PRE_PQ_FALLBACK_FORWARD_BYTE_LIMIT \<Longrightarrow>
    wire (p_aead P) (dc_aead (sv_open st)) (dc_aad (sv_open st)) (codec_sequence (dc_aead (sv_open st)))
      (map (chunk_wire FRAMED_CHUNK_MAGIC) (cut_at payload off ss)) recs \<Longrightarrow>
    reaches_rekey P R env r payload es st (length ss)"
proof (induction es arbitrary: recs off ss st)
  case Nil
  then show ?case
    by (cases ss) simp_all
next
  case (Cons e es)
  show ?case
  proof (cases "from_client e")
    case False
    then show ?thesis
      using Cons.prems by (intro reaches_origin Cons.IH [of recs off ss]) (simp_all add: client_records_Cons)
  next
    case True
    then obtain rec w where e: "e = ClientRecord rec w" by (cases e) simp_all
    obtain z zs where ss: "ss = z # zs" using Cons.prems(4) by (cases ss) simp_all
    let ?c = "chunk_wire FRAMED_CHUNK_MAGIC \<lparr>oc_total_len = of_nat (length payload), oc_offset = of_nat off, oc_bytes = take z (drop off payload)\<rparr>"
    have r: "wire_record (p_aead P) (dc_aead (sv_open st)) (dc_aad (sv_open st)) (codec_sequence (dc_aead (sv_open st))) ?c rec"
      "wire (p_aead P) (dc_aead (sv_open st)) (dc_aad (sv_open st)) (codec_sequence (dc_aead (sv_open st)) + 1)
        (map (chunk_wire FRAMED_CHUNK_MAGIC) (cut_at payload (off + z) zs)) (client_records es)"
      using Cons.prems(2,8) e by (auto simp: ss)
    note o = wire_record_open(1) [OF A Cons.prems(5) r(1)]
    have t: "tiles payload off (z # zs)"
      using Cons.prems(3) ss by simp
    note push = push_cut_head [OF t cap]
    let ?st = "\<lambda>x. st\<lparr>sv_open := dc_next 1 (sv_open st), sv_reassembler := x\<rparr>"
    show ?thesis
    proof (cases "zs = []")
      case True
      have "predata_step P R env r e st = map_option rekey_result (server_pq_rekey P R env payload r (?st reassembler_default))"
        using o push True Cons.prems(6) by (simp add: e client_record_step_def client_camouflage_step_def Let_def)
      moreover have "rekey_result res \<noteq> PdContinue s out" for res :: "server_error + 'a rekey_outcome" and s out
        by (cases res rule: rekey_result.cases) simp_all
      ultimately have "predata_run P R env r (e # es) st =
          map_option (\<lambda>res. ([], rekey_result res)) (server_pq_rekey P R env payload r (?st reassembler_default))"
        by (auto split: option.splits predata_result.splits)
      then show ?thesis
        unfolding reaches_rekey_def
        by (intro exI [of _ "[]"] exI [of _ "?st reassembler_default"]) (use Cons.prems(7) True in \<open>simp add: ss to_client_def\<close>)
    next
      case False
      have s: "predata_step P R env r e st = Some (PdContinue (?st (partial_state payload (off + z))) Silent)"
        using o push False Cons.prems(6) by (simp add: e client_record_step_def client_camouflage_step_def Let_def)
      have "reaches_rekey P R env r payload es (?st (partial_state payload (off + z))) (length zs)"
        by (rule Cons.IH [of "client_records es" "off + z"]) (use Cons.prems False t r(2) in \<open>simp_all add: tiles_Cons\<close>)
      from reaches_step [OF s this, of 1] show ?thesis
        by (simp add: ss)
    qed
  qed
qed

text \<open>Before them, up to 64 camouflage records.\<close>

lemma predata_run_camouflage:
  assumes A: "aead_correct (p_aead P)" and cap: "length payload \<le> MAX_PQ_HANDSHAKE_FRAME" and t: "tiles payload 0 ss" and ne: "ss \<noteq> []"
  shows "list_all benign es \<Longrightarrow> client_records es = cam @ recs \<Longrightarrow> sv_reassembler st = reassembler_default \<Longrightarrow>
    \<not> poisoned (ac_records (dc_aead (sv_open st))) \<Longrightarrow>
    sv_fallback_bytes st \<le> PRE_PQ_FALLBACK_FORWARD_BYTE_LIMIT \<Longrightarrow>
    sv_camouflage_records st + length cam \<le> PRE_PQ_FALLBACK_FORWARD_RECORD_LIMIT \<Longrightarrow>
    (\<And>rec. rec \<in> set cam \<Longrightarrow> residual_record (p_aead P) (sv_open st) rec) \<Longrightarrow>
    wire (p_aead P) (dc_aead (sv_open st)) (dc_aad (sv_open st)) (codec_sequence (dc_aead (sv_open st)))
      (map (chunk_wire FRAMED_CHUNK_MAGIC) (cut_at payload 0 ss)) recs \<Longrightarrow>
    reaches_rekey P R env r payload es st (length ss)"
proof (induction es arbitrary: cam st)
  case Nil
  then show ?case
    using ne by (cases ss) simp_all
next
  case (Cons e es)
  show ?case
  proof (cases "from_client e")
    case False
    then show ?thesis
      using Cons.prems by (intro reaches_origin Cons.IH [of cam]) (simp_all add: client_records_Cons)
  next
    case True
    then obtain rec w where e: "e = ClientRecord rec w" by (cases e) simp_all
    show ?thesis
    proof (cases cam)
      case Nil
      then show ?thesis
        using predata_run_flight [OF A cap Cons.prems(1), of recs 0 ss st] t ne Cons.prems by (simp add: partial_state_0)
    next
      case (Cons c cs)
      have "residual_record (p_aead P) (sv_open st) rec" "w = WriteOk \<or> w = WritePeerClosed"
        "sv_camouflage_records st < PRE_PQ_FALLBACK_FORWARD_RECORD_LIMIT"
        using Cons.prems Cons e by simp_all
      then obtain o' out where s: "predata_step P R env r (ClientRecord rec w) st =
          Some (PdContinue (st\<lparr>sv_camouflage_records := sv_camouflage_records st + 1,
            sv_camouflage_bytes := sv_camouflage_bytes st + length rec, sv_fallback_open := o'\<rparr>) out)" "forwarded_bytes out = []"
        by (rule camouflage_step)
      have "reaches_rekey P R env r payload es (st\<lparr>sv_camouflage_records := sv_camouflage_records st + 1,
            sv_camouflage_bytes := sv_camouflage_bytes st + length rec, sv_fallback_open := o'\<rparr>) (length ss)"
        by (rule Cons.IH [of cs]) (use Cons.prems Cons e in simp_all)
      from reaches_step [OF s(1) this, of 0] s(2) show ?thesis
        by (simp add: e)
    qed
  qed
qed

section \<open>Flights\<close>

text \<open>The sizes of a flight: chunks that tile the payload and leave room for the aggregate pad.\<close>

lemma flight_sizes:
  assumes "rng_correct R" and "payload \<noteq> []" and "length payload \<le> MAX_SERVER_IDENTITY_PAYLOAD" and "1024 \<le> mp"
  obtains ss r' where
    "framed_encode_all_browser_shaped R payload (pq_flight_max_chunk_size mp) r =
       Some (Inr (map (chunk_wire FRAMED_CHUNK_MAGIC) (cut_at payload 0 ss)), r')"
    "identity_encode_all_browser_shaped R payload (pq_flight_max_chunk_size mp) r =
       Some (Inr (map (chunk_wire SERVER_IDENTITY_CHUNK_MAGIC) (cut_at payload 0 ss)), r')"
    "tiles payload 0 ss" "ss \<noteq> []"
    "\<And>c magic. magic = FRAMED_CHUNK_MAGIC \<or> magic = SERVER_IDENTITY_CHUNK_MAGIC \<Longrightarrow>
       c \<in> set (map (chunk_wire magic) (cut_at payload 0 ss)) \<Longrightarrow> length c + PQ_FLIGHT_AGGREGATE_PAD_MAX \<le> mp"
proof -
  let ?hi = "min 1459 (max (pq_flight_max_chunk_size mp) 144)"
  have len32: "length payload < 2 ^ 32"
    using assms(3) by (simp add: MAX_SERVER_IDENTITY_PAYLOAD_def)
  obtain ss r' where ss: "browser_shaped_sizes R (length payload) (pq_flight_max_chunk_size mp) r = Some (ss, r')"
    and ok: "sizes_ok 144 ?hi (length payload) ss"
    using browser_shaped_sizes_ok [OF assms(1)] assms(2) by blast
  note f = framed_sizes_flight [OF ok len32] and i = identity_sizes_flight [OF ok len32]
  show ?thesis
  proof (rule that)
    show "framed_encode_all_browser_shaped R payload (pq_flight_max_chunk_size mp) r =
        Some (Inr (map (chunk_wire FRAMED_CHUNK_MAGIC) (cut_at payload 0 ss)), r')"
      using assms(2) len32 ss f(1) by (simp add: framed_encode_all_browser_shaped_def)
    show "identity_encode_all_browser_shaped R payload (pq_flight_max_chunk_size mp) r =
        Some (Inr (map (chunk_wire SERVER_IDENTITY_CHUNK_MAGIC) (cut_at payload 0 ss)), r')"
      using assms(2) len32 ss i(1) by (simp add: identity_encode_all_browser_shaped_def)
    show "tiles payload 0 ss" "ss \<noteq> []"
      using sizes_ok_tiles [OF ok len32] sizes_ok_nonempty [OF ok] assms(2) by simp_all
    show "length c + PQ_FLIGHT_AGGREGATE_PAD_MAX \<le> mp"
      if "magic = FRAMED_CHUNK_MAGIC \<or> magic = SERVER_IDENTITY_CHUNK_MAGIC"
        "c \<in> set (map (chunk_wire magic) (cut_at payload 0 ss))" for c magic
    proof -
      have "length c \<le> 16 + ?hi"
        using that f(2) i(2) by blast
      then show ?thesis
        using flight_cap(1) [OF assms(4)] by linarith
    qed
  qed
qed

lemma length_cut_at [simp]: "length (cut_at payload off ss) = length ss"
  by (induction ss arbitrary: off) simp_all

lemma tiles_count: "tiles payload off ss \<Longrightarrow> length ss \<le> length payload"
proof -
  assume t: "tiles payload off ss"
  have "length ss \<le> sum_list ss" if "\<forall>s \<in> set ss. 0 < s"
    using that by (induction ss) auto
  then show ?thesis
    using t by (auto simp: tiles_def)
qed

lemma flight_budget:
  assumes "fresh_codec dc" and "tiles payload 0 ss" and "ss \<noteq> []" and "length payload \<le> MAX_SERVER_IDENTITY_PAYLOAD"
  shows "ensure_seal_budget (length ss) dc = Inr ()" and "length ss < 2 ^ 64"
  using fresh_budget [OF assms(1), of "length ss"] tiles_count [OF assms(2)] assms(3,4)
  by (simp_all add: AES_GCM_RECORD_LIMIT_def MAX_SERVER_IDENTITY_PAYLOAD_def)

text \<open>The paced writes carry the same records as the sealer of a flight.\<close>

lemma paced_seal:
  "(if idx = lst
    then (case seal_into_extra_padded A R chunk pad r [] dc of (res, dc, r, buf) \<Rightarrow> (and_then res (\<lambda>_. Inr buf), dc, r))
    else data_seal A R chunk r dc) =
   (case seal_flight_record A R pad lst (idx, chunk) r [] dc of (res, dc, r, buf) \<Rightarrow> (and_then res (\<lambda>_. Inr buf), dc, r))"
  by (auto simp: seal_flight_record_def data_seal_def split: prod.splits sum.splits)

lemma write_paced_ok:
  assumes R: "rng_correct R" and T: "cipher_total A" and p: "profile_ok (dc_padding dc0)"
    and b: "ensure_seal_budget n dc0 = Inr ()" and n: "n < 2 ^ 64" and pad: "pad \<le> PQ_FLIGHT_AGGREGATE_PAD_MAX"
  shows "dc = dc_next k dc0 \<Longrightarrow> k + length cks \<le> n \<Longrightarrow>
    (\<And>c. c \<in> set cks \<Longrightarrow> length c + PQ_FLIGHT_AGGREGATE_PAD_MAX \<le> codec_max_plaintext_len dc0) \<Longrightarrow>
    \<exists>ws r'. write_paced A R pad lst timing (List.enumerate i cks) r dc = (Inr ws, dc_next (length cks) dc, r') \<and>
      wire A (dc_aead dc) (dc_aad dc) (codec_sequence (dc_aead dc)) cks (map fst ws)"
proof (induction cks arbitrary: k i r dc)
  case (Cons c cks)
  have pd: "profile_ok (dc_padding dc)" and b1: "ensure_seal_budget 1 dc = Inr ()"
    and m: "length c + PQ_FLIGHT_AGGREGATE_PAD_MAX \<le> codec_max_plaintext_len dc"
    using p ensure_seal_budget_step [OF b n, of k] Cons.prems by (simp_all add: codec_max_plaintext_len_def)
  obtain rg dc1 r1 buf where s: "seal_flight_record A R pad lst (i, c) r [] dc = (Inr rg, dc1, r1, buf)"
    using flight_record_ok [OF R pd T b1 m pad, of lst i r "[]"]
    by (cases "seal_flight_record A R pad lst (i, c) r [] dc") (auto simp: is_ok_iff)
  have w: "dc1 = dc_next 1 dc" "wire_record A (dc_aead dc) (dc_aad dc) (codec_sequence (dc_aead dc)) c buf"
    using sp.seals [OF R pd s] by simp_all
  obtain delay r2 where d: "(if List.enumerate (Suc i) cks \<noteq> [] then server_identity_chunk_delay R timing r1 else (0, r1)) = (delay, r2)"
    by (metis surj_pair)
  obtain ws r' where ih: "write_paced A R pad lst timing (List.enumerate (Suc i) cks) r2 dc1 = (Inr ws, dc_next (length cks) dc1, r')"
    "wire A (dc_aead dc1) (dc_aad dc1) (codec_sequence (dc_aead dc1)) cks (map fst ws)"
    using Cons.IH [of dc1 "Suc k" "Suc i" r2] Cons.prems w(1) by auto
  have "write_paced A R pad lst timing (List.enumerate i (c # cks)) r dc =
      (Inr ((buf, delay) # ws), dc_next (length (c # cks)) dc, r')"
    unfolding enumerate_simps write_paced.simps paced_seal s prod.case and_then_simps sum.case d Let_def ih
    using w(1) by simp
  then show ?case
    using ih(2) w by (intro exI [of _ "(buf, delay) # ws"] exI [of _ r']) simp
qed simp

lemma identity_flight_written:
  assumes "rng_correct R" and "cipher_total A" and "profile_ok (dc_padding dc)"
    and "ensure_seal_budget (length cks) dc = Inr ()" and "length cks < 2 ^ 64"
    and "\<And>c. c \<in> set cks \<Longrightarrow> length c + PQ_FLIGHT_AGGREGATE_PAD_MAX \<le> codec_max_plaintext_len dc"
  obtains ws r' recs where "write_server_identity_chunks A R cks timing r dc = (Inr ws, dc_next (length cks) dc, r')"
    "concat (map fst ws) = concat recs" "wire A (dc_aead dc) (dc_aad dc) (codec_sequence (dc_aead dc)) cks recs"
proof -
  obtain pad r1 where pad: "aggregate_pad_len R r = (pad, r1)"
    by (cases "aggregate_pad_len R r")
  note le = aggregate_pad_le [OF assms(1) pad]
  show ?thesis
  proof (cases "timing_is_enabled timing")
    case True
    obtain ws r' where "write_paced A R pad (length cks - 1) timing (List.enumerate 0 cks) r1 dc = (Inr ws, dc_next (length cks) dc, r')"
      "wire A (dc_aead dc) (dc_aad dc) (codec_sequence (dc_aead dc)) cks (map fst ws)"
      using write_paced_ok [OF assms(1-5) le, of dc 0 cks "length cks - 1" timing 0 r1] assms(6) by auto
    then show ?thesis
      using that True pad by (simp add: write_server_identity_chunks_def)
  next
    case False
    obtain rgs r' recs where
      "seal_each (seal_flight_record A R pad (length cks - 1)) (List.enumerate 0 cks) r1 [] dc =
         (Inr rgs, dc_next (length cks) dc, r', [] @ concat recs)"
      "wire A (dc_aead dc) (dc_aad dc) (codec_sequence (dc_aead dc)) cks recs"
      by (rule flight_each [OF assms(1-5) le assms(6)])
    then show ?thesis
      using that [of "[(concat recs, 0)]" r' recs] False pad by (simp add: write_server_identity_chunks_def)
  qed
qed

text \<open>Encoding and sealing a whole flight under a fresh key.\<close>

definition flight_ready :: "data_record_codec \<Rightarrow> bytes \<Rightarrow> bool" where
  "flight_ready dc payload \<longleftrightarrow> fresh_codec dc \<and> profile_ok (dc_padding dc) \<and> 1024 \<le> codec_max_plaintext_len dc \<and>
     payload \<noteq> [] \<and> length payload \<le> MAX_SERVER_IDENTITY_PAYLOAD"

lemma framed_flight_sealed:
  assumes R: "rng_correct R" and T: "cipher_total A" and dc: "flight_ready dc payload" and mp: "mp = codec_max_plaintext_len dc"
  obtains ss r1 r2 recs where
    "framed_encode_all_browser_shaped R payload (pq_flight_max_chunk_size mp) r =
       Some (Inr (map (chunk_wire FRAMED_CHUNK_MAGIC) (cut_at payload 0 ss)), r1)"
    "seal_pq_flight A R (map (chunk_wire FRAMED_CHUNK_MAGIC) (cut_at payload 0 ss)) r1 [] dc =
       (Inr (), dc_next (length ss) dc, r2, concat recs)"
    "tiles payload 0 ss" "ss \<noteq> []"
    "wire A (dc_aead dc) (dc_aad dc) (codec_sequence (dc_aead dc)) (map (chunk_wire FRAMED_CHUNK_MAGIC) (cut_at payload 0 ss)) recs"
proof -
  have d: "fresh_codec dc" "profile_ok (dc_padding dc)" "1024 \<le> mp" "payload \<noteq> []" "length payload \<le> MAX_SERVER_IDENTITY_PAYLOAD"
    using dc mp by (simp_all add: flight_ready_def)
  obtain ss r1 where f: "framed_encode_all_browser_shaped R payload (pq_flight_max_chunk_size mp) r =
      Some (Inr (map (chunk_wire FRAMED_CHUNK_MAGIC) (cut_at payload 0 ss)), r1)" "tiles payload 0 ss" "ss \<noteq> []"
    "\<And>c. c \<in> set (map (chunk_wire FRAMED_CHUNK_MAGIC) (cut_at payload 0 ss)) \<Longrightarrow> length c + PQ_FLIGHT_AGGREGATE_PAD_MAX \<le> mp"
    by (rule flight_sizes [OF R d(4,5,3), of r]) blast
  note b = flight_budget [OF d(1) f(2,3) d(5)]
  show ?thesis
    using seal_pq_flight_ok [OF R T d(2), of "map (chunk_wire FRAMED_CHUNK_MAGIC) (cut_at payload 0 ss)" r1 "[]"] b f mp that
    by (metis append_Nil length_map length_cut_at)
qed

lemma identity_flight_sealed:
  assumes R: "rng_correct R" and T: "cipher_total A" and dc: "flight_ready dc payload" and mp: "mp = codec_max_plaintext_len dc"
  obtains ss r1 ws r2 recs where
    "identity_encode_all_browser_shaped R payload (pq_flight_max_chunk_size mp) r =
       Some (Inr (map (chunk_wire SERVER_IDENTITY_CHUNK_MAGIC) (cut_at payload 0 ss)), r1)"
    "write_server_identity_chunks A R (map (chunk_wire SERVER_IDENTITY_CHUNK_MAGIC) (cut_at payload 0 ss)) timing r1 dc =
       (Inr ws, dc_next (length ss) dc, r2)" "concat (map fst ws) = concat recs"
    "tiles payload 0 ss" "ss \<noteq> []"
    "wire A (dc_aead dc) (dc_aad dc) (codec_sequence (dc_aead dc))
       (map (chunk_wire SERVER_IDENTITY_CHUNK_MAGIC) (cut_at payload 0 ss)) recs"
proof -
  have d: "fresh_codec dc" "profile_ok (dc_padding dc)" "1024 \<le> mp" "payload \<noteq> []" "length payload \<le> MAX_SERVER_IDENTITY_PAYLOAD"
    using dc mp by (simp_all add: flight_ready_def)
  obtain ss r1 where f: "identity_encode_all_browser_shaped R payload (pq_flight_max_chunk_size mp) r =
      Some (Inr (map (chunk_wire SERVER_IDENTITY_CHUNK_MAGIC) (cut_at payload 0 ss)), r1)" "tiles payload 0 ss" "ss \<noteq> []"
    "\<And>c. c \<in> set (map (chunk_wire SERVER_IDENTITY_CHUNK_MAGIC) (cut_at payload 0 ss)) \<Longrightarrow> length c + PQ_FLIGHT_AGGREGATE_PAD_MAX \<le> mp"
    by (rule flight_sizes [OF R d(4,5,3), of r]) blast
  note b = flight_budget [OF d(1) f(2,3) d(5)]
  show ?thesis
    using identity_flight_written [OF R T d(2), of "map (chunk_wire SERVER_IDENTITY_CHUNK_MAGIC) (cut_at payload 0 ss)" timing r1] b f mp that
    by (metis length_map length_cut_at)
qed

section \<open>Agreement\<close>

text \<open>What the handshake relies on of the libraries, the signature apart.\<close>

definition primitives_correct :: "primitives \<Rightarrow> bool" where
  "primitives_correct P \<longleftrightarrow> aead_correct (p_aead P) \<and> cipher_total (p_aead P) \<and> hkdf_correct (p_hkdf P) \<and>
     x25519_agrees (p_x25519 P) \<and> (\<forall>a. length (x_public (p_x25519 P) a) = 32) \<and>
     (\<forall>a b. length (x_shared (p_x25519 P) a b) = 32) \<and> kem_correct (p_kem P)"

text \<open>Both ends expand the same next keys from the same secrets.\<close>

lemma rekey_both:
  assumes "hkdf_correct (p_hkdf P)" and "keys_wf keys" and "length x = 32" and "length q = 32" and "x \<noteq> replicate 32 0"
  obtains nk where "keys_wf nk" "epoch nk = saturating_add_u64 (epoch keys) 1"
    "\<And>op sl. apply_server_pq_rekey P suite op sl keys x q psk =
       Some (Inr (nk, data_rekey_with_suite suite (client_key nk) (client_nonce nk) op,
         data_rekey_with_suite suite (server_key nk) (server_nonce nk) sl))"
    "\<And>s b. cs_keys s = keys \<Longrightarrow> apply_pq_rekey_shared_with_identity_binding P suite x q psk b s =
       Some (Inr (), s\<lparr>cs_seal := data_rekey_with_suite suite (client_key nk) (client_nonce nk) (cs_seal s),
         cs_open := data_rekey_with_suite suite (server_key nk) (server_nonce nk) (cs_open s), cs_keys := nk, cs_binding := Some b\<rparr>)"
proof -
  let ?chain = "h_extract (p_hkdf P) (chain_secret keys) (write_hybrid_rekey_ikm_vec [] x q psk)"
  have h: "hybrid_sandwich_rekey (p_hkdf P) (chain_secret keys) x q psk = Some (Inr ?chain)"
    using hybrid_sandwich_rekey_eq [OF assms(3,4)] assms(5) by simp
  have l: "length ?chain = KEY_LEN" "length (transcript_hash keys) = KEY_LEN" "length x = KEY_LEN"
    using assms(1-3) by (simp_all add: hkdf_correct_def keys_wf_def KEY_LEN_def)
  obtain nk where k: "expand_epoch_keys (p_hkdf P) ?chain (saturating_add_u64 (epoch keys) 1) (transcript_hash keys) x = Some (Inr nk)"
    "keys_wf nk" "epoch nk = saturating_add_u64 (epoch keys) 1"
    by (rule expand_epoch_keys_ok [OF assms(1) l])
  show ?thesis
    by (rule that [OF k(2,3)])
      (simp_all add: apply_server_pq_rekey_def apply_pq_rekey_shared_with_identity_binding_def apply_pq_rekey_shared_def h k(1))
qed

lemma rekeyed_codec:
  "dc_padding (data_rekey_with_suite suite k b dc) = dc_padding dc" "dc_aad (data_rekey_with_suite suite k b dc) = dc_aad dc"
  "data_rekey_with_suite suite k b (dc_next n dc) = data_rekey_with_suite suite k b dc"
  "codec_max_plaintext_len (data_rekey_with_suite suite k b dc) = codec_max_plaintext_len dc"
  "poisoned (ac_records (dc_aead (data_rekey_with_suite suite k b dc))) = poisoned (ac_records (dc_aead dc))"
  "fresh_codec dc \<Longrightarrow> fresh_codec (data_rekey_with_suite suite k b dc)"
  by (simp_all add: data_rekey_with_suite_def rekey_with_suite_def dc_next_def reset_for_rekey_def codec_max_plaintext_len_def
      fresh_codec_def seq_default_def)

text \<open>The frames of the exchange.\<close>

lemma request_frame:
  assumes "kem_correct K" and "length xp = 32"
  obtains request where "pq_encode_borrowed xp (mk_public (mlkem_keypair K seed)) = Inr request" "length request = 1608"
    "pq_decode request = Inr \<lparr>pq_client_x25519_public = xp, pq_client_mlkem_public_key = mk_public (mlkem_keypair K seed)\<rparr>"
proof -
  let ?m = "mk_public (mlkem_keypair K seed)"
  have m: "length ?m = 1568"
    using kem_roundtrip [OF assms(1)] by (metis public_key_bytes_def)
  have "pq_ok \<lparr>pq_client_x25519_public = xp, pq_client_mlkem_public_key = ?m\<rparr>"
    using assms(2) m by (simp add: pq_ok_def)
  then obtain request where "pq_encode_borrowed xp ?m = Inr request" "pq_decode request = Inr \<lparr>pq_client_x25519_public = xp, pq_client_mlkem_public_key = ?m\<rparr>"
    using pq_enc_dec by (fastforce simp: pq_encode_def)
  moreover have "length request = 1608"
    using calculation(1) m assms(2) by (auto simp: pq_encode_borrowed_def split: if_splits)
  ultimately show ?thesis
    using that by blast
qed

lemma exchange_frame:
  assumes "length xp = 32" and "length ct = 1568"
  obtains kx where "ske_encode_with_suite \<lparr>ske_server_x25519_public = xp, ske_mlkem_ciphertext = ct\<rparr> suite = Inr kx" "length kx = 1609"
    "ske_decode_with_suite kx = Inr (\<lparr>ske_server_x25519_public = xp, ske_mlkem_ciphertext = ct\<rparr>, suite)"
proof -
  have "ske_ok \<lparr>ske_server_x25519_public = xp, ske_mlkem_ciphertext = ct\<rparr>"
    using assms by (simp add: ske_ok_def)
  then obtain kx where "ske_encode_with_suite \<lparr>ske_server_x25519_public = xp, ske_mlkem_ciphertext = ct\<rparr> suite = Inr kx"
    "ske_decode_with_suite kx = Inr (\<lparr>ske_server_x25519_public = xp, ske_mlkem_ciphertext = ct\<rparr>, suite)"
    using ske_enc_dec by blast
  moreover have "length kx = 1609"
    using calculation(1) assms by (auto simp: ske_encode_with_suite_def ske_encode_def and_then_eq_Inr split: if_splits)
  ultimately show ?thesis
    using that by blast
qed

lemma proof_frame:
  assumes "length sig = 4627"
  obtains pf where "sip_encode \<lparr>sip_signature = sig\<rparr> = Inr pf" "length pf = 4635" "sip_signature_of pf = Inr sig"
proof -
  have "sip_ok \<lparr>sip_signature = sig\<rparr>"
    using assms by (simp add: sip_ok_def)
  then obtain pf where "sip_encode \<lparr>sip_signature = sig\<rparr> = Inr pf" "sip_decode pf = Inr \<lparr>sip_signature = sig\<rparr>"
    using sip_enc_dec by blast
  moreover have "length pf = 4635"
    using calculation(1) assms by (auto simp: sip_encode_def split: if_splits)
  moreover have "sip_signature_of pf = Inr sig"
    using calculation(2) by (auto simp: sip_decode_def and_then_eq_Inr)
  ultimately show ?thesis
    using that by blast
qed

lemma client_request_built:
  assumes P: "primitives_correct P" and R: "rng_correct R"
    and dc: "fresh_codec (cs_seal s)" "profile_ok (dc_padding (cs_seal s))" "1024 \<le> codec_max_plaintext_len (cs_seal s)"
  obtains request ss recs r' where
    "build_pq_rekey_record P R xp seed r s = Some (Inr (concat recs,
       \<lparr>pr_x25519 = x25519_generate (p_x25519 P) xp, pr_mlkem = mlkem_keypair (p_kem P) seed, pr_request_payload = request\<rparr>),
       s\<lparr>cs_seal := dc_next (length ss) (cs_seal s)\<rparr>, r')"
    "pq_decode request = Inr \<lparr>pq_client_x25519_public = x_public (p_x25519 P) xp,
       pq_client_mlkem_public_key = mk_public (mlkem_keypair (p_kem P) seed)\<rparr>"
    "length request = 1608" "tiles request 0 ss" "ss \<noteq> []"
    "wire (p_aead P) (dc_aead (cs_seal s)) (dc_aad (cs_seal s)) (codec_sequence (dc_aead (cs_seal s)))
       (map (chunk_wire FRAMED_CHUNK_MAGIC) (cut_at request 0 ss)) recs"
proof -
  have prims: "cipher_total (p_aead P)" "kem_correct (p_kem P)" "length (x_public (p_x25519 P) xp) = 32"
    using P by (simp_all add: primitives_correct_def)
  obtain request where q: "pq_encode_borrowed (x_public (p_x25519 P) xp) (mk_public (mlkem_keypair (p_kem P) seed)) = Inr request"
    "length request = 1608" "pq_decode request = Inr \<lparr>pq_client_x25519_public = x_public (p_x25519 P) xp,
       pq_client_mlkem_public_key = mk_public (mlkem_keypair (p_kem P) seed)\<rparr>"
    by (rule request_frame [OF prims(2,3)])
  have "flight_ready (cs_seal s) request"
    using dc q(2) by (auto simp: flight_ready_def MAX_SERVER_IDENTITY_PAYLOAD_def)
  from framed_flight_sealed [OF R prims(1) this refl, of r] obtain ss r1 r2 recs where f:
    "framed_encode_all_browser_shaped R request (pq_flight_max_chunk_size (codec_max_plaintext_len (cs_seal s))) r =
       Some (Inr (map (chunk_wire FRAMED_CHUNK_MAGIC) (cut_at request 0 ss)), r1)"
    "seal_pq_flight (p_aead P) R (map (chunk_wire FRAMED_CHUNK_MAGIC) (cut_at request 0 ss)) r1 [] (cs_seal s) =
       (Inr (), dc_next (length ss) (cs_seal s), r2, concat recs)" "tiles request 0 ss" "ss \<noteq> []"
    "wire (p_aead P) (dc_aead (cs_seal s)) (dc_aad (cs_seal s)) (codec_sequence (dc_aead (cs_seal s)))
       (map (chunk_wire FRAMED_CHUNK_MAGIC) (cut_at request 0 ss)) recs"
    by metis
  show ?thesis
    by (rule that [OF _ q(3,2) f(3,4,5)])
      (simp add: build_pq_rekey_record_def x25519_generate_def q(1) f(1,2))
qed

text \<open>The server's part, from a complete request on, with everything the client will need of it.\<close>

lemma server_rekey_done:
  assumes P: "primitives_correct P" and R: "rng_correct R"
    and S: "signature_correct (p_signature P) idpk (se_identity_secret env)"
    and dc: "fresh_codec (sv_seal st)" "profile_ok (dc_padding (sv_seal st))" "1024 \<le> codec_max_plaintext_len (sv_seal st)"
    and q: "pq_decode request = Inr \<lparr>pq_client_x25519_public = cx, pq_client_mlkem_public_key = mk_public (mlkem_keypair (p_kem P) seed)\<rparr>"
    and c: "se_commit env = Inr True" and k: "keys_wf (sv_keys st)"
    and x: "x_shared (p_x25519 P) (se_ephemeral env) cx \<noteq> replicate 32 0"
    and suite: "suite = server_data_cipher_suite (se_has_aes env)"
  obtains kx ct sh ss1 recs1 nk pf ss2 recs2 ws r' sl where
    "sl = data_rekey_with_suite suite (server_key nk) (server_nonce nk) (sv_seal st)"
    "server_pq_rekey P R env request r st = Some (Inr (Rekeyed (concat recs1) ws
       (st\<lparr>sv_open := data_rekey_with_suite suite (client_key nk) (client_nonce nk) (sv_open st),
           sv_seal := dc_next (length ss2) sl, sv_keys := nk\<rparr>) r'))"
    "ske_decode_with_suite kx =
       Inr (\<lparr>ske_server_x25519_public = x_public (p_x25519 P) (se_ephemeral env), ske_mlkem_ciphertext = ct\<rparr>, suite)"
    "decapsulate (p_kem P) ct (mk_secret (mlkem_keypair (p_kem P) seed)) = Inr sh"
    "length kx = 1609" "tiles kx 0 ss1" "ss1 \<noteq> []"
    "wire (p_aead P) (dc_aead (sv_seal st)) (dc_aad (sv_seal st)) (codec_sequence (dc_aead (sv_seal st)))
       (map (chunk_wire FRAMED_CHUNK_MAGIC) (cut_at kx 0 ss1)) recs1"
    "length pf = 4635" "tiles pf 0 ss2" "ss2 \<noteq> []"
    "wire (p_aead P) (dc_aead sl) (dc_aad sl) (codec_sequence (dc_aead sl))
       (map (chunk_wire SERVER_IDENTITY_CHUNK_MAGIC) (cut_at pf 0 ss2)) recs2" "concat (map fst ws) = concat recs2"
    "\<And>s b. cs_keys s = sv_keys st \<Longrightarrow>
       apply_pq_rekey_shared_with_identity_binding P suite (x_shared (p_x25519 P) (se_ephemeral env) cx) sh (se_sandwich_secret env) b s =
       Some (Inr (), s\<lparr>cs_seal := data_rekey_with_suite suite (client_key nk) (client_nonce nk) (cs_seal s),
         cs_open := data_rekey_with_suite suite (server_key nk) (server_nonce nk) (cs_open s), cs_keys := nk, cs_binding := Some b\<rparr>)"
    "and_then (map_err CheServerIdentityProof (sip_signature_of pf)) (\<lambda>sig. map_err CheIdentity
       (verify_server_identity (p_signature P) idpk sig (transcript_hash nk) (se_server_public_key env)
          (pq_rekey_binding (p_sha P) request kx) (epoch nk))) = Inr ()"
    "epoch nk = saturating_add_u64 (epoch (sv_keys st)) 1" "keys_wf nk"
proof -
  have prims: "cipher_total (p_aead P)" "kem_correct (p_kem P)" "hkdf_correct (p_hkdf P)"
    "length (x_public (p_x25519 P) (se_ephemeral env)) = 32" "length (x_shared (p_x25519 P) (se_ephemeral env) cx) = 32"
    using P by (simp_all add: primitives_correct_def)
  obtain ct sh where e: "encapsulate (p_kem P) (se_coins env) (mk_public (mlkem_keypair (p_kem P) seed)) =
      Inr \<lparr>me_ciphertext = ct, me_shared_secret = sh\<rparr>" "decapsulate (p_kem P) ct (mk_secret (mlkem_keypair (p_kem P) seed)) = Inr sh"
    "length sh = 32" "length ct = ciphertext_bytes"
    by (rule kem_roundtrip [OF prims(2)])
  obtain kx where kx: "ske_encode_with_suite \<lparr>ske_server_x25519_public = x_public (p_x25519 P) (se_ephemeral env),
      ske_mlkem_ciphertext = ct\<rparr> suite = Inr kx" "length kx = 1609"
    "ske_decode_with_suite kx = Inr (\<lparr>ske_server_x25519_public = x_public (p_x25519 P) (se_ephemeral env), ske_mlkem_ciphertext = ct\<rparr>, suite)"
    by (rule exchange_frame [OF prims(4)]) (use e(4) in \<open>simp_all add: ciphertext_bytes_def\<close>)
  define mp where "mp = codec_max_plaintext_len (sv_seal st)"
  have "flight_ready (sv_seal st) kx"
    using dc kx(2) by (auto simp: flight_ready_def MAX_SERVER_IDENTITY_PAYLOAD_def)
  from framed_flight_sealed [OF R prims(1) this mp_def, of r] obtain ss1 r1 r2 recs1 where f1:
    "framed_encode_all_browser_shaped R kx (pq_flight_max_chunk_size mp) r =
       Some (Inr (map (chunk_wire FRAMED_CHUNK_MAGIC) (cut_at kx 0 ss1)), r1)"
    "seal_pq_flight (p_aead P) R (map (chunk_wire FRAMED_CHUNK_MAGIC) (cut_at kx 0 ss1)) r1 [] (sv_seal st) =
       (Inr (), dc_next (length ss1) (sv_seal st), r2, concat recs1)" "tiles kx 0 ss1" "ss1 \<noteq> []"
    "wire (p_aead P) (dc_aead (sv_seal st)) (dc_aad (sv_seal st)) (codec_sequence (dc_aead (sv_seal st)))
       (map (chunk_wire FRAMED_CHUNK_MAGIC) (cut_at kx 0 ss1)) recs1"
    by metis
  obtain nk where nk: "keys_wf nk" "epoch nk = saturating_add_u64 (epoch (sv_keys st)) 1"
    "\<And>op sl. apply_server_pq_rekey P suite op sl (sv_keys st) (x_shared (p_x25519 P) (se_ephemeral env) cx) sh (se_sandwich_secret env) =
       Some (Inr (nk, data_rekey_with_suite suite (client_key nk) (client_nonce nk) op,
         data_rekey_with_suite suite (server_key nk) (server_nonce nk) sl))"
    "\<And>s b. cs_keys s = sv_keys st \<Longrightarrow>
       apply_pq_rekey_shared_with_identity_binding P suite (x_shared (p_x25519 P) (se_ephemeral env) cx) sh (se_sandwich_secret env) b s =
       Some (Inr (), s\<lparr>cs_seal := data_rekey_with_suite suite (client_key nk) (client_nonce nk) (cs_seal s),
         cs_open := data_rekey_with_suite suite (server_key nk) (server_nonce nk) (cs_open s), cs_keys := nk, cs_binding := Some b\<rparr>)"
    using rekey_both [OF prims(3) k prims(5) e(3) x, of suite "se_sandwich_secret env"] by metis
  define sl where "sl = data_rekey_with_suite suite (server_key nk) (server_nonce nk) (sv_seal st)"
  obtain sig where sg: "sign_server_identity (p_signature P) (se_identity_secret env) (transcript_hash nk) (se_server_public_key env)
      (pq_rekey_binding (p_sha P) request kx) (epoch nk) = Inr sig" "length sig = 4627"
    "verify_server_identity (p_signature P) idpk sig (transcript_hash nk) (se_server_public_key env)
      (pq_rekey_binding (p_sha P) request kx) (epoch nk) = Inr ()"
    by (rule identity_roundtrip [OF S])
  obtain pf where pf: "sip_encode \<lparr>sip_signature = sig\<rparr> = Inr pf" "length pf = 4635" "sip_signature_of pf = Inr sig"
    by (rule proof_frame [OF sg(2)])
  have "flight_ready sl pf" and sl: "mp = codec_max_plaintext_len sl"
    using dc pf(2) by (auto simp: flight_ready_def MAX_SERVER_IDENTITY_PAYLOAD_def sl_def rekeyed_codec mp_def)
  from identity_flight_sealed [OF R prims(1) this, of r2 "se_timing env"] obtain ss2 r3 ws r' recs2 where f2:
    "identity_encode_all_browser_shaped R pf (pq_flight_max_chunk_size mp) r2 =
       Some (Inr (map (chunk_wire SERVER_IDENTITY_CHUNK_MAGIC) (cut_at pf 0 ss2)), r3)"
    "write_server_identity_chunks (p_aead P) R (map (chunk_wire SERVER_IDENTITY_CHUNK_MAGIC) (cut_at pf 0 ss2)) (se_timing env) r3 sl =
       (Inr ws, dc_next (length ss2) sl, r')" "concat (map fst ws) = concat recs2" "tiles pf 0 ss2" "ss2 \<noteq> []"
    "wire (p_aead P) (dc_aead sl) (dc_aad sl) (codec_sequence (dc_aead sl))
       (map (chunk_wire SERVER_IDENTITY_CHUNK_MAGIC) (cut_at pf 0 ss2)) recs2"
    by metis
  show ?thesis
  proof (rule that [OF sl_def _ kx(3) e(2) kx(2) f1(3-5) pf(2) f2(4-6,3) nk(4) _ nk(2,1)])
    show "server_pq_rekey P R env request r st = Some (Inr (Rekeyed (concat recs1) ws
       (st\<lparr>sv_open := data_rekey_with_suite suite (client_key nk) (client_nonce nk) (sv_open st),
           sv_seal := dc_next (length ss2) sl, sv_keys := nk\<rparr>) r'))"
      unfolding server_pq_rekey_def q c suite [symmetric] mp_def [symmetric]
      by (simp add: e(1) kx(1) f1(1,2) nk(3) rekeyed_codec sl_def [symmetric] sg(1) pf(1) f2(1,2))
  qed (simp_all add: pf(3) sg(3))
qed

text \<open>The client's part, on the stream the server wrote.\<close>

lemma client_finishes:
  assumes A: "aead_correct (p_aead P)" and np: "\<not> poisoned (ac_records (dc_aead (cs_open s)))"
    and res: "concat (split_records front) = front" "length front \<le> MAX_RESIDUAL_CAMOUFLAGE_BYTES_BEFORE_KEY_EXCHANGE"
      "\<And>rec. rec \<in> set (split_records front) \<Longrightarrow> residual_record (p_aead P) (cs_open s) rec"
    and kx: "length kx \<le> MAX_PQ_HANDSHAKE_FRAME" "tiles kx 0 ss1" "ss1 \<noteq> []"
      "wire (p_aead P) (dc_aead (cs_open s)) (dc_aad (cs_open s)) (codec_sequence (dc_aead (cs_open s)))
         (map (chunk_wire FRAMED_CHUNK_MAGIC) (cut_at kx 0 ss1)) recs1"
      "apply_key_exchange_payload P kx pending psk (s\<lparr>cs_open := dc_next (length ss1) (cs_open s)\<rparr>) = Some (Inr (), s2)"
    and pf: "length pf \<le> MAX_SERVER_IDENTITY_PAYLOAD" "tiles pf 0 ss2" "ss2 \<noteq> []" "\<not> poisoned (ac_records (dc_aead (cs_open s2)))"
      "wire (p_aead P) (dc_aead (cs_open s2)) (dc_aad (cs_open s2)) (codec_sequence (dc_aead (cs_open s2)))
         (map (chunk_wire SERVER_IDENTITY_CHUNK_MAGIC) (cut_at pf 0 ss2)) recs2"
  shows "apply_server_key_exchange_after_residuals P pending psk (split_records (front @ concat recs1 @ concat recs2)) s = Some (Inr recs2, s2)"
    and "read_identity_records P None [] recs2 s2 = (Inr (pf, []), s2\<lparr>cs_open := dc_next (length ss2) (cs_open s2)\<rparr>)"
proof -
  have "split_records [] = []"
    by (rule split_records_Inl) (simp add: parse_exact_def parse_header_def TLS_HEADER_LEN_def)
  then have split: "split_records (front @ concat recs1 @ concat recs2) = split_records front @ recs1 @ recs2"
    using split_records_append [OF res(1), of "concat recs1 @ concat recs2"]
      split_records_wire [OF A kx(4), of "concat recs2"] split_records_wire [OF A pf(5), of "[]"] by simp
  show "apply_server_key_exchange_after_residuals P pending psk (split_records (front @ concat recs1 @ concat recs2)) s = Some (Inr recs2, s2)"
    using after_residuals_skip [of "split_records front" P s 0 pending psk "recs1 @ recs2" reassembler_default] res
      after_residuals_flight [OF A kx(1) kx(5) np kx(2,3,4), of recs2]
    by (simp add: apply_server_key_exchange_after_residuals_def split partial_state_0)
  show "read_identity_records P None [] recs2 s2 = (Inr (pf, []), s2\<lparr>cs_open := dc_next (length ss2) (cs_open s2)\<rparr>)"
    using read_identity_flight [OF A pf(1,4,2,3) _ pf(5), of None "[]"] by simp
qed

text \<open>From the request on: the server's answer, and the client's reading of it after any camouflage.\<close>

lemma exchange_completes:
  assumes P: "primitives_correct P" and R: "rng_correct R"
    and S: "signature_correct (p_signature P) idpk (se_identity_secret env)"
    and keys: "keys_wf keys" "sv_keys st = keys" "cs_keys s = keys" "sv_seal st = cs_open s" "sv_open st = dc_next m c" "cs_seal s = dc_next m c"
    and dc: "fresh_codec (cs_open s)" "profile_ok (dc_padding (cs_open s))" "1024 \<le> codec_max_plaintext_len (cs_open s)"
    and np: "\<not> poisoned (ac_records (dc_aead (cs_open s)))"
    and q: "pq_decode request = Inr \<lparr>pq_client_x25519_public = x_public (p_x25519 P) xp,
        pq_client_mlkem_public_key = mk_public (mlkem_keypair (p_kem P) seed)\<rparr>"
    and x: "x_shared (p_x25519 P) xp (x_public (p_x25519 P) (se_ephemeral env)) \<noteq> replicate 32 0"
    and commit: "se_commit env = Inr True"
    and pd: "pending = \<lparr>pr_x25519 = x25519_generate (p_x25519 P) xp, pr_mlkem = mlkem_keypair (p_kem P) seed, pr_request_payload = request\<rparr>"
  shows "\<exists>kx ws sv' r'. server_pq_rekey P R env request r st = Some (Inr (Rekeyed kx ws sv' r')) \<and>
    (\<forall>front. concat (split_records front) = front \<and> length front \<le> MAX_RESIDUAL_CAMOUFLAGE_BYTES_BEFORE_KEY_EXCHANGE \<and>
       (\<forall>rec \<in> set (split_records front). residual_record (p_aead P) (cs_open s) rec) \<longrightarrow>
       (\<exists>rest s2 pf s3. apply_server_key_exchange_after_residuals P pending (se_sandwich_secret env)
            (split_records (front @ kx @ concat (map fst ws))) s = Some (Inr rest, s2) \<and>
          read_identity_records P None [] rest s2 = (Inr (pf, []), s3) \<and>
          verify_server_identity_payload_blocking P pf idpk (se_server_public_key env) s3 = Inr () \<and>
          cs_keys s3 = sv_keys sv' \<and> cs_seal s3 = sv_open sv' \<and> cs_open s3 = sv_seal sv' \<and>
          keys_wf (sv_keys sv') \<and> epoch (sv_keys sv') = saturating_add_u64 (epoch keys) 1))"
proof -
  have A: "aead_correct (p_aead P)" and xe: "x_shared (p_x25519 P) (se_ephemeral env) (x_public (p_x25519 P) xp) =
      x_shared (p_x25519 P) xp (x_public (p_x25519 P) (se_ephemeral env))"
    using P by (simp_all add: primitives_correct_def x25519_agrees_def)
  have st: "fresh_codec (sv_seal st)" "profile_ok (dc_padding (sv_seal st))" "1024 \<le> codec_max_plaintext_len (sv_seal st)"
    "keys_wf (sv_keys st)"
    using dc keys by simp_all
  show ?thesis
  proof (rule server_rekey_done [OF P R S st(1-3) q commit st(4) _ refl, of r], goal_cases)
    case 1
    then show ?case
      using x xe by simp
  next
    case (2 kx ct sh ss1 recs1 nk pf ss2 recs2 ws r' sl)
    let ?suite = "server_data_cipher_suite (se_has_aes env)"
    let ?b = "pq_rekey_binding (p_sha P) request kx"
    let ?s2 = "s\<lparr>cs_seal := data_rekey_with_suite ?suite (client_key nk) (client_nonce nk) c, cs_open := sl, cs_keys := nk, cs_binding := Some ?b\<rparr>"
    have kx: "apply_key_exchange_payload P kx pending (se_sandwich_secret env)
        (s\<lparr>cs_open := dc_next (length ss1) (cs_open s)\<rparr>) = Some (Inr (), ?s2)"
      using 2(1,3,4) 2(14) [of "s\<lparr>cs_open := dc_next (length ss1) (cs_open s)\<rparr>" ?b] keys xe
      by (simp add: apply_key_exchange_payload_def pending_identity_binding_def pending_x25519_shared_secret_def pd
          x25519_generate_def rekeyed_codec)
    have np2: "\<not> poisoned (ac_records (dc_aead (cs_open ?s2)))"
      using np 2(1) keys(4) by (simp add: rekeyed_codec)
    have len: "length kx \<le> MAX_PQ_HANDSHAKE_FRAME" "length pf \<le> MAX_SERVER_IDENTITY_PAYLOAD"
      using 2(5,9) by (simp_all add: MAX_PQ_HANDSHAKE_FRAME_def MAX_SERVER_IDENTITY_PAYLOAD_def)
    have w: "wire (p_aead P) (dc_aead (cs_open s)) (dc_aad (cs_open s)) (codec_sequence (dc_aead (cs_open s)))
        (map (chunk_wire FRAMED_CHUNK_MAGIC) (cut_at kx 0 ss1)) recs1"
      "wire (p_aead P) (dc_aead (cs_open ?s2)) (dc_aad (cs_open ?s2)) (codec_sequence (dc_aead (cs_open ?s2)))
        (map (chunk_wire SERVER_IDENTITY_CHUNK_MAGIC) (cut_at pf 0 ss2)) recs2"
      using 2(8,12) keys(4) by simp_all
    have v: "verify_server_identity_payload_blocking P pf idpk (se_server_public_key env)
        (?s2\<lparr>cs_open := dc_next (length ss2) sl\<rparr>) = Inr ()"
      using 2(15) by (simp add: verify_server_identity_payload_blocking_def pq_identity_binding_def)
    let ?sv = "st\<lparr>sv_open := data_rekey_with_suite ?suite (client_key nk) (client_nonce nk) (sv_open st),
        sv_seal := dc_next (length ss2) sl, sv_keys := nk\<rparr>"
    have C: "\<exists>rest s2 pf s3. apply_server_key_exchange_after_residuals P pending (se_sandwich_secret env)
          (split_records (front @ concat recs1 @ concat (map fst ws))) s = Some (Inr rest, s2) \<and>
        read_identity_records P None [] rest s2 = (Inr (pf, []), s3) \<and>
        verify_server_identity_payload_blocking P pf idpk (se_server_public_key env) s3 = Inr () \<and>
        cs_keys s3 = sv_keys ?sv \<and> cs_seal s3 = sv_open ?sv \<and> cs_open s3 = sv_seal ?sv \<and>
        keys_wf (sv_keys ?sv) \<and> epoch (sv_keys ?sv) = saturating_add_u64 (epoch keys) 1"
      if f: "concat (split_records front) = front" "length front \<le> MAX_RESIDUAL_CAMOUFLAGE_BYTES_BEFORE_KEY_EXCHANGE"
        "\<forall>rec \<in> set (split_records front). residual_record (p_aead P) (cs_open s) rec" for front
    proof -
      note F = client_finishes [OF A np f(1,2) bspec [OF f(3)] len(1) 2(6,7) w(1) kx len(2) 2(10,11) np2 w(2)]
      show ?thesis
        by (intro exI [of _ recs2] exI [of _ ?s2] exI [of _ pf] exI [of _ "?s2\<lparr>cs_open := dc_next (length ss2) sl\<rparr>"])
          (use F v 2(13,16,17) keys rekeyed_codec in simp)
    qed
    show ?case
      using 2(2) C by blast
  qed
qed

lemma sessions_mirror:
  assumes "client_session_new keys traffic = Inr cs" and "server_session_new keys traffic = Inr sv"
  shows "sv_open sv = cs_seal cs" "sv_seal sv = cs_open cs" "cs_keys cs = keys" "sv_keys sv = keys"
    "fresh_codec (cs_seal cs)" "fresh_codec (cs_open cs)" "dc_padding (cs_open cs) = dc_padding (cs_seal cs)"
    "\<not> poisoned (ac_records (dc_aead (cs_seal cs)))" "\<not> poisoned (ac_records (dc_aead (cs_open cs)))"
    "sv_reassembler sv = reassembler_default" "sv_fallback_bytes sv = 0" "sv_camouflage_records sv = 0"
  using assms
  by (auto simp: client_session_new_def server_session_new_def data_codecs_def and_then_eq_Inr fresh_codec_def data_codec_new_def
      codec_new_def codec_new_with_suite_def seq_default_def CLIENT_TO_SERVER_AAD_def SERVER_TO_CLIENT_AAD_def)

text \<open>C2. The post-quantum handshake ends in agreement. From the same session keys, the client builds its rekey request;
  whatever way the origin's bytes interleave with the client's records, and after up to 64 camouflage records, the server
  finishes the rekey, having forwarded at most the client's residual budget. If what it forwarded ends at a record
  boundary and none of it opens as ours, the client skips it, applies the key exchange, reads the identity proof and
  accepts the signature; both ends then hold the same keys of the next epoch and mirrored codecs.\<close>

theorem pq_handshake_agrees:
  assumes P: "primitives_correct P" and R: "rng_correct R"
    and S: "signature_correct (p_signature P) idpk (se_identity_secret env)"
    and keys: "keys_wf keys" and cs: "client_session_new keys traffic = Inr cs" and sv: "server_session_new keys traffic = Inr sv"
    and pad: "profile_ok (dc_padding (cs_seal cs))" "1024 \<le> codec_max_plaintext_len (cs_seal cs)"
    and x: "x_shared (p_x25519 P) xp (x_public (p_x25519 P) (se_ephemeral env)) \<noteq> replicate 32 0"
    and commit: "se_commit env = Inr True"
    and cam: "length cam \<le> PRE_PQ_FALLBACK_FORWARD_RECORD_LIMIT" "\<forall>rec \<in> set cam. residual_record (p_aead P) (sv_open sv) rec"
  shows "\<exists>request pending cs1 r1. build_pq_rekey_record P R xp seed r cs = Some (Inr (request, pending), cs1, r1) \<and>
    (\<forall>es rs. list_all benign es \<and> client_records es = cam @ split_records request \<longrightarrow>
      (\<exists>outs kx ws sv' rs'. predata_run P R env rs es sv = Some (outs, PdRekeyed kx ws sv' rs') \<and>
        length (to_client outs) \<le> MAX_RESIDUAL_CAMOUFLAGE_BYTES_BEFORE_KEY_EXCHANGE \<and>
        (concat (split_records (to_client outs)) = to_client outs \<and>
         (\<forall>rec \<in> set (split_records (to_client outs)). residual_record (p_aead P) (cs_open cs1) rec) \<longrightarrow>
         (\<exists>rest cs2 pf cs3.
            apply_server_key_exchange_after_residuals P pending (se_sandwich_secret env)
              (split_records (to_client outs @ kx @ concat (map fst ws))) cs1 = Some (Inr rest, cs2) \<and>
            read_identity_records P None [] rest cs2 = (Inr (pf, []), cs3) \<and>
            verify_server_identity_payload_blocking P pf idpk (se_server_public_key env) cs3 = Inr () \<and>
            cs_keys cs3 = sv_keys sv' \<and> cs_seal cs3 = sv_open sv' \<and> cs_open cs3 = sv_seal sv' \<and>
            keys_wf (sv_keys sv') \<and> epoch (sv_keys sv') = saturating_add_u64 (epoch keys) 1))))"
proof -
  note M = sessions_mirror [OF cs sv]
  have A: "aead_correct (p_aead P)"
    using P by (simp add: primitives_correct_def)
  obtain request ss recs r1 where q:
    "build_pq_rekey_record P R xp seed r cs = Some (Inr (concat recs,
       \<lparr>pr_x25519 = x25519_generate (p_x25519 P) xp, pr_mlkem = mlkem_keypair (p_kem P) seed, pr_request_payload = request\<rparr>),
       cs\<lparr>cs_seal := dc_next (length ss) (cs_seal cs)\<rparr>, r1)"
    "pq_decode request = Inr \<lparr>pq_client_x25519_public = x_public (p_x25519 P) xp,
       pq_client_mlkem_public_key = mk_public (mlkem_keypair (p_kem P) seed)\<rparr>"
    "length request = 1608" "tiles request 0 ss" "ss \<noteq> []"
    "wire (p_aead P) (dc_aead (cs_seal cs)) (dc_aad (cs_seal cs)) (codec_sequence (dc_aead (cs_seal cs)))
       (map (chunk_wire FRAMED_CHUNK_MAGIC) (cut_at request 0 ss)) recs"
    by (rule client_request_built [OF P R M(5) pad])
  let ?pending = "\<lparr>pr_x25519 = x25519_generate (p_x25519 P) xp, pr_mlkem = mlkem_keypair (p_kem P) seed, pr_request_payload = request\<rparr>"
  let ?cs1 = "cs\<lparr>cs_seal := dc_next (length ss) (cs_seal cs)\<rparr>"
  have split: "split_records (concat recs) = recs"
    using split_records_wire [OF A q(6), of "[]"] split_records_Inl [of "[]"]
    by (simp add: parse_exact_def parse_header_def TLS_HEADER_LEN_def)
  have len: "length request \<le> MAX_PQ_HANDSHAKE_FRAME"
    using q(3) by (simp add: MAX_PQ_HANDSHAKE_FRAME_def)
  have run: "\<exists>outs kx ws sv' rs'. predata_run P R env rs es sv = Some (outs, PdRekeyed kx ws sv' rs') \<and>
      length (to_client outs) \<le> MAX_RESIDUAL_CAMOUFLAGE_BYTES_BEFORE_KEY_EXCHANGE \<and>
      (concat (split_records (to_client outs)) = to_client outs \<and>
       (\<forall>rec \<in> set (split_records (to_client outs)). residual_record (p_aead P) (cs_open ?cs1) rec) \<longrightarrow>
       (\<exists>rest cs2 pf cs3.
          apply_server_key_exchange_after_residuals P ?pending (se_sandwich_secret env)
            (split_records (to_client outs @ kx @ concat (map fst ws))) ?cs1 = Some (Inr rest, cs2) \<and>
          read_identity_records P None [] rest cs2 = (Inr (pf, []), cs3) \<and>
          verify_server_identity_payload_blocking P pf idpk (se_server_public_key env) cs3 = Inr () \<and>
          cs_keys cs3 = sv_keys sv' \<and> cs_seal cs3 = sv_open sv' \<and> cs_open cs3 = sv_seal sv' \<and>
          keys_wf (sv_keys sv') \<and> epoch (sv_keys sv') = saturating_add_u64 (epoch keys) 1))"
    if es: "list_all benign es" "client_records es = cam @ recs" for es rs
  proof -
    have "reaches_rekey P R env rs request es sv (length ss)"
      by (rule predata_run_camouflage [OF A len q(4,5) es])
        (use M q(6) cam in \<open>simp_all add: PRE_PQ_FALLBACK_FORWARD_BYTE_LIMIT_def\<close>)
    then obtain outs st' where st: "predata_run P R env rs es sv =
        map_option (\<lambda>res. (outs, rekey_result res)) (server_pq_rekey P R env request rs st')"
      "sv_open st' = dc_next (length ss) (cs_seal cs)" "sv_seal st' = cs_open ?cs1" "sv_keys st' = keys"
      "length (to_client outs) \<le> MAX_RESIDUAL_CAMOUFLAGE_BYTES_BEFORE_KEY_EXCHANGE"
      using M by (auto simp: reaches_rekey_def PRE_PQ_FALLBACK_FORWARD_BYTE_LIMIT_def
          MAX_RESIDUAL_CAMOUFLAGE_BYTES_BEFORE_KEY_EXCHANGE_def)
    have o: "cs_keys ?cs1 = keys" "cs_seal ?cs1 = dc_next (length ss) (cs_seal cs)" "fresh_codec (cs_open ?cs1)"
      "profile_ok (dc_padding (cs_open ?cs1))" "1024 \<le> codec_max_plaintext_len (cs_open ?cs1)"
      "\<not> poisoned (ac_records (dc_aead (cs_open ?cs1)))"
      using M pad by (simp_all add: codec_max_plaintext_len_def)
    from exchange_completes [OF P R S keys st(4) o(1) st(3,2) o(2-6) q(2) x commit refl, of rs] st(1,5)
    show ?thesis
      by fastforce
  qed
  show ?thesis
    using q(1) run split by metis
qed

text \<open>A configuration for the example.\<close>

definition toy_traffic :: traffic_config where
  "toy_traffic = \<lparr>min_padding = 0, max_padding = 9, min_delay_ms = 0, max_delay_ms = 0, cover_min_interval_ms = 0, cover_max_interval_ms = 0\<rparr>"

definition toy_env :: server_env where
  "toy_env = \<lparr>se_identity_secret = [], se_sandwich_secret = [7], se_server_public_key = [], se_ephemeral = [3], se_coins = [],
     se_has_aes = True, se_timing = \<lparr>tp_min = 0, tp_max = 0\<rparr>, se_commit = Inr True\<rparr>"

lemma toy_facts:
  "primitives_correct toy_primitives" "signature_correct (p_signature toy_primitives) [] (se_identity_secret toy_env)"
  "keys_wf toy_keys"
proof -
  show "primitives_correct toy_primitives"
    using plain_aead_correct plain_codec_facts(1)
    by (simp add: primitives_correct_def toy_primitives_def hkdf_correct_def const_hkdf_def x25519_agrees_def add.commute
        kem_correct_def public_key_bytes_def secret_key_bytes_def ciphertext_bytes_def)
  show "signature_correct (p_signature toy_primitives) [] (se_identity_secret toy_env)"
    by (simp add: signature_correct_def toy_primitives_def)
  show "keys_wf toy_keys"
    by (simp add: keys_wf_def toy_keys_def KEY_LEN_def NONCE_LEN_def)
qed

lemma toy_sessions:
  obtains cs sv where "client_session_new toy_keys toy_traffic = Inr cs" "server_session_new toy_keys toy_traffic = Inr sv"
    "profile_ok (dc_padding (cs_seal cs))" "1024 \<le> codec_max_plaintext_len (cs_seal cs)"
proof -
  have "padding_from_config toy_traffic = Inr \<lparr>pp_min = 0, pp_max = 9\<rparr>"
    by (simp add: padding_from_config_def padding_new_def toy_traffic_def)
  then show ?thesis
    by (intro that) (simp_all add: client_session_new_def server_session_new_def data_codecs_def data_codec_new_def, simp_all add:
        profile_ok_def codec_max_plaintext_len_def max_plaintext_len_def max_len_def record_consts)
qed

theorem pq_handshake_agrees_witness:
  "\<exists>cs sv request pending cs1 r1. client_session_new toy_keys toy_traffic = Inr cs \<and> server_session_new toy_keys toy_traffic = Inr sv \<and>
    build_pq_rekey_record toy_primitives low_rng [2] [] 0 cs = Some (Inr (request, pending), cs1, r1) \<and>
    (\<exists>outs kx ws sv' rs'. predata_run toy_primitives low_rng toy_env 0 (map (\<lambda>rec. ClientRecord rec WriteOk) (split_records request)) sv =
       Some (outs, PdRekeyed kx ws sv' rs'))"
proof -
  obtain cs sv where s: "client_session_new toy_keys toy_traffic = Inr cs" "server_session_new toy_keys toy_traffic = Inr sv"
    "profile_ok (dc_padding (cs_seal cs))" "1024 \<le> codec_max_plaintext_len (cs_seal cs)"
    by (rule toy_sessions)
  have x: "x_shared (p_x25519 toy_primitives) [2] (x_public (p_x25519 toy_primitives) (se_ephemeral toy_env)) \<noteq> replicate 32 0"
    by (simp add: toy_primitives_def toy_env_def)
  have c: "se_commit toy_env = Inr True" "length ([] :: bytes list) \<le> PRE_PQ_FALLBACK_FORWARD_RECORD_LIMIT"
    "\<forall>rec \<in> set []. residual_record (p_aead toy_primitives) (sv_open sv) rec"
    by (simp_all add: toy_env_def)
  have es: "list_all benign (map (\<lambda>rec. ClientRecord rec WriteOk) recs) \<and> client_records (map (\<lambda>rec. ClientRecord rec WriteOk) recs) = [] @ recs"
    for recs
    by (induction recs) simp_all
  show ?thesis
    using pq_handshake_agrees [OF toy_facts(1) low_rng_correct toy_facts(2,3) s x c, of "[]" 0] s(1,2) es by metis
qed

end
