(* ===== verification/Spec2Isabelle.thy ===== *)
theory Spec2Isabelle
  imports Varint Frame Packet Spaces Recovery Pmtud Source_Limit Session Tls_Record Tls_Hello Auth Traffic Data_Record
    Record_Nonces Replay_Safety Replay_Guards Command_Chunk Transport_Params Pq_Agreement
begin

text \<open>
  ParallaX is a tunnel that hides inside a browser's TLS 1.3 and HTTP/3 traffic. A client authenticates itself inside
  the ClientHello, both ends derive session keys, and the tunnelled bytes travel as padded AEAD records inside TLS
  application data; a second plane carries the same records over a QUIC stack of its own. This development models the
  deterministic parts of that program, from the sources under \<open>src/src\<close>, and proves what makes them correct. Paths
  below are relative to \<open>src/src\<close>.

  \<^bold>\<open>Conventions.\<close> \<open>Prelude\<close> has the machine types (\<open>u8\<close> to \<open>u64\<close> are words, \<open>usize\<close> is \<open>nat\<close> with the 64-bit bound
  written out where the code checks it), \<open>Result\<close> as a sum with the error on the left (\<open>and_then\<close> is the \<open>?\<close>
  operator), bounds-checked slices and the big-endian codecs; \<open>Utf8\<close> and \<open>Rust_Text\<close> have the text functions of the
  standard library the code uses. A panic is an extra error value or \<open>None\<close>, and a theorem shows it is not reached.
  State is passed explicitly; a record or a \<open>datatype\<close> mirrors each struct and enum; a clock reading is an argument.
  Code of other crates is a parameter with its documented behaviour as a named hypothesis: the AEAD (\<open>aead_correct\<close>),
  HKDF (\<open>hkdf_correct\<close>), HMAC (\<open>hmac_correct\<close>), X25519 (\<open>x25519_agrees\<close>), ML-KEM (\<open>kem_correct\<close>), SHA-256 and the
  random generator (\<open>rng_correct\<close>); every property that has such a hypothesis has a witness with a concrete instance. The
  signature of the server identity is a parameter as well (\<open>signature_correct\<close>: an honest signature has the fixed size
  and verifies).

  \<^bold>\<open>QUIC plane\<close> (\<open>transport/udp/quic\<close>).
  \<^item> \<open>Varint\<close> (\<open>varint.rs\<close>), \<open>Frame\<close> (\<open>frame.rs\<close>) and \<open>Packet\<close> (\<open>packet.rs\<close>): the codecs. Encoded frames and headers
    decode to what was encoded, decoders never panic or read outside the buffer, packet numbers survive truncation, and
    the location of the packet number does not depend on bits under header protection.
  \<^item> \<open>Replay_Filter\<close> and \<open>Spaces\<close> (\<open>spaces.rs\<close>): packet-number spaces. A number is accepted at most once, ACK frames
    name received packets only, and numbers are never reused for sending.
  \<^item> \<open>Recovery\<close> (\<open>recovery.rs\<close>): every sent packet is acknowledged, lost or outstanding, never two of these; the bytes
    in flight are the sum over outstanding packets; the round-trip estimator stays within its samples.
  \<^item> \<open>Pmtud\<close> (\<open>pmtud.rs\<close>): the MTU search ends within its bounds.
  \<^item> \<open>Transport_Params\<close> (\<open>transport_params.rs\<close>): an accepted blob has values in the ranges of RFC 9000, and what an
    endpoint advertises is what its peer reads.

  \<^bold>\<open>Session and records\<close> (\<open>crypto/session.rs\<close>, \<open>tls\<close>, \<open>protocol/data.rs\<close>, \<open>traffic.rs\<close>).
  \<^item> \<open>Session\<close>: key schedule and record cipher. Both sides derive the same keys or meet the same error, and every key and
    nonce of an epoch or of a stream is expanded under an HKDF info of its own.
  \<^item> \<open>Tls_Record\<close> (\<open>tls/record.rs\<close>) and \<open>Tls_Hello\<close> (\<open>tls/client_hello.rs\<close>, \<open>tls/server_hello.rs\<close>): the resumable
    record reader refines a split of the whole byte stream for every schedule of short reads; the hello parsers are safe.
  \<^item> \<open>Traffic\<close>: padding is removed exactly, delays stay in their ranges.
  \<^item> \<open>Data_Record\<close>: sealing in chunks and in parallel opens to the payload; parallel opening equals serial opening.
  \<^item> \<open>Record_Nonces\<close>: runs of all sealing operations and rekeys of \<open>Data_Record\<close>. The bytes written are frames of cipher
    calls, and no two calls share a key and a nonce.

  \<^bold>\<open>Admission and replay\<close> (\<open>crypto/auth.rs\<close>, \<open>crypto/replay.rs\<close>, \<open>crypto/quic_marker.rs\<close>,
  \<open>handshake/source_limit.rs\<close>, \<open>transport/udp/marker_replay.rs\<close>, \<open>transport/udp/zero_rtt.rs\<close>).
  \<^item> \<open>Auth\<close>: a ClientHello built by the client is recognised by the server with its timestamp and key, and the server
    authenticates a record exactly when its session id is what the client's builder makes.
  \<^item> \<open>Replay_Journal\<close>, \<open>Replay_Cache\<close>, \<open>Replay_Safety\<close>: the replay cache and its authenticated journal, with every
    file-system fault and crash; an accepted handshake is never accepted again, and the journal always loads.
  \<^item> \<open>Replay_Guards\<close>: QUIC markers and 0-RTT tickets are accepted once.
  \<^item> \<open>Source_Limit\<close>: the per-source and global caps hold in every run.

  \<^bold>\<open>Post-quantum handshake\<close> (\<open>crypto/pq.rs\<close>, \<open>crypto/identity.rs\<close>, \<open>handshake\<close>, \<open>client/runtime.rs\<close>).
  \<^item> \<open>Pq_Rekey\<close>: the hybrid key combiner, the transcript hash and the signed identity message. Both branches of the
    combiner agree, and the hashed and signed inputs determine their parts.
  \<^item> \<open>Client_Session\<close> (\<open>handshake/client.rs\<close>): every operation of the client's data session; a CONNECT request reaches
    the server and is shaped. \<open>Record_Stream\<close> has the lemmas on streams of sealed records this rests on.
  \<^item> \<open>Pq_Handshake\<close>: the server's loop before data mode (\<open>run_authenticated_data_mode\<close>) as a step function over events of
    both sockets, and the client's receive path. \<open>Pq_Agreement\<close> composes both: in any interleaving of camouflage and
    rekey records both ends reach the same keys and the identity is accepted, provided the camouflage the client still
    receives consists of whole records.

  \<^bold>\<open>Control commands\<close> (\<open>protocol/command.rs\<close>). \<open>Command\<close> has the codecs, under the contract \<open>canonical_codec\<close>;
  \<open>Command_Chunk\<close> has record-size shaping, chunk splitting and reassembly. Decoders accept exactly the encodings of
  well-formed values (the UDP offer up to its flag byte) and no input is accepted by two of them; splitting ends and
  reassembles.

  \<^bold>\<open>Contracts.\<close> \<open>replay_filter\<close> (a window of received numbers), \<open>record_sealer\<close> (the sealing paths of a record codec),
  \<open>frame_codec\<close> and \<open>canonical_codec\<close> (a command codec) are locales, each interpreted on the model's own definitions.

  \<^bold>\<open>Bounds.\<close> There is no fuel in the model: loops are structural or have a termination proof, and the two loops whose
  progress depends on the random generator are partial functions with a theorem that they return.

  \<^bold>\<open>Not modelled.\<close> Asynchronous drivers over sockets and timers (\<open>client/runtime.rs\<close> except the receive path of
  the key exchange and the identity proof, \<open>handshake/server.rs\<close> except the loop up to the end of the identity flight,
  \<open>transport/tcp.rs\<close>, \<open>transport/leg.rs\<close>, the UDP drivers and the QUIC endpoint), system calls (process hardening, secret store, offload), configuration parsing, command line and
  measurements, floating-point congestion control and pacing, the visible TLS handshakes of the camouflage, HTTP
  fingerprints and the ML-DSA signature.
\<close>

end
